(* ===== verification/Prelude.thy ===== *)
theory Prelude
  imports Main "HOL-Library.Word"
begin

unbundle bit_operations_syntax

text \<open>
  Shared vocabulary of the development: the machine types of the runtime, the rounding macro
  \<open>CEILING\<close> of smlsharp.h, and the facts about words, lists and intervals that more than one
  component uses.  The collections below are the interface between the theories:
  \<^item> \<open>layout_simps\<close> unfolds the numeric constants of the heap layout;
  \<^item> \<open>obj_simps\<close> unfolds the object header macros;
  \<^item> \<open>mem_simps\<close> unfolds reads and writes of the segment memory.
\<close>

named_theorems layout_simps \<open>constants of the heap layout\<close>
named_theorems obj_simps \<open>macros of the object header\<close>
named_theorems mem_simps \<open>reads and writes of segment memory\<close>

type_synonym u8 = "8 word"
type_synonym u16 = "16 word"
type_synonym u32 = "32 word"
type_synonym u64 = "64 word"

section \<open>Rounding up\<close>

definition CEILING :: "nat \<Rightarrow> nat \<Rightarrow> nat" where
  "CEILING x y = (x + y - 1) - (x + y - 1) mod y"

lemma CEILING_dvd [simp]: "y dvd CEILING x y"
  by (simp add: CEILING_def minus_mod_eq_mult_div)

lemma CEILING_ge:
  assumes "0 < y"
  shows "x \<le> CEILING x y"
proof -
  have "(x + y - 1) mod y \<le> y - 1"
    using assms by (metis Suc_pred' less_Suc_eq_le mod_less_divisor)
  then show ?thesis
    using assms by (simp add: CEILING_def)
qed

lemma CEILING_less: "0 < y \<Longrightarrow> CEILING x y < x + y"
  by (simp add: CEILING_def)

lemma CEILING_id: "0 < y \<Longrightarrow> y dvd x \<Longrightarrow> CEILING x y = x"
proof -
  assume y: "0 < y" and d: "y dvd x"
  obtain k where "x = y * k" using d by blast
  moreover have "(y * k + y - 1) mod y = y - 1"
    using y by (metis Nat.add_diff_assoc One_nat_def Suc_leI diff_less less_one mod_less
        mod_mult_self4 mult.commute)
  ultimately show ?thesis using y by (simp add: CEILING_def)
qed

lemma CEILING_mono: "0 < y \<Longrightarrow> x \<le> x' \<Longrightarrow> CEILING x y \<le> CEILING x' y"
  by (simp add: CEILING_def minus_mod_eq_mult_div div_le_mono)

section \<open>Lists and searches\<close>

lemma takeWhile_length_upt:
  assumes "a \<le> j" "j < b" "\<And>i. a \<le> i \<Longrightarrow> i < j \<Longrightarrow> P i" "\<not> P j"
  shows "length (takeWhile P [a..<b]) = j - a"
proof -
  have "[a..<b] = [a..<j] @ j # [Suc j..<b]"
    using assms(1,2) by (metis le_less_trans less_imp_le_nat upt_add_eq_append upt_conv_Cons le_Suc_ex)
  moreover have "\<forall>i \<in> set [a..<j]. P i" using assms(3) by simp
  ultimately show ?thesis using assms(4) by (simp add: takeWhile_append)
qed

lemma find_append:
  "find P (xs @ ys) = (case find P xs of None \<Rightarrow> find P ys | Some x \<Rightarrow> Some x)"
  by (induction xs) simp_all

text \<open>Positions in the 32-bit words of a bitmap.\<close>

lemma same_word: "i div 32 = q \<longleftrightarrow> 32 * q \<le> i \<and> i < 32 * (q + 1)" for i q :: nat
  by (auto intro: div_nat_eqI simp: mult.commute)

section \<open>Words\<close>

lemma word_eqI32: "(\<And>n. n < 32 \<Longrightarrow> bit (x :: u32) n = bit y n) \<Longrightarrow> x = y"
  by (rule bit_word_eqI) simp

lemma word_nonzero_bit: "(x :: u32) \<noteq> 0 \<longleftrightarrow> (\<exists>n<32. bit x n)"
proof -
  have "x = 0 \<longleftrightarrow> (\<forall>n<32. \<not> bit x n)"
    by (auto intro!: word_eqI32)
  then show ?thesis by blast
qed

lemma word_ones_bit: "(x :: u32) = - 1 \<longleftrightarrow> (\<forall>n<32. bit x n)"
  by (auto intro!: word_eqI32)

lemma bit_pow2_iff: "bit (2 ^ k :: u32) n \<longleftrightarrow> n = k \<and> k < 32"
  by (auto simp: bit_exp_iff)

lemma and_pow2_nonzero: "k < 32 \<Longrightarrow> (w :: u32) AND 2 ^ k \<noteq> 0 \<longleftrightarrow> bit w k"
  by (auto simp: word_nonzero_bit bit_and_iff bit_pow2_iff)

text \<open>The lowest zero bit of a word, first on integers, then at width 32.\<close>

lemma int_lowest_zero:
  "(\<forall>i<j. bit x i) \<Longrightarrow> \<not> bit x j \<Longrightarrow> (x + 1) AND NOT x = (2 ^ j :: int)"
proof (induction j arbitrary: x)
  case 0
  then have "even x" by (simp add: bit_0)
  then obtain h where "x = 2 * h" by blast
  show ?case
  proof (rule bit_eqI)
    fix n
    show "bit ((x + 1) AND NOT x) n = bit (2 ^ 0 :: int) n"
      unfolding bit_and_iff bit_not_iff using \<open>x = 2 * h\<close>
      by (cases n) (auto simp: bit_0 bit_Suc)
  qed
next
  case (Suc j)
  from Suc.prems(1) have "bit x 0" by blast
  then have "odd x" by (simp add: bit_0)
  then obtain h where x: "x = 2 * h + 1" by (rule oddE)
  have "(\<forall>i<j. bit h i)" and "\<not> bit h j"
    using Suc.prems by (auto simp: x bit_Suc)
  then have "(h + 1) AND NOT h = 2 ^ j" by (rule Suc.IH)
  moreover have "(x + 1) AND NOT x = 2 * ((h + 1) AND NOT h)"
  proof -
    have succ: "x + 1 = 2 * (h + 1)" and neg: "NOT x = 2 * NOT h"
      by (simp_all add: x not_int_def)
    have dbl: "2 * a AND 2 * b = 2 * (a AND b)" for a b :: int
      by (rule bit_eqI) (auto simp: bit_and_iff bit_double_iff)
    show ?thesis by (simp only: succ neg dbl)
  qed
  ultimately show ?case by simp
qed

lemma word_lowest_zero:
  fixes x :: u32
  assumes "j < 32" and "\<And>i. i < j \<Longrightarrow> bit x i" and "\<not> bit x j"
  shows "(x + 1) AND NOT x = 2 ^ j"
proof -
  have "(uint x + 1) AND NOT (uint x) = 2 ^ j"
    using assms by (intro int_lowest_zero) (auto simp: bit_uint_iff)
  then have "word_of_int ((uint x + 1) AND NOT (uint x)) = (word_of_int (2 ^ j) :: u32)"
    by simp
  then show ?thesis
    by (simp flip: word_and_def add: of_int_and_eq of_int_not_eq)
qed

section \<open>Invariants of step relations\<close>

locale invariant_system =
  fixes step :: "'s \<Rightarrow> 's \<Rightarrow> bool" and inv :: "'s \<Rightarrow> bool"
  assumes keeps: "inv s \<Longrightarrow> step s t \<Longrightarrow> inv t"
begin

lemma steps_keep: "step\<^sup>*\<^sup>* s t \<Longrightarrow> inv s \<Longrightarrow> inv t"
  by (induction rule: rtranclp_induct) (auto intro: keeps)

end

section \<open>Pointers\<close>

text \<open>The comparison of addresses that finalize.c and callback.c both define.\<close>

definition voidp_cmp :: "nat \<Rightarrow> nat \<Rightarrow> int" where
  "voidp_cmp m n = (if m < n then -1 else if n < m then 1 else 0)"

lemma voidp_cmp_simps [simp]:
  "voidp_cmp m n < 0 \<longleftrightarrow> m < n" "0 < voidp_cmp m n \<longleftrightarrow> n < m" "voidp_cmp m n = 0 \<longleftrightarrow> m = n"
  by (auto simp: voidp_cmp_def)

end
