(* ===== verification/SegList.thy ===== *)
theory SegList
  imports Prelude "HOL-Library.Monad_Syntax"
begin

text \<open>
  Segment lists and segment stacks of src/smlsharp/src/runtime/heap_concurrent.c, at the level of
  pointers: \<open>struct segment_list\<close> and the \<open>LIST_\<close> macros, \<open>segment_list_pop\<close>, \<open>segment_push_list\<close>,
  \<open>segment_push\<close>, \<open>segment_pop\<close>.  The \<open>next\<close> fields are a map from segment numbers; a list under
  construction keeps the address of the field that ends it, which is its own \<open>head\<close> or the \<open>next\<close>
  field of its last segment.  The last \<open>next\<close> field of such a list holds garbage until the list is
  finished.  The lemmas relate these operations to HOL lists, which the other theories use.
\<close>

type_synonym links = "nat \<Rightarrow> nat option"

datatype link = AtHead | NextOf nat

record segment_list =
  sl_head :: "nat option"
  sl_last :: link

definition read_link :: "links \<Rightarrow> segment_list \<Rightarrow> link \<Rightarrow> nat option" where
  "read_link nxt l k = (case k of AtHead \<Rightarrow> sl_head l | NextOf s \<Rightarrow> nxt s)"

definition write_link :: "links \<Rightarrow> segment_list \<Rightarrow> link \<Rightarrow> nat option \<Rightarrow> links \<times> segment_list" where
  "write_link nxt l k v =
     (case k of AtHead \<Rightarrow> (nxt, l\<lparr>sl_head := v\<rparr>) | NextOf s \<Rightarrow> (nxt(s := v), l))"

definition LIST_INIT :: segment_list where
  "LIST_INIT = \<lparr>sl_head = None, sl_last = AtHead\<rparr>"

definition LIST_APPEND :: "links \<Rightarrow> segment_list \<Rightarrow> nat \<Rightarrow> links \<times> segment_list" where
  "LIST_APPEND nxt l item =
     (case write_link nxt l (sl_last l) (Some item) of (nxt', l') \<Rightarrow> (nxt', l'\<lparr>sl_last := NextOf item\<rparr>))"

definition LIST_FINISH :: "links \<Rightarrow> segment_list \<Rightarrow> nat option \<Rightarrow> links \<times> nat option" where
  "LIST_FINISH nxt l item =
     (case write_link nxt l (sl_last l) item of (nxt', l') \<Rightarrow> (nxt', sl_head l'))"

text \<open>The loop of \<open>LIST_INIT_WITH\<close>: it does not end on a cyclic list.\<close>

partial_function (option) find_last :: "links \<Rightarrow> segment_list \<Rightarrow> link \<Rightarrow> link option" where
  "find_last nxt l k =
     (case read_link nxt l k of None \<Rightarrow> Some k | Some s \<Rightarrow> find_last nxt l (NextOf s))"

declare find_last.simps [code]

definition LIST_INIT_WITH :: "links \<Rightarrow> nat option \<Rightarrow> segment_list option" where
  "LIST_INIT_WITH nxt items =
     (let l = \<lparr>sl_head = items, sl_last = AtHead\<rparr>
      in find_last nxt l AtHead \<bind> (\<lambda>k. Some (l\<lparr>sl_last := k\<rparr>)))"

definition LIST_CONCAT :: "links \<Rightarrow> segment_list \<Rightarrow> segment_list \<Rightarrow> links \<times> segment_list" where
  "LIST_CONCAT nxt l1 l2 =
     (if sl_head l2 \<noteq> None then
        (case write_link nxt l1 (sl_last l1) (sl_head l2) of
           (nxt', l1') \<Rightarrow> (nxt', l1'\<lparr>sl_last := sl_last l2\<rparr>))
      else (nxt, l1))"

definition segment_list_pop :: "links \<Rightarrow> segment_list \<Rightarrow> nat option \<times> segment_list" where
  "segment_list_pop nxt l =
     (if sl_last l = AtHead then (None, l)
      else let seg = the (sl_head l) in
        (Some seg,
         if sl_last l = NextOf seg then \<lparr>sl_head = None, sl_last = AtHead\<rparr>
         else l\<lparr>sl_head := nxt seg\<rparr>))"

text \<open>
  The stacks are updated by compare-and-swap loops.  As in the bitmap's test-and-set, the first
  argument lists what the loop finds in the stack at its successive attempts when other threads
  interfere; \<open>old\<close> is what it loaded before.
\<close>

fun segment_push_loop :: "nat option list \<Rightarrow> nat option \<Rightarrow> links \<Rightarrow> nat \<Rightarrow> links \<times> nat option" where
  "segment_push_loop [] old nxt item = (nxt(item := old), Some item)"
| "segment_push_loop (cur # rest) old nxt item =
     (if cur = old then (nxt(item := old), Some item)
      else segment_push_loop rest cur (nxt(item := old)) item)"

definition segment_push :: "links \<Rightarrow> nat option \<Rightarrow> nat \<Rightarrow> links \<times> nat option" where
  "segment_push nxt stack item = segment_push_loop [] stack nxt item"

definition segment_push_list :: "links \<Rightarrow> nat option \<Rightarrow> segment_list \<Rightarrow> links \<times> nat option" where
  "segment_push_list nxt stack l =
     (if sl_head l = None then (nxt, stack)
      else case write_link nxt l (sl_last l) stack of (nxt', l') \<Rightarrow> (nxt', sl_head l'))"

fun segment_pop_loop :: "(nat option \<times> links) list \<Rightarrow> nat option \<Rightarrow> links \<Rightarrow> nat option \<times> nat option" where
  "segment_pop_loop [] old nxt =
     (case old of None \<Rightarrow> (None, None) | Some s \<Rightarrow> (Some s, nxt s))"
| "segment_pop_loop ((cur, nxt') # rest) old nxt =
     (case old of
        None \<Rightarrow> (None, cur)
      | Some s \<Rightarrow> if cur = old then (Some s, nxt s) else segment_pop_loop rest cur nxt')"

definition segment_pop :: "links \<Rightarrow> nat option \<Rightarrow> nat option \<times> nat option" where
  "segment_pop nxt stack = segment_pop_loop [] stack nxt"

section \<open>Chains\<close>

fun chain :: "links \<Rightarrow> nat option \<Rightarrow> nat list \<Rightarrow> nat option \<Rightarrow> bool" where
  "chain nxt p [] q \<longleftrightarrow> p = q"
| "chain nxt p (x # xs) q \<longleftrightarrow> p = Some x \<and> chain nxt (nxt x) xs q"

text \<open>A list under construction: the last segment's \<open>next\<close> field is not read.\<close>

definition represents :: "links \<Rightarrow> segment_list \<Rightarrow> nat list \<Rightarrow> bool" where
  "represents nxt l xs \<longleftrightarrow> distinct xs
     \<and> (if xs = [] then l = LIST_INIT
        else sl_last l = NextOf (last xs) \<and> chain nxt (sl_head l) (butlast xs) (Some (last xs)))"

lemma chain_append:
  "chain nxt p (xs @ ys) q \<longleftrightarrow> (\<exists>r. chain nxt p xs r \<and> chain nxt r ys q)"
  by (induction xs arbitrary: p) auto

lemma chain_upd [simp]: "x \<notin> set xs \<Longrightarrow> chain (nxt(x := v)) p xs q = chain nxt p xs q"
  by (induction xs arbitrary: p) auto

lemma chain_head: "chain nxt p xs q \<Longrightarrow> p = (case xs of [] \<Rightarrow> q | x # _ \<Rightarrow> Some x)"
  by (cases xs) auto

lemma represents_empty [simp]: "represents nxt l [] \<longleftrightarrow> l = LIST_INIT"
  by (simp add: represents_def)

lemma represents_snoc:
  "represents nxt l (xs @ [x]) \<longleftrightarrow>
     distinct (xs @ [x]) \<and> sl_last l = NextOf x \<and> chain nxt (sl_head l) xs (Some x)"
  by (simp add: represents_def)

lemma represents_head:
  "represents nxt l xs \<Longrightarrow> sl_head l = (case xs of [] \<Rightarrow> None | x # _ \<Rightarrow> Some x)"
proof (cases xs rule: rev_cases)
  case (snoc ys y)
  assume "represents nxt l xs"
  then have "chain nxt (sl_head l) ys (Some y)" by (simp add: snoc represents_snoc)
  from chain_head[OF this] show ?thesis by (cases ys) (simp_all add: snoc)
qed (simp add: LIST_INIT_def)

text \<open>Writing through \<open>last\<close> ends the list with the written pointer.\<close>

lemma write_last:
  assumes "represents nxt l xs" "write_link nxt l (sl_last l) v = (nxt', l')"
  shows "chain nxt' (sl_head l') xs v" "sl_last l' = sl_last l" "\<And>y. y \<notin> set xs \<Longrightarrow> nxt' y = nxt y"
proof -
  have "chain nxt' (sl_head l') xs v \<and> sl_last l' = sl_last l \<and> (\<forall>y. y \<notin> set xs \<longrightarrow> nxt' y = nxt y)"
  proof (cases xs rule: rev_cases)
    case Nil
    then show ?thesis using assms by (auto simp: write_link_def LIST_INIT_def)
  next
    case (snoc ys y)
    then show ?thesis using assms
      by (auto simp: write_link_def represents_snoc chain_append)
  qed
  then show "chain nxt' (sl_head l') xs v" "sl_last l' = sl_last l"
    "\<And>y. y \<notin> set xs \<Longrightarrow> nxt' y = nxt y" by auto
qed

lemma LIST_APPEND_represents:
  assumes "represents nxt l xs" "x \<notin> set xs" "LIST_APPEND nxt l x = (nxt', l')"
  shows "represents nxt' l' (xs @ [x])" "\<And>y. y \<notin> set xs \<Longrightarrow> nxt' y = nxt y"
proof -
  obtain n k where w: "write_link nxt l (sl_last l) (Some x) = (n, k)" by fastforce
  note wl = write_last[OF assms(1) w]
  have eq: "nxt' = n" "l' = k\<lparr>sl_last := NextOf x\<rparr>" using assms(3) w by (auto simp: LIST_APPEND_def)
  show "represents nxt' l' (xs @ [x])"
    using wl(1) assms(1,2) by (simp add: eq represents_snoc) (simp add: represents_def)
  show "\<And>y. y \<notin> set xs \<Longrightarrow> nxt' y = nxt y" using wl(3) by (simp add: eq)
qed

lemma LIST_FINISH_chain:
  assumes "represents nxt l xs" "chain nxt p ys None" "set xs \<inter> set ys = {}"
    "LIST_FINISH nxt l p = (nxt', r)"
  shows "chain nxt' r (xs @ ys) None"
proof -
  obtain n k where w: "write_link nxt l (sl_last l) p = (n, k)" by fastforce
  note wl = write_last[OF assms(1) w]
  have eq: "nxt' = n" "r = sl_head k" using assms(4) w by (auto simp: LIST_FINISH_def)
  have "chain n p ys None"
  proof -
    have "\<And>y. y \<in> set ys \<Longrightarrow> n y = nxt y" using wl(3) assms(3) by blast
    then have "chain n q ys None = chain nxt q ys None" for q
      by (induction ys arbitrary: q) auto
    then show ?thesis using assms(2) by simp
  qed
  then show ?thesis using wl(1) by (auto simp: eq chain_append)
qed

lemma LIST_FINISH_other:
  "represents nxt l xs \<Longrightarrow> LIST_FINISH nxt l p = (nxt', r) \<Longrightarrow> y \<notin> set xs \<Longrightarrow> nxt' y = nxt y"
  using write_last(3) by (fastforce simp: LIST_FINISH_def split: prod.splits)

lemma find_last_chain:
  "chain nxt (read_link nxt l k) xs None \<Longrightarrow>
     find_last nxt l k = Some (if xs = [] then k else NextOf (last xs))"
proof (induction xs arbitrary: k)
  case Nil
  then show ?case by (subst find_last.simps) simp
next
  case (Cons x xs)
  then have "chain nxt (read_link nxt l (NextOf x)) xs None" by (simp add: read_link_def)
  from Cons.IH[OF this] Cons.prems show ?case by (subst find_last.simps) simp
qed

lemma LIST_INIT_WITH_represents:
  assumes "chain nxt p xs None" "distinct xs"
  shows "\<exists>l. LIST_INIT_WITH nxt p = Some l \<and> represents nxt l xs"
proof -
  let ?l = "\<lparr>sl_head = p, sl_last = AtHead\<rparr>"
  have "find_last nxt ?l AtHead = Some (if xs = [] then AtHead else NextOf (last xs))"
    by (rule find_last_chain) (simp add: read_link_def assms(1))
  moreover have "represents nxt (?l\<lparr>sl_last := if xs = [] then AtHead else NextOf (last xs)\<rparr>) xs"
  proof (cases xs rule: rev_cases)
    case Nil
    then show ?thesis using assms(1) by (simp add: LIST_INIT_def)
  next
    case (snoc ys y)
    then show ?thesis using assms by (auto simp: represents_snoc chain_append)
  qed
  ultimately show ?thesis by (simp add: LIST_INIT_WITH_def Let_def)
qed

lemma LIST_CONCAT_represents:
  assumes "represents nxt l1 xs" "represents nxt l2 ys" "set xs \<inter> set ys = {}"
    "LIST_CONCAT nxt l1 l2 = (nxt', l')"
  shows "represents nxt' l' (xs @ ys)"
proof (cases ys rule: rev_cases)
  case Nil
  then show ?thesis using assms by (simp add: LIST_CONCAT_def LIST_INIT_def)
next
  case (snoc zs z)
  have h: "sl_head l2 \<noteq> None" using represents_head[OF assms(2)] snoc by (cases zs) simp_all
  obtain n k where w: "write_link nxt l1 (sl_last l1) (sl_head l2) = (n, k)" by fastforce
  note wl = write_last[OF assms(1) w]
  have eq: "nxt' = n" "l' = k\<lparr>sl_last := sl_last l2\<rparr>"
    using assms(4) w h by (auto simp: LIST_CONCAT_def)
  have y: "sl_last l2 = NextOf z" "chain nxt (sl_head l2) zs (Some z)" "distinct ys"
    using assms(2) by (simp_all add: snoc represents_snoc)
  have "chain n q zs r = chain nxt q zs r" for q r
  proof -
    have "\<And>y. y \<in> set zs \<Longrightarrow> n y = nxt y" using wl(3) assms(3) snoc by auto
    then show ?thesis by (induction zs arbitrary: q) auto
  qed
  moreover have "distinct xs" using assms(1) by (simp add: represents_def)
  ultimately have "represents n (k\<lparr>sl_last := NextOf z\<rparr>) ((xs @ zs) @ [z])"
    using wl(1) y assms(3) snoc by (subst represents_snoc) (auto simp: chain_append)
  then show ?thesis by (simp add: eq y(1) snoc)
qed

lemma segment_list_pop_represents:
  assumes "represents nxt l xs"
  shows "case xs of [] \<Rightarrow> segment_list_pop nxt l = (None, l)
    | x # xs' \<Rightarrow> \<exists>l'. segment_list_pop nxt l = (Some x, l') \<and> represents nxt l' xs'"
proof (cases xs)
  case Nil
  then show ?thesis using assms by (simp add: segment_list_pop_def LIST_INIT_def)
next
  case (Cons x xs')
  have h: "sl_head l = Some x" using represents_head[OF assms] Cons by simp
  have d: "distinct (x # xs')" using assms Cons by (simp add: represents_def)
  show ?thesis
  proof (cases xs' rule: rev_cases)
    case Nil
    then have "sl_last l = NextOf x" using assms Cons by (simp add: represents_def)
    then show ?thesis using Cons Nil h by (simp add: segment_list_pop_def LIST_INIT_def)
  next
    case (snoc ys y)
    have "represents nxt l ((x # ys) @ [y])" using assms Cons snoc by simp
    then have r: "sl_last l = NextOf y" "chain nxt (nxt x) ys (Some y)"
      unfolding represents_snoc by simp_all
    have "represents nxt (l\<lparr>sl_head := nxt x\<rparr>) xs'"
      using r d snoc by (simp add: represents_snoc)
    moreover have "y \<noteq> x" using d snoc by auto
    ultimately show ?thesis using Cons h r(1) by (simp add: segment_list_pop_def)
  qed
qed

text \<open>The stacks: a push makes the item the first of the chain found at the successful attempt.\<close>

lemma segment_push_loop_effect:
  assumes "segment_push_loop cs old nxt item = (nxt', stk)"
  shows "stk = Some item" "nxt' item \<in> set (old # cs)" "\<And>y. y \<noteq> item \<Longrightarrow> nxt' y = nxt y"
    "chain nxt (nxt' item) xs None \<Longrightarrow> item \<notin> set xs \<Longrightarrow> chain nxt' stk (item # xs) None"
proof -
  have "\<exists>v \<in> set (old # cs). stk = Some item \<and> nxt' = nxt(item := v)"
    using assms
  proof (induction cs arbitrary: old nxt)
    case (Cons c cs)
    show ?case
    proof (cases "c = old")
      case False
      then have "segment_push_loop cs c (nxt(item := old)) item = (nxt', stk)" using Cons.prems by simp
      then obtain v where "v \<in> set (c # cs)" "stk = Some item" "nxt' = nxt(item := old, item := v)"
        using Cons.IH by blast
      then show ?thesis by (intro bexI[of _ v]) (simp_all only: fun_upd_upd, auto)
    qed (use Cons.prems in auto)
  qed auto
  then obtain v where v: "v \<in> set (old # cs)" "stk = Some item" "nxt' = nxt(item := v)" by blast
  then show "stk = Some item" "nxt' item \<in> set (old # cs)" "\<And>y. y \<noteq> item \<Longrightarrow> nxt' y = nxt y"
    by auto
  show "chain nxt' stk (item # xs) None" if "chain nxt (nxt' item) xs None" "item \<notin> set xs"
    using v that by simp
qed

lemma segment_push_list_chain:
  assumes "represents nxt l xs" "chain nxt stack ys None" "set xs \<inter> set ys = {}"
    "segment_push_list nxt stack l = (nxt', stk)"
  shows "chain nxt' stk (xs @ ys) None"
proof (cases "xs = []")
  case True
  then show ?thesis using assms by (simp add: segment_push_list_def LIST_INIT_def)
next
  case False
  then have "sl_head l \<noteq> None" using represents_head[OF assms(1)] by (cases xs) simp_all
  then have "LIST_FINISH nxt l stack = (nxt', stk)"
    using assms(4) unfolding segment_push_list_def LIST_FINISH_def by (simp only: if_False)
  from LIST_FINISH_chain[OF assms(1-3) this] show ?thesis .
qed

lemma segment_pop_chain:
  "chain nxt stack xs None \<Longrightarrow> segment_pop nxt stack =
     (case xs of [] \<Rightarrow> (None, None) | x # _ \<Rightarrow> (Some x, nxt x))"
  by (cases xs) (simp_all add: segment_pop_def)

section \<open>Properties\<close>

text \<open>C26.  A segment list is a first-in first-out queue, although the \<open>next\<close> field of its last segment
  is never cleared.  For a list that holds \<open>xs\<close>: \<open>LIST_APPEND\<close> adds a segment at the end;
  \<open>segment_list_pop\<close> takes the first segment, or reports that there is none and leaves the empty list;
  \<open>LIST_FINISH\<close> with the head of a null-terminated list \<open>ys\<close> gives the null-terminated list \<open>xs @ ys\<close>;
  and none of them writes a \<open>next\<close> field of a segment outside the list.\<close>

theorem segment_list_queue:
  assumes "represents nxt l xs" "x \<notin> set xs" "chain nxt r ys None" "set xs \<inter> set ys = {}"
  shows "(case LIST_APPEND nxt l x of (nxt', l') \<Rightarrow>
       represents nxt' l' (xs @ [x]) \<and> (\<forall>y. y \<notin> set xs \<longrightarrow> nxt' y = nxt y))
     \<and> (case segment_list_pop nxt l of (seg, l') \<Rightarrow>
          seg = (if xs = [] then None else Some (hd xs)) \<and> represents nxt l' (tl xs))
     \<and> (case LIST_FINISH nxt l r of (nxt', p) \<Rightarrow>
          chain nxt' p (xs @ ys) None \<and> (\<forall>y. y \<notin> set xs \<longrightarrow> nxt' y = nxt y))"
proof (intro conjI)
  show "case LIST_APPEND nxt l x of (nxt', l') \<Rightarrow>
      represents nxt' l' (xs @ [x]) \<and> (\<forall>y. y \<notin> set xs \<longrightarrow> nxt' y = nxt y)"
    using LIST_APPEND_represents[OF assms(1,2)] by blast
  show "case segment_list_pop nxt l of (seg, l') \<Rightarrow>
      seg = (if xs = [] then None else Some (hd xs)) \<and> represents nxt l' (tl xs)"
    using segment_list_pop_represents[OF assms(1)] assms(1) by (cases xs) auto
  show "case LIST_FINISH nxt l r of (nxt', p) \<Rightarrow>
      chain nxt' p (xs @ ys) None \<and> (\<forall>y. y \<notin> set xs \<longrightarrow> nxt' y = nxt y)"
    using LIST_FINISH_chain[OF assms(1,3,4)] LIST_FINISH_other[OF assms(1)] by blast
qed

text \<open>The list of the segments 3 and 4, whose last \<open>next\<close> field is garbage, and the null-terminated
  list of segment 5.\<close>

definition sample_links :: links where
  "sample_links s = (if s = 3 then Some 4 else if s = 5 then None else Some 7)"

theorem segment_list_queue_witness:
  "fst (segment_list_pop sample_links \<lparr>sl_head = Some 3, sl_last = NextOf 4\<rparr>) = Some 3
   \<and> (case LIST_FINISH sample_links \<lparr>sl_head = Some 3, sl_last = NextOf 4\<rparr> (Some 5) of (nxt, p) \<Rightarrow>
        chain nxt p [3, 4, 5] None)"
proof -
  have "represents sample_links \<lparr>sl_head = Some 3, sl_last = NextOf 4\<rparr> [3, 4]"
    by (simp add: represents_def sample_links_def)
  from segment_list_queue[OF this, of 9 "Some 5" "[5]"] show ?thesis
    by (auto simp: sample_links_def split_beta)
qed

text \<open>\<open>LIST_INIT_WITH\<close> on a null-terminated list terminates, and with \<open>LIST_CONCAT\<close> and
  \<open>LIST_FINISH\<close> it splices lists the way \<open>sml_heap_worker_kill\<close> does: the result is the
  null-terminated concatenation of the three lists, with no segment lost.\<close>

theorem list_splice:
  assumes "chain nxt p xs None" "chain nxt q ys None" "chain nxt r zs None" "distinct (xs @ ys @ zs)"
  shows "\<exists>l1 l2. LIST_INIT_WITH nxt p = Some l1 \<and> LIST_INIT_WITH nxt q = Some l2
     \<and> (case LIST_CONCAT nxt l1 l2 of (nxt1, l) \<Rightarrow>
          case LIST_FINISH nxt1 l r of (nxt2, head) \<Rightarrow> chain nxt2 head (xs @ ys @ zs) None)"
proof -
  obtain l1 l2 where l: "LIST_INIT_WITH nxt p = Some l1" "represents nxt l1 xs"
      "LIST_INIT_WITH nxt q = Some l2" "represents nxt l2 ys"
    using LIST_INIT_WITH_represents assms by (metis distinct_append)
  obtain nxt1 l3 where c: "LIST_CONCAT nxt l1 l2 = (nxt1, l3)" by fastforce
  have r3: "represents nxt1 l3 (xs @ ys)"
    by (rule LIST_CONCAT_represents[OF l(2,4) _ c]) (use assms(4) in auto)
  have same: "nxt1 y = nxt y" if "y \<notin> set xs" for y
  proof (cases "sl_head l2 = None")
    case True
    then show ?thesis using c by (simp add: LIST_CONCAT_def)
  next
    case False
    then obtain k where w: "write_link nxt l1 (sl_last l1) (sl_head l2) = (nxt1, k)"
      using c by (auto simp: LIST_CONCAT_def split: prod.splits)
    show ?thesis by (rule write_last(3)[OF l(2) w that])
  qed
  have "chain nxt1 t zs None = chain nxt t zs None" for t
  proof -
    have "\<And>y. y \<in> set zs \<Longrightarrow> nxt1 y = nxt y" using same assms(4) by auto
    then show ?thesis by (induction zs arbitrary: t) auto
  qed
  then have rz: "chain nxt1 r zs None" using assms(3) by simp
  obtain nxt2 h where f: "LIST_FINISH nxt1 l3 r = (nxt2, h)" by fastforce
  have "chain nxt2 h ((xs @ ys) @ zs) None"
    by (rule LIST_FINISH_chain[OF r3 rz _ f]) (use assms(4) in auto)
  then show ?thesis using l(1,3) by (simp add: c f)
qed

theorem list_splice_witness:
  "\<exists>l1 l2. LIST_INIT_WITH (\<lambda>s. if s = 1 then Some 2 else None) (Some 1) = Some l1
     \<and> LIST_INIT_WITH (\<lambda>s. if s = 1 then Some 2 else None) (Some 3) = Some l2"
  using list_splice[of "\<lambda>s. if s = 1 then Some 2 else None" "Some 1" "[1, 2]" "Some 3" "[3]" None "[]"]
  by auto

end
