(* ===== verification/Splay.thy ===== *)
theory Splay
  imports Prelude "HOL-Library.Multiset"
begin

text \<open>
  Splay trees (splay.c).

  A tree of C nodes is a value of \<open>stree\<close>: each node has an address (chunk number and offset) and an
  item.  The two arrays of holes of a top-down splay are lists of frames, the frame linked last
  first: a left frame is a node whose right child is the hole, a right frame one whose left child
  is.  \<open>sml_tree\<close> is the tree header: comparison function, node size, root, chunks and free list.  The
  locale \<open>item_order\<close> is the contract of the comparison function, \<open>item_store\<close> that of the tree
  for its clients.  \<open>sml_tree_compact\<close> is not modelled: nothing calls it.
\<close>

section \<open>Trees and frames\<close>

type_synonym node_addr = "nat \<times> nat"

datatype 'a stree = Tip | Bin "'a stree" node_addr 'a "'a stree"

type_synonym 'a left_frames = "('a stree \<times> node_addr \<times> 'a) list"
type_synonym 'a right_frames = "(node_addr \<times> 'a \<times> 'a stree) list"

fun inorder :: "'a stree \<Rightarrow> (node_addr \<times> 'a) list" where
  "inorder Tip = []"
| "inorder (Bin l a x r) = inorder l @ (a, x) # inorder r"

fun plug_left :: "'a left_frames \<Rightarrow> 'a stree \<Rightarrow> 'a stree" where
  "plug_left [] t = t"
| "plug_left ((l, a, x) # L) t = plug_left L (Bin l a x t)"

fun plug_right :: "'a right_frames \<Rightarrow> 'a stree \<Rightarrow> 'a stree" where
  "plug_right [] t = t"
| "plug_right ((a, x, r) # R) t = plug_right R (Bin t a x r)"

text \<open>The loop of \<open>splay\<close>: the comparison result with the last node, that node, and the frames.\<close>

fun splay :: "('a \<Rightarrow> 'a \<Rightarrow> int) \<Rightarrow> 'a \<Rightarrow> 'a stree \<Rightarrow> 'a left_frames \<Rightarrow> 'a right_frames
    \<Rightarrow> int \<times> 'a stree \<times> 'a left_frames \<times> 'a right_frames" where
  "splay cmp item Tip L R = (0, Tip, L, R)"
| "splay cmp item (Bin l a x r) L R =
     (let n = cmp item x in
      if n = 0 then (n, Bin l a x r, L, R)
      else if n < 0 then
        (case l of
           Tip \<Rightarrow> (n, Bin l a x r, L, R)
         | Bin ll b y lr \<Rightarrow>
             (let n = cmp item y in
              if n < 0 then
                (case ll of
                   Tip \<Rightarrow> (n, Bin ll b y (Bin lr a x r), L, R)
                 | Bin _ _ _ _ \<Rightarrow> splay cmp item ll L ((b, y, Bin lr a x r) # R))
              else splay cmp item l L ((a, x, r) # R)))
      else
        (case r of
           Tip \<Rightarrow> (n, Bin l a x r, L, R)
         | Bin rl b y rr \<Rightarrow>
             (let n = cmp item y in
              if 0 < n then
                (case rr of
                   Tip \<Rightarrow> (n, Bin (Bin l a x rl) b y rr, L, R)
                 | Bin _ _ _ _ \<Rightarrow> splay cmp item rr ((Bin l a x rl, b, y) # L) R)
              else splay cmp item r ((l, a, x) # L) R)))"

fun assemble :: "'a stree \<Rightarrow> 'a left_frames \<Rightarrow> 'a right_frames \<Rightarrow> 'a stree" where
  "assemble Tip L R = Tip"
| "assemble (Bin l a x r) L R = Bin (plug_left L l) a x (plug_right R r)"

section \<open>Node memory\<close>

record chunk =
  ch_id :: nat
  ch_free :: nat

definition CHUNK_SIZE :: nat where "CHUNK_SIZE = 4080"
definition CHUNK_REST :: "chunk \<Rightarrow> nat" where "CHUNK_REST c = CHUNK_SIZE - ch_free c"

text \<open>The chunks, newest first; a new chunk has the next number.\<close>

definition chunk_alloc :: "chunk list \<Rightarrow> nat \<Rightarrow> node_addr \<times> chunk list" where
  "chunk_alloc chunks len =
     (let chunks = (case chunks of
                      [] \<Rightarrow> [\<lparr>ch_id = 0, ch_free = 0\<rparr>]
                    | c # _ \<Rightarrow> if CHUNK_REST c < len then \<lparr>ch_id = length chunks, ch_free = 0\<rparr> # chunks else chunks);
          c = hd chunks
      in ((ch_id c, ch_free c), c\<lparr>ch_free := ch_free c + len\<rparr> # tl chunks))"

definition NODE_OFFSET :: "nat \<Rightarrow> nat" where "NODE_OFFSET item_size = CEILING item_size 8"
definition NODE_SIZE :: "nat \<Rightarrow> nat" where "NODE_SIZE item_size = NODE_OFFSET item_size + 24"
definition SIZEOF_NODE :: "nat \<Rightarrow> nat" where "SIZEOF_NODE item_size = CEILING (NODE_SIZE item_size) item_size"

record 'a sml_tree =
  t_cmp :: "'a \<Rightarrow> 'a \<Rightarrow> int"
  t_alloc_size :: nat
  t_root :: "'a stree"
  t_chunk :: "chunk list"
  t_freelist :: "node_addr list"

definition sml_tree_new :: "('a \<Rightarrow> 'a \<Rightarrow> int) \<Rightarrow> nat \<Rightarrow> 'a sml_tree" where
  "sml_tree_new cmp item_size =
     \<lparr>t_cmp = cmp, t_alloc_size = SIZEOF_NODE item_size, t_root = Tip, t_chunk = [], t_freelist = []\<rparr>"

definition node_alloc :: "'a sml_tree \<Rightarrow> node_addr \<times> 'a sml_tree" where
  "node_alloc tree =
     (case t_freelist tree of
        a # fl \<Rightarrow> (a, tree\<lparr>t_freelist := fl\<rparr>)
      | [] \<Rightarrow> (case chunk_alloc (t_chunk tree) (t_alloc_size tree) of
                 (a, ch) \<Rightarrow> (a, tree\<lparr>t_chunk := ch\<rparr>)))"

definition node_reclaim :: "'a sml_tree \<Rightarrow> node_addr \<Rightarrow> 'a sml_tree" where
  "node_reclaim tree a = tree\<lparr>t_freelist := a # t_freelist tree\<rparr>"

section \<open>Operations\<close>

text \<open>The node at the root: the item an operation returns.\<close>

fun root_item :: "'a stree \<Rightarrow> (node_addr \<times> 'a) option" where
  "root_item Tip = None"
| "root_item (Bin l a x r) = Some (a, x)"

definition sml_tree_find :: "'a sml_tree \<Rightarrow> 'a \<Rightarrow> (node_addr \<times> 'a) option \<times> 'a sml_tree" where
  "sml_tree_find tree item =
     (if t_root tree = Tip then (None, tree)
      else case splay (t_cmp tree) item (t_root tree) [] [] of
        (n, root, L, R) \<Rightarrow>
          (if n = 0 then root_item root else None, tree\<lparr>t_root := assemble root L R\<rparr>))"

text \<open>A new node over the tree \<open>root\<close>, whose side depends on the comparison.\<close>

definition new_root :: "int \<Rightarrow> node_addr \<Rightarrow> 'a \<Rightarrow> 'a stree \<Rightarrow> 'a stree" where
  "new_root n a item root = (if n < 0 then Bin Tip a item root else Bin root a item Tip)"

fun set_root_item :: "'a stree \<Rightarrow> 'a \<Rightarrow> 'a stree" where
  "set_root_item Tip item = Tip"
| "set_root_item (Bin l a x r) item = Bin l a item r"

definition splay_root :: "('a \<Rightarrow> 'a \<Rightarrow> int) \<Rightarrow> 'a \<Rightarrow> 'a stree \<Rightarrow> int \<times> 'a stree \<times> 'a left_frames \<times> 'a right_frames" where
  "splay_root cmp item root = (if root = Tip then (1, Tip, [], []) else splay cmp item root [] [])"

definition sml_tree_insert :: "'a sml_tree \<Rightarrow> 'a \<Rightarrow> (node_addr \<times> 'a) option \<times> 'a sml_tree" where
  "sml_tree_insert tree item =
     (case splay_root (t_cmp tree) item (t_root tree) of
        (n, root, L, R) \<Rightarrow>
          (let (root, tree) = (if n \<noteq> 0
                 then (case node_alloc tree of (a, tree) \<Rightarrow> (new_root n a item root, tree))
                 else (root, tree));
               root = set_root_item (assemble root L R) item
           in (root_item root, tree\<lparr>t_root := root\<rparr>)))"

definition insert_node :: "'a sml_tree \<Rightarrow> node_addr \<times> 'a \<Rightarrow> int \<times> 'a sml_tree" where
  "insert_node tree node =
     (case splay_root (t_cmp tree) (snd node) (t_root tree) of
        (n, root, L, R) \<Rightarrow>
          (let root = (if n \<noteq> 0 then new_root n (fst node) (snd node) root else root)
           in (n, tree\<lparr>t_root := assemble root L R\<rparr>)))"

fun join :: "('a \<Rightarrow> 'a \<Rightarrow> int) \<Rightarrow> 'a stree \<Rightarrow> 'a stree" where
  "join cmp Tip = Tip"
| "join cmp (Bin l a x r) =
     (if l = Tip then r
      else case splay cmp x l [] [] of
             (n, Tip, L, R) \<Rightarrow> Tip
           | (n, Bin ll b y lr, L, R) \<Rightarrow> assemble (Bin ll b y r) L R)"

definition sml_tree_delete :: "'a sml_tree \<Rightarrow> 'a \<Rightarrow> (node_addr \<times> 'a) option \<times> 'a sml_tree" where
  "sml_tree_delete tree item =
     (if t_root tree = Tip then (None, tree)
      else case splay (t_cmp tree) item (t_root tree) [] [] of
        (n, root, L, R) \<Rightarrow>
          (if n \<noteq> 0 then (None, tree\<lparr>t_root := assemble root L R\<rparr>)
           else
             (let newroot = join (t_cmp tree) root;
                  newroot = (if newroot \<noteq> Tip then assemble newroot L R
                             else join (t_cmp tree) (assemble root L R));
                  found = root_item root;
                  tree = node_reclaim tree (fst (the found))
              in (found, tree\<lparr>t_root := newroot\<rparr>))))"

text \<open>The loop of \<open>sml_tree_each\<close>: the chain of back pointers is the list of the nodes to return to.\<close>

function each_loop :: "'a stree \<Rightarrow> (node_addr \<times> 'a \<times> 'a stree) list \<Rightarrow> ('a \<Rightarrow> 's \<Rightarrow> 's) \<Rightarrow> 's \<Rightarrow> 's" where
  "each_loop Tip [] visit s = s"
| "each_loop Tip ((a, x, r) # prev) visit s = each_loop r prev visit (visit x s)"
| "each_loop (Bin l a x r) prev visit s = each_loop l ((a, x, r) # prev) visit s"
  by pat_completeness auto
termination
  by (relation "measure (\<lambda>(t, prev, _, _). 2 * size t + sum_list (map (\<lambda>(_, _, r). 2 * size r + 1) prev))") auto

definition sml_tree_each :: "'a sml_tree \<Rightarrow> ('a \<Rightarrow> 's \<Rightarrow> 's) \<Rightarrow> 's \<Rightarrow> 's" where
  "sml_tree_each tree visit s = each_loop (t_root tree) [] visit s"

text \<open>\<open>sml_tree_rebuild\<close> inserts the nodes in postorder into the empty tree and reclaims duplicates.\<close>

fun postorder :: "'a stree \<Rightarrow> (node_addr \<times> 'a) list" where
  "postorder Tip = []"
| "postorder (Bin l a x r) = postorder l @ postorder r @ [(a, x)]"

definition rebuild_node :: "node_addr \<times> 'a \<Rightarrow> 'a sml_tree \<Rightarrow> 'a sml_tree" where
  "rebuild_node node tree =
     (case insert_node tree node of
        (n, tree) \<Rightarrow> if n = 0 then node_reclaim tree (fst node) else tree)"

definition sml_tree_rebuild :: "'a sml_tree \<Rightarrow> 'a sml_tree" where
  "sml_tree_rebuild tree = fold rebuild_node (postorder (t_root tree)) (tree\<lparr>t_root := Tip\<rparr>)"

section \<open>The in-order list\<close>

fun flat_left :: "'a left_frames \<Rightarrow> (node_addr \<times> 'a) list" where
  "flat_left [] = []"
| "flat_left ((l, a, x) # L) = flat_left L @ inorder l @ [(a, x)]"

fun flat_right :: "'a right_frames \<Rightarrow> (node_addr \<times> 'a) list" where
  "flat_right [] = []"
| "flat_right ((a, x, r) # R) = (a, x) # inorder r @ flat_right R"

lemma inorder_plug [simp]:
  "inorder (plug_left L t) = flat_left L @ inorder t"
  "inorder (plug_right R t) = inorder t @ flat_right R"
proof -
  show "inorder (plug_left L t) = flat_left L @ inorder t" by (induction L t rule: plug_left.induct) simp_all
  show "inorder (plug_right R t) = inorder t @ flat_right R" by (induction R t rule: plug_right.induct) simp_all
qed

lemma inorder_assemble [simp]: "t \<noteq> Tip \<Longrightarrow> inorder (assemble t L R) = flat_left L @ inorder t @ flat_right R"
  by (cases t) simp_all

lemma inorder_Tip [simp]: "inorder t = [] \<longleftrightarrow> t = Tip"
  by (cases t) simp_all

text \<open>Splaying rearranges: the in-order list stays, and the last node is the one compared last.\<close>

lemma splay_inorder:
  assumes "t \<noteq> Tip" "splay cmp item t L R = (n, t', L', R')"
  shows "flat_left L' @ inorder t' @ flat_right R' = flat_left L @ inorder t @ flat_right R
    \<and> (\<exists>l a x r. t' = Bin l a x r \<and> n = cmp item x \<and> (n < 0 \<longrightarrow> l = Tip) \<and> (0 < n \<longrightarrow> r = Tip))"
  using assms
proof (induction cmp item t L R arbitrary: n t' L' R' rule: splay.induct)
  case (2 cmp item l a x r L R)
  consider (E) "cmp item x = 0" | (L) "cmp item x < 0" | (R) "0 < cmp item x" by linarith
  then show ?case
  proof cases
    case E then show ?thesis using 2(6) by auto
  next
    case L
    show ?thesis
    proof (cases l)
      case Tip then show ?thesis using 2(6) L by auto
    next
      case (Bin ll b y lr)
      show ?thesis
      proof (cases "cmp item y < 0")
        case True
        show ?thesis
        proof (cases ll)
          case Tip then show ?thesis using 2(6) L Bin True by auto
        next
          case B: (Bin u1 u2 u3 u4)
          have "splay cmp item ll L ((b, y, Bin lr a x r) # R) = (n, t', L', R')"
            using 2(6) L Bin True B by simp
          then show ?thesis using 2(1)[OF refl _ L Bin refl True B] L B Bin by auto
        qed
      next
        case False
        have "splay cmp item l L ((a, x, r) # R) = (n, t', L', R')" using 2(6) L Bin False by simp
        then show ?thesis using 2(2)[OF refl _ L Bin refl False] L Bin by auto
      qed
    qed
  next
    case R
    show ?thesis
    proof (cases r)
      case Tip then show ?thesis using 2(6) R by auto
    next
      case (Bin rl b y rr)
      show ?thesis
      proof (cases "0 < cmp item y")
        case True
        show ?thesis
        proof (cases rr)
          case Tip then show ?thesis using 2(6) R Bin True by auto
        next
          case B: (Bin u1 u2 u3 u4)
          have "splay cmp item rr ((Bin l a x rl, b, y) # L) R = (n, t', L', R')"
            using 2(6) R Bin True B by simp
          then show ?thesis using 2(3)[OF refl _ _ Bin refl True B] R B Bin by auto
        qed
      next
        case False
        have "splay cmp item r ((l, a, x) # L) R = (n, t', L', R')" using 2(6) R Bin False by simp
        then show ?thesis using 2(4)[OF refl _ _ Bin refl False] R Bin by auto
      qed
    qed
  qed
qed simp

definition items :: "'a stree \<Rightarrow> 'a list" where "items t = map snd (inorder t)"

definition bst :: "('a \<Rightarrow> 'a \<Rightarrow> int) \<Rightarrow> 'a stree \<Rightarrow> bool" where
  "bst cmp t \<longleftrightarrow> sorted_wrt (\<lambda>x y. cmp x y < 0) (items t)"

lemma items_simps [simp]: "items Tip = []" "items (Bin l a x r) = items l @ x # items r"
  by (simp_all add: items_def)

section \<open>The contract of the comparison\<close>

locale item_order =
  fixes cmp :: "'a \<Rightarrow> 'a \<Rightarrow> int"
  assumes cmp_swap: "cmp x y < 0 \<longleftrightarrow> 0 < cmp y x"
    and cmp_trans: "cmp x y < 0 \<Longrightarrow> cmp y z < 0 \<Longrightarrow> cmp x z < 0"
    and cmp_equal: "cmp x y = 0 \<Longrightarrow> cmp x z < 0 \<longleftrightarrow> cmp y z < 0"
begin

lemma cmp_refl [simp]: "cmp x x = 0"
  using cmp_swap[of x x] by linarith

lemma cmp_zero_sym: "cmp x y = 0 \<longleftrightarrow> cmp y x = 0"
  using cmp_swap[of x y] cmp_swap[of y x] by linarith

lemma cmp_equal_right1: "cmp x y = 0 \<Longrightarrow> cmp z x < 0 \<Longrightarrow> cmp z y < 0"
  using cmp_equal[of x y z] cmp_equal[of z y x] cmp_swap[of z x] cmp_swap[of y z] cmp_zero_sym[of x y]
  by linarith

lemma cmp_equal_right: "cmp x y = 0 \<Longrightarrow> cmp z x < 0 \<longleftrightarrow> cmp z y < 0"
  using cmp_equal_right1[of x y z] cmp_equal_right1[of y x z] cmp_zero_sym[of x y] by blast

lemma cmp_zero_right: "cmp y z = 0 \<Longrightarrow> cmp x y = 0 \<longleftrightarrow> cmp x z = 0"
  using cmp_equal_right[of y z x] cmp_equal[of y z x] cmp_swap[of y x] cmp_swap[of z x] by linarith

lemma cmp_trans_le: "cmp x y \<le> 0 \<Longrightarrow> cmp y z < 0 \<Longrightarrow> cmp x z < 0"
  using cmp_trans[of x y z] cmp_equal[of x y z] by linarith

lemma cmp_trans_gt: "0 < cmp x y \<Longrightarrow> 0 < cmp y z \<Longrightarrow> 0 < cmp x z"
  using cmp_trans[of z y x] cmp_swap[of z y] cmp_swap[of y x] cmp_swap[of z x] by blast

end

text \<open>What is linked to the left is smaller than the item, what is linked to the right is larger.\<close>

lemma bst_Bin: "bst cmp (Bin l a x r) \<longleftrightarrow> bst cmp l \<and> bst cmp r \<and> (\<forall>y \<in> set (items l). cmp y x < 0)
    \<and> (\<forall>y \<in> set (items r). cmp x y < 0) \<and> (\<forall>y \<in> set (items l). \<forall>z \<in> set (items r). cmp y z < 0)"
  by (auto simp: bst_def sorted_wrt_append)

lemma items_set: "x \<in> set (items t) \<longleftrightarrow> (\<exists>a. (a, x) \<in> set (inorder t))"
  by (force simp: items_def)

definition on_sides :: "('a \<Rightarrow> 'a \<Rightarrow> int) \<Rightarrow> 'a \<Rightarrow> 'a left_frames \<Rightarrow> 'a right_frames \<Rightarrow> bool" where
  "on_sides cmp item L R \<longleftrightarrow> (\<forall>e \<in> snd ` set (flat_left L). 0 < cmp item e)
     \<and> (\<forall>e \<in> snd ` set (flat_right R). cmp item e < 0)"

lemma snd_inorder: "snd ` set (inorder t) = set (items t)"
  by (simp add: items_def)

context item_order
begin

lemma on_sides_left:
  assumes "on_sides cmp item L R" "0 < cmp item x" "\<forall>y \<in> set (items l). cmp y x < 0"
  shows "on_sides cmp item ((l, a, x) # L) R"
proof -
  have "0 < cmp item y" if "y \<in> set (items l)" for y
    using cmp_trans_gt[OF assms(2)] assms(3) that cmp_swap by blast
  then show ?thesis using assms(1,2) by (auto simp: on_sides_def image_Un snd_inorder)
qed

lemma on_sides_right:
  assumes "on_sides cmp item L R" "cmp item x < 0" "\<forall>y \<in> set (items r). cmp x y < 0"
  shows "on_sides cmp item L ((a, x, r) # R)"
proof -
  have "cmp item y < 0" if "y \<in> set (items r)" for y
    using cmp_trans[OF assms(2)] assms(3) that by blast
  then show ?thesis using assms(1,2) by (auto simp: on_sides_def image_Un snd_inorder)
qed

end

lemma splay_sides:
  assumes "splay cmp item t L R = (n, t', L', R')" "item_order cmp" "bst cmp t" "on_sides cmp item L R"
  shows "on_sides cmp item L' R'"
  using assms
proof (induction cmp item t L R arbitrary: n t' L' R' rule: splay.induct)
  case (2 cmp item l a x r L R)
  note left = item_order.on_sides_left[OF 2(6)] and right = item_order.on_sides_right[OF 2(6)]
  note run = 2(5)
  have b: "bst cmp l" "bst cmp r" "\<forall>y \<in> set (items l). cmp y x < 0" "\<forall>y \<in> set (items r). cmp x y < 0"
    using 2(7) by (simp_all add: bst_Bin)
  consider (E) "cmp item x = 0" | (L) "cmp item x < 0" | (R) "0 < cmp item x" by linarith
  then show ?case
  proof cases
    case E then show ?thesis using run 2(8) by auto
  next
    case L
    show ?thesis
    proof (cases l)
      case Tip then show ?thesis using run 2(8) L by auto
    next
      case (Bin ll c y lr)
      have bl: "bst cmp ll" "\<forall>z \<in> set (items lr). cmp y z < 0" "cmp y x < 0"
        using b(1,3) by (auto simp: Bin bst_Bin)
      show ?thesis
      proof (cases "cmp item y < 0")
        case True
        have sd: "on_sides cmp item L ((c, y, Bin lr a x r) # R)"
          by (rule right[OF 2(8) True])
            (use bl b item_order.cmp_trans[OF 2(6) bl(3)] in \<open>auto simp: Bin\<close>)
        show ?thesis
        proof (cases ll)
          case Tip then show ?thesis using run 2(8) L Bin True by auto
        next
          case B: (Bin u1 u2 u3 u4)
          have "splay cmp item ll L ((c, y, Bin lr a x r) # R) = (n, t', L', R')"
            using run L Bin True B by simp
          from 2(1)[OF refl _ L Bin refl True B this 2(6) bl(1) sd] L show ?thesis by simp
        qed
      next
        case False
        have "splay cmp item l L ((a, x, r) # R) = (n, t', L', R')" using run L Bin False by simp
        from 2(2)[OF refl _ L Bin refl False this 2(6) b(1) right[OF 2(8) L b(4)]] L show ?thesis by simp
      qed
    qed
  next
    case R
    show ?thesis
    proof (cases r)
      case Tip then show ?thesis using run 2(8) R by auto
    next
      case (Bin rl c y rr)
      have br: "bst cmp rr" "\<forall>z \<in> set (items rl). cmp z y < 0" "cmp x y < 0"
        using b(2,4) by (auto simp: Bin bst_Bin)
      show ?thesis
      proof (cases "0 < cmp item y")
        case True
        have sd: "on_sides cmp item ((Bin l a x rl, c, y) # L) R"
          by (rule left[OF 2(8) True])
            (use br b item_order.cmp_trans[OF 2(6) _ br(3)] in \<open>auto simp: Bin\<close>)
        show ?thesis
        proof (cases rr)
          case Tip then show ?thesis using run 2(8) R Bin True by auto
        next
          case B: (Bin u1 u2 u3 u4)
          have "splay cmp item rr ((Bin l a x rl, c, y) # L) R = (n, t', L', R')"
            using run R Bin True B by simp
          from 2(3)[OF refl _ _ Bin refl True B this 2(6) br(1) sd] R show ?thesis by simp
        qed
      next
        case False
        have "splay cmp item r ((l, a, x) # L) R = (n, t', L', R')" using run R Bin False by simp
        from 2(4)[OF refl _ _ Bin refl False this 2(6) b(2) left[OF 2(8) R b(3)]] R show ?thesis by simp
      qed
    qed
  qed
qed simp

text \<open>The result of a splay from scratch, with everything an operation needs.\<close>

lemma splay_result:
  assumes "item_order cmp" "bst cmp t" "t \<noteq> Tip" "splay cmp item t [] [] = (n, t', L', R')"
  obtains l a x r where "t' = Bin l a x r" "n = cmp item x" "n < 0 \<longrightarrow> l = Tip" "0 < n \<longrightarrow> r = Tip"
    "inorder t = flat_left L' @ inorder l @ (a, x) # inorder r @ flat_right R'" "on_sides cmp item L' R'"
proof -
  have i: "flat_left L' @ inorder t' @ flat_right R' = inorder t"
      "\<exists>l a x r. t' = Bin l a x r \<and> n = cmp item x \<and> (n < 0 \<longrightarrow> l = Tip) \<and> (0 < n \<longrightarrow> r = Tip)"
    using splay_inorder[OF assms(3,4)] by auto
  have "on_sides cmp item L' R'"
    by (rule splay_sides[OF assms(4,1,2)]) (simp add: on_sides_def)
  then show ?thesis using i that by fastforce
qed


section \<open>Operations on the in-order list\<close>

definition smaller :: "('a \<Rightarrow> 'a \<Rightarrow> int) \<Rightarrow> 'a \<Rightarrow> (node_addr \<times> 'a) list \<Rightarrow> (node_addr \<times> 'a) list" where
  "smaller cmp item xs = filter (\<lambda>e. 0 < cmp item (snd e)) xs"

definition larger :: "('a \<Rightarrow> 'a \<Rightarrow> int) \<Rightarrow> 'a \<Rightarrow> (node_addr \<times> 'a) list \<Rightarrow> (node_addr \<times> 'a) list" where
  "larger cmp item xs = filter (\<lambda>e. cmp item (snd e) < 0) xs"

definition same_item :: "('a \<Rightarrow> 'a \<Rightarrow> int) \<Rightarrow> 'a \<Rightarrow> (node_addr \<times> 'a) list \<Rightarrow> (node_addr \<times> 'a) option" where
  "same_item cmp item xs = find (\<lambda>e. cmp item (snd e) = 0) xs"

lemmas list_ops = smaller_def larger_def same_item_def

lemma three_parts:
  assumes "xs = P @ E @ Q" "\<forall>e \<in> set P. 0 < cmp item (snd e)" "\<forall>e \<in> set E. cmp item (snd e) = 0"
    and "\<forall>e \<in> set Q. cmp item (snd e) < 0"
  shows "smaller cmp item xs = P" "larger cmp item xs = Q"
    "same_item cmp item xs = (case E of [] \<Rightarrow> None | e # _ \<Rightarrow> Some e)"
proof -
  have f: "find (\<lambda>e. cmp item (snd e) = 0) P = None" "find (\<lambda>e. cmp item (snd e) = 0) Q = None"
    using assms(2,4) by (auto simp: find_None_iff)
  show "smaller cmp item xs = P" "larger cmp item xs = Q"
    using assms by (auto simp: list_ops filter_empty_conv filter_id_conv)
  show "same_item cmp item xs = (case E of [] \<Rightarrow> None | e # _ \<Rightarrow> Some e)"
    using assms(3) f by (cases E) (auto simp: same_item_def assms(1) find_append)
qed

text \<open>What a splay finds, in terms of the list.\<close>

lemma splay_parts:
  assumes "item_order cmp" "bst cmp t" "t \<noteq> Tip" "splay cmp item t [] [] = (n, t', L, R)"
  shows "\<exists>l a x r. t' = Bin l a x r
    \<and> (n = 0 \<longrightarrow> same_item cmp item (inorder t) = Some (a, x)
          \<and> smaller cmp item (inorder t) = flat_left L @ inorder l
          \<and> larger cmp item (inorder t) = inorder r @ flat_right R)
    \<and> (n < 0 \<longrightarrow> same_item cmp item (inorder t) = None \<and> l = Tip
          \<and> smaller cmp item (inorder t) = flat_left L
          \<and> larger cmp item (inorder t) = (a, x) # inorder r @ flat_right R)
    \<and> (0 < n \<longrightarrow> same_item cmp item (inorder t) = None \<and> r = Tip
          \<and> smaller cmp item (inorder t) = flat_left L @ inorder l @ [(a, x)]
          \<and> larger cmp item (inorder t) = flat_right R)
    \<and> inorder t = flat_left L @ inorder l @ (a, x) # inorder r @ flat_right R"
proof -
  obtain l a x r where S: "t' = Bin l a x r" "n = cmp item x" "n < 0 \<longrightarrow> l = Tip" "0 < n \<longrightarrow> r = Tip"
    "inorder t = flat_left L @ inorder l @ (a, x) # inorder r @ flat_right R" "on_sides cmp item L R"
    using splay_result[OF assms] by blast
  have sides: "\<forall>e \<in> set (flat_left L). 0 < cmp item (snd e)" "\<forall>e \<in> set (flat_right R). cmp item (snd e) < 0"
    using S(6) by (auto simp: on_sides_def)
  have srt: "\<forall>e \<in> set (inorder l). cmp (snd e) x < 0" "\<forall>e \<in> set (inorder r). cmp x (snd e) < 0"
    using assms(2) by (auto simp: bst_def items_def S(5) sorted_wrt_append)
  have left: "\<forall>e \<in> set (inorder l). 0 < cmp item (snd e)" if "0 \<le> n"
  proof
    fix e assume "e \<in> set (inorder l)"
    then have "cmp (snd e) x < 0" using srt(1) by blast
    then have "cmp (snd e) item < 0"
      using that S(2) item_order.cmp_trans[OF assms(1)] item_order.cmp_equal_right[OF assms(1)]
        item_order.cmp_zero_sym[OF assms(1)] item_order.cmp_swap[OF assms(1)] by (metis order_le_less)
    then show "0 < cmp item (snd e)" using item_order.cmp_swap[OF assms(1)] by blast
  qed
  have right: "\<forall>e \<in> set (inorder r). cmp item (snd e) < 0" if "n \<le> 0"
    using srt(2) that S(2) item_order.cmp_trans_le[OF assms(1)] by blast
  consider "n = 0" | "n < 0" | "0 < n" by linarith
  then show ?thesis
  proof cases
    case 1
    have "inorder t = (flat_left L @ inorder l) @ [(a, x)] @ (inorder r @ flat_right R)" by (simp add: S(5))
    from three_parts[OF this, of cmp item] 1 S sides left right show ?thesis by auto
  next
    case 2
    have "inorder t = flat_left L @ [] @ ((a, x) # inorder r @ flat_right R)" using S(3) 2 by (simp add: S(5))
    from three_parts[OF this, of cmp item] 2 S sides right show ?thesis by auto
  next
    case 3
    have "inorder t = (flat_left L @ inorder l @ [(a, x)]) @ [] @ flat_right R" using S(4) 3 by (simp add: S(5))
    from three_parts[OF this, of cmp item] 3 S sides left show ?thesis by auto
  qed
qed

lemma join_result:
  assumes "item_order cmp" "bst cmp (Bin l a x r)" and False: "l \<noteq> Tip"
  shows "\<exists>jl b y. join cmp (Bin l a x r) = Bin jl b y r \<and> inorder l = inorder jl @ [(b, y)]"
proof -
  obtain n t' L R where s: "splay cmp x l [] [] = (n, t', L, R)" by (metis prod_cases4)
  have bl: "bst cmp l" "\<forall>y \<in> set (items l). cmp y x < 0" using assms(2) by (simp_all add: bst_Bin)
  have above: "\<forall>e \<in> set (inorder l). 0 < cmp x (snd e)"
  proof
    fix e assume "e \<in> set (inorder l)"
    then have "cmp (snd e) x < 0" using bl(2) by (force simp: items_def)
    then show "0 < cmp x (snd e)" using item_order.cmp_swap[OF assms(1)] by blast
  qed
  obtain ll b y lr where S: "t' = Bin ll b y lr" "n = cmp x y" "n < 0 \<longrightarrow> ll = Tip" "0 < n \<longrightarrow> lr = Tip"
    "inorder l = flat_left L @ inorder ll @ (b, y) # inorder lr @ flat_right R" "on_sides cmp x L R"
    by (rule splay_result[OF assms(1) bl(1) False s])
  have "(b, y) \<in> set (inorder l)" by (simp add: S(5))
  then have "0 < n" using bspec[OF above] S(2) by fastforce
  then have lr: "lr = Tip" using S(4) by blast
  have "flat_right R = []"
  proof (rule ccontr)
    assume "flat_right R \<noteq> []"
    then obtain e where e: "e \<in> set (flat_right R)" by (cases "flat_right R") auto
    then have "cmp x (snd e) < 0" using S(6) by (auto simp: on_sides_def)
    moreover have "e \<in> set (inorder l)" using e by (simp add: S(5))
    ultimately have "cmp x (snd e) < 0" "0 < cmp x (snd e)" using bspec[OF above] by blast+
    then show False by linarith
  qed
  then have "R = []" by (cases R rule: flat_right.cases) simp_all
  then show ?thesis using False s S(1,5) lr by simp
qed

lemma join_inorder:
  assumes "item_order cmp" "bst cmp (Bin l a x r)"
  shows "inorder (join cmp (Bin l a x r)) = inorder l @ inorder r"
proof (cases "l = Tip")
  case False
  then show ?thesis using join_result[OF assms False] by force
qed simp

section \<open>The invariant of a tree\<close>

definition chunks_ok :: "nat \<Rightarrow> chunk list \<Rightarrow> bool" where
  "chunks_ok len chunks \<longleftrightarrow> map ch_id chunks = rev [0..<length chunks]
     \<and> (\<forall>c \<in> set chunks. len dvd ch_free c \<and> ch_free c \<le> CHUNK_SIZE)"

definition node_ok :: "nat \<Rightarrow> chunk list \<Rightarrow> node_addr \<Rightarrow> bool" where
  "node_ok len chunks a \<longleftrightarrow> len dvd snd a \<and> (\<exists>c \<in> set chunks. ch_id c = fst a \<and> snd a + len \<le> ch_free c)"

definition node_addrs :: "'a sml_tree \<Rightarrow> node_addr list" where
  "node_addrs tree = map fst (inorder (t_root tree)) @ t_freelist tree"

definition memory_ok :: "'a sml_tree \<Rightarrow> bool" where
  "memory_ok tree \<longleftrightarrow> 0 < t_alloc_size tree \<and> t_alloc_size tree \<le> CHUNK_SIZE
     \<and> chunks_ok (t_alloc_size tree) (t_chunk tree) \<and> distinct (node_addrs tree)
     \<and> (\<forall>a \<in> set (node_addrs tree). node_ok (t_alloc_size tree) (t_chunk tree) a)"

definition tree_inv :: "'a sml_tree \<Rightarrow> bool" where
  "tree_inv tree \<longleftrightarrow> item_order (t_cmp tree) \<and> bst (t_cmp tree) (t_root tree) \<and> memory_ok tree"

lemma chunk_ids: "chunks_ok len chunks \<Longrightarrow> c \<in> set chunks \<Longrightarrow> ch_id c < length chunks"
proof -
  assume "chunks_ok len chunks" "c \<in> set chunks"
  then have "ch_id c \<in> set (rev [0..<length chunks])" by (metis chunks_ok_def image_eqI list.set_map)
  then show ?thesis by simp
qed

lemma chunk_alloc_fresh:
  assumes ok: "chunks_ok len chunks" and len: "0 < len" "len \<le> CHUNK_SIZE"
    and run: "chunk_alloc chunks len = (a, chunks')"
  shows "chunks_ok len chunks'" "node_ok len chunks' a" "\<not> node_ok len chunks a"
    and "\<And>b. node_ok len chunks b \<Longrightarrow> node_ok len chunks' b"
proof -
  define new where "new = (chunks = [] \<or> CHUNK_REST (hd chunks) < len)"
  consider (new) "new" "a = (length chunks, 0)" "chunks' = \<lparr>ch_id = length chunks, ch_free = len\<rparr> # chunks"
    | (old) c cs where "chunks = c # cs" "len \<le> CHUNK_REST c" "a = (ch_id c, ch_free c)"
        "chunks' = c\<lparr>ch_free := ch_free c + len\<rparr> # cs"
    using run by (cases chunks) (auto simp: chunk_alloc_def new_def Let_def split: if_splits)
  then have "chunks_ok len chunks' \<and> node_ok len chunks' a \<and> \<not> node_ok len chunks a
      \<and> (\<forall>b. node_ok len chunks b \<longrightarrow> node_ok len chunks' b)"
  proof cases
    case new
    have "\<not> node_ok len chunks a" using chunk_ids[OF ok] new(2) by (fastforce simp: node_ok_def)
    moreover have "chunks_ok len chunks'" using ok len new(3) by (simp add: chunks_ok_def)
    ultimately show ?thesis using new(2,3) by (auto simp: node_ok_def)
  next
    case old
    have ids: "distinct (map ch_id chunks)" using ok by (simp add: chunks_ok_def)
    have "\<not> node_ok len chunks a"
    proof
      assume "node_ok len chunks a"
      then obtain d where d: "d \<in> set chunks" "ch_id d = ch_id c" "ch_free c + len \<le> ch_free d"
        using old(3) by (auto simp: node_ok_def)
      then have "d = c" using ids old(1) by (auto simp: image_iff)
      then show False using d(3) len(1) by simp
    qed
    moreover have "chunks_ok len chunks'"
      using ok len old by (auto simp: chunks_ok_def CHUNK_REST_def)
    moreover have "node_ok len chunks' b" if "node_ok len chunks b" for b
      using that old(1,4) by (fastforce simp: node_ok_def)
    ultimately show ?thesis using ok old by (auto simp: node_ok_def chunks_ok_def)
  qed
  then show "chunks_ok len chunks'" "node_ok len chunks' a" "\<not> node_ok len chunks a"
    "\<And>b. node_ok len chunks b \<Longrightarrow> node_ok len chunks' b" by blast+
qed

lemma node_alloc_fresh:
  assumes "memory_ok tree" "node_alloc tree = (a, tree')"
  shows "t_cmp tree' = t_cmp tree" "t_root tree' = t_root tree" "t_alloc_size tree' = t_alloc_size tree"
    and "a \<notin> fst ` set (inorder (t_root tree))"
    and "\<lbrakk>distinct (map fst xs); set (map fst xs) \<subseteq> insert a (fst ` set (inorder (t_root tree))); inorder root = xs\<rbrakk>
      \<Longrightarrow> memory_ok (tree'\<lparr>t_root := root\<rparr>)"
proof -
  let ?len = "t_alloc_size tree" and ?xs = "map fst (inorder (t_root tree))"
  have M: "0 < ?len" "?len \<le> CHUNK_SIZE" "chunks_ok ?len (t_chunk tree)" "distinct (?xs @ t_freelist tree)"
    "\<forall>a \<in> set (?xs @ t_freelist tree). node_ok ?len (t_chunk tree) a"
    using assms(1) by (simp_all add: memory_ok_def node_addrs_def)
  have "t_cmp tree' = t_cmp tree \<and> t_root tree' = t_root tree \<and> t_alloc_size tree' = t_alloc_size tree
      \<and> a \<notin> set ?xs \<and> chunks_ok ?len (t_chunk tree') \<and> distinct (t_freelist tree')
      \<and> a \<notin> set (t_freelist tree') \<and> set ?xs \<inter> set (t_freelist tree') = {}
      \<and> (\<forall>b \<in> insert a (set (?xs @ t_freelist tree')). node_ok ?len (t_chunk tree') b)"
  proof (cases "t_freelist tree")
    case Nil
    obtain chunks' where c: "chunk_alloc (t_chunk tree) ?len = (a, chunks')" "tree' = tree\<lparr>t_chunk := chunks'\<rparr>"
      using assms(2) Nil by (auto simp: node_alloc_def split: prod.splits)
    note f = chunk_alloc_fresh[OF M(3,1,2) c(1)]
    show ?thesis using f M Nil by (auto simp: c(2))
  next
    case (Cons b fl)
    then have "a = b" "tree' = tree\<lparr>t_freelist := fl\<rparr>" using assms(2) by (auto simp: node_alloc_def)
    then show ?thesis using M Cons by auto
  qed
  note F = this
  show "t_cmp tree' = t_cmp tree" "t_root tree' = t_root tree" "t_alloc_size tree' = t_alloc_size tree"
    "a \<notin> fst ` set (inorder (t_root tree))"
    using F by simp_all
  assume xs: "distinct (map fst xs)" "set (map fst xs) \<subseteq> insert a (fst ` set (inorder (t_root tree)))" "inorder root = xs"
  have sub: "set (map fst xs) \<subseteq> insert a (set ?xs)" using xs(2) by simp
  have "set (map fst xs) \<inter> set (t_freelist tree') = {}" using sub F by blast
  moreover have "\<forall>b \<in> set (map fst xs) \<union> set (t_freelist tree'). node_ok ?len (t_chunk tree') b"
  proof
    fix b assume "b \<in> set (map fst xs) \<union> set (t_freelist tree')"
    then have "b \<in> insert a (set (?xs @ t_freelist tree'))" using sub by auto
    then show "node_ok ?len (t_chunk tree') b" using F by blast
  qed
  ultimately show "memory_ok (tree'\<lparr>t_root := root\<rparr>)"
    using F M(1,2) xs(1) by (simp add: memory_ok_def node_addrs_def xs(3))
qed


section \<open>What the operations do\<close>

definition tree_nodes :: "'a sml_tree \<Rightarrow> (node_addr \<times> 'a) list" where
  "tree_nodes tree = inorder (t_root tree)"

text \<open>Changes that keep the comparison function and the in-order list or the memory.\<close>

lemma tree_inv_new:
  "item_order cmp \<Longrightarrow> 0 < item_size \<Longrightarrow> SIZEOF_NODE item_size \<le> CHUNK_SIZE \<Longrightarrow> tree_inv (sml_tree_new cmp item_size)"
  using CEILING_ge[of item_size "NODE_SIZE item_size"]
  by (simp add: tree_inv_def sml_tree_new_def memory_ok_def node_addrs_def chunks_ok_def bst_def SIZEOF_NODE_def)
    (simp add: NODE_SIZE_def)

lemma tree_inv_same:
  "tree_inv tree \<Longrightarrow> inorder root = inorder (t_root tree) \<Longrightarrow> tree_inv (tree\<lparr>t_root := root\<rparr>)"
  by (simp add: tree_inv_def memory_ok_def node_addrs_def bst_def items_def)

lemma memory_ok_reclaim:
  assumes "memory_ok tree" "mset (map fst (inorder (t_root tree))) = mset (a # map fst (inorder root))"
  shows "memory_ok (node_reclaim tree a\<lparr>t_root := root\<rparr>)"
proof -
  have m: "mset (node_addrs (node_reclaim tree a\<lparr>t_root := root\<rparr>)) = mset (node_addrs tree)"
    by (simp only: node_addrs_def node_reclaim_def sml_tree.simps mset_append mset.simps assms(2)) simp
  have "set (node_addrs (node_reclaim tree a\<lparr>t_root := root\<rparr>)) = set (node_addrs tree)"
    "distinct (node_addrs (node_reclaim tree a\<lparr>t_root := root\<rparr>)) = distinct (node_addrs tree)"
    using mset_eq_setD[OF m] mset_eq_imp_distinct_iff[OF m] by auto
  then show ?thesis using assms(1) by (simp add: memory_ok_def node_reclaim_def)
qed

lemma sorted_around:
  assumes "item_order cmp" "sorted_wrt (\<lambda>x y. cmp x y < 0) (map snd xs)"
  shows "sorted_wrt (\<lambda>x y. cmp x y < 0) (map snd (smaller cmp item xs @ larger cmp item xs))"
    and "sorted_wrt (\<lambda>x y. cmp x y < 0) (map snd (smaller cmp item xs @ (a, item) # larger cmp item xs))"
proof -
  have s: "sorted_wrt (\<lambda>x y. cmp x y < 0) (map snd (smaller cmp item xs))"
    "sorted_wrt (\<lambda>x y. cmp x y < 0) (map snd (larger cmp item xs))"
    using assms(2) by (simp_all add: list_ops sorted_wrt_map sorted_wrt_filter)
  have m: "\<forall>e \<in> set (smaller cmp item xs). cmp (snd e) item < 0" "\<forall>e \<in> set (larger cmp item xs). cmp item (snd e) < 0"
    using item_order.cmp_swap[OF assms(1)] by (simp_all add: list_ops)
  have t: "\<forall>e \<in> set (smaller cmp item xs). \<forall>e' \<in> set (larger cmp item xs). cmp (snd e) (snd e') < 0"
    using m item_order.cmp_trans[OF assms(1)] by blast
  show "sorted_wrt (\<lambda>x y. cmp x y < 0) (map snd (smaller cmp item xs @ larger cmp item xs))"
    "sorted_wrt (\<lambda>x y. cmp x y < 0) (map snd (smaller cmp item xs @ (a, item) # larger cmp item xs))"
    using s m t by (auto simp: sorted_wrt_append)
qed

lemma bst_parts:
  assumes "item_order cmp" "bst cmp t"
  shows "inorder root = smaller cmp item (inorder t) @ larger cmp item (inorder t) \<Longrightarrow> bst cmp root"
    and "inorder root = smaller cmp item (inorder t) @ (a, item) # larger cmp item (inorder t) \<Longrightarrow> bst cmp root"
  using sorted_around[OF assms(1), of "inorder t"] assms(2) by (simp_all add: bst_def items_def)

text \<open>\<open>splay_root\<close>: the three cases, with the list that replacing the root gives.\<close>

lemma splay_root_cases:
  assumes "item_order cmp" "bst cmp t" "splay_root cmp item t = (n, root, L, R)"
  obtains (found) a x l r where "n = 0" "root = Bin l a x r" "same_item cmp item (inorder t) = Some (a, x)"
      "smaller cmp item (inorder t) = flat_left L @ inorder l"
      "larger cmp item (inorder t) = inorder r @ flat_right R" "t \<noteq> Tip"
      "inorder t = smaller cmp item (inorder t) @ (a, x) # larger cmp item (inorder t)"
  | (absent) "n \<noteq> 0" "same_item cmp item (inorder t) = None"
      "inorder t = smaller cmp item (inorder t) @ larger cmp item (inorder t)"
      "inorder t = flat_left L @ inorder root @ flat_right R"
      "\<And>a y. inorder (assemble (new_root n a y root) L R)
        = smaller cmp item (inorder t) @ (a, y) # larger cmp item (inorder t)"
proof (cases "t = Tip")
  case True
  then have "n = 1" "root = Tip" "L = []" "R = []" using assms(3) by (simp_all add: splay_root_def)
  then show ?thesis using absent True by (simp add: list_ops new_root_def)
next
  case False
  then have s: "splay cmp item t [] [] = (n, root, L, R)" using assms(3) by (simp add: splay_root_def)
  obtain l a x r where S: "root = Bin l a x r"
    "n = 0 \<longrightarrow> same_item cmp item (inorder t) = Some (a, x)
          \<and> smaller cmp item (inorder t) = flat_left L @ inorder l
          \<and> larger cmp item (inorder t) = inorder r @ flat_right R"
    "n < 0 \<longrightarrow> same_item cmp item (inorder t) = None \<and> l = Tip
          \<and> smaller cmp item (inorder t) = flat_left L
          \<and> larger cmp item (inorder t) = (a, x) # inorder r @ flat_right R"
    "0 < n \<longrightarrow> same_item cmp item (inorder t) = None \<and> r = Tip
          \<and> smaller cmp item (inorder t) = flat_left L @ inorder l @ [(a, x)]
          \<and> larger cmp item (inorder t) = flat_right R"
    "inorder t = flat_left L @ inorder l @ (a, x) # inorder r @ flat_right R"
    using splay_parts[OF assms(1,2) False s] by blast
  consider "n = 0" | "n < 0" | "0 < n" by linarith
  then show ?thesis
  proof cases
    case 1
    then have P: "same_item cmp item (inorder t) = Some (a, x)" "smaller cmp item (inorder t) = flat_left L @ inorder l"
      "larger cmp item (inorder t) = inorder r @ flat_right R" using S(2) by blast+
    have "inorder t = smaller cmp item (inorder t) @ (a, x) # larger cmp item (inorder t)"
      by (rule trans[OF S(5)]) (simp add: P)
    then show ?thesis by (rule found[OF 1 S(1) P False])
  next
    case 2
    then have P: "same_item cmp item (inorder t) = None" "l = Tip" "smaller cmp item (inorder t) = flat_left L"
      "larger cmp item (inorder t) = (a, x) # inorder r @ flat_right R" using S(3) by blast+
    have "inorder t = smaller cmp item (inorder t) @ larger cmp item (inorder t)"
      "inorder t = flat_left L @ inorder root @ flat_right R"
      by (rule trans[OF S(5)], simp add: P S(1))+
    moreover have "inorder (assemble (new_root n b y root) L R)
        = smaller cmp item (inorder t) @ (b, y) # larger cmp item (inorder t)" for b y
      using 2 P by (simp add: new_root_def S(1))
    ultimately show ?thesis using absent 2 P(1) by blast
  next
    case 3
    then have P: "same_item cmp item (inorder t) = None" "r = Tip"
      "smaller cmp item (inorder t) = flat_left L @ inorder l @ [(a, x)]"
      "larger cmp item (inorder t) = flat_right R" using S(4) by blast+
    have "inorder t = smaller cmp item (inorder t) @ larger cmp item (inorder t)"
      "inorder t = flat_left L @ inorder root @ flat_right R"
      by (rule trans[OF S(5)], simp add: P S(1))+
    moreover have "inorder (assemble (new_root n b y root) L R)
        = smaller cmp item (inorder t) @ (b, y) # larger cmp item (inorder t)" for b y
      using 3 P by (simp add: new_root_def S(1))
    ultimately show ?thesis using absent 3 P(1) by blast
  qed
qed


lemma bst_middle: "bst cmp t \<Longrightarrow> inorder t = xs @ inorder u @ ys \<Longrightarrow> bst cmp u"
  by (simp add: bst_def items_def sorted_wrt_append)

lemma find_effect:
  assumes "tree_inv tree" "sml_tree_find tree item = (res, tree')"
  shows "tree_inv tree'" "tree_nodes tree' = tree_nodes tree" "t_cmp tree' = t_cmp tree"
    and "res = same_item (t_cmp tree) item (tree_nodes tree)"
proof -
  have inv: "item_order (t_cmp tree)" "bst (t_cmp tree) (t_root tree)" using assms(1) by (simp_all add: tree_inv_def)
  obtain n root L R where s: "splay_root (t_cmp tree) item (t_root tree) = (n, root, L, R)" by (metis prod_cases4)
  have "tree_inv tree' \<and> tree_nodes tree' = tree_nodes tree \<and> t_cmp tree' = t_cmp tree
      \<and> res = same_item (t_cmp tree) item (tree_nodes tree)"
  proof (cases "t_root tree = Tip")
    case True then show ?thesis using assms by (simp add: sml_tree_find_def tree_nodes_def list_ops)
  next
    case False
    then have sp: "splay (t_cmp tree) item (t_root tree) [] [] = (n, root, L, R)" using s by (simp add: splay_root_def)
    have r: "res = (if n = 0 then root_item root else None)" "tree' = tree\<lparr>t_root := assemble root L R\<rparr>"
      using assms(2) False sp by (simp_all add: sml_tree_find_def)
    have i: "inorder (assemble root L R) = inorder (t_root tree)" "root \<noteq> Tip"
      using splay_inorder[OF False sp] by auto
    have "res = same_item (t_cmp tree) item (inorder (t_root tree))"
      by (rule splay_root_cases[OF inv s]) (simp_all add: r(1))
    then show ?thesis using tree_inv_same[OF assms(1) i(1)] i(1) by (simp add: r(2) tree_nodes_def)
  qed
  then show "tree_inv tree'" "tree_nodes tree' = tree_nodes tree" "t_cmp tree' = t_cmp tree"
    "res = same_item (t_cmp tree) item (tree_nodes tree)" by blast+
qed

lemma same_item_in: "same_item cmp item xs = Some e \<Longrightarrow> e \<in> set xs \<and> cmp item (snd e) = 0"
  unfolding same_item_def find_Some_iff by auto

lemma smaller_larger_set:
  "set (smaller cmp item xs) \<union> set (larger cmp item xs) = {e \<in> set xs. cmp item (snd e) \<noteq> 0}"
  by (auto simp: list_ops)

lemma insert_effect:
  assumes "tree_inv tree" "sml_tree_insert tree item = (res, tree')"
  shows "\<exists>a. res = Some (a, item) \<and> root_item (t_root tree') = Some (a, item)
    \<and> tree_nodes tree' = smaller (t_cmp tree) item (tree_nodes tree) @ (a, item) # larger (t_cmp tree) item (tree_nodes tree)
    \<and> tree_inv tree' \<and> t_cmp tree' = t_cmp tree
    \<and> (case same_item (t_cmp tree) item (tree_nodes tree) of
         Some e \<Rightarrow> a = fst e | None \<Rightarrow> a \<notin> fst ` set (tree_nodes tree))"
proof -
  let ?cmp = "t_cmp tree" and ?xs = "inorder (t_root tree)"
  have inv: "item_order ?cmp" "bst ?cmp (t_root tree)" "memory_ok tree" using assms(1) by (simp_all add: tree_inv_def)
  obtain n root L R where s: "splay_root ?cmp item (t_root tree) = (n, root, L, R)" by (metis prod_cases4)
  from inv(1,2) s show ?thesis
  proof (cases rule: splay_root_cases)
    case (found a x l r)
    let ?new = "Bin (plug_left L l) a item (plug_right R r)"
    have r: "res = Some (a, item)" "tree' = tree\<lparr>t_root := ?new\<rparr>"
      using assms(2) s found(1,2) by (simp_all add: sml_tree_insert_def)
    have i: "inorder ?new = smaller ?cmp item ?xs @ (a, item) # larger ?cmp item ?xs" using found by simp
    have "map fst ?xs = map fst (inorder ?new)" unfolding i by (subst found(7)) simp
    then have "memory_ok tree'" using inv(3) by (simp add: r(2) memory_ok_def node_addrs_def)
    then have "tree_inv tree'" using bst_parts(2)[OF inv(1,2) i] inv(1) by (simp add: tree_inv_def r(2))
    then show ?thesis using r i found(3) by (simp add: tree_nodes_def)
  next
    case absent
    obtain a tr where al: "node_alloc tree = (a, tr)" by (metis surj_pair)
    let ?new = "assemble (new_root n a item root) L R"
    have sr: "\<exists>l r. new_root n a item root = Bin l a item r" by (simp add: new_root_def)
    then have n: "set_root_item ?new item = ?new" "root_item ?new = Some (a, item)" by auto
    have r: "res = Some (a, item)" "tree' = tr\<lparr>t_root := ?new\<rparr>"
      using assms(2) s absent(1) al n by (simp_all add: sml_tree_insert_def)
    have i: "inorder ?new = smaller ?cmp item ?xs @ (a, item) # larger ?cmp item ?xs" using absent(5) by simp
    have fresh: "t_cmp tr = ?cmp" "a \<notin> fst ` set ?xs" using node_alloc_fresh(1,4)[OF inv(3) al] by simp_all
    have dist: "distinct (map fst ?xs)" using inv(3) by (simp add: memory_ok_def node_addrs_def)
    have "mset ?xs = mset (smaller ?cmp item ?xs @ larger ?cmp item ?xs)" by (rule arg_cong[OF absent(3)])
    then have mm: "mset (map fst (inorder ?new)) = mset (a # map fst ?xs)"
      unfolding i by (metis (no_types, lifting) fst_conv image_mset_add_mset list.simps(9) mset.simps(2) mset_append mset_map union_mset_add_mset_right)
    have d2: "distinct (map fst (inorder ?new))"
      using mset_eq_imp_distinct_iff[OF mm] dist fresh(2) by simp
    have "set (map fst (inorder ?new)) \<subseteq> insert a (fst ` set ?xs)" using mset_eq_setD[OF mm] by simp
    from node_alloc_fresh(5)[OF inv(3) al d2 this refl] have "memory_ok tree'" by (simp add: r(2))
    then have "tree_inv tree'" using bst_parts(2)[OF inv(1,2) i] inv(1) fresh(1) by (simp add: tree_inv_def r(2))
    then show ?thesis using r i n(2) absent(2) fresh by (simp add: tree_nodes_def)
  qed
qed

lemma delete_effect:
  assumes "tree_inv tree" "sml_tree_delete tree item = (res, tree')"
  shows "tree_inv tree'" "t_cmp tree' = t_cmp tree" "res = same_item (t_cmp tree) item (tree_nodes tree)"
    and "tree_nodes tree' = smaller (t_cmp tree) item (tree_nodes tree) @ larger (t_cmp tree) item (tree_nodes tree)"
    and "t_freelist tree' = (case res of None \<Rightarrow> t_freelist tree | Some e \<Rightarrow> fst e # t_freelist tree)"
proof -
  let ?cmp = "t_cmp tree" and ?xs = "inorder (t_root tree)"
  have inv: "item_order ?cmp" "bst ?cmp (t_root tree)" "memory_ok tree" using assms(1) by (simp_all add: tree_inv_def)
  obtain n root L R where s: "splay_root ?cmp item (t_root tree) = (n, root, L, R)" by (metis prod_cases4)
  have "tree_inv tree' \<and> t_cmp tree' = ?cmp \<and> res = same_item ?cmp item ?xs
    \<and> inorder (t_root tree') = smaller ?cmp item ?xs @ larger ?cmp item ?xs
    \<and> t_freelist tree' = (case res of None \<Rightarrow> t_freelist tree | Some e \<Rightarrow> fst e # t_freelist tree)"
  proof (cases "t_root tree = Tip")
    case True then show ?thesis using assms by (simp add: sml_tree_delete_def list_ops)
  next
    case False
    then have sp: "splay ?cmp item (t_root tree) [] [] = (n, root, L, R)" using s by (simp add: splay_root_def)
    from inv(1,2) s show ?thesis
    proof (cases rule: splay_root_cases)
      case (found a x l r)
      let ?j = "join ?cmp root"
      have ri: "root_item root = Some (a, x)" by (simp add: found(2))
      define new where "new = (if ?j \<noteq> Tip then assemble ?j L R else join ?cmp (assemble root L R))"
      have r: "res = Some (a, x)" "tree' = node_reclaim tree a\<lparr>t_root := new\<rparr>"
        using assms(2) False sp found(1) ri by (simp_all add: sml_tree_delete_def new_def Let_def)
      have dec: "?xs = flat_left L @ inorder root @ flat_right R"
        by (rule trans[OF found(7)]) (simp add: found(2,4,5))
      have b: "bst ?cmp root" by (rule bst_middle[OF inv(2) dec])
      have b2: "bst ?cmp (assemble root L R)" using inv(2) dec found(2) by (simp add: bst_def items_def)
      have j: "inorder ?j = inorder l @ inorder r" using join_inorder[OF inv(1)] b found(2) by blast
      have i: "inorder new = smaller ?cmp item ?xs @ larger ?cmp item ?xs"
      proof (cases "?j = Tip")
        case False then show ?thesis using j found(4,5) by (simp add: new_def)
      next
        case True
        then have "inorder l @ inorder r = []" using j by simp
        then have "l = Tip" "r = Tip" by simp_all
        moreover have "inorder new = inorder (plug_left L l) @ inorder (plug_right R r)"
          using join_inorder[OF inv(1)] b2 True found(2) by (simp add: new_def)
        ultimately show ?thesis using found(4,5) by simp
      qed
      have mm: "mset (map fst ?xs) = mset (a # map fst (inorder new))"
        unfolding i by (subst found(7)) simp
      have "memory_ok tree'" unfolding r(2) by (rule memory_ok_reclaim[OF inv(3) mm])
      moreover have "bst ?cmp new" by (rule bst_parts(1)[OF inv(1,2) i])
      ultimately show ?thesis using r i found(3) inv(1) by (simp add: tree_inv_def node_reclaim_def)
    next
      case absent
      have r: "res = None" "tree' = tree\<lparr>t_root := assemble root L R\<rparr>"
        using assms(2) False sp absent(1) by (simp_all add: sml_tree_delete_def)
      have i: "inorder (assemble root L R) = ?xs" using splay_inorder[OF False sp] by auto
      show ?thesis using tree_inv_same[OF assms(1) i] r i absent(2,3) by simp
    qed
  qed
  then show "tree_inv tree'" "t_cmp tree' = t_cmp tree" "res = same_item (t_cmp tree) item (tree_nodes tree)"
    "tree_nodes tree' = smaller (t_cmp tree) item (tree_nodes tree) @ larger (t_cmp tree) item (tree_nodes tree)"
    "t_freelist tree' = (case res of None \<Rightarrow> t_freelist tree | Some e \<Rightarrow> fst e # t_freelist tree)"
    by (simp_all add: tree_nodes_def)
qed


section \<open>Rejecting items\<close>

text \<open>
  \<open>sml_tree_reject\<close> walks with two variables of type \<open>struct node **\<close>: \<open>node\<close> is the address of the child
  field (or of \<open>root\<close>) that the loop looks at, \<open>prev\<close> that of the field to go back to, and the \<open>back\<close> of
  the node in \<open>*prev\<close> is the one before.  The address of a field is the list of frames around it,
  innermost first: \<open>WentLeft a x r\<close> when it is the left child field of that node, whose left subtree is
  being walked, so that the node is one the back pointers lead to; \<open>WentRight l a x\<close> when it is the
  right child field of a node that is done.  \<open>prev\<close> and the back pointers are thus the \<open>WentLeft\<close> frames.
\<close>

datatype 'a frame = WentLeft node_addr 'a "'a stree" | WentRight "'a stree" node_addr 'a

text \<open>The whole tree, when the field contains \<open>t\<close>.\<close>

fun close_slot :: "'a frame list \<Rightarrow> 'a stree \<Rightarrow> 'a stree" where
  "close_slot [] t = t"
| "close_slot (WentLeft a x r # node) t = close_slot node (Bin t a x r)"
| "close_slot (WentRight l a x # node) t = close_slot node (Bin l a x t)"

text \<open>\<open>node = prev\<close>: the node in \<open>*prev\<close>, as its left subtree, address, item and right subtree, and
  the address \<open>prev\<close>; \<open>None\<close> when \<open>prev\<close> is null.\<close>

fun back_slot :: "'a frame list \<Rightarrow> 'a stree \<Rightarrow> (('a stree \<times> node_addr \<times> 'a \<times> 'a stree) \<times> 'a frame list) option" where
  "back_slot [] t = None"
| "back_slot (WentLeft a x r # node) t = Some ((t, a, x, r), node)"
| "back_slot (WentRight l a x # node) t = back_slot node (Bin l a x t)"

lemma back_slot_close: "back_slot node t = Some ((l, a, x, r), node') \<Longrightarrow> close_slot node t = close_slot node' (Bin l a x r)"
  by (induction node t rule: back_slot.induct) auto

text \<open>The nodes around a field, and the work that is left, which the loop decreases.\<close>

fun slot_nodes :: "'a frame list \<Rightarrow> nat" where
  "slot_nodes [] = 0"
| "slot_nodes (WentLeft a x r # node) = Suc (length (inorder r)) + slot_nodes node"
| "slot_nodes (WentRight l a x # node) = Suc (length (inorder l)) + slot_nodes node"

fun slot_work :: "'a frame list \<Rightarrow> nat" where
  "slot_work [] = 0"
| "slot_work (WentLeft a x r # node) = Suc (2 * length (inorder r)) + slot_work node"
| "slot_work (WentRight l a x # node) = slot_work node"

lemma back_slot_nodes:
  "back_slot node t = Some ((l, a, x, r), node') \<Longrightarrow>
     slot_nodes node + length (inorder t) = slot_nodes node' + Suc (length (inorder l) + length (inorder r))
     \<and> slot_work node = Suc (2 * length (inorder r)) + slot_work node'"
  by (induction node t rule: back_slot.induct) auto

lemma join_nodes:
  "join cmp (Bin l a x r) = Bin jl b y jr \<Longrightarrow> l \<noteq> Tip \<Longrightarrow>
     Suc (length (inorder jl) + length (inorder jr)) \<le> length (inorder l) + length (inorder r)"
proof -
  assume j: "join cmp (Bin l a x r) = Bin jl b y jr" "l \<noteq> Tip"
  obtain n t L R where s: "splay cmp x l [] [] = (n, t, L, R)" by (metis prod_cases4)
  obtain tl c z tr where t: "t = Bin tl c z tr" using splay_inorder[OF j(2) s] by blast
  have "length (inorder l) = length (flat_left L @ inorder t @ flat_right R)"
    using splay_inorder[OF j(2) s] by simp
  moreover have "inorder (Bin jl b y jr) = flat_left L @ inorder (Bin tl c z r) @ flat_right R"
    using j s t inorder_assemble[of "Bin tl c z r" L R] by simp
  then have "length (inorder (Bin jl b y jr)) = length (flat_left L @ inorder (Bin tl c z r) @ flat_right R)"
    by (rule arg_cong)
  ultimately show ?thesis by (simp add: t)
qed

text \<open>
  The loop.  A rejected node without left child is replaced by its right child, and the loop looks at
  the same field again; otherwise the node is replaced by the join of its subtrees, and the loop goes on
  at the right child field of the node that the join puts there.
\<close>

function reject_loop :: "('a \<Rightarrow> 'a \<Rightarrow> int) \<Rightarrow> ('a \<Rightarrow> 's \<Rightarrow> bool \<times> 's) \<Rightarrow> 'a stree \<Rightarrow> 'a frame list
    \<Rightarrow> 's \<times> node_addr list \<Rightarrow> 'a stree \<times> 's \<times> node_addr list" where
  "reject_loop cmp reject (Bin l a x r) node s = reject_loop cmp reject l (WentLeft a x r # node) s"
| "reject_loop cmp reject Tip node (s, fl) =
     (case back_slot node Tip of
        None \<Rightarrow> (close_slot node Tip, s, fl)
      | Some ((l, a, x, r), node) \<Rightarrow>
          (case reject x s of
             (False, s) \<Rightarrow> reject_loop cmp reject r (WentRight l a x # node) (s, fl)
           | (True, s) \<Rightarrow>
               (if l = Tip then reject_loop cmp reject r node (s, a # fl)
                else case join cmp (Bin l a x r) of
                       Tip \<Rightarrow> (close_slot node Tip, s, a # fl)
                     | Bin jl b y jr \<Rightarrow> reject_loop cmp reject jr (WentRight jl b y # node) (s, a # fl))))"
  by pat_completeness auto
termination
  by (relation "measures [\<lambda>(_, _, t, node, _). length (inorder t) + slot_nodes node,
      \<lambda>(_, _, t, node, _). 2 * length (inorder t) + slot_work node]")
    (auto dest!: back_slot_nodes join_nodes simp del: join.simps)

definition sml_tree_reject :: "'a sml_tree \<Rightarrow> ('a \<Rightarrow> 's \<Rightarrow> bool \<times> 's) \<Rightarrow> 's \<Rightarrow> 'a sml_tree \<times> 's" where
  "sml_tree_reject tree reject s =
     (case reject_loop (t_cmp tree) reject (t_root tree) [] (s, t_freelist tree) of
        (root, s', fl) \<Rightarrow> (tree\<lparr>t_root := root, t_freelist := fl\<rparr>, s'))"

text \<open>The items before and after a field, in order.\<close>

fun before :: "'a frame list \<Rightarrow> (node_addr \<times> 'a) list" where
  "before [] = []"
| "before (WentLeft a x r # node) = before node"
| "before (WentRight l a x # node) = before node @ inorder l @ [(a, x)]"

fun after :: "'a frame list \<Rightarrow> (node_addr \<times> 'a) list" where
  "after [] = []"
| "after (WentLeft a x r # node) = (a, x) # inorder r @ after node"
| "after (WentRight l a x # node) = after node"

lemma inorder_close: "inorder (close_slot node t) = before node @ inorder t @ after node"
  by (induction node t rule: close_slot.induct) simp_all

lemma back_slot_None: "back_slot node t = None \<Longrightarrow> after node = []"
  by (induction node t rule: back_slot.induct) simp_all

lemma back_slot_Some:
  "back_slot node t = Some ((l, a, x, r), node') \<Longrightarrow> after node = (a, x) # inorder r @ after node'
     \<and> before node @ inorder t = before node' @ inorder l"
  by (induction node t rule: back_slot.induct) auto

section \<open>Traversals\<close>

lemma each_loop_fold:
  "each_loop t prev visit s
     = fold visit (items t @ concat (map (\<lambda>(a, x, r). x # items r) prev)) s"
  by (induction t prev visit s rule: each_loop.induct) simp_all

text \<open>What \<open>sml_tree_reject\<close> does to the list: the items in order, the kept ones and the freed addresses.\<close>

fun reject_run :: "('a \<Rightarrow> 's \<Rightarrow> bool \<times> 's) \<Rightarrow> (node_addr \<times> 'a) list \<Rightarrow> 's \<times> node_addr list
    \<Rightarrow> (node_addr \<times> 'a) list \<times> 's \<times> node_addr list" where
  "reject_run reject [] s = ([], s)"
| "reject_run reject ((a, x) # xs) (s, fl) =
     (case reject x s of
        (True, s1) \<Rightarrow> reject_run reject xs (s1, a # fl)
      | (False, s1) \<Rightarrow> (case reject_run reject xs (s1, fl) of (ys, s') \<Rightarrow> ((a, x) # ys, s')))"

lemma reject_run_append:
  "reject_run reject (xs @ ys) s = (case reject_run reject xs s of (xs', s1) \<Rightarrow>
     (case reject_run reject ys s1 of (ys', s2) \<Rightarrow> (xs' @ ys', s2)))"
  by (induction reject xs s rule: reject_run.induct) (auto split: prod.splits bool.splits)

lemma reject_run_subset:
  "reject_run reject xs s = (ys, s') \<Longrightarrow> set ys \<subseteq> set xs"
  by (induction reject xs s arbitrary: ys s' rule: reject_run.induct) (fastforce split: prod.splits bool.splits)+

lemma reject_run_sorted:
  "reject_run reject xs s = (ys, s') \<Longrightarrow> sorted_wrt P (map snd xs) \<Longrightarrow> sorted_wrt P (map snd ys)"
proof (induction reject xs s arbitrary: ys s' rule: reject_run.induct)
  case (2 reject a x xs s fl)
  obtain b s1 where r: "reject x s = (b, s1)" by (metis surj_pair)
  show ?case
  proof (cases b)
    case True then show ?thesis using 2(1)[OF r[symmetric]] 2(3,4) r by simp
  next
    case False
    then obtain zs where z: "reject_run reject xs (s1, fl) = (zs, s')" "ys = (a, x) # zs"
      using 2(3) r by (auto split: prod.splits)
    have "sorted_wrt P (map snd zs)" using 2(2)[OF r[symmetric]] False z(1) 2(4) by simp
    then show ?thesis using reject_run_subset[OF z(1)] 2(4) by (auto simp: z(2))
  qed
qed simp

lemma reject_run_addrs:
  "reject_run reject xs s = (ys, s') \<Longrightarrow> mset (map fst ys @ snd s') = mset (map fst xs @ snd s)"
proof (induction reject xs s arbitrary: ys s' rule: reject_run.induct)
  case (2 reject a x xs s fl)
  obtain b s1 where r: "reject x s = (b, s1)" by (metis surj_pair)
  show ?case
  proof (cases b)
    case True then show ?thesis using 2(1)[OF r[symmetric], of ys s'] 2(3) r by simp
  next
    case False
    then obtain zs where z: "reject_run reject xs (s1, fl) = (zs, s')" "ys = (a, x) # zs"
      using 2(3) r by (auto split: prod.splits)
    then show ?thesis using 2(2)[OF r[symmetric], of zs s'] False by simp
  qed
qed simp

text \<open>The loop at a field leaves what is before it, and runs \<open>reject\<close> over the rest.\<close>

lemma reject_loop_run:
  assumes "item_order cmp" "bst cmp (close_slot node t)" "reject_loop cmp reject t node s = (t', s')"
  shows "\<exists>ys. reject_run reject (inorder t @ after node) s = (ys, s') \<and> inorder t' = before node @ ys"
  using assms
proof (induction cmp reject t node s arbitrary: t' s' rule: reject_loop.induct)
  case (2 cmp reject node st fl)
  note cmp = 2(4) and loop = 2(6)
  show ?case
  proof (cases "back_slot node Tip")
    case None
    then show ?thesis using loop back_slot_None[OF None] by (auto simp: inorder_close)
  next
    case (Some e)
    obtain l a x r node' where e: "e = ((l, a, x, r), node')" by (cases e) auto
    note b = Some[unfolded e]
    obtain c s1 where r: "reject x st = (c, s1)" by (metis surj_pair)
    note parts = back_slot_Some[OF b]
    have all: "sorted_wrt (\<lambda>x y. cmp x y < 0) (map snd (before node' @ inorder l @ (a, x) # inorder r @ after node'))"
      using 2(5) back_slot_close[OF b] by (simp add: bst_def items_def inorder_close)
    have top: "bst cmp (Bin l a x r)" using all by (simp add: bst_def items_def sorted_wrt_append)
    show ?thesis
    proof (cases c)
      case False
      have "bst cmp (close_slot (WentRight l a x # node') r)" using 2(5) back_slot_close[OF b] by simp
      from 2(3)[OF b refl refl refl refl r[unfolded False, symmetric] _ cmp this] loop b r False
      obtain ys where "reject_run reject (inorder r @ after node') (s1, fl) = (ys, s')"
        "inorder t' = before node' @ inorder l @ (a, x) # ys" by auto
      then show ?thesis using parts r False by auto
    next
      case True
      have rest: "sorted_wrt (\<lambda>x y. cmp x y < 0) (map snd (before node' @ inorder l @ inorder r @ after node'))"
        using all by (simp add: sorted_wrt_append)
      show ?thesis
      proof (cases "l = Tip")
        case Tip: True
        have "bst cmp (close_slot node' r)" using rest Tip by (simp add: bst_def items_def inorder_close)
        from 2(1)[OF b refl refl refl refl r[unfolded True, symmetric] _ Tip cmp this] loop b r True Tip
        obtain ys where "reject_run reject (inorder r @ after node') (s1, a # fl) = (ys, s')"
          "inorder t' = before node' @ ys" by auto
        then show ?thesis using parts r True Tip by auto
      next
        case l: False
        obtain jl b' y where j: "join cmp (Bin l a x r) = Bin jl b' y r" "inorder l = inorder jl @ [(b', y)]"
          using join_result[OF cmp top l] by blast
        have "bst cmp (close_slot (WentRight jl b' y # node') r)"
          using rest j(2) by (simp add: bst_def items_def inorder_close)
        from 2(2)[OF b refl refl refl refl r[unfolded True, symmetric] _ l j(1) cmp this] loop b r True l j
        obtain ys where "reject_run reject (inorder r @ after node') (s1, a # fl) = (ys, s')"
          "inorder t' = before node' @ inorder l @ ys" by (auto simp del: join.simps)
        then show ?thesis using parts r True by auto
      qed
    qed
  qed
qed simp

lemma reject_effect:
  assumes "tree_inv tree" "sml_tree_reject tree reject s = (tree', s')"
  shows "tree_inv tree'" "t_cmp tree' = t_cmp tree"
    and "reject_run reject (tree_nodes tree) (s, t_freelist tree) = (tree_nodes tree', s', t_freelist tree')"
proof -
  have inv: "item_order (t_cmp tree)" "bst (t_cmp tree) (t_root tree)" "memory_ok tree"
    using assms(1) by (simp_all add: tree_inv_def)
  obtain root fl where r: "reject_loop (t_cmp tree) reject (t_root tree) [] (s, t_freelist tree) = (root, s', fl)"
      "tree' = tree\<lparr>t_root := root, t_freelist := fl\<rparr>"
    using assms(2) by (auto simp: sml_tree_reject_def split: prod.splits)
  have run: "reject_run reject (inorder (t_root tree)) (s, t_freelist tree) = (inorder root, s', fl)"
    using reject_loop_run[OF inv(1) _ r(1)] inv(2) by simp
  have "mset (node_addrs tree') = mset (node_addrs tree)"
    using reject_run_addrs[OF run] by (simp add: node_addrs_def r(2))
  then have "set (node_addrs tree') = set (node_addrs tree)" "distinct (node_addrs tree') = distinct (node_addrs tree)"
    using mset_eq_setD mset_eq_imp_distinct_iff by blast+
  then have "memory_ok tree'" using inv(3) by (simp add: memory_ok_def r(2))
  moreover have "bst (t_cmp tree) root" using reject_run_sorted[OF run] inv(2) by (simp add: bst_def items_def)
  ultimately show "tree_inv tree'" using inv(1) by (simp add: tree_inv_def r(2))
  show "t_cmp tree' = t_cmp tree" by (simp add: r(2))
  show "reject_run reject (tree_nodes tree) (s, t_freelist tree) = (tree_nodes tree', s', t_freelist tree')"
    using run by (simp add: tree_nodes_def r(2))
qed


section \<open>Rebuilding\<close>

text \<open>A tree under reconstruction: the nodes \<open>ps\<close> are still to be inserted.\<close>

definition rebuilding :: "'a sml_tree \<Rightarrow> (node_addr \<times> 'a) list \<Rightarrow> bool" where
  "rebuilding tree ps \<longleftrightarrow> item_order (t_cmp tree) \<and> bst (t_cmp tree) (t_root tree)
     \<and> 0 < t_alloc_size tree \<and> t_alloc_size tree \<le> CHUNK_SIZE \<and> chunks_ok (t_alloc_size tree) (t_chunk tree)
     \<and> distinct (map fst ps @ node_addrs tree)
     \<and> (\<forall>a \<in> set (map fst ps @ node_addrs tree). node_ok (t_alloc_size tree) (t_chunk tree) a)"

lemma rebuilding_Nil: "rebuilding tree [] \<longleftrightarrow> tree_inv tree"
  by (auto simp: rebuilding_def tree_inv_def memory_ok_def)

lemma rebuilding_step:
  assumes "rebuilding tree (e # ps)" "t_cmp tree' = t_cmp tree" "bst (t_cmp tree) (t_root tree')"
    and "t_alloc_size tree' = t_alloc_size tree" "t_chunk tree' = t_chunk tree"
    and "mset (node_addrs tree') = mset (fst e # node_addrs tree)"
  shows "rebuilding tree' ps"
proof -
  have m: "mset (map fst ps @ node_addrs tree') = mset (map fst (e # ps) @ node_addrs tree)"
    using assms(6) by simp
  show ?thesis
    using assms(1-5) mset_eq_setD[OF m] mset_eq_imp_distinct_iff[OF m] unfolding rebuilding_def by metis
qed

lemma insert_node_effect:
  assumes "item_order (t_cmp tree)" "bst (t_cmp tree) (t_root tree)" "insert_node tree e = (n, tree')"
  shows "t_cmp tree' = t_cmp tree" "t_alloc_size tree' = t_alloc_size tree" "t_chunk tree' = t_chunk tree"
    "t_freelist tree' = t_freelist tree" "bst (t_cmp tree) (t_root tree')"
    and "n = 0 \<Longrightarrow> tree_nodes tree' = tree_nodes tree \<and> same_item (t_cmp tree) (snd e) (tree_nodes tree) \<noteq> None"
    and "n \<noteq> 0 \<Longrightarrow> mset (tree_nodes tree') = mset (e # tree_nodes tree)"
proof -
  let ?cmp = "t_cmp tree" and ?xs = "inorder (t_root tree)"
  obtain n' root L R where s: "splay_root ?cmp (snd e) (t_root tree) = (n', root, L, R)" by (metis prod_cases4)
  have r: "n = n'" "tree' = tree\<lparr>t_root := assemble (if n' \<noteq> 0 then new_root n' (fst e) (snd e) root else root) L R\<rparr>"
    using assms(3) s by (auto simp: insert_node_def Let_def)
  then show "t_cmp tree' = t_cmp tree" "t_alloc_size tree' = t_alloc_size tree" "t_chunk tree' = t_chunk tree"
    "t_freelist tree' = t_freelist tree" by simp_all
  from assms(1,2) s have "bst ?cmp (t_root tree') \<and> (n = 0 \<longrightarrow> tree_nodes tree' = tree_nodes tree \<and> same_item ?cmp (snd e) ?xs \<noteq> None)
    \<and> (n \<noteq> 0 \<longrightarrow> mset (tree_nodes tree') = mset (e # tree_nodes tree))"
  proof (cases rule: splay_root_cases)
    case (found a x l r')
    have i: "inorder (assemble root L R) = ?xs"
      by (rule trans[OF _ found(7)[symmetric]]) (simp add: found(2,4,5))
    have "tree' = tree\<lparr>t_root := assemble root L R\<rparr>" using r(2) found(1) by simp
    then show ?thesis using assms(2) i found(1,3) r(1) by (simp add: tree_nodes_def bst_def items_def)
  next
    case absent
    have t: "tree' = tree\<lparr>t_root := assemble (new_root n' (fst e) (snd e) root) L R\<rparr>" using r(2) absent(1) by simp
    have i: "inorder (t_root tree') = smaller ?cmp (snd e) ?xs @ (fst e, snd e) # larger ?cmp (snd e) ?xs"
      using absent(5) by (simp add: t)
    have "mset (inorder (t_root tree')) = mset (e # (smaller ?cmp (snd e) ?xs @ larger ?cmp (snd e) ?xs))"
      unfolding i by simp
    also have "smaller ?cmp (snd e) ?xs @ larger ?cmp (snd e) ?xs = ?xs" by (rule absent(3)[symmetric])
    finally show ?thesis using bst_parts(2)[OF assms(1,2) i] r(1) absent(1) by (simp add: tree_nodes_def)
  qed
  then show "bst (t_cmp tree) (t_root tree')"
    "n = 0 \<Longrightarrow> tree_nodes tree' = tree_nodes tree \<and> same_item (t_cmp tree) (snd e) (tree_nodes tree) \<noteq> None"
    "n \<noteq> 0 \<Longrightarrow> mset (tree_nodes tree') = mset (e # tree_nodes tree)" by (simp_all add: tree_nodes_def)
qed

text \<open>Inserting one node: nothing is invented and the item has an equivalent afterwards.\<close>

lemma rebuild_node_effect:
  assumes "rebuilding tree (e # ps)"
  shows "rebuilding (rebuild_node e tree) ps" "t_cmp (rebuild_node e tree) = t_cmp tree"
    "set (tree_nodes tree) \<subseteq> set (tree_nodes (rebuild_node e tree))"
    "set (tree_nodes (rebuild_node e tree)) \<subseteq> insert e (set (tree_nodes tree))"
    "\<exists>e' \<in> set (tree_nodes (rebuild_node e tree)). t_cmp tree (snd e) (snd e') = 0"
proof -
  have inv: "item_order (t_cmp tree)" "bst (t_cmp tree) (t_root tree)" using assms by (simp_all add: rebuilding_def)
  obtain n tr where i: "insert_node tree e = (n, tr)" by (metis surj_pair)
  note E = insert_node_effect[OF inv i]
  have g: "rebuilding (rebuild_node e tree) ps \<and> t_cmp (rebuild_node e tree) = t_cmp tree
    \<and> set (tree_nodes tree) \<subseteq> set (tree_nodes (rebuild_node e tree))
    \<and> set (tree_nodes (rebuild_node e tree)) \<subseteq> insert e (set (tree_nodes tree))
    \<and> (\<exists>e' \<in> set (tree_nodes (rebuild_node e tree)). t_cmp tree (snd e) (snd e') = 0)"
  proof (cases "n = 0")
    case True
    then have r: "rebuild_node e tree = node_reclaim tr (fst e)" using i by (simp add: rebuild_node_def)
    have t: "tree_nodes (node_reclaim tr (fst e)) = tree_nodes tree"
      using E(6) True by (simp add: tree_nodes_def node_reclaim_def)
    obtain e' where e': "same_item (t_cmp tree) (snd e) (tree_nodes tree) = Some e'" using E(6) True by blast
    have "rebuilding (node_reclaim tr (fst e)) ps"
      by (rule rebuilding_step[OF assms]) (use E(1-5) t in \<open>simp_all add: node_reclaim_def node_addrs_def tree_nodes_def\<close>)
    then show ?thesis using t E(1) same_item_in[OF e'] by (auto simp: r node_reclaim_def)
  next
    case False
    then have r: "rebuild_node e tree = tr" using i by (simp add: rebuild_node_def)
    have m: "mset (tree_nodes tr) = mset (e # tree_nodes tree)" using E(7) False by simp
    have "mset (map fst (tree_nodes tr)) = image_mset fst (mset (e # tree_nodes tree))" using m by (simp only: mset_map)
    then have "rebuilding tr ps"
      by (intro rebuilding_step[OF assms]) (use E(1-5) in \<open>simp_all add: node_addrs_def tree_nodes_def\<close>)
    then show ?thesis using mset_eq_setD[OF m] E(1) item_order.cmp_refl[OF inv(1)] by (auto simp: r)
  qed
  then show "rebuilding (rebuild_node e tree) ps" "t_cmp (rebuild_node e tree) = t_cmp tree"
    "set (tree_nodes tree) \<subseteq> set (tree_nodes (rebuild_node e tree))"
    "set (tree_nodes (rebuild_node e tree)) \<subseteq> insert e (set (tree_nodes tree))"
    "\<exists>e' \<in> set (tree_nodes (rebuild_node e tree)). t_cmp tree (snd e) (snd e') = 0" by blast+
qed

lemma rebuild_fold:
  assumes "rebuilding tree ps"
  shows "tree_inv (fold rebuild_node ps tree) \<and> t_cmp (fold rebuild_node ps tree) = t_cmp tree
    \<and> set (tree_nodes tree) \<subseteq> set (tree_nodes (fold rebuild_node ps tree))
    \<and> set (tree_nodes (fold rebuild_node ps tree)) \<subseteq> set ps \<union> set (tree_nodes tree)
    \<and> (\<forall>e \<in> set ps. \<exists>e' \<in> set (tree_nodes (fold rebuild_node ps tree)). t_cmp tree (snd e) (snd e') = 0)"
  using assms
proof (induction ps arbitrary: tree)
  case Nil then show ?case by (simp add: rebuilding_Nil)
next
  case (Cons e ps)
  note S = rebuild_node_effect[OF Cons(2)]
  have f: "fold rebuild_node (e # ps) tree = fold rebuild_node ps (rebuild_node e tree)" by simp
  show ?case using Cons(1)[OF S(1), unfolded S(2)] S(3-5) unfolding f list.set(2) by blast
qed

lemma postorder_inorder: "mset (postorder t) = mset (inorder t)"
  by (induction t) simp_all

lemma sorted_unique:
  assumes "\<And>x y. P x y \<Longrightarrow> \<not> P y x" "sorted_wrt P xs" "sorted_wrt P ys" "set xs = set ys"
  shows "xs = ys"
  using assms(2-4)
proof (induction xs arbitrary: ys)
  case (Cons x xs)
  then obtain y ys' where ys: "ys = y # ys'" by (cases ys) auto
  have "x \<in> set (y # ys')" "y \<in> set (x # xs)" using Cons(4) ys by auto
  then have "x = y" using Cons(2,3) assms(1) unfolding ys by (metis set_ConsD sorted_wrt.simps(2))
  moreover have "x \<notin> set xs" "y \<notin> set ys'" using Cons(2,3) assms(1) unfolding ys by (metis sorted_wrt.simps(2))+
  ultimately have "set xs = set ys'" using Cons(4) unfolding ys list.set(2) by (metis insert_ident)
  then show ?case using Cons(1)[of ys'] Cons(2,3) \<open>x = y\<close> by (simp add: ys)
qed simp

lemma rebuild_effect:
  assumes "item_order (t_cmp tree)" "memory_ok tree"
  shows "tree_inv (sml_tree_rebuild tree)" "t_cmp (sml_tree_rebuild tree) = t_cmp tree"
    "set (tree_nodes (sml_tree_rebuild tree)) \<subseteq> set (tree_nodes tree)"
    "\<forall>e \<in> set (tree_nodes tree). \<exists>e' \<in> set (tree_nodes (sml_tree_rebuild tree)). t_cmp tree (snd e) (snd e') = 0"
    "tree_inv tree \<Longrightarrow> tree_nodes (sml_tree_rebuild tree) = tree_nodes tree"
proof -
  let ?ps = "postorder (t_root tree)" and ?t = "tree\<lparr>t_root := Tip\<rparr>" and ?r = "sml_tree_rebuild tree"
  have set: "set ?ps = set (tree_nodes tree)" using mset_eq_setD[OF postorder_inorder] by (simp add: tree_nodes_def)
  have m: "mset (map fst ?ps @ node_addrs ?t) = mset (node_addrs tree)"
    using postorder_inorder[of "t_root tree"] by (simp add: node_addrs_def)
  have "rebuilding ?t ?ps"
    using assms mset_eq_setD[OF m] mset_eq_imp_distinct_iff[OF m]
    by (simp add: rebuilding_def memory_ok_def bst_def)
  note R = rebuild_fold[OF this, folded sml_tree_rebuild_def]
  show inv': "tree_inv ?r" and cmp': "t_cmp ?r = t_cmp tree" using R by simp_all
  show sub: "set (tree_nodes ?r) \<subseteq> set (tree_nodes tree)" using R by (simp add: set tree_nodes_def)
  show eqv: "\<forall>e \<in> set (tree_nodes tree). \<exists>e' \<in> set (tree_nodes ?r). t_cmp tree (snd e) (snd e') = 0"
    using R by (simp add: set)
  assume inv: "tree_inv tree"
  let ?lt = "\<lambda>x y. t_cmp tree (snd x) (snd y) < 0"
  have s: "sorted_wrt ?lt (tree_nodes tree)" "sorted_wrt ?lt (tree_nodes ?r)"
    using inv inv' cmp' by (simp_all add: tree_inv_def bst_def items_def tree_nodes_def sorted_wrt_map)
  have one: "e = e'" if "e \<in> set (tree_nodes tree)" "e' \<in> set (tree_nodes tree)" "t_cmp tree (snd e) (snd e') = 0" for e e'
    using s(1) that item_order.cmp_zero_sym[OF assms(1), of "snd e" "snd e'"]
    by (auto simp: sorted_wrt_iff_nth_less in_set_conv_nth) (metis less_irrefl nat_neq_iff)
  have "set (tree_nodes tree) \<subseteq> set (tree_nodes ?r)" using eqv sub one by blast
  then show "tree_nodes ?r = tree_nodes tree"
    using sub sorted_unique[OF _ s(2,1)] item_order.cmp_swap[OF assms(1)] by (meson less_asym subset_antisym)
qed


section \<open>The contract of a store of items\<close>

text \<open>The assignment of a client through the pointer that an operation returned: \<open>*item = x\<close>.\<close>

fun set_item :: "'a stree \<Rightarrow> node_addr \<Rightarrow> 'a \<Rightarrow> 'a stree" where
  "set_item Tip a x = Tip"
| "set_item (Bin l b y r) a x = Bin (set_item l a x) b (if b = a then x else y) (set_item r a x)"

definition tree_set_item :: "'a sml_tree \<Rightarrow> node_addr \<Rightarrow> 'a \<Rightarrow> 'a sml_tree" where
  "tree_set_item tree a x = tree\<lparr>t_root := set_item (t_root tree) a x\<rparr>"

lemma inorder_set_item: "inorder (set_item t a x) = map (\<lambda>(b, y). (b, if b = a then x else y)) (inorder t)"
  by (induction t) simp_all

text \<open>
  What a client of the tree relies on: the store holds at most one item of each equivalence class,
  and each operation is the one on the set of nodes.
\<close>

locale item_store = item_order cmp for cmp :: "'a \<Rightarrow> 'a \<Rightarrow> int" +
  fixes inv :: "'t \<Rightarrow> bool" and nodes :: "'t \<Rightarrow> (node_addr \<times> 'a) set"
    and find insert delete :: "'t \<Rightarrow> 'a \<Rightarrow> (node_addr \<times> 'a) option \<times> 't"
    and put :: "'t \<Rightarrow> node_addr \<Rightarrow> 'a \<Rightarrow> 't"
  assumes find_keeps: "inv t \<Longrightarrow> inv (snd (find t x)) \<and> nodes (snd (find t x)) = nodes t"
    and find_iff: "inv t \<Longrightarrow> fst (find t x) = Some e \<longleftrightarrow> e \<in> nodes t \<and> cmp x (snd e) = 0"
    and insert_law: "inv t \<Longrightarrow> \<exists>a. fst (insert t x) = Some (a, x) \<and> inv (snd (insert t x))
      \<and> nodes (snd (insert t x)) = Set.insert (a, x) {e \<in> nodes t. cmp x (snd e) \<noteq> 0}
      \<and> (\<forall>e \<in> nodes t. fst e = a \<longrightarrow> cmp x (snd e) = 0)"
    and delete_law: "inv t \<Longrightarrow> fst (delete t x) = fst (find t x) \<and> inv (snd (delete t x))
      \<and> nodes (snd (delete t x)) = {e \<in> nodes t. cmp x (snd e) \<noteq> 0}"
    and put_law: "inv t \<Longrightarrow> (a, y) \<in> nodes t \<Longrightarrow> cmp x y = 0 \<Longrightarrow>
      inv (put t a x) \<and> nodes (put t a x) = Set.insert (a, x) (nodes t - {(a, y)})"
begin

lemma one_of_a_class: "inv t \<Longrightarrow> e \<in> nodes t \<Longrightarrow> e' \<in> nodes t \<Longrightarrow> cmp (snd e) (snd e') = 0 \<Longrightarrow> e = e'"
  using find_iff[of t "snd e" e] find_iff[of t "snd e" e'] by simp

lemma find_none: "inv t \<Longrightarrow> fst (find t x) = None \<longleftrightarrow> (\<forall>e \<in> nodes t. cmp x (snd e) \<noteq> 0)"
  using find_iff[of t x] by (metis not_None_eq)

lemma find_after_delete: "inv t \<Longrightarrow> fst (find (snd (delete t x)) y) = (if cmp x y = 0 then None else fst (find t y))"
proof -
  assume t: "inv t"
  note D = delete_law[OF t, of x]
  have z: "cmp x (snd e) = 0 \<longleftrightarrow> cmp x y = 0" if "cmp y (snd e) = 0" for e
    using cmp_zero_right[OF that, of x] by blast
  show ?thesis
  proof (cases "cmp x y = 0")
    case True then show ?thesis using find_none[of "snd (delete t x)" y] D z by auto
  next
    case False
    have "fst (find (snd (delete t x)) y) = Some e \<longleftrightarrow> fst (find t y) = Some e" for e
      using find_iff[of "snd (delete t x)" y e] find_iff[OF t, of y e] D z False by auto
    then show ?thesis using False by (metis option.exhaust)
  qed
qed

text \<open>Find, and insert where nothing was found: the pointer that the clients get.\<close>

lemma find_or_insert:
  assumes "inv t"
  obtains a z where "case find t x of
      (Some e, t') \<Rightarrow> e = (a, z) \<and> inv t' \<and> nodes t' = nodes t \<and> (a, z) \<in> nodes t \<and> cmp x z = 0
    | (None, t') \<Rightarrow> (\<forall>e \<in> nodes t. cmp x (snd e) \<noteq> 0 \<and> fst e \<noteq> a) \<and> z = x
        \<and> fst (insert t' x) = Some (a, x) \<and> inv (snd (insert t' x)) \<and> nodes (snd (insert t' x)) = Set.insert (a, x) (nodes t)"
proof -
  obtain r t' where f: "find t x = (r, t')" by (metis surj_pair)
  note K = find_keeps[OF assms, of x, unfolded f snd_conv]
  show ?thesis
  proof (cases r)
    case None
    then have n: "\<forall>e \<in> nodes t. cmp x (snd e) \<noteq> 0" using find_none[OF assms, of x] f by simp
    obtain a where a: "fst (insert t' x) = Some (a, x)" "inv (snd (insert t' x))"
      "nodes (snd (insert t' x)) = Set.insert (a, x) {e \<in> nodes t'. cmp x (snd e) \<noteq> 0}"
      "\<forall>e \<in> nodes t'. fst e = a \<longrightarrow> cmp x (snd e) = 0"
      using insert_law[of t' x] K by blast
    have "{e \<in> nodes t'. cmp x (snd e) \<noteq> 0} = nodes t" using n K by blast
    then show ?thesis using that[of a x] a n K f None by simp
  next
    case (Some e)
    then have "e \<in> nodes t \<and> cmp x (snd e) = 0" using find_iff[OF assms, of x e] f by simp
    then show ?thesis using that[of "fst e" "snd e"] K f Some by simp
  qed
qed

end

lemma set_item_effect:
  assumes "tree_inv tree" "(a, y) \<in> set (tree_nodes tree)" "t_cmp tree x y = 0"
  shows "tree_inv (tree_set_item tree a x)"
    "set (tree_nodes (tree_set_item tree a x)) = insert (a, x) (set (tree_nodes tree) - {(a, y)})"
proof -
  let ?xs = "tree_nodes tree" and ?f = "\<lambda>(b, y). (b, if b = a then x else y)"
  have inv: "item_order (t_cmp tree)" "bst (t_cmp tree) (t_root tree)" "memory_ok tree"
    using assms(1) by (simp_all add: tree_inv_def)
  have d: "distinct (map fst ?xs)" using inv(3) by (simp add: memory_ok_def node_addrs_def tree_nodes_def)
  have only: "z = y" if "(a, z) \<in> set ?xs" for z using eq_key_imp_eq_value[OF d that assms(2)] by simp
  have n: "tree_nodes (tree_set_item tree a x) = map ?f ?xs"
    by (simp add: tree_nodes_def tree_set_item_def inorder_set_item)
  have "node_addrs (tree_set_item tree a x) = node_addrs tree"
    by (auto simp: node_addrs_def inorder_set_item tree_set_item_def)
  then have "memory_ok (tree_set_item tree a x)"
    using inv(3) unfolding memory_ok_def by (simp add: tree_set_item_def)
  moreover have "bst (t_cmp tree) (set_item (t_root tree) a x)"
  proof -
    have s: "sorted_wrt (\<lambda>e e'. t_cmp tree (snd e) (snd e') < 0) ?xs"
      using inv(2) by (simp add: bst_def items_def tree_nodes_def sorted_wrt_map)
    have "sorted_wrt (\<lambda>e e'. t_cmp tree (snd (?f e)) (snd (?f e')) < 0) ?xs"
    proof (rule sorted_wrt_mono_rel[OF _ s])
      fix e e' assume e: "e \<in> set ?xs" "e' \<in> set ?xs" "t_cmp tree (snd e) (snd e') < 0"
      have "t_cmp tree y y = 0" by (rule item_order.cmp_refl[OF inv(1)])
      then show "t_cmp tree (snd (?f e)) (snd (?f e')) < 0"
        using e only item_order.cmp_equal[OF inv(1) assms(3)] item_order.cmp_equal_right[OF inv(1) assms(3)]
        by (cases e; cases e') fastforce
    qed
    then show ?thesis by (simp add: bst_def items_def inorder_set_item tree_nodes_def sorted_wrt_map)
  qed
  ultimately show "tree_inv (tree_set_item tree a x)" using inv(1) by (simp add: tree_inv_def tree_set_item_def)
  show "set (tree_nodes (tree_set_item tree a x)) = insert (a, x) (set ?xs - {(a, y)})"
  proof -
    have "?f e = id e" if "e \<in> set ?xs - {(a, y)}" for e using that only by (cases e) auto
    then have "?f ` (set ?xs - {(a, y)}) = id ` (set ?xs - {(a, y)})" by (rule image_cong[OF refl])
    moreover have "set ?xs = insert (a, y) (set ?xs - {(a, y)})" using assms(2) by blast
    moreover have "?f ` insert (a, y) (set ?xs - {(a, y)}) = insert (?f (a, y)) (?f ` (set ?xs - {(a, y)}))"
      by (rule image_insert)
    ultimately have "?f ` set ?xs = insert (?f (a, y)) (id ` (set ?xs - {(a, y)}))" by (simp only:)
    then show ?thesis by (simp add: n)
  qed
qed


text \<open>The trees with a comparison function \<open>cmp\<close> are such a store.\<close>

definition tree_of :: "('a \<Rightarrow> 'a \<Rightarrow> int) \<Rightarrow> 'a sml_tree \<Rightarrow> bool" where
  "tree_of cmp tree \<longleftrightarrow> tree_inv tree \<and> t_cmp tree = cmp"

lemma same_item_iff:
  assumes "tree_inv tree"
  shows "same_item (t_cmp tree) x (tree_nodes tree) = Some e \<longleftrightarrow> e \<in> set (tree_nodes tree) \<and> t_cmp tree x (snd e) = 0"
proof
  assume "same_item (t_cmp tree) x (tree_nodes tree) = Some e"
  then show "e \<in> set (tree_nodes tree) \<and> t_cmp tree x (snd e) = 0" using same_item_in by fastforce
next
  assume e: "e \<in> set (tree_nodes tree) \<and> t_cmp tree x (snd e) = 0"
  obtain n root L R where s: "splay_root (t_cmp tree) x (t_root tree) = (n, root, L, R)" by (metis prod_cases4)
  have inv: "item_order (t_cmp tree)" "bst (t_cmp tree) (t_root tree)" using assms by (simp_all add: tree_inv_def)
  have ns: "e \<notin> set (smaller (t_cmp tree) x (tree_nodes tree))" "e \<notin> set (larger (t_cmp tree) x (tree_nodes tree))"
    using e by (simp_all add: list_ops)
  from inv s show "same_item (t_cmp tree) x (tree_nodes tree) = Some e"
  proof (cases rule: splay_root_cases)
    case (found a z l r)
    have "e \<in> set (smaller (t_cmp tree) x (tree_nodes tree) @ (a, z) # larger (t_cmp tree) x (tree_nodes tree))"
      using e found(7) by (simp only: tree_nodes_def)
    then have "e = (a, z)" using ns by auto
    then show ?thesis using found(3) by (simp add: tree_nodes_def)
  next
    case absent
    have "e \<in> set (smaller (t_cmp tree) x (tree_nodes tree) @ larger (t_cmp tree) x (tree_nodes tree))"
      using e absent(3) by (simp only: tree_nodes_def)
    then show ?thesis using ns by auto
  qed
qed

sublocale item_order < tree: item_store cmp "tree_of cmp" "\<lambda>tree. set (tree_nodes tree)"
    sml_tree_find sml_tree_insert sml_tree_delete tree_set_item
proof
  fix t :: "'a sml_tree" and x y e a
  assume "tree_of cmp t"
  then have t: "tree_inv t" "t_cmp t = cmp" by (simp_all add: tree_of_def)
  have F: "sml_tree_find t x = (fst (sml_tree_find t x), snd (sml_tree_find t x))"
    "sml_tree_insert t x = (fst (sml_tree_insert t x), snd (sml_tree_insert t x))"
    "sml_tree_delete t x = (fst (sml_tree_delete t x), snd (sml_tree_delete t x))" by simp_all
  note f = find_effect[OF t(1) F(1)] and i = insert_effect[OF t(1) F(2)] and d = delete_effect[OF t(1) F(3)]
  show "tree_of cmp (snd (sml_tree_find t x)) \<and> set (tree_nodes (snd (sml_tree_find t x))) = set (tree_nodes t)"
    using f t(2) by (simp add: tree_of_def)
  show "fst (sml_tree_find t x) = Some e \<longleftrightarrow> e \<in> set (tree_nodes t) \<and> cmp x (snd e) = 0"
    using f(4) same_item_iff[OF t(1), of x e] t(2) by simp
  have "set (xs @ (b, x) # ys) = Set.insert (b, x) (set xs \<union> set ys)" for b :: node_addr and xs ys by auto
  note S = this[of "smaller cmp x (tree_nodes t)" _ "larger cmp x (tree_nodes t)", unfolded smaller_larger_set]
  show "\<exists>a. fst (sml_tree_insert t x) = Some (a, x) \<and> tree_of cmp (snd (sml_tree_insert t x))
      \<and> set (tree_nodes (snd (sml_tree_insert t x))) = Set.insert (a, x) {e \<in> set (tree_nodes t). cmp x (snd e) \<noteq> 0}
      \<and> (\<forall>e \<in> set (tree_nodes t). fst e = a \<longrightarrow> cmp x (snd e) = 0)"
  proof -
    obtain b where b: "fst (sml_tree_insert t x) = Some (b, x)" "tree_inv (snd (sml_tree_insert t x))"
      "tree_nodes (snd (sml_tree_insert t x)) = smaller cmp x (tree_nodes t) @ (b, x) # larger cmp x (tree_nodes t)"
      "t_cmp (snd (sml_tree_insert t x)) = cmp"
      "case same_item cmp x (tree_nodes t) of Some e \<Rightarrow> b = fst e | None \<Rightarrow> b \<notin> fst ` set (tree_nodes t)"
      using i t(2) by auto
    have dist: "distinct (map fst (tree_nodes t))"
      using t(1) by (simp add: tree_inv_def memory_ok_def node_addrs_def tree_nodes_def)
    have "cmp x (snd e) = 0" if e: "e \<in> set (tree_nodes t)" "fst e = b" for e
    proof (cases "same_item cmp x (tree_nodes t)")
      case None then show ?thesis using b(5) e by auto
    next
      case (Some e')
      then have "e' \<in> set (tree_nodes t)" "fst e' = b" "cmp x (snd e') = 0"
        using same_item_in[OF Some] b(5) by auto
      then show ?thesis using e dist by (metis eq_key_imp_eq_value prod.collapse)
    qed
    then show ?thesis using b(1-4) S[of b] by (auto simp: tree_of_def)
  qed
  show "fst (sml_tree_delete t x) = fst (sml_tree_find t x) \<and> tree_of cmp (snd (sml_tree_delete t x))
      \<and> set (tree_nodes (snd (sml_tree_delete t x))) = {e \<in> set (tree_nodes t). cmp x (snd e) \<noteq> 0}"
    using d f(4) t(2) smaller_larger_set by (simp add: tree_of_def)
  assume "(a, y) \<in> set (tree_nodes t)" "cmp x y = 0"
  then show "tree_of cmp (tree_set_item t a x)
      \<and> set (tree_nodes (tree_set_item t a x)) = Set.insert (a, x) (set (tree_nodes t) - {(a, y)})"
    using set_item_effect[OF t(1), of a y x] t(2) by (simp add: tree_of_def tree_set_item_def)
qed


section \<open>Properties\<close>

text \<open>The comparison of the test program at the end of splay.c, and a tree built with it.\<close>

definition int_cmp :: "int \<Rightarrow> int \<Rightarrow> int" where "int_cmp x y = x - y"

interpretation ints: item_order int_cmp
  by unfold_locales (auto simp: int_cmp_def)

definition sample_tree :: "int sml_tree" where
  "sample_tree = fold (\<lambda>x t. snd (sml_tree_insert t x)) [5, 2, 8] (sml_tree_new int_cmp 4)"

lemma tree_inv_insert: "tree_inv t \<Longrightarrow> tree_inv (snd (sml_tree_insert t x))"
  using insert_effect[of t x] by (metis surjective_pairing)

lemma sample_tree_inv: "tree_inv sample_tree" "t_cmp sample_tree = int_cmp"
proof -
  have "tree_inv (sml_tree_new int_cmp 4)"
    by (rule tree_inv_new[OF ints.item_order_axioms]) (simp_all add: SIZEOF_NODE_def NODE_SIZE_def NODE_OFFSET_def CEILING_def CHUNK_SIZE_def)
  moreover have "t_cmp (snd (sml_tree_insert t x)) = t_cmp t" if "tree_inv t" for t :: "int sml_tree" and x
    using insert_effect[OF that, of x] by (metis surjective_pairing)
  ultimately show "tree_inv sample_tree" "t_cmp sample_tree = int_cmp"
    by (simp_all add: sample_tree_def tree_inv_insert) (simp add: sml_tree_new_def)
qed

text \<open>C14.  The operations of a splay tree are the operations on its in-order list: find, which
  rearranges the tree, returns the node of an equivalent item and keeps the list; insert puts the item
  between the smaller and the larger ones, in the node of an equivalent item if there is one and
  otherwise in memory no other node uses; delete takes the equivalent item out and puts its node at
  the head of the free list.  Each keeps the tree ordered and its node memory well formed.\<close>

theorem sml_tree_operations:
  assumes "tree_inv tree"
  shows "(case sml_tree_find tree item of (res, tree') \<Rightarrow> tree_inv tree'
      \<and> res = same_item (t_cmp tree) item (tree_nodes tree) \<and> tree_nodes tree' = tree_nodes tree)
    \<and> (case sml_tree_insert tree item of (res, tree') \<Rightarrow> tree_inv tree' \<and> res = root_item (t_root tree')
      \<and> (\<exists>a. res = Some (a, item)
        \<and> tree_nodes tree' = smaller (t_cmp tree) item (tree_nodes tree) @ (a, item) # larger (t_cmp tree) item (tree_nodes tree)
        \<and> (case same_item (t_cmp tree) item (tree_nodes tree) of
             Some e \<Rightarrow> a = fst e | None \<Rightarrow> a \<notin> fst ` set (tree_nodes tree))))
    \<and> (case sml_tree_delete tree item of (res, tree') \<Rightarrow> tree_inv tree'
      \<and> res = same_item (t_cmp tree) item (tree_nodes tree)
      \<and> tree_nodes tree' = smaller (t_cmp tree) item (tree_nodes tree) @ larger (t_cmp tree) item (tree_nodes tree)
      \<and> t_freelist tree' = (case res of None \<Rightarrow> t_freelist tree | Some e \<Rightarrow> fst e # t_freelist tree))"
proof (intro conjI)
  show "case sml_tree_find tree item of (res, tree') \<Rightarrow> tree_inv tree'
      \<and> res = same_item (t_cmp tree) item (tree_nodes tree) \<and> tree_nodes tree' = tree_nodes tree"
    using find_effect[OF assms] by (simp split: prod.split)
  show "case sml_tree_insert tree item of (res, tree') \<Rightarrow> tree_inv tree' \<and> res = root_item (t_root tree')
      \<and> (\<exists>a. res = Some (a, item)
        \<and> tree_nodes tree' = smaller (t_cmp tree) item (tree_nodes tree) @ (a, item) # larger (t_cmp tree) item (tree_nodes tree)
        \<and> (case same_item (t_cmp tree) item (tree_nodes tree) of
             Some e \<Rightarrow> a = fst e | None \<Rightarrow> a \<notin> fst ` set (tree_nodes tree)))"
    using insert_effect[OF assms] by (auto split: prod.split) metis+
  show "case sml_tree_delete tree item of (res, tree') \<Rightarrow> tree_inv tree'
      \<and> res = same_item (t_cmp tree) item (tree_nodes tree)
      \<and> tree_nodes tree' = smaller (t_cmp tree) item (tree_nodes tree) @ larger (t_cmp tree) item (tree_nodes tree)
      \<and> t_freelist tree' = (case res of None \<Rightarrow> t_freelist tree | Some e \<Rightarrow> fst e # t_freelist tree)"
    using delete_effect[OF assms] by (auto split: prod.split option.split)
qed

theorem sml_tree_operations_witness:
  "tree_nodes sample_tree = [((0, 32), 2), ((0, 0), 5), ((0, 64), 8)]
   \<and> fst (sml_tree_find sample_tree 8) = Some ((0, 64), 8)
   \<and> tree_nodes (snd (sml_tree_delete sample_tree 5)) = [((0, 32), 2), ((0, 64), 8)]"
proof -
  have n: "tree_nodes sample_tree = [((0, 32), 2), ((0, 0), 5), ((0, 64), 8)]" by code_simp
  show ?thesis
    using sml_tree_operations[OF sample_tree_inv(1), of 8] sml_tree_operations[OF sample_tree_inv(1), of 5]
    by (simp add: n sample_tree_inv(2) list_ops int_cmp_def split: prod.splits)
qed

text \<open>C33.  The traversals, which use the back pointers of the nodes as a stack and no recursion, visit
  every item once, in order: \<open>sml_tree_each\<close> calls \<open>visit\<close> on the in-order list, and
  \<open>sml_tree_reject\<close>, which joins the subtrees of a rejected node and goes on to the right while the
  nodes above wait in the chain of back pointers, asks \<open>reject\<close> for every item in order, keeps
  exactly the items \<open>reject\<close> declines, frees the others, and leaves a well formed tree.\<close>

theorem sml_tree_traversals:
  assumes "tree_inv tree"
  shows "sml_tree_each tree visit s = fold visit (map snd (tree_nodes tree)) s
    \<and> (case sml_tree_reject tree reject u of (tree', u') \<Rightarrow> tree_inv tree'
        \<and> reject_run reject (tree_nodes tree) (u, t_freelist tree) = (tree_nodes tree', u', t_freelist tree'))"
proof
  show "sml_tree_each tree visit s = fold visit (map snd (tree_nodes tree)) s"
    by (simp add: sml_tree_each_def each_loop_fold items_def tree_nodes_def)
  show "case sml_tree_reject tree reject u of (tree', u') \<Rightarrow> tree_inv tree'
        \<and> reject_run reject (tree_nodes tree) (u, t_freelist tree) = (tree_nodes tree', u', t_freelist tree')"
    proof -
    obtain tree' u' where r: "sml_tree_reject tree reject u = (tree', u')" by (metis surj_pair)
    from reject_effect[OF assms r] show ?thesis by (simp only: r prod.case)
  qed
qed

theorem sml_tree_traversals_witness:
  "sml_tree_each sample_tree (\<lambda>x s. s @ [x]) [] = [2, 5, 8]
   \<and> tree_nodes (fst (sml_tree_reject sample_tree (\<lambda>x s. (x < 6, s + x)) 0)) = [((0, 64), 8)]
   \<and> t_freelist (fst (sml_tree_reject sample_tree (\<lambda>x s. (x < 6, s + x)) 0)) = [(0, 0), (0, 32)]
   \<and> tree_nodes (fst (sml_tree_reject sample_tree (\<lambda>x s. (x = 5, s + x)) 0)) = [((0, 32), 2), ((0, 64), 8)]"
proof -
  have n: "tree_nodes sample_tree = [((0, 32), 2), ((0, 0), 5), ((0, 64), 8)]" "t_freelist sample_tree = []"
    by code_simp+
  show ?thesis
    using sml_tree_traversals[OF sample_tree_inv(1), of "\<lambda>x s. s @ [x]" "[]" "\<lambda>x s. (x < 6, s + x)" 0]
      sml_tree_traversals[OF sample_tree_inv(1), of "\<lambda>x s. s" "[]" "\<lambda>x s. (x = 5, s + x)" 0]
    by (simp add: n split: prod.splits)
qed

text \<open>C34.  \<open>sml_tree_rebuild\<close> makes an ordered tree of any tree with well formed memory, whatever the
  order of its items has become: nothing is invented, every item keeps an equivalent, and on a tree
  that is ordered already it changes no item.\<close>

theorem sml_tree_rebuild_orders:
  assumes "item_order (t_cmp tree)" "memory_ok tree"
  shows "tree_inv (sml_tree_rebuild tree)
    \<and> set (tree_nodes (sml_tree_rebuild tree)) \<subseteq> set (tree_nodes tree)
    \<and> (\<forall>e \<in> set (tree_nodes tree). \<exists>e' \<in> set (tree_nodes (sml_tree_rebuild tree)). t_cmp tree (snd e) (snd e') = 0)
    \<and> (tree_inv tree \<longrightarrow> tree_nodes (sml_tree_rebuild tree) = tree_nodes tree)"
  using rebuild_effect[OF assms] by blast

theorem sml_tree_rebuild_orders_witness:
  "tree_nodes (tree_set_item sample_tree (0, 64) (1 :: int)) = [((0, 32), 2), ((0, 0), 5), ((0, 64), 1)]
   \<and> tree_inv (sml_tree_rebuild (tree_set_item sample_tree (0, 64) 1))
   \<and> map snd (tree_nodes (sml_tree_rebuild (tree_set_item sample_tree (0, 64) 1))) = [1, 2, 5]"
proof -
  let ?t = "tree_set_item sample_tree (0, 64) 1"
  have a: "node_addrs ?t = node_addrs sample_tree" by code_simp
  have c: "t_cmp ?t = int_cmp" by (simp add: tree_set_item_def sample_tree_inv(2))
  have "memory_ok ?t"
    using sample_tree_inv(1) a unfolding tree_inv_def memory_ok_def by (simp add: tree_set_item_def)
  then have "tree_inv (sml_tree_rebuild ?t)"
    using sml_tree_rebuild_orders[of ?t] ints.item_order_axioms c by simp
  moreover have "tree_nodes ?t = [((0, 32), 2), ((0, 0), 5), ((0, 64), 1)]"
    "map snd (tree_nodes (sml_tree_rebuild ?t)) = [1, 2, 5]" by code_simp+
  ultimately show ?thesis by simp
qed

end
