(* ===== verification/Bitptr.thy ===== *)
theory Bitptr
  imports Prelude
begin

unbundle bit_operations_syntax

text \<open>
  Bit pointers (src/smlsharp/src/runtime/smlsharp.h).  A bit pointer is a word address and a
  one-bit mask; the allocator walks the mark bitmap with it.  A bitmap is read through
  \<open>mem :: nat \<Rightarrow> u32\<close>, indexed by the word address.  The abstraction of a bit pointer is the index
  \<open>BITPTR_INDEX\<close> of the bit it points at; \<open>bit_at m p n\<close> is the \<open>n\<close>-th bit of the bitmap at \<open>p\<close>.
\<close>

type_synonym bitmap_mem = "nat \<Rightarrow> u32"

record sml_bitptr =
  bp_ptr :: nat
  bp_mask :: u32

definition BITPTR_WORDBITS :: nat where "BITPTR_WORDBITS = 32"

definition BITPTR :: "nat \<Rightarrow> nat \<Rightarrow> sml_bitptr" where
  "BITPTR p n = \<lparr>bp_ptr = p + n div 32, bp_mask = push_bit (n mod 32) 1\<rparr>"

definition BITPTR_TEST :: "bitmap_mem \<Rightarrow> sml_bitptr \<Rightarrow> bool" where
  "BITPTR_TEST m b \<longleftrightarrow> m (bp_ptr b) AND bp_mask b \<noteq> 0"

definition BITPTRW_SET :: "bitmap_mem \<Rightarrow> sml_bitptr \<Rightarrow> bitmap_mem" where
  "BITPTRW_SET m b = m(bp_ptr b := m (bp_ptr b) OR bp_mask b)"

text \<open>
  The atomic test-and-set is a compare-and-swap loop.  \<open>test_and_set_loop\<close> runs it against other
  threads: the list is the content of the word at each swap attempt, an attempt that does not find
  \<open>old\<close> there reloads \<open>old\<close> and tests again, and after the list nobody interferes any more.  The
  result is whether the bit was found set, and the value the successful swap stored.
  \<open>BITPTRA_TEST_AND_SET\<close> is the same operation performed in one step.
\<close>

fun test_and_set_loop :: "u32 \<Rightarrow> u32 \<Rightarrow> u32 list \<Rightarrow> bool \<times> u32 option" where
  "test_and_set_loop msk old [] =
     (if old AND msk \<noteq> 0 then (True, None) else (False, Some (old OR msk)))"
| "test_and_set_loop msk old (cur # rest) =
     (if old AND msk \<noteq> 0 then (True, None)
      else if cur = old then (False, Some (old OR msk))
      else test_and_set_loop msk cur rest)"

definition BITPTRA_TEST_AND_SET :: "bitmap_mem \<Rightarrow> sml_bitptr \<Rightarrow> bool \<times> bitmap_mem" where
  "BITPTRA_TEST_AND_SET m b =
     (if m (bp_ptr b) AND bp_mask b \<noteq> 0 then (True, m)
      else (False, m(bp_ptr b := m (bp_ptr b) OR bp_mask b)))"

definition BITPTR_WORDINDEX :: "sml_bitptr \<Rightarrow> nat \<Rightarrow> nat" where
  "BITPTR_WORDINDEX b p = bp_ptr b - p"

definition BITPTR_EQUAL :: "sml_bitptr \<Rightarrow> sml_bitptr \<Rightarrow> bool" where
  "BITPTR_EQUAL b1 b2 \<longleftrightarrow> bp_ptr b1 = bp_ptr b2 \<and> bp_mask b1 = bp_mask b2"

definition BITPTR_NEXTWORD :: "sml_bitptr \<Rightarrow> sml_bitptr" where
  "BITPTR_NEXTWORD b = b\<lparr>bp_ptr := bp_ptr b + 1, bp_mask := 1\<rparr>"

definition BITPTR_NEXT0 :: "bitmap_mem \<Rightarrow> sml_bitptr \<Rightarrow> sml_bitptr" where
  "BITPTR_NEXT0 m b =
     (let tmp = m (bp_ptr b) OR (bp_mask b - 1) in b\<lparr>bp_mask := (tmp + 1) AND NOT tmp\<rparr>)"

definition BITPTR_NEXT_FAILED :: "sml_bitptr \<Rightarrow> bool" where
  "BITPTR_NEXT_FAILED b \<longleftrightarrow> bp_mask b = 0"

definition BITPTR_NEXT1 :: "bitmap_mem \<Rightarrow> sml_bitptr \<Rightarrow> sml_bitptr" where
  "BITPTR_NEXT1 m b =
     (let tmp = m (bp_ptr b) AND - push_bit 1 (bp_mask b) in b\<lparr>bp_mask := tmp AND - tmp\<rparr>)"

definition BITPTR_INC :: "sml_bitptr \<Rightarrow> sml_bitptr" where
  "BITPTR_INC b =
     b\<lparr>bp_ptr := bp_ptr b + unat (drop_bit 31 (bp_mask b)),
       bp_mask := push_bit 1 (bp_mask b) OR drop_bit 31 (bp_mask b)\<rparr>"

text \<open>\<open>__builtin_ctz\<close> and \<open>__builtin_clz\<close>: undefined on 0 in C, 32 here.\<close>

definition ctz32 :: "u32 \<Rightarrow> nat" where
  "ctz32 w = length (takeWhile (\<lambda>i. \<not> bit w i) [0..<32])"

definition clz32 :: "u32 \<Rightarrow> nat" where
  "clz32 w = length (takeWhile (\<lambda>i. \<not> bit w (31 - i)) [0..<32])"

definition BITPTR_MASKINDEX :: "sml_bitptr \<Rightarrow> nat" where
  "BITPTR_MASKINDEX b = ctz32 (bp_mask b)"

definition BITPTR_INDEX :: "sml_bitptr \<Rightarrow> nat \<Rightarrow> nat" where
  "BITPTR_INDEX b p = BITPTR_WORDINDEX b p * BITPTR_WORDBITS + BITPTR_MASKINDEX b"

definition CEIL_LOG2 :: "nat \<Rightarrow> nat" where
  "CEIL_LOG2 x = 32 - clz32 (word_of_nat x - 1)"

section \<open>Abstraction\<close>

definition bit_at :: "bitmap_mem \<Rightarrow> nat \<Rightarrow> nat \<Rightarrow> bool" where
  "bit_at m p n \<longleftrightarrow> bit (m (p + n div 32)) (n mod 32)"

lemma push_bit_1_u32: "push_bit k 1 = (2 ^ k :: u32)"
  by (simp add: push_bit_eq_mult)

lemma ctz32_eq: "k < 32 \<Longrightarrow> bit w k \<Longrightarrow> (\<And>i. i < k \<Longrightarrow> \<not> bit w i) \<Longrightarrow> ctz32 w = k"
  unfolding ctz32_def by (subst takeWhile_length_upt[where j = k]) auto

lemma ctz32_pow2 [simp]: "k < 32 \<Longrightarrow> ctz32 (2 ^ k) = k"
  by (rule ctz32_eq) (auto simp: bit_pow2_iff)

lemma BITPTR_sel [simp]:
  "bp_ptr (BITPTR p n) = p + n div 32" "bp_mask (BITPTR p n) = 2 ^ (n mod 32)"
  by (simp_all add: BITPTR_def push_bit_1_u32)

lemma BITPTR_INDEX_BITPTR [simp]: "BITPTR_INDEX (BITPTR p n) p = n"
  by (simp add: BITPTR_INDEX_def BITPTR_WORDINDEX_def BITPTR_MASKINDEX_def BITPTR_WORDBITS_def)

lemma BITPTR_TEST_BITPTR: "BITPTR_TEST m (BITPTR p n) \<longleftrightarrow> bit_at m p n"
  by (simp add: BITPTR_TEST_def bit_at_def and_pow2_nonzero)

lemma BITPTR_INC_BITPTR: "BITPTR_INC (BITPTR p n) = BITPTR p (Suc n)"
proof (cases "n mod 32 = 31")
  case True
  then have "Suc n mod 32 = 0" "Suc n div 32 = Suc (n div 32)"
    by (auto simp: mod_Suc div_Suc)
  moreover have "push_bit 1 ((2 :: u32) ^ 31) = 0" "drop_bit 31 ((2 :: u32) ^ 31) = 1"
    by simp_all
  ultimately show ?thesis
    unfolding BITPTR_INC_def BITPTR_sel True by (simp add: BITPTR_def push_bit_1_u32)
next
  case False
  then have k: "n mod 32 < 31" and s: "Suc n mod 32 = Suc (n mod 32)" "Suc n div 32 = n div 32"
    by (auto simp: mod_Suc div_Suc)
  have "drop_bit 31 ((2 :: u32) ^ (n mod 32)) = 0"
    using k by (intro bit_word_eqI) (auto simp: bit_drop_bit_eq bit_exp_iff)
  moreover have "push_bit 1 ((2 :: u32) ^ (n mod 32)) = 2 ^ Suc (n mod 32)"
    by (simp add: push_bit_eq_mult)
  ultimately show ?thesis
    unfolding BITPTR_INC_def BITPTR_sel by (simp add: BITPTR_def push_bit_1_u32 s)
qed

lemma bit_pow2_minus_1: "k < 32 \<Longrightarrow> bit ((2 :: u32) ^ k - 1) i \<longleftrightarrow> i < k"
  by (auto simp: bit_mask_iff simp flip: mask_eq_decr_exp)

section \<open>Searching the current word\<close>

text \<open>\<open>BITPTR_NEXT0\<close> moves to the first zero bit at or after the bit pointed at, within the word.\<close>

lemma BITPTR_NEXT0_found:
  assumes "n div 32 = n' div 32" and "n \<le> n'" and "\<And>i. n \<le> i \<Longrightarrow> i < n' \<Longrightarrow> bit_at m p i"
    and "\<not> bit_at m p n'"
  shows "BITPTR_NEXT0 m (BITPTR p n) = BITPTR p n'"
proof -
  let ?w = "m (p + n div 32)" let ?k = "n mod 32" let ?j = "n' mod 32"
  let ?t = "?w OR (2 ^ ?k - 1)"
  have kj: "?k \<le> ?j" "?j < 32"
    using assms(1,2) by (metis add_le_cancel_left mult_div_mod_eq, simp)
  have ones: "bit ?t i" if i: "i < ?j" for i
  proof (cases "i < ?k")
    case True
    then show ?thesis by (simp add: bit_or_iff bit_pow2_minus_1)
  next
    case False
    let ?b = "32 * (n div 32) + i"
    have "?b div 32 = n div 32" "?b mod 32 = i" using i kj by auto
    moreover have "n \<le> ?b" using False by (metis add_le_cancel_left linorder_not_less mult_div_mod_eq)
    moreover have "?b < n'"
      using i assms(1) by (metis add_less_cancel_left mult_div_mod_eq)
    ultimately have "bit ?w i" using assms(3)[of ?b] by (simp add: bit_at_def)
    then show ?thesis by (simp add: bit_or_iff)
  qed
  have "\<not> bit ?t ?j"
    using assms(1,4) kj by (simp add: bit_or_iff bit_pow2_minus_1 bit_at_def)
  from word_lowest_zero[OF kj(2) ones this]
  show ?thesis
    unfolding BITPTR_NEXT0_def BITPTR_sel Let_def
    by (simp add: BITPTR_def push_bit_1_u32 assms(1))
qed

lemma BITPTR_NEXT0_failed:
  assumes "\<And>i. n \<le> i \<Longrightarrow> i div 32 = n div 32 \<Longrightarrow> bit_at m p i"
  shows "BITPTR_NEXT0 m (BITPTR p n) = \<lparr>bp_ptr = p + n div 32, bp_mask = 0\<rparr>"
proof -
  let ?w = "m (p + n div 32)" let ?k = "n mod 32"
  let ?t = "?w OR (2 ^ ?k - 1)"
  have "bit ?t i" if i: "i < 32" for i
  proof (cases "i < ?k")
    case True
    then show ?thesis by (simp add: bit_or_iff bit_pow2_minus_1)
  next
    case False
    let ?b = "32 * (n div 32) + i"
    have "?b div 32 = n div 32" "?b mod 32 = i" using i by auto
    moreover have "n \<le> ?b" using False by (metis add_le_cancel_left linorder_not_less mult_div_mod_eq)
    ultimately have "bit ?w i" using assms(1)[of ?b] by (simp add: bit_at_def)
    then show ?thesis by (simp add: bit_or_iff)
  qed
  then have "?t = - 1" by (simp add: word_ones_bit)
  then show ?thesis
    unfolding BITPTR_NEXT0_def BITPTR_sel Let_def by (simp add: BITPTR_def push_bit_1_u32)
qed

text \<open>Whether the search fails depends only on the rest of the word.\<close>

lemma BITPTR_NEXT0_cases:
  obtains (found) n' where "n \<le> n'" "n' div 32 = n div 32" "\<not> bit_at m p n'"
      "\<And>i. n \<le> i \<Longrightarrow> i < n' \<Longrightarrow> bit_at m p i" "BITPTR_NEXT0 m (BITPTR p n) = BITPTR p n'"
    | (failed) "\<And>i. n \<le> i \<Longrightarrow> i div 32 = n div 32 \<Longrightarrow> bit_at m p i"
      "BITPTR_NEXT0 m (BITPTR p n) = \<lparr>bp_ptr = p + n div 32, bp_mask = 0\<rparr>"
proof (cases "\<exists>i. n \<le> i \<and> i div 32 = n div 32 \<and> \<not> bit_at m p i")
  case True
  define n' where "n' = (LEAST i. n \<le> i \<and> i div 32 = n div 32 \<and> \<not> bit_at m p i)"
  have n': "n \<le> n'" "n' div 32 = n div 32" "\<not> bit_at m p n'"
    using LeastI_ex[OF True] unfolding n'_def by blast+
  have least: "bit_at m p i" if "n \<le> i" "i < n'" for i
  proof -
    have "i div 32 = n div 32"
      using that n'(2) by (metis div_le_mono less_imp_le_nat order_antisym)
    then show ?thesis using not_less_Least[OF that(2)[unfolded n'_def]] that(1) by blast
  qed
  show ?thesis
    using BITPTR_NEXT0_found[OF n'(2)[symmetric] n'(1) least n'(3)] n' least by (intro found)
next
  case False
  then show ?thesis using BITPTR_NEXT0_failed[of n m p] by (intro failed) blast+
qed

lemma BITPTR_not_failed [simp]: "\<not> BITPTR_NEXT_FAILED (BITPTR p n)"
  by (simp add: BITPTR_NEXT_FAILED_def)

lemma BITPTR_failed [simp]: "BITPTR_NEXT_FAILED \<lparr>bp_ptr = q, bp_mask = 0\<rparr>"
  by (simp add: BITPTR_NEXT_FAILED_def)

text \<open>\<open>BITPTR_NEXT1\<close> moves to the first one bit strictly after the bit pointed at.\<close>

lemma bit_minus_pow2: "k < 32 \<Longrightarrow> bit (- ((2 :: u32) ^ k)) i \<longleftrightarrow> k \<le> i \<and> i < 32"
proof -
  assume "k < 32"
  have "- ((2 :: u32) ^ k) = NOT (2 ^ k - 1)"
    by (rule minus_eq_not_minus_1)
  then show ?thesis using \<open>k < 32\<close> by (auto simp: bit_not_iff bit_pow2_minus_1)
qed

lemma word_lowest_one:
  fixes y :: u32
  assumes "j < 32" and "\<And>i. i < j \<Longrightarrow> \<not> bit y i" and "bit y j"
  shows "y AND - y = 2 ^ j"
proof -
  have "(NOT y + 1) AND NOT (NOT y) = 2 ^ j"
    using assms by (intro word_lowest_zero) (auto simp: bit_not_iff)
  then show ?thesis by (simp add: minus_eq_not_plus_1 and.commute)
qed

lemma BITPTR_NEXT1_found:
  assumes "n div 32 = n' div 32" and "n < n'" and "\<And>i. n < i \<Longrightarrow> i < n' \<Longrightarrow> \<not> bit_at m p i"
    and "bit_at m p n'"
  shows "BITPTR_NEXT1 m (BITPTR p n) = BITPTR p n'"
proof -
  let ?w = "m (p + n div 32)" let ?k = "n mod 32" let ?j = "n' mod 32"
  let ?t = "?w AND - push_bit 1 (2 ^ ?k)"
  have kj: "?k < ?j" "?j < 32"
    using assms(1,2) by (metis add_less_cancel_left mult_div_mod_eq, simp)
  have pb: "push_bit 1 ((2 :: u32) ^ ?k) = 2 ^ Suc ?k" by (simp add: push_bit_eq_mult)
  have t: "bit ?t i \<longleftrightarrow> bit ?w i \<and> ?k < i" if "i < 32" for i
  proof -
    have "bit (- (2 ^ Suc ?k) :: u32) i \<longleftrightarrow> ?k < i"
      using kj that bit_minus_pow2[of "Suc ?k" i] by (metis Suc_le_eq less_trans_Suc)
    then show ?thesis unfolding pb bit_and_iff by simp
  qed
  have zeros: "\<not> bit ?t i" if i: "i < ?j" for i
  proof
    assume "bit ?t i"
    then have bi: "bit ?w i" "?k < i" using t i kj by auto
    let ?b = "32 * (n div 32) + i"
    have "?b div 32 = n div 32" "?b mod 32 = i" using i kj by auto
    moreover have "n < ?b" using bi(2) by (metis add_less_cancel_left mult_div_mod_eq)
    moreover have "?b < n'" using i assms(1) by (metis add_less_cancel_left mult_div_mod_eq)
    ultimately show False using assms(3)[of ?b] bi(1) by (simp add: bit_at_def)
  qed
  have "bit ?t ?j" using t[OF kj(2)] kj assms(1,4) by (simp add: bit_at_def)
  from word_lowest_one[OF kj(2) zeros this]
  show ?thesis
    unfolding BITPTR_NEXT1_def BITPTR_sel Let_def
    by (simp add: BITPTR_def push_bit_1_u32 assms(1))
qed

section \<open>Setting bits\<close>

lemma bit_at_BITPTRW_SET:
  "bit_at (BITPTRW_SET m (BITPTR p n)) p i \<longleftrightarrow> i = n \<or> bit_at m p i"
proof -
  have "i = n \<longleftrightarrow> i div 32 = n div 32 \<and> i mod 32 = n mod 32" by (metis mult_div_mod_eq)
  then show ?thesis
    by (auto simp: BITPTRW_SET_def bit_at_def bit_or_iff bit_pow2_iff)
qed

lemma TEST_AND_SET_BITPTR:
  "BITPTRA_TEST_AND_SET m (BITPTR p n) =
     (if bit_at m p n then (True, m) else (False, BITPTRW_SET m (BITPTR p n)))"
  by (simp add: BITPTRA_TEST_AND_SET_def BITPTRW_SET_def bit_at_def and_pow2_nonzero)

text \<open>
  The loop and the one-step operation agree: the loop decides on one of the contents it observed,
  reports the bit of that content, and stores that content with the bit added exactly when the bit
  was clear in it.
\<close>

lemma test_and_set_loop_linear:
  "\<exists>w \<in> set (old # cs). test_and_set_loop msk old cs =
     (if w AND msk \<noteq> 0 then (True, None) else (False, Some (w OR msk)))"
  by (induction msk old cs rule: test_and_set_loop.induct) auto

section \<open>Rounding to a power of two\<close>

lemma clz32_eq:
  assumes "k < 32" "bit w k" "\<And>i. k < i \<Longrightarrow> i < 32 \<Longrightarrow> \<not> bit w i"
  shows "clz32 w = 31 - k"
  unfolding clz32_def using assms by (subst takeWhile_length_upt[where j = "31 - k"]) auto

lemma CEIL_LOG2_eq:
  assumes "2 ^ k < x" "x \<le> 2 ^ Suc k" "k < 31"
  shows "CEIL_LOG2 x = Suc k"
proof -
  let ?y = "word_of_nat (x - 1) :: u32"
  have x: "1 \<le> x" using assms(1) by (cases x) auto
  have eq: "(word_of_nat x :: u32) - 1 = ?y" using x by (simp add: of_nat_diff)
  have "(2 :: nat) ^ Suc k \<le> 2 ^ 31" using assms(3) by (intro power_increasing) auto
  then have "x - 1 < 2 ^ 32" using assms(2) by simp
  then have "unat ?y = x - 1" by (simp add: unat_of_nat)
  then have b: "bit ?y i \<longleftrightarrow> bit (x - 1) i" for i
    using bit_unsigned_iff[of ?y i, where ?'a = nat] by simp
  have "bit (x - 1) k"
  proof -
    have "(x - 1) div 2 ^ k = 1"
      using assms(1,2) by (intro div_nat_eqI) auto
    then show ?thesis by (simp add: bit_iff_odd)
  qed
  moreover have "\<not> bit (x - 1) i" if "k < i" for i
  proof -
    have "x - 1 < 2 ^ Suc k" using assms(2) x by simp
    also have "\<dots> \<le> (2 :: nat) ^ i" using that by (intro power_increasing) auto
    finally show ?thesis by (simp add: bit_iff_odd)
  qed
  ultimately have "clz32 ?y = 31 - k" using assms(3) b by (intro clz32_eq) auto
  then show ?thesis using assms(3) by (simp add: CEIL_LOG2_def eq)
qed

text \<open>The smallest power of two that is at least \<open>x\<close>.\<close>

lemma CEIL_LOG2_bounds:
  assumes "2 \<le> x" "x \<le> 2 ^ 31"
  shows "x \<le> 2 ^ CEIL_LOG2 x \<and> 2 ^ (CEIL_LOG2 x - 1) < x"
proof -
  have "\<exists>k. 2 ^ k < x \<and> x \<le> 2 ^ Suc k"
  proof (rule ccontr)
    assume "\<not> ?thesis"
    then have step: "2 ^ k < x \<Longrightarrow> 2 ^ Suc k < x" for k by (meson not_le)
    have "2 ^ k < x" for k by (induction k) (use assms(1) step in auto)
    then show False using assms(2) by (meson not_le)
  qed
  then obtain k where k: "2 ^ k < x" "x \<le> 2 ^ Suc k" by blast
  have "(2 :: nat) ^ k < 2 ^ 31" using k(1) assms(2) by (rule less_le_trans)
  then have "k < 31" by (rule power_less_imp_less_exp[rotated]) simp
  from CEIL_LOG2_eq[OF k this] k show ?thesis by simp
qed

end
