(* ===== verification/SegLayout.thy ===== *)
theory SegLayout
  imports Bitptr
begin

unbundle bit_operations_syntax

text \<open>
  The layout of a heap segment (src/smlsharp/src/runtime/heap_concurrent.c, \<open>struct segment_layout\<close>
  and \<open>compute_segment_layout\<close>).  A segment is 32 kilobytes: its header, the two-level mark bitmap,
  the collect bitmap, one stack slot per block, and the blocks.  Sizes are those of the LP64 target:
  \<open>struct segment\<close> is 32 bytes, a pointer 8, \<open>MAXALIGN\<close> 16, the object header 4.
  All offsets are in bytes from the segment address.
\<close>

definition SEGMENT_SIZE_LOG2 :: nat where [layout_simps]: "SEGMENT_SIZE_LOG2 = 15"
definition SEGMENT_SIZE :: nat where [layout_simps]: "SEGMENT_SIZE = 32768"
definition SEG_RANK :: nat where [layout_simps]: "SEG_RANK = 2"
definition BLOCKSIZE_MIN_LOG2 :: nat where [layout_simps]: "BLOCKSIZE_MIN_LOG2 = 3"
definition BLOCKSIZE_MIN :: nat where [layout_simps]: "BLOCKSIZE_MIN = 8"
definition BLOCKSIZE_MAX_LOG2 :: nat where [layout_simps]: "BLOCKSIZE_MAX_LOG2 = 12"
definition BLOCKSIZE_MAX :: nat where [layout_simps]: "BLOCKSIZE_MAX = 4096"
definition NUM_SUBHEAPS :: nat where [layout_simps]: "NUM_SUBHEAPS = 10"
definition OBJ_HEADER_SIZE :: nat where [layout_simps]: "OBJ_HEADER_SIZE = 4"
definition MAXALIGN :: nat where [layout_simps]: "MAXALIGN = 16"
definition sizeof_segment :: nat where [layout_simps]: "sizeof_segment = 32"
definition sizeof_stack_slot :: nat where [layout_simps]: "sizeof_stack_slot = 8"
definition BITMAP0_OFFSET :: nat where "BITMAP0_OFFSET = CEILING sizeof_segment 4"

lemma BITMAP0_OFFSET_eq [layout_simps]: "BITMAP0_OFFSET = 32"
  by (simp add: BITMAP0_OFFSET_def CEILING_def sizeof_segment_def)

record segment_layout =
  blocksize_log2 :: nat
  blocksize_bytes :: nat
  bitmap_offset :: "nat list"
  bitmap_sentinel :: "u32 list"
  bitmap_length :: nat
  bitmap0_length :: nat
  zerofill_limit :: nat
  stack_offset :: nat
  block_offset :: nat
  num_blocks :: nat
  block_limit :: nat

text \<open>The bitmap levels: offset in bytes, length in bits, and length rounded up with a sentinel.\<close>

fun bitmap_levels :: "nat \<Rightarrow> nat \<Rightarrow> nat \<Rightarrow> (nat \<times> nat \<times> nat) list" where
  "bitmap_levels 0 off len = []"
| "bitmap_levels (Suc r) off len =
     (let bits = CEILING (len + 1) BITPTR_WORDBITS
      in (off, len, bits) # bitmap_levels r (off + bits div 8) (bits div BITPTR_WORDBITS))"

definition level_limit :: "(nat \<times> nat \<times> nat) list \<Rightarrow> nat" where
  "level_limit lv = (case last lv of (off, len, bits) \<Rightarrow> off + bits div 8)"

text \<open>The layout for a given number of blocks: one iteration of the loop of
  \<open>compute_segment_layout\<close>, with the fields that are stored after the loop.\<close>

definition layout_with :: "nat \<Rightarrow> nat \<Rightarrow> segment_layout" where
  "layout_with log2 n =
     (let blocksize = 2 ^ log2;
          lv = bitmap_levels SEG_RANK BITMAP0_OFFSET n;
          bits0 = snd (snd (hd lv));
          bmoffset_rank = level_limit lv;
          bmlimit = bmoffset_rank + bits0 div 8;
          stackoffset = CEILING bmlimit sizeof_stack_slot;
          stacklimit = stackoffset + sizeof_stack_slot * n;
          blockalign = (if MAXALIGN < blocksize then MAXALIGN else blocksize);
          blockoffset = CEILING (stacklimit + OBJ_HEADER_SIZE) blockalign;
          blocklimit = blockoffset + blocksize * n
      in \<lparr>blocksize_log2 = log2, blocksize_bytes = blocksize,
          bitmap_offset = map fst lv @ [bmoffset_rank],
          bitmap_sentinel =
            map (\<lambda>(off, len, bits). push_bit (BITPTR_WORDBITS - (bits - len)) (- 1)) lv,
          bitmap_length = bmoffset_rank - BITMAP0_OFFSET,
          bitmap0_length = bits0 div 8,
          zerofill_limit = bmlimit, stack_offset = stackoffset,
          block_offset = blockoffset, num_blocks = n, block_limit = blocklimit\<rparr>)"

text \<open>
  The first estimate of the number of blocks.  In the source the term for the upper bitmap levels,
  \<open>BITPTR_WORDBITS / (BITPTR_WORDBITS - 1) / 8\<close>, is an integer division and is 0; the quotient is
  computed in single precision and truncated.  Both sides are scaled by 8 here, so that the division
  is exact; for the ten block sizes no quotient is within 1/100 of an integer, far above the rounding
  error, so the truncated value is the same.
\<close>

definition initial_estimate :: "nat \<Rightarrow> nat" where
  "initial_estimate blocksize =
     (8 * (SEGMENT_SIZE - BITMAP0_OFFSET)) div
     (8 * (blocksize + sizeof_stack_slot + BITPTR_WORDBITS div (BITPTR_WORDBITS - 1) div 8) + 1)"

definition bits0_of :: "nat \<Rightarrow> nat" where "bits0_of n = CEILING (n + 1) 32"
definition len1_of :: "nat \<Rightarrow> nat" where "len1_of n = bits0_of n div 32"
definition bits1_of :: "nat \<Rightarrow> nat" where "bits1_of n = CEILING (len1_of n + 1) 32"

lemma bitmap_levels_RANK:
  "bitmap_levels SEG_RANK BITMAP0_OFFSET n =
     [(32, n, bits0_of n), (32 + bits0_of n div 8, len1_of n, bits1_of n)]"
proof -
  have "bitmap_levels (Suc (Suc 0)) 32 n =
     [(32, n, bits0_of n), (32 + bits0_of n div 8, len1_of n, bits1_of n)]"
    by (simp add: Let_def bits0_of_def len1_of_def bits1_of_def BITPTR_WORDBITS_def)
  then show ?thesis by (simp add: layout_simps numeral_2_eq_2)
qed

lemma layout_with_sel:
  "blocksize_log2 (layout_with g n) = g"
  "blocksize_bytes (layout_with g n) = 2 ^ g"
  "num_blocks (layout_with g n) = n"
  "bitmap_offset (layout_with g n) =
     [32, 32 + bits0_of n div 8, 32 + bits0_of n div 8 + bits1_of n div 8]"
  "bitmap_sentinel (layout_with g n) =
     [push_bit (32 - (bits0_of n - n)) (- 1), push_bit (32 - (bits1_of n - len1_of n)) (- 1)]"
  "bitmap_length (layout_with g n) = bits0_of n div 8 + bits1_of n div 8"
  "bitmap0_length (layout_with g n) = bits0_of n div 8"
  "zerofill_limit (layout_with g n) = 32 + bits0_of n div 8 + bits1_of n div 8 + bits0_of n div 8"
  "stack_offset (layout_with g n) = CEILING (zerofill_limit (layout_with g n)) 8"
  "block_offset (layout_with g n) =
     CEILING (stack_offset (layout_with g n) + 8 * n + 4) (if 16 < (2 :: nat) ^ g then 16 else 2 ^ g)"
  "block_limit (layout_with g n) = block_offset (layout_with g n) + 2 ^ g * n"
  unfolding layout_with_def bitmap_levels_RANK Let_def
  by (simp_all add: level_limit_def layout_simps BITPTR_WORDBITS_def)

lemma layout_with_0: "block_limit (layout_with log2 0) \<le> SEGMENT_SIZE"
proof -
  have bits: "bits0_of 0 = 32" "len1_of 0 = 1" "bits1_of 0 = 32"
    by (simp_all add: bits0_of_def len1_of_def bits1_of_def CEILING_def)
  let ?a = "if 16 < (2 :: nat) ^ log2 then 16 else 2 ^ log2"
  have "CEILING 52 ?a < 52 + ?a" by (rule CEILING_less) simp
  then have "CEILING 52 ?a \<le> 68" by (simp split: if_splits)
  moreover have "CEILING 44 8 = 48" by (simp add: CEILING_def)
  ultimately show ?thesis by (simp add: layout_with_sel bits layout_simps)
qed

function fit_blocks :: "nat \<Rightarrow> nat \<Rightarrow> nat" where
  "fit_blocks log2 n =
     (if block_limit (layout_with log2 n) \<le> SEGMENT_SIZE then n else fit_blocks log2 (n - 1))"
  by pat_completeness auto
termination
proof (relation "measure snd", simp)
  fix log2 n
  assume "\<not> block_limit (layout_with log2 n) \<le> SEGMENT_SIZE"
  then have "n \<noteq> 0" using layout_with_0 by metis
  then show "((log2, n - 1), log2, n) \<in> measure snd" by simp
qed

declare fit_blocks.simps [simp del]

definition compute_segment_layout :: "nat \<Rightarrow> segment_layout" where
  "compute_segment_layout subheap_index =
     (let log2 = subheap_index + BLOCKSIZE_MIN_LOG2
      in layout_with log2 (fit_blocks log2 (initial_estimate (2 ^ log2))))"

definition segment_layouts :: "segment_layout list" where
  "segment_layouts = map compute_segment_layout [0..<NUM_SUBHEAPS]"

section \<open>Address arithmetic\<close>

definition segment_addr :: "u64 \<Rightarrow> u64" where
  "segment_addr p = p AND NOT (word_of_nat (SEGMENT_SIZE - 1))"

text \<open>\<open>object_index\<close> on the byte offset of the object in its segment.\<close>

definition object_index :: "segment_layout \<Rightarrow> nat \<Rightarrow> nat" where
  "object_index l off = drop_bit (blocksize_log2 l) (off - block_offset l)"

text \<open>The offset of the \<open>i\<close>-th block: \<open>BLOCK_BASE(seg) + (index << blocksize_log2)\<close>.\<close>

definition block_addr :: "segment_layout \<Rightarrow> nat \<Rightarrow> nat" where
  "block_addr l i = block_offset l + push_bit (blocksize_log2 l) i"

section \<open>Facts about every layout\<close>

lemma fit_blocks_fits: "block_limit (layout_with log2 (fit_blocks log2 n)) \<le> SEGMENT_SIZE"
  by (induction log2 n rule: fit_blocks.induct) (subst fit_blocks.simps, simp)

lemma fit_blocks_le: "fit_blocks log2 n \<le> n"
  by (induction log2 n rule: fit_blocks.induct) (subst fit_blocks.simps, force)

lemma fit_blocks_maximal:
  "fit_blocks log2 n < k \<Longrightarrow> k \<le> n \<Longrightarrow> SEGMENT_SIZE < block_limit (layout_with log2 k)"
proof (induction log2 n rule: fit_blocks.induct)
  case (1 log2 n)
  show ?case
  proof (cases "block_limit (layout_with log2 n) \<le> SEGMENT_SIZE")
    case True
    then show ?thesis using 1(2,3) by (subst (asm) fit_blocks.simps) simp
  next
    case False
    then have eq: "fit_blocks log2 n = fit_blocks log2 (n - 1)"
      by (subst fit_blocks.simps) simp
    show ?thesis
    proof (cases "k = n")
      case True then show ?thesis using False by simp
    next
      case False': False
      then show ?thesis using 1(1)[OF False] 1(2,3) eq by simp
    qed
  qed
qed

lemma bits0_of_props:
  "32 dvd bits0_of n" "n < bits0_of n" "bits0_of n \<le> n + 32" "bits0_of n = 32 * len1_of n"
proof -
  show d: "32 dvd bits0_of n" by (simp add: bits0_of_def)
  show "n < bits0_of n" using CEILING_ge[of 32 "n + 1"] by (simp add: bits0_of_def)
  show "bits0_of n \<le> n + 32" using CEILING_less[of 32 "n + 1"] by (simp add: bits0_of_def)
  show "bits0_of n = 32 * len1_of n" using d by (simp add: len1_of_def)
qed

lemma bits1_of_props:
  "32 dvd bits1_of n" "len1_of n < bits1_of n" "bits1_of n \<le> len1_of n + 32"
proof -
  show "32 dvd bits1_of n" by (simp add: bits1_of_def)
  show "len1_of n < bits1_of n" using CEILING_ge[of 32 "len1_of n + 1"] by (simp add: bits1_of_def)
  show "bits1_of n \<le> len1_of n + 32"
    using CEILING_less[of 32 "len1_of n + 1"] by (simp add: bits1_of_def)
qed

section \<open>The ten layouts\<close>

definition num_blocks_table :: "nat list" where
  "num_blocks_table = [2013, 1349, 812, 452, 240, 123, 62, 31, 15, 7]"

lemmas eval_layout = initial_estimate_def fit_blocks.simps layout_with_sel bits0_of_def len1_of_def
  bits1_of_def CEILING_def BITPTR_WORDBITS_def layout_simps

lemma fit_blocks_table:
  "fit_blocks 3 (initial_estimate 8) = 2013" "fit_blocks 4 (initial_estimate 16) = 1349"
  "fit_blocks 5 (initial_estimate 32) = 812" "fit_blocks 6 (initial_estimate 64) = 452"
  "fit_blocks 7 (initial_estimate 128) = 240" "fit_blocks 8 (initial_estimate 256) = 123"
  "fit_blocks 9 (initial_estimate 512) = 62" "fit_blocks 10 (initial_estimate 1024) = 31"
  "fit_blocks 11 (initial_estimate 2048) = 15" "fit_blocks 12 (initial_estimate 4096) = 7"
  by (simp_all add: eval_layout)

lemma less_10_cases:
  assumes "i < (10 :: nat)"
  obtains "i = 0" | "i = 1" | "i = 2" | "i = 3" | "i = 4" | "i = 5" | "i = 6" | "i = 7" | "i = 8" | "i = 9"
  using assms by fastforce

lemma compute_segment_layout_table:
  assumes "i < NUM_SUBHEAPS"
  shows "compute_segment_layout i = layout_with (i + 3) (num_blocks_table ! i)"
proof -
  have "i < 10" using assms by (simp add: layout_simps)
  then show ?thesis
    by (cases rule: less_10_cases)
      (simp_all add: compute_segment_layout_def layout_simps num_blocks_table_def fit_blocks_table Let_def)
qed

text \<open>
  What the rest of the collector needs to know of a layout.  The number of blocks is no multiple of
  32: otherwise the last word of the bitmap would consist of sentinel bits only, and the upper level,
  which \<open>init_segment\<close> leaves clear there, would send the search into a full word.
\<close>

definition layout_ok :: "segment_layout \<Rightarrow> bool" where
  "layout_ok l \<longleftrightarrow> l = layout_with (blocksize_log2 l) (num_blocks l)
     \<and> 3 \<le> blocksize_log2 l \<and> blocksize_log2 l \<le> 12
     \<and> num_blocks l mod 32 \<noteq> 0 \<and> block_limit l \<le> SEGMENT_SIZE"

lemma compute_segment_layout_ok:
  assumes "i < NUM_SUBHEAPS"
  shows "layout_ok (compute_segment_layout i)"
    and "blocksize_log2 (compute_segment_layout i) = i + 3"
    and "num_blocks (compute_segment_layout i) = num_blocks_table ! i"
proof -
  have i: "i < 10" using assms by (simp add: layout_simps)
  show g: "blocksize_log2 (compute_segment_layout i) = i + 3"
    and n: "num_blocks (compute_segment_layout i) = num_blocks_table ! i"
    by (simp_all add: compute_segment_layout_table[OF assms] layout_with_sel)
  have "num_blocks_table ! i mod 32 \<noteq> 0"
    using i by (cases rule: less_10_cases) (simp_all add: num_blocks_table_def)
  moreover have "block_limit (compute_segment_layout i) \<le> SEGMENT_SIZE"
    unfolding compute_segment_layout_def Let_def by (rule fit_blocks_fits)
  ultimately show "layout_ok (compute_segment_layout i)"
    using i by (simp add: layout_ok_def compute_segment_layout_table[OF assms] layout_with_sel(1,3))
qed

lemma layout_okE:
  assumes "layout_ok l"
  obtains g n where "l = layout_with g n" "3 \<le> g" "g \<le> 12" "n mod 32 \<noteq> 0"
    "block_limit (layout_with g n) \<le> SEGMENT_SIZE"
  using assms unfolding layout_ok_def by metis

text \<open>The last word of bitmap 0 has at least one bit that is not a sentinel.\<close>

lemma len1_of_eq: "n mod 32 \<noteq> 0 \<Longrightarrow> len1_of n = Suc (n div 32)"
proof -
  assume "n mod 32 \<noteq> 0"
  have "32 * len1_of n \<le> n + 32" "n < 32 * len1_of n" using bits0_of_props[of n] by auto
  then show ?thesis by linarith
qed

lemma layout_with_order:
  "BITMAP0_OFFSET < zerofill_limit (layout_with g n)"
  "zerofill_limit (layout_with g n) \<le> stack_offset (layout_with g n)"
  "stack_offset (layout_with g n) + sizeof_stack_slot * n + OBJ_HEADER_SIZE
     \<le> block_offset (layout_with g n)"
proof -
  have "32 dvd bits0_of n" "0 < bits0_of n" using bits0_of_props[of n] by auto
  then obtain k where "bits0_of n = 32 * k" "0 < k" by (metis dvdE gr_zeroI mult_0_right)
  then have "0 < bits0_of n div 8" by simp
  then show "BITMAP0_OFFSET < zerofill_limit (layout_with g n)"
    unfolding layout_with_sel layout_simps by linarith
  show "zerofill_limit (layout_with g n) \<le> stack_offset (layout_with g n)"
    by (simp add: layout_with_sel(9) CEILING_ge)
  show "stack_offset (layout_with g n) + sizeof_stack_slot * n + OBJ_HEADER_SIZE
      \<le> block_offset (layout_with g n)"
    by (simp add: layout_with_sel(10) CEILING_ge layout_simps)
qed

lemma block_offset_aligned:
  "3 \<le> g \<Longrightarrow> 8 dvd block_offset (layout_with g n)"
proof -
  assume g: "3 \<le> g"
  let ?a = "if 16 < (2 :: nat) ^ g then 16 else 2 ^ g"
  have "(8 :: nat) = 2 ^ 3" by simp
  then have "(8 :: nat) dvd 2 ^ g" using le_imp_power_dvd[OF g, of "2 :: nat"] by simp
  then have "(8 :: nat) dvd ?a" by simp
  moreover have "?a dvd block_offset (layout_with g n)" by (simp only: layout_with_sel(10) CEILING_dvd)
  ultimately show ?thesis by (rule dvd_trans)
qed

section \<open>Properties\<close>

text \<open>C22.  For every block size the regions of a segment follow each other without overlap inside
  the 32 kilobytes: header, mark bitmaps, collect bitmap, stack area, one object header before the
  first block, blocks.  Every region is nonempty and large enough for its contents, blocks are
  aligned to 8 bytes, and no larger number of blocks up to the first estimate would have fitted.\<close>

theorem compute_segment_layout_regions:
  assumes "i < NUM_SUBHEAPS"
  defines "l \<equiv> compute_segment_layout i"
  shows "blocksize_bytes l = 2 ^ (i + BLOCKSIZE_MIN_LOG2) \<and> 0 < num_blocks l
     \<and> bitmap_offset l ! 0 = BITMAP0_OFFSET
     \<and> num_blocks l < 8 * (bitmap_offset l ! 1 - bitmap_offset l ! 0)
     \<and> bitmap_offset l ! 1 - bitmap_offset l ! 0 < 32 * (bitmap_offset l ! 2 - bitmap_offset l ! 1)
     \<and> bitmap_offset l ! 2 + bitmap0_length l = zerofill_limit l
     \<and> bitmap0_length l = bitmap_offset l ! 1 - bitmap_offset l ! 0
     \<and> zerofill_limit l \<le> stack_offset l
     \<and> stack_offset l + sizeof_stack_slot * num_blocks l + OBJ_HEADER_SIZE \<le> block_offset l
     \<and> block_limit l = block_offset l + num_blocks l * blocksize_bytes l
     \<and> block_limit l \<le> SEGMENT_SIZE
     \<and> 8 dvd block_offset l
     \<and> (\<forall>k \<in> {num_blocks l<..initial_estimate (blocksize_bytes l)}.
          SEGMENT_SIZE < block_limit (layout_with (blocksize_log2 l) k))"
proof -
  define n where "n = num_blocks_table ! i"
  have l: "l = layout_with (i + 3) n"
    unfolding l_def n_def by (rule compute_segment_layout_table[OF assms(1)])
  have ok: "layout_ok l" unfolding l_def by (rule compute_segment_layout_ok[OF assms(1)])
  have n: "n mod 32 \<noteq> 0" "block_limit l \<le> SEGMENT_SIZE"
    using ok by (auto simp: layout_ok_def l layout_with_sel(3))
  have fit: "n = fit_blocks (i + 3) (initial_estimate (2 ^ (i + 3)))"
    using l unfolding l_def compute_segment_layout_def Let_def BLOCKSIZE_MIN_LOG2_def
    by (metis layout_with_sel(3))
  have max: "SEGMENT_SIZE < block_limit (layout_with (i + 3) k)"
    if "n < k" "k \<le> initial_estimate (2 ^ (i + 3))" for k
    using fit_blocks_maximal[of "i + 3" "initial_estimate (2 ^ (i + 3))" k] that fit by simp
  obtain q where q: "bits0_of n = 32 * q" "len1_of n = q"
    using bits0_of_props(4)[of n] by blast
  obtain r where r: "bits1_of n = 32 * r" using bits1_of_props(1)[of n] by blast
  have "n < 32 * q" "q < 32 * r" using bits0_of_props(2)[of n] bits1_of_props(2)[of n] q r by auto
  moreover have "0 < n" using n(1) by (cases n) auto
  ultimately show ?thesis
    using layout_with_order[of "i + 3" n] block_offset_aligned[of "i + 3" n] n max
    unfolding l
    by (simp add: layout_with_sel(1-8,11) q r layout_simps)
qed

theorem compute_segment_layout_regions_witness:
  "block_limit (compute_segment_layout 1) \<le> SEGMENT_SIZE \<and> (1 :: nat) < NUM_SUBHEAPS"
proof -
  have h: "(1 :: nat) < NUM_SUBHEAPS" by (simp add: NUM_SUBHEAPS_def)
  show ?thesis using compute_segment_layout_regions[OF h] h by blast
qed

end
