(* ===== verification/Object.thy ===== *)
theory Object
  imports SegLayout
begin

text \<open>
  The format of heap objects and the operations on them (object.h, object.c).

  \<^item> Memory is a map from byte addresses to bytes; words are little-endian.  Addresses are natural
    numbers: no object wraps around the address space.  \<open>NULL\<close> is address 0.
  \<^item> The header macros work on 32-bit words; \<open>OBJ_BITMAP\<close> is the word array after the payload.
  \<^item> \<open>sml_obj_equal\<close> is the polymorphic equality of SML.  It recurses along pointers, so it takes fuel;
    \<open>unfold\<close> gives the value an object stands for and the equality is shown to decide equality of
    these values, with the depth of the value as enough fuel.
  \<^item> Big integers belong to a library that is not part of the sources: the comparison
    \<open>sml_intinf_cmp\<close> is an argument.
\<close>

section \<open>Memory\<close>

type_synonym mem = "nat \<Rightarrow> u8"

primrec load_bytes :: "mem \<Rightarrow> nat \<Rightarrow> nat \<Rightarrow> nat" where
  "load_bytes m a 0 = 0"
| "load_bytes m a (Suc n) = unat (m a) + 256 * load_bytes m (Suc a) n"

primrec store_bytes :: "mem \<Rightarrow> nat \<Rightarrow> nat \<Rightarrow> nat \<Rightarrow> mem" where
  "store_bytes m a 0 v = m"
| "store_bytes m a (Suc n) v = store_bytes (m(a := of_nat (v mod 256))) (Suc a) n (v div 256)"

definition load32 :: "mem \<Rightarrow> nat \<Rightarrow> u32" where "load32 m a = of_nat (load_bytes m a 4)"
definition load64 :: "mem \<Rightarrow> nat \<Rightarrow> nat" where "load64 m a = load_bytes m a 8"
definition store32 :: "mem \<Rightarrow> nat \<Rightarrow> u32 \<Rightarrow> mem" where "store32 m a w = store_bytes m a 4 (unat w)"
definition store64 :: "mem \<Rightarrow> nat \<Rightarrow> nat \<Rightarrow> mem" where "store64 m a v = store_bytes m a 8 v"

text \<open>\<open>memcpy\<close> from a list of bytes.\<close>

primrec store_list :: "mem \<Rightarrow> nat \<Rightarrow> u8 list \<Rightarrow> mem" where
  "store_list m a [] = m"
| "store_list m a (b # bs) = store_list (m(a := b)) (Suc a) bs"

section \<open>Headers\<close>

definition OBJ_TYPE_MASK :: u32 where [obj_simps]: "OBJ_TYPE_MASK = 0x70000000"
definition OBJ_SIZE_MASK :: u32 where [obj_simps]: "OBJ_SIZE_MASK = 0x0fffffff"
definition OBJ_FLAG_SKIP :: u32 where [obj_simps]: "OBJ_FLAG_SKIP = 0x80000000"
definition OBJTYPE_UNBOXED_VECTOR :: u32 where [obj_simps]: "OBJTYPE_UNBOXED_VECTOR = 0x00000000"
definition OBJTYPE_BOXED_VECTOR :: u32 where [obj_simps]: "OBJTYPE_BOXED_VECTOR = 0x10000000"
definition OBJTYPE_UNBOXED_ARRAY :: u32 where [obj_simps]: "OBJTYPE_UNBOXED_ARRAY = 0x20000000"
definition OBJTYPE_BOXED_ARRAY :: u32 where [obj_simps]: "OBJTYPE_BOXED_ARRAY = 0x30000000"
definition OBJTYPE_RECORD :: u32 where [obj_simps]: "OBJTYPE_RECORD = 0x50000000"
definition OBJTYPE_INTINF :: u32 where [obj_simps]: "OBJTYPE_INTINF = 0x60000000"

definition OBJTYPE_IS_ARRAY :: "u32 \<Rightarrow> bool" where
  "OBJTYPE_IS_ARRAY w \<longleftrightarrow> w AND 0x60000000 = 0x20000000"

definition OBJ_HEADER_WORD :: "u32 \<Rightarrow> u32 \<Rightarrow> u32" where
  "OBJ_HEADER_WORD objtype payload = objtype OR payload"

definition OBJ_HEADER :: "mem \<Rightarrow> nat \<Rightarrow> u32" where "OBJ_HEADER m obj = load32 m (obj - 4)"
definition OBJ_TYPE :: "mem \<Rightarrow> nat \<Rightarrow> u32" where "OBJ_TYPE m obj = OBJ_HEADER m obj AND OBJ_TYPE_MASK"
definition OBJ_SIZE :: "mem \<Rightarrow> nat \<Rightarrow> nat" where
  "OBJ_SIZE m obj = unat (OBJ_HEADER m obj AND OBJ_SIZE_MASK)"
definition OBJ_BITMAP :: "mem \<Rightarrow> nat \<Rightarrow> nat" where "OBJ_BITMAP m obj = obj + OBJ_SIZE m obj"

definition OBJ_BITMAPS_LEN :: "nat \<Rightarrow> nat" where
  "OBJ_BITMAPS_LEN payload_size = (payload_size div 8 + 32 - 1) div 32"

definition OBJ_NUM_BITMAPS :: "mem \<Rightarrow> nat \<Rightarrow> nat" where
  "OBJ_NUM_BITMAPS m obj = OBJ_BITMAPS_LEN (OBJ_SIZE m obj)"

definition OBJ_TOTAL_SIZE :: "mem \<Rightarrow> nat \<Rightarrow> nat" where
  "OBJ_TOTAL_SIZE m obj = OBJ_HEADER_SIZE + OBJ_SIZE m obj
     + (if OBJ_TYPE m obj = OBJTYPE_RECORD then OBJ_NUM_BITMAPS m obj * 4 else 0)"

definition OBJ_STR_SIZE :: "mem \<Rightarrow> nat \<Rightarrow> nat" where "OBJ_STR_SIZE m obj = OBJ_SIZE m obj - 1"

text \<open>\<open>BITMAP_BIT\<close>: the result is \<open>TAG_UNBOXED\<close> (0) or \<open>TAG_BOXED\<close> (1).\<close>

definition BITMAP_BIT :: "mem \<Rightarrow> nat \<Rightarrow> nat \<Rightarrow> u32" where
  "BITMAP_BIT m bitmaps index = drop_bit (index mod 32) (load32 m (bitmaps + 4 * (index div 32))) AND 1"

definition TAG_UNBOXED :: u32 where [obj_simps]: "TAG_UNBOXED = 0"
definition TAG_BOXED :: u32 where [obj_simps]: "TAG_BOXED = 1"

text \<open>The \<open>i\<close>-th word of the payload, and its address.\<close>

definition field_addr :: "nat \<Rightarrow> nat \<Rightarrow> nat" where "field_addr obj i = obj + 8 * i"
definition field :: "mem \<Rightarrow> nat \<Rightarrow> nat \<Rightarrow> nat" where "field m obj i = load64 m (field_addr obj i)"
definition num_fields :: "mem \<Rightarrow> nat \<Rightarrow> nat" where "num_fields m obj = OBJ_SIZE m obj div 8"

section \<open>Polymorphic equality\<close>

datatype obj_error = Invalid_Type u32 | Out_Of_Fuel

text \<open>A C loop that returns 0 as soon as the test of an element fails.\<close>

fun all_ok :: "('a \<Rightarrow> obj_error + bool) \<Rightarrow> 'a list \<Rightarrow> obj_error + bool" where
  "all_ok f [] = Inr True"
| "all_ok f (x # xs) = (case f x of Inr True \<Rightarrow> all_ok f xs | r \<Rightarrow> r)"

text \<open>
  Objects of different types: only a record and a vector can be equal, when all fields of the record
  have the tag of the vector.  The result has the vector first.
\<close>

definition vector_tag :: "u32 \<Rightarrow> u32 option" where
  "vector_tag t = (if t = OBJTYPE_UNBOXED_VECTOR then Some TAG_UNBOXED
     else if t = OBJTYPE_BOXED_VECTOR then Some TAG_BOXED else None)"

definition mixed_types :: "mem \<Rightarrow> nat \<Rightarrow> nat \<Rightarrow> (nat \<times> nat) option" where
  "mixed_types m obj1 obj2 =
     (case (if OBJ_TYPE m obj1 = OBJTYPE_RECORD then Some (obj2, obj1)
            else if OBJ_TYPE m obj2 \<noteq> OBJTYPE_RECORD then None
            else Some (obj1, obj2)) of
        None \<Rightarrow> None
      | Some (o1, o2) \<Rightarrow>
         (case vector_tag (OBJ_TYPE m o1) of
            None \<Rightarrow> None
          | Some tag \<Rightarrow>
             if \<forall>i \<in> set [0..<num_fields m o2]. BITMAP_BIT m (OBJ_BITMAP m o2) i = tag
             then Some (o1, o2) else None))"

text \<open>\<open>memcmp\<close> for equality.\<close>

definition memeq :: "mem \<Rightarrow> nat \<Rightarrow> nat \<Rightarrow> nat \<Rightarrow> bool" where
  "memeq m a b n \<longleftrightarrow> (\<forall>i \<in> set [0..<n]. m (a + i) = m (b + i))"

fun sml_obj_equal :: "nat \<Rightarrow> (nat \<Rightarrow> nat \<Rightarrow> int) \<Rightarrow> mem \<Rightarrow> nat \<Rightarrow> nat \<Rightarrow> obj_error + bool" where
  "sml_obj_equal 0 intinf_cmp m obj1 obj2 = Inl Out_Of_Fuel"
| "sml_obj_equal (Suc n) intinf_cmp m obj1 obj2 =
     (if obj1 = obj2 then Inr True
      else if obj1 = 0 \<or> obj2 = 0 then Inr False
      else if OBJ_SIZE m obj1 \<noteq> OBJ_SIZE m obj2 then Inr False
      else case (if OBJ_TYPE m obj1 \<noteq> OBJ_TYPE m obj2 then mixed_types m obj1 obj2
                 else Some (obj1, obj2)) of
        None \<Rightarrow> Inr False
      | Some (o1, o2) \<Rightarrow>
         (if OBJ_TYPE m o1 = OBJTYPE_UNBOXED_ARRAY \<or> OBJ_TYPE m o1 = OBJTYPE_BOXED_ARRAY then Inr False
          else if OBJ_TYPE m o1 = OBJTYPE_UNBOXED_VECTOR then Inr (memeq m o1 o2 (OBJ_SIZE m o1))
          else if OBJ_TYPE m o1 = OBJTYPE_BOXED_VECTOR then
            all_ok (\<lambda>i. sml_obj_equal n intinf_cmp m (field m o1 i) (field m o2 i))
              [0..<num_fields m o1]
          else if OBJ_TYPE m o1 = OBJTYPE_INTINF then Inr (intinf_cmp o1 o2 = 0)
          else if OBJ_TYPE m o1 = OBJTYPE_RECORD then
            (if \<exists>i \<in> set [0..<OBJ_NUM_BITMAPS m o1].
                  load32 m (OBJ_BITMAP m o1 + 4 * i) \<noteq> load32 m (OBJ_BITMAP m o2 + 4 * i)
             then Inr False
             else all_ok (\<lambda>i. if BITMAP_BIT m (OBJ_BITMAP m o1) i = TAG_UNBOXED
                              then Inr (field m o1 i = field m o2 i)
                              else sml_obj_equal n intinf_cmp m (field m o1 i) (field m o2 i))
                    [0..<num_fields m o1])
          else Inl (Invalid_Type (OBJ_TYPE m o1))))"

section \<open>Enumeration of pointers\<close>

text \<open>\<open>sml_obj_enum_ptr\<close> calls \<open>trace\<close> on these slots, in this order.\<close>

definition sml_obj_enum_ptr :: "mem \<Rightarrow> nat \<Rightarrow> obj_error + nat list" where
  "sml_obj_enum_ptr m obj =
     (let t = OBJ_TYPE m obj in
      if t = OBJTYPE_UNBOXED_ARRAY \<or> t = OBJTYPE_UNBOXED_VECTOR \<or> t = OBJTYPE_INTINF then Inr []
      else if t = OBJTYPE_BOXED_ARRAY \<or> t = OBJTYPE_BOXED_VECTOR then
        Inr (map (field_addr obj) [0..<num_fields m obj])
      else if t = OBJTYPE_RECORD then
        Inr (map (field_addr obj)
               (filter (\<lambda>i. BITMAP_BIT m (OBJ_BITMAP m obj) i \<noteq> TAG_UNBOXED) [0..<num_fields m obj]))
      else Inl (Invalid_Type t))"

section \<open>Construction\<close>

text \<open>\<open>obj\<close> is the block that \<open>sml_alloc\<close> returned for \<open>payload_size\<close>.\<close>

definition sml_obj_alloc :: "mem \<Rightarrow> nat \<Rightarrow> u32 \<Rightarrow> nat \<Rightarrow> mem" where
  "sml_obj_alloc m obj objtype payload_size =
     store32 m (obj - 4) (OBJ_HEADER_WORD objtype (of_nat payload_size))"

definition sml_str_new2 :: "mem \<Rightarrow> nat \<Rightarrow> u8 list \<Rightarrow> mem" where
  "sml_str_new2 m obj str =
     (let m = sml_obj_alloc m obj OBJTYPE_UNBOXED_VECTOR (length str + 1);
          m = store_list m obj str
      in m(obj + length str := 0))"

text \<open>\<open>sml_str_new\<close> takes the bytes before the first null character.\<close>

definition sml_str_new :: "mem \<Rightarrow> nat \<Rightarrow> u8 list \<Rightarrow> mem" where
  "sml_str_new m obj str = sml_str_new2 m obj (takeWhile (\<lambda>c. c \<noteq> 0) str)"

definition sizeof_sml_intinf :: nat where "sizeof_sml_intinf = 16"

definition sml_intinf_new :: "mem \<Rightarrow> nat \<Rightarrow> mem" where
  "sml_intinf_new m obj = store32 m (obj - 4) (OBJ_HEADER_WORD OBJTYPE_INTINF (of_nat sizeof_sml_intinf))"


section \<open>The value of an object\<close>

datatype obj_value =
    VNull | VArray nat | VIntinf int | VBytes "u8 list" | VFields "obj_field list"
and obj_field = FWord nat | FObj obj_value

text \<open>
  The tag of a field: all fields of a boxed vector are pointers, those of a record have a bit in its
  bitmap.  The bits of a record's bitmap that stand for no field are clear, except in closures.
\<close>

definition tagged :: "mem \<Rightarrow> nat \<Rightarrow> nat \<Rightarrow> bool" where
  "tagged m obj i \<longleftrightarrow> OBJ_TYPE m obj = OBJTYPE_BOXED_VECTOR
     \<or> OBJ_TYPE m obj = OBJTYPE_RECORD \<and> BITMAP_BIT m (OBJ_BITMAP m obj) i \<noteq> TAG_UNBOXED"

definition spare_clear :: "mem \<Rightarrow> nat \<Rightarrow> bool" where
  "spare_clear m obj \<longleftrightarrow> (\<forall>w \<in> set [0..<OBJ_NUM_BITMAPS m obj]. \<forall>b \<in> set [0..<32].
     num_fields m obj \<le> 32 * w + b \<longrightarrow> \<not> bit (load32 m (OBJ_BITMAP m obj + 4 * w)) b)"

definition obj_bytes :: "mem \<Rightarrow> nat \<Rightarrow> u8 list" where
  "obj_bytes m obj = map (\<lambda>i. m (obj + i)) [0..<OBJ_SIZE m obj]"

definition plain_type :: "mem \<Rightarrow> nat \<Rightarrow> bool" where
  "plain_type m obj \<longleftrightarrow> OBJ_TYPE m obj = OBJTYPE_UNBOXED_VECTOR
     \<or> 8 dvd OBJ_SIZE m obj \<and>
       (OBJ_TYPE m obj = OBJTYPE_BOXED_VECTOR
        \<or> OBJ_TYPE m obj = OBJTYPE_RECORD \<and> 0 < OBJ_SIZE m obj \<and> spare_clear m obj)"

text \<open>
  An object without pointers is its bytes; otherwise it is its fields.  \<open>None\<close>: the depth exceeds the
  fuel, or the object is malformed.  A record has at least one field.
\<close>

fun unfold :: "nat \<Rightarrow> (nat \<Rightarrow> int) \<Rightarrow> mem \<Rightarrow> nat \<Rightarrow> obj_value option" where
  "unfold 0 ival m obj = None"
| "unfold (Suc n) ival m obj =
     (if obj = 0 then Some VNull
      else if OBJ_TYPE m obj = OBJTYPE_UNBOXED_ARRAY \<or> OBJ_TYPE m obj = OBJTYPE_BOXED_ARRAY
        then Some (VArray obj)
      else if OBJ_TYPE m obj = OBJTYPE_INTINF
        then (if OBJ_SIZE m obj = sizeof_sml_intinf then Some (VIntinf (ival obj)) else None)
      else if \<not> plain_type m obj then None
      else if OBJ_TYPE m obj \<noteq> OBJTYPE_BOXED_VECTOR
          \<and> (\<forall>i \<in> set [0..<num_fields m obj]. \<not> tagged m obj i)
        then Some (VBytes (obj_bytes m obj))
      else map_option VFields (those (map (\<lambda>i.
             if tagged m obj i then map_option FObj (unfold n ival m (field m obj i))
             else Some (FWord (field m obj i))) [0..<num_fields m obj])))"

section \<open>Facts about memory\<close>

lemma byte_carry: "unat (x :: u8) + 256 * p = unat y + 256 * q \<longleftrightarrow> x = y \<and> p = q"
proof
  have b: "unat x < 256" "unat y < 256" using unsigned_less[of x] unsigned_less[of y] by simp_all
  assume e: "unat x + 256 * p = unat y + 256 * q"
  then have "(unat x + 256 * p) mod 256 = (unat y + 256 * q) mod 256" by (rule arg_cong)
  then have "unat x = unat y" using b by simp
  then show "x = y \<and> p = q" using e by (simp add: word_unat_eq_iff)
qed simp

lemma load_bytes_eq_iff:
  "load_bytes m a n = load_bytes m' b n \<longleftrightarrow> (\<forall>i<n. m (a + i) = m' (b + i))"
proof (induction n arbitrary: a b)
  case (Suc n)
  have "(\<forall>i<Suc n. m (a + i) = m' (b + i))
      \<longleftrightarrow> m a = m' b \<and> (\<forall>i<n. m (Suc a + i) = m' (Suc b + i))"
    by (auto simp: less_Suc_eq_0_disj)
  then show ?case using Suc[of "Suc a" "Suc b"] by (simp add: byte_carry)
qed simp

lemma memeq_fields:
  assumes "8 dvd n"
  shows "memeq m a b n \<longleftrightarrow> (\<forall>i < n div 8. field m a i = field m b i)"
proof -
  have "memeq m a b n \<longleftrightarrow> (\<forall>k < n. m (a + k) = m (b + k))" by (auto simp: memeq_def)
  also have "\<dots> \<longleftrightarrow> (\<forall>i < n div 8. \<forall>j < 8. m (a + (8 * i + j)) = m (b + (8 * i + j)))"
  proof (intro iffI allI impI)
    fix k assume A: "\<forall>i<n div 8. \<forall>j<8. m (a + (8 * i + j)) = m (b + (8 * i + j))" and k: "k < n"
    obtain q where q: "n = 8 * q" using assms by blast
    have "k div 8 < n div 8" using k by (simp add: q less_mult_imp_div_less mult.commute)
    moreover have "k mod 8 < 8" by simp
    ultimately have "m (a + (8 * (k div 8) + k mod 8)) = m (b + (8 * (k div 8) + k mod 8))"
      using A by blast
    then show "m (a + k) = m (b + k)" by simp
  next
    fix i j assume A: "\<forall>k<n. m (a + k) = m (b + k)" and i: "i < n div 8" and j: "j < (8::nat)"
    have "8 * i + j < n" using i j by linarith
    then show "m (a + (8 * i + j)) = m (b + (8 * i + j))" using A by blast
  qed
  also have "\<dots> \<longleftrightarrow> (\<forall>i < n div 8. field m a i = field m b i)"
    by (simp add: field_def field_addr_def load64_def load_bytes_eq_iff add.assoc)
  finally show ?thesis .
qed

lemma memeq_bytes: "OBJ_SIZE m a = OBJ_SIZE m b \<Longrightarrow>
    memeq m a b (OBJ_SIZE m a) \<longleftrightarrow> obj_bytes m a = obj_bytes m b"
  by (auto simp: memeq_def obj_bytes_def)

lemma BITMAP_BIT_01: "BITMAP_BIT m b i = (if bit (load32 m (b + 4 * (i div 32))) (i mod 32) then 1 else 0)"
  by (auto simp: BITMAP_BIT_def and_one_eq odd_iff_mod_2_eq_one bit_iff_odd_drop_bit)

section \<open>Equality decides equality of values\<close>

lemma all_ok_Inr: "(\<And>x. x \<in> set xs \<Longrightarrow> f x = Inr (P x)) \<Longrightarrow> all_ok f xs = Inr (\<forall>x \<in> set xs. P x)"
  by (induction xs) (auto split: bool.splits)

lemma those_Some: "those xs = Some ys \<longleftrightarrow> xs = map Some ys"
proof (induction xs arbitrary: ys)
  case (Cons x xs)
  then show ?case by (cases x; cases ys) (auto split: option.splits)
qed auto

lemma those_upt_Some:
  "those (map f [0..<k]) = Some ys \<longleftrightarrow> length ys = k \<and> (\<forall>i<k. f i = Some (ys ! i))"
  unfolding those_Some by (auto simp: list_eq_iff_nth_eq)

lemma bitmaps_same:
  assumes "OBJ_SIZE m a = OBJ_SIZE m b" "spare_clear m a" "spare_clear m b"
  shows "(\<exists>i \<in> set [0..<OBJ_NUM_BITMAPS m a].
            load32 m (OBJ_BITMAP m a + 4 * i) \<noteq> load32 m (OBJ_BITMAP m b + 4 * i))
     \<longleftrightarrow> (\<exists>i < num_fields m a. BITMAP_BIT m (OBJ_BITMAP m a) i \<noteq> BITMAP_BIT m (OBJ_BITMAP m b) i)"
    (is "?L \<longleftrightarrow> ?R")
proof
  have n: "OBJ_NUM_BITMAPS m b = OBJ_NUM_BITMAPS m a" "num_fields m b = num_fields m a"
    using assms(1) by (simp_all add: OBJ_NUM_BITMAPS_def num_fields_def)
  assume ?L
  then obtain w where w: "w < OBJ_NUM_BITMAPS m a"
      "load32 m (OBJ_BITMAP m a + 4 * w) \<noteq> load32 m (OBJ_BITMAP m b + 4 * w)" by auto
  then obtain j where j: "j < 32"
      "bit (load32 m (OBJ_BITMAP m a + 4 * w)) j \<noteq> bit (load32 m (OBJ_BITMAP m b + 4 * w)) j"
    using word_eqI32 by blast
  have "\<not> num_fields m a \<le> 32 * w + j"
    using assms(2,3) w(1) j unfolding spare_clear_def n by (metis atLeast0LessThan lessThan_iff set_upt)
  moreover have "(32 * w + j) div 32 = w" "(32 * w + j) mod 32 = j" using j(1) by simp_all
  ultimately show ?R using j(2) by (intro exI[of _ "32 * w + j"]) (simp add: BITMAP_BIT_01)
next
  assume ?R
  then obtain i where i: "i < num_fields m a"
      "BITMAP_BIT m (OBJ_BITMAP m a) i \<noteq> BITMAP_BIT m (OBJ_BITMAP m b) i" by blast
  have "i div 32 < OBJ_NUM_BITMAPS m a"
    using i(1) by (simp add: OBJ_NUM_BITMAPS_def OBJ_BITMAPS_LEN_def num_fields_def)
  moreover have "load32 m (OBJ_BITMAP m a + 4 * (i div 32)) \<noteq> load32 m (OBJ_BITMAP m b + 4 * (i div 32))"
    using i(2) by (auto simp: BITMAP_BIT_01)
  ultimately show ?L by auto
qed


lemma all_ok_fields:
  assumes "those (map f [0..<k]) = Some xs" "those (map g [0..<k]) = Some ys"
    and "\<And>i x y. i < k \<Longrightarrow> f i = Some x \<Longrightarrow> g i = Some y \<Longrightarrow> h i = Inr (x = y)"
  shows "all_ok h [0..<k] = Inr (xs = ys)"
proof -
  have x: "length xs = k" "\<And>i. i < k \<Longrightarrow> f i = Some (xs ! i)"
    and y: "length ys = k" "\<And>i. i < k \<Longrightarrow> g i = Some (ys ! i)"
    using assms(1,2) by (simp_all add: those_upt_Some)
  have "all_ok h [0..<k] = Inr (\<forall>i \<in> set [0..<k]. xs ! i = ys ! i)"
    by (rule all_ok_Inr) (auto intro!: assms(3) x y)
  then show ?thesis by (simp add: list_eq_iff_nth_eq x(1) y(1) Ball_def)
qed

definition read_field :: "nat \<Rightarrow> (nat \<Rightarrow> int) \<Rightarrow> mem \<Rightarrow> nat \<Rightarrow> nat \<Rightarrow> obj_field option" where
  "read_field n ival m obj i = (if tagged m obj i then map_option FObj (unfold n ival m (field m obj i))
     else Some (FWord (field m obj i)))"

lemma unfold_cases [consumes 2, case_names Arr Intinf Bytes Fields]:
  assumes "unfold (Suc n) ival m obj = Some v" "obj \<noteq> 0"
  obtains "OBJ_TYPE m obj = OBJTYPE_UNBOXED_ARRAY \<or> OBJ_TYPE m obj = OBJTYPE_BOXED_ARRAY" "v = VArray obj"
  | "OBJ_TYPE m obj = OBJTYPE_INTINF" "OBJ_SIZE m obj = sizeof_sml_intinf" "v = VIntinf (ival obj)"
  | "plain_type m obj" "OBJ_TYPE m obj = OBJTYPE_UNBOXED_VECTOR \<or> OBJ_TYPE m obj = OBJTYPE_RECORD"
    "\<forall>i < num_fields m obj. \<not> tagged m obj i" "v = VBytes (obj_bytes m obj)"
  | fs where "plain_type m obj" "8 dvd OBJ_SIZE m obj"
    "OBJ_TYPE m obj = OBJTYPE_BOXED_VECTOR
     \<or> OBJ_TYPE m obj = OBJTYPE_RECORD \<and> (\<exists>i < num_fields m obj. tagged m obj i)"
    "those (map (read_field n ival m obj) [0..<num_fields m obj]) = Some fs" "v = VFields fs"
proof -
  consider (A) "OBJ_TYPE m obj = OBJTYPE_UNBOXED_ARRAY \<or> OBJ_TYPE m obj = OBJTYPE_BOXED_ARRAY"
    | (I) "OBJ_TYPE m obj = OBJTYPE_INTINF"
    | (P) "OBJ_TYPE m obj \<noteq> OBJTYPE_UNBOXED_ARRAY" "OBJ_TYPE m obj \<noteq> OBJTYPE_BOXED_ARRAY"
      "OBJ_TYPE m obj \<noteq> OBJTYPE_INTINF" by blast
  then show thesis
  proof cases
    case A
    then show thesis using assms that(1) by auto
  next
    case I
    then show thesis using assms that(2) by (auto simp: obj_simps split: if_splits)
  next
    case P
    have p: "plain_type m obj" using P assms by (auto split: if_splits)
    show thesis
    proof (cases "OBJ_TYPE m obj \<noteq> OBJTYPE_BOXED_VECTOR \<and> (\<forall>i < num_fields m obj. \<not> tagged m obj i)")
      case True
      then have "v = VBytes (obj_bytes m obj)" using P p assms by simp
      then show thesis using that(3) p True by (auto simp: plain_type_def)
    next
      case False
      have "map_option VFields (those (map (read_field n ival m obj) [0..<num_fields m obj])) = Some v"
        using P p assms(1) \<open>obj \<noteq> 0\<close> False
        by (simp add: read_field_def[abs_def] Ball_def if_not_P[OF False])
      then obtain fs where "those (map (read_field n ival m obj) [0..<num_fields m obj]) = Some fs"
        "v = VFields fs" by auto
      then show thesis using that(4) p False by (auto simp: plain_type_def tagged_def obj_simps)
    qed
  qed
qed

lemma obj_types_distinct:
  "OBJTYPE_UNBOXED_ARRAY \<noteq> OBJTYPE_BOXED_ARRAY" "OBJTYPE_UNBOXED_ARRAY \<noteq> OBJTYPE_UNBOXED_VECTOR"
  "OBJTYPE_UNBOXED_ARRAY \<noteq> OBJTYPE_BOXED_VECTOR" "OBJTYPE_UNBOXED_ARRAY \<noteq> OBJTYPE_INTINF"
  "OBJTYPE_UNBOXED_ARRAY \<noteq> OBJTYPE_RECORD" "OBJTYPE_BOXED_ARRAY \<noteq> OBJTYPE_UNBOXED_VECTOR"
  "OBJTYPE_BOXED_ARRAY \<noteq> OBJTYPE_BOXED_VECTOR" "OBJTYPE_BOXED_ARRAY \<noteq> OBJTYPE_INTINF"
  "OBJTYPE_BOXED_ARRAY \<noteq> OBJTYPE_RECORD" "OBJTYPE_UNBOXED_VECTOR \<noteq> OBJTYPE_BOXED_VECTOR"
  "OBJTYPE_UNBOXED_VECTOR \<noteq> OBJTYPE_INTINF" "OBJTYPE_UNBOXED_VECTOR \<noteq> OBJTYPE_RECORD"
  "OBJTYPE_BOXED_VECTOR \<noteq> OBJTYPE_INTINF" "OBJTYPE_BOXED_VECTOR \<noteq> OBJTYPE_RECORD"
  "OBJTYPE_INTINF \<noteq> OBJTYPE_RECORD"
  by (simp_all add: obj_simps)

lemmas obj_types = obj_types_distinct obj_types_distinct[symmetric]

lemma VFields_differ:
  assumes "those (map (read_field n ival m a) [0..<k]) = Some xs"
    and "those (map (read_field n ival m b) [0..<k']) = Some ys"
    and "i < k" "i < k'" "tagged m a i \<noteq> tagged m b i"
  shows "xs \<noteq> ys"
proof -
  have "read_field n ival m a i = Some (xs ! i)" "read_field n ival m b i = Some (ys ! i)"
    using assms(1-4) by (simp_all add: those_upt_Some)
  then show ?thesis
    using assms(5) by (auto simp: read_field_def split: if_splits) (metis obj_field.distinct(1))+
qed


lemma unfold_null: "unfold n ival m obj = Some v \<Longrightarrow> v = VNull \<longleftrightarrow> obj = 0"
proof (cases n)
  case (Suc k)
  assume u: "unfold n ival m obj = Some v"
  show ?thesis
  proof (cases "obj = 0")
    case False
    show ?thesis using u[unfolded Suc] False by (cases rule: unfold_cases) (use False in auto)
  qed (use u Suc in auto)
qed simp

lemma unfold_size:
  assumes "unfold (Suc n) ival m a = Some v" "unfold (Suc n) ival m b = Some v" "a \<noteq> 0" "b \<noteq> 0"
  shows "OBJ_SIZE m a = OBJ_SIZE m b"
  using assms(1,3)
proof (cases rule: unfold_cases)
  case A: Arr
  show ?thesis using assms(2,4) by (cases rule: unfold_cases) (use A in auto)
next
  case A: Intinf
  show ?thesis using assms(2,4) by (cases rule: unfold_cases) (use A in auto)
next
  case Bytes
  note A = Bytes(4)
  show ?thesis using assms(2,4)
    by (cases rule: unfold_cases) (use A in \<open>auto simp: obj_bytes_def dest: arg_cong[where f = length]\<close>)
next
  case (Fields fs)
  note A = Fields(2,4,5)
  show ?thesis using assms(2,4)
  proof (cases rule: unfold_cases)
    case (Fields gs)
    then have "num_fields m a = num_fields m b" using A by (auto simp: those_upt_Some)
    then show ?thesis using A(1) Fields(2) by (auto simp: num_fields_def)
  qed (use A in auto)
qed

lemma if_not_swap: "(if \<not> P then x else y) = (if P then y else x)" by simp

text \<open>Objects of one type.\<close>

lemma equal_same_type:
  assumes IH: "\<forall>a b v w. unfold n ival m a = Some v \<longrightarrow> unfold n ival m b = Some w \<longrightarrow>
      sml_obj_equal n icmp m a b = Inr (v = w)"
    and "unfold (Suc n) ival m a = Some v" "unfold (Suc n) ival m b = Some w" "a \<noteq> 0" "b \<noteq> 0" "a \<noteq> b"
    and "OBJ_SIZE m a = OBJ_SIZE m b" "OBJ_TYPE m a = OBJ_TYPE m b"
    and "icmp a b = 0 \<longleftrightarrow> ival a = ival b"
  shows "sml_obj_equal (Suc n) icmp m a b = Inr (v = w)"
proof -
  have nf: "num_fields m b = num_fields m a" using assms(7) by (simp add: num_fields_def)
  have field_eq: "(if tagged m a i then sml_obj_equal n icmp m (field m a i) (field m b i)
        else Inr (field m a i = field m b i)) = Inr (x = y)"
    if "read_field n ival m a i = Some x" "read_field n ival m b i = Some y" "tagged m a i = tagged m b i"
    for i x y
    using that by (auto simp: read_field_def IH split: if_splits)
  have rec: "sml_obj_equal (Suc n) icmp m a b =
      (if \<exists>i < num_fields m a. tagged m a i \<noteq> tagged m b i then Inr False
       else all_ok (\<lambda>i. if tagged m a i then sml_obj_equal n icmp m (field m a i) (field m b i)
                         else Inr (field m a i = field m b i)) [0..<num_fields m a])"
    if "OBJ_TYPE m a = OBJTYPE_RECORD" "plain_type m a" "plain_type m b"
  proof -
    have tb: "OBJ_TYPE m b = OBJTYPE_RECORD" using that(1) assms(8) by simp
    have tag: "tagged m a i \<longleftrightarrow> BITMAP_BIT m (OBJ_BITMAP m a) i \<noteq> TAG_UNBOXED"
      "tagged m b i \<longleftrightarrow> BITMAP_BIT m (OBJ_BITMAP m b) i \<noteq> TAG_UNBOXED" for i
      using that(1) tb by (simp_all add: tagged_def obj_types)
    have dif: "BITMAP_BIT m (OBJ_BITMAP m a) i \<noteq> BITMAP_BIT m (OBJ_BITMAP m b) i
        \<longleftrightarrow> tagged m a i \<noteq> tagged m b i" for i
      by (simp add: tag BITMAP_BIT_01 TAG_UNBOXED_def)
    have sp: "spare_clear m a" "spare_clear m b"
      using that tb by (auto simp: plain_type_def obj_types)
    have "sml_obj_equal (Suc n) icmp m a b =
       (if \<exists>i \<in> set [0..<OBJ_NUM_BITMAPS m a].
             load32 m (OBJ_BITMAP m a + 4 * i) \<noteq> load32 m (OBJ_BITMAP m b + 4 * i)
        then Inr False
        else all_ok (\<lambda>i. if BITMAP_BIT m (OBJ_BITMAP m a) i = TAG_UNBOXED
                         then Inr (field m a i = field m b i)
                         else sml_obj_equal n icmp m (field m a i) (field m b i))
               [0..<num_fields m a])"
      by (simp only: sml_obj_equal.simps assms(4-8) that(1) tb obj_types if_False if_True
            option.case prod.case simp_thms not_False_eq_True)
    also have "\<dots> = (if \<exists>i < num_fields m a. tagged m a i \<noteq> tagged m b i then Inr False
       else all_ok (\<lambda>i. if tagged m a i then sml_obj_equal n icmp m (field m a i) (field m b i)
                         else Inr (field m a i = field m b i)) [0..<num_fields m a])"
      unfolding bitmaps_same[OF assms(7) sp] dif by (simp only: tag if_not_swap)
    finally show ?thesis .
  qed
  show ?thesis using assms(2,4)
  proof (cases rule: unfold_cases)
    case A: Arr
    show ?thesis using assms(3,5)
      by (cases rule: unfold_cases) (use A assms(4-8) in \<open>auto simp: obj_types\<close>)
  next
    case A: Intinf
    show ?thesis using assms(3,5)
      by (cases rule: unfold_cases) (use A assms(4-9) in \<open>auto simp: obj_types\<close>)
  next
    case A: Bytes
    show ?thesis
    proof (cases "OBJ_TYPE m a = OBJTYPE_RECORD")
      case False
      then have t: "OBJ_TYPE m a = OBJTYPE_UNBOXED_VECTOR" "OBJ_TYPE m b = OBJTYPE_UNBOXED_VECTOR"
        using A(2) assms(8) by auto
      have "w = VBytes (obj_bytes m b)"
        using assms(3,5) by (cases rule: unfold_cases) (use t in \<open>auto simp: obj_types\<close>)
      then show ?thesis using t assms(4-8) A(4) memeq_bytes[OF assms(7)] by (simp add: obj_types)
    next
      case True
      have d: "8 dvd OBJ_SIZE m a" using A(1) True by (simp add: plain_type_def obj_types)
      show ?thesis using assms(3,5)
      proof (cases rule: unfold_cases)
        case B: Bytes
        have "sml_obj_equal (Suc n) icmp m a b
            = Inr (\<forall>i \<in> set [0..<num_fields m a]. field m a i = field m b i)"
        proof -
          have "\<not> (\<exists>i < num_fields m a. tagged m a i \<noteq> tagged m b i)" using A(3) B(3) nf by simp
          moreover have "all_ok (\<lambda>i. if tagged m a i then sml_obj_equal n icmp m (field m a i) (field m b i)
                         else Inr (field m a i = field m b i)) [0..<num_fields m a]
              = Inr (\<forall>i \<in> set [0..<num_fields m a]. field m a i = field m b i)"
            by (rule all_ok_Inr) (simp add: A(3))
          ultimately show ?thesis unfolding rec[OF True A(1) B(1)] by (simp only: if_False)
        qed
        also have "\<dots> = Inr (v = w)"
          using memeq_fields[OF d, of m a b] memeq_bytes[OF assms(7)] A(4) B(4)
          by (simp add: num_fields_def Ball_def)
        finally show ?thesis .
      next
        case B: (Fields gs)
        then have "\<exists>i < num_fields m a. tagged m a i \<noteq> tagged m b i"
          using A(3) True assms(8) nf by (auto simp: obj_types)
        then show ?thesis using rec[OF True A(1) B(1)] A(4) B(5) by simp
      qed (use True assms(8) in \<open>auto simp: obj_types\<close>)
    qed
  next
    case A: (Fields fs)
    show ?thesis using assms(3,5)
    proof (cases rule: unfold_cases)
      case B: Bytes
      then have t: "OBJ_TYPE m a = OBJTYPE_RECORD" "\<exists>i < num_fields m a. tagged m a i"
        using A(3) assms(8) by (auto simp: obj_types)
      then have "\<exists>i < num_fields m a. tagged m a i \<noteq> tagged m b i" using B(3) nf by auto
      then show ?thesis using rec[OF t(1) A(1) B(1)] A(5) B(4) by simp
    next
      case B: (Fields gs)
      note fs = A(4) B(4)[unfolded nf]
      show ?thesis
      proof (cases "\<exists>i < num_fields m a. tagged m a i \<noteq> tagged m b i")
        case True
        then have "OBJ_TYPE m a = OBJTYPE_RECORD" using A(3) assms(8) by (auto simp: tagged_def)
        moreover have "fs \<noteq> gs" using True VFields_differ[OF fs] by blast
        ultimately show ?thesis using rec A(1,5) B(1,5) True by simp
      next
        case False
        have "all_ok (\<lambda>i. if tagged m a i then sml_obj_equal n icmp m (field m a i) (field m b i)
              else Inr (field m a i = field m b i)) [0..<num_fields m a] = Inr (fs = gs)"
          by (rule all_ok_fields[OF fs]) (use field_eq False in blast)
        moreover have bv: "sml_obj_equal (Suc n) icmp m a b
          = all_ok (\<lambda>i. if tagged m a i then sml_obj_equal n icmp m (field m a i) (field m b i)
              else Inr (field m a i = field m b i)) [0..<num_fields m a]"
          if "OBJ_TYPE m a = OBJTYPE_BOXED_VECTOR"
          using that assms(4-8) by (simp add: obj_types tagged_def)
        moreover have "sml_obj_equal (Suc n) icmp m a b
          = all_ok (\<lambda>i. if tagged m a i then sml_obj_equal n icmp m (field m a i) (field m b i)
              else Inr (field m a i = field m b i)) [0..<num_fields m a]"
          if "OBJ_TYPE m a = OBJTYPE_RECORD"
          unfolding rec[OF that A(1) B(1)] using False by (rule if_not_P)
        ultimately show ?thesis using A(3,5) B(5)
          by (elim disjE conjE) (simp_all del: sml_obj_equal.simps)
      qed
    qed (use A(3) assms(8) in \<open>auto simp: obj_types\<close>)
  qed
qed


text \<open>A vector and a record of the same size.\<close>

lemma vector_record:
  assumes IH: "\<forall>a b v w. unfold n ival m a = Some v \<longrightarrow> unfold n ival m b = Some w \<longrightarrow>
      sml_obj_equal n icmp m a b = Inr (v = w)"
    and "unfold (Suc n) ival m a = Some v" "unfold (Suc n) ival m b = Some w" "a \<noteq> 0" "b \<noteq> 0"
    and "OBJ_SIZE m a = OBJ_SIZE m b" "OBJ_TYPE m b = OBJTYPE_RECORD"
    and "vector_tag (OBJ_TYPE m a) = Some tag"
  defines "all_tag \<equiv> \<forall>i \<in> set [0..<num_fields m b]. BITMAP_BIT m (OBJ_BITMAP m b) i = tag"
  shows "\<not> all_tag \<Longrightarrow> v \<noteq> w"
    and "all_tag \<Longrightarrow> OBJ_TYPE m a = OBJTYPE_UNBOXED_VECTOR \<Longrightarrow> memeq m a b (OBJ_SIZE m a) \<longleftrightarrow> v = w"
    and "all_tag \<Longrightarrow> OBJ_TYPE m a = OBJTYPE_BOXED_VECTOR \<Longrightarrow>
      all_ok (\<lambda>i. sml_obj_equal n icmp m (field m a i) (field m b i)) [0..<num_fields m a] = Inr (v = w)"
proof -
  have nf: "num_fields m b = num_fields m a" using assms(6) by (simp add: num_fields_def)
  have tag: "tagged m b i \<longleftrightarrow> BITMAP_BIT m (OBJ_BITMAP m b) i \<noteq> TAG_UNBOXED" for i
    using assms(7) by (simp add: tagged_def obj_types)
  have kind: "tag = TAG_UNBOXED \<and> OBJ_TYPE m a = OBJTYPE_UNBOXED_VECTOR
      \<or> tag = TAG_BOXED \<and> OBJ_TYPE m a = OBJTYPE_BOXED_VECTOR"
    using assms(8) by (auto simp: vector_tag_def split: if_splits)
  have all: "all_tag \<longleftrightarrow> (\<forall>i < num_fields m a. tagged m b i = (OBJ_TYPE m a = OBJTYPE_BOXED_VECTOR))"
    using kind by (auto simp: all_tag_def tag nf BITMAP_BIT_01 TAG_UNBOXED_def TAG_BOXED_def obj_types)
  have b: "plain_type m b" "w = VBytes (obj_bytes m b) \<and> (\<forall>i < num_fields m a. \<not> tagged m b i)
     \<or> (\<exists>gs. w = VFields gs \<and> those (map (read_field n ival m b) [0..<num_fields m a]) = Some gs
         \<and> (\<exists>i < num_fields m a. tagged m b i))"
    using assms(3,5) by (cases rule: unfold_cases; use assms(7) nf in \<open>auto simp: obj_types\<close>)+
  have nz: "0 < num_fields m a" using b(1) assms(6,7)
    by (auto simp: plain_type_def obj_types num_fields_def)
  have av: "(OBJ_TYPE m a = OBJTYPE_UNBOXED_VECTOR \<longrightarrow> v = VBytes (obj_bytes m a))
     \<and> (OBJ_TYPE m a = OBJTYPE_BOXED_VECTOR \<longrightarrow>
         (\<exists>fs. v = VFields fs \<and> those (map (read_field n ival m a) [0..<num_fields m a]) = Some fs))"
    using assms(2,4) by (cases rule: unfold_cases) (auto simp: obj_types)
  have ta: "OBJ_TYPE m a = OBJTYPE_BOXED_VECTOR \<Longrightarrow> tagged m a i" for i by (simp add: tagged_def)
  show "v \<noteq> w" if nt: "\<not> all_tag"
  proof (cases "OBJ_TYPE m a = OBJTYPE_BOXED_VECTOR")
    case True
    then obtain i where i: "i < num_fields m a" "\<not> tagged m b i" using nt all by auto
    obtain fs where fs: "v = VFields fs"
        "those (map (read_field n ival m a) [0..<num_fields m a]) = Some fs" using av True by blast
    show ?thesis using b(2)
    proof (elim disjE exE conjE)
      fix gs assume "w = VFields gs" "those (map (read_field n ival m b) [0..<num_fields m a]) = Some gs"
      then show ?thesis using VFields_differ[OF fs(2) _ i(1) i(1)] ta[OF True] i(2) fs(1) by blast
    qed (simp add: fs(1))
  next
    case False
    then show ?thesis using nt all b(2) av kind by auto
  qed
  show "memeq m a b (OBJ_SIZE m a) \<longleftrightarrow> v = w" if "all_tag" "OBJ_TYPE m a = OBJTYPE_UNBOXED_VECTOR"
    using that all b(2) av memeq_bytes[OF assms(6)] by (auto simp: obj_types)
  show "all_ok (\<lambda>i. sml_obj_equal n icmp m (field m a i) (field m b i)) [0..<num_fields m a] = Inr (v = w)"
    if A: "all_tag" "OBJ_TYPE m a = OBJTYPE_BOXED_VECTOR"
  proof -
    have tb: "\<And>i. i < num_fields m a \<Longrightarrow> tagged m b i" using A all by auto
    obtain fs where fs: "v = VFields fs"
        "those (map (read_field n ival m a) [0..<num_fields m a]) = Some fs" using av A(2) by blast
    obtain gs where gs: "w = VFields gs"
        "those (map (read_field n ival m b) [0..<num_fields m a]) = Some gs"
      using b(2) tb[OF nz] nz by blast
    have "all_ok (\<lambda>i. sml_obj_equal n icmp m (field m a i) (field m b i)) [0..<num_fields m a]
        = Inr (fs = gs)"
      by (rule all_ok_fields[OF fs(2) gs(2)]) (auto simp: read_field_def ta[OF A(2)] tb IH)
    then show ?thesis by (simp add: fs(1) gs(1))
  qed
qed

lemma equal_step_mixed:
  assumes "a \<noteq> b" "a \<noteq> 0" "b \<noteq> 0" "OBJ_SIZE m a = OBJ_SIZE m b" "OBJ_TYPE m a \<noteq> OBJ_TYPE m b"
  shows "mixed_types m a b = None \<Longrightarrow> sml_obj_equal (Suc n) icmp m a b = Inr False"
    and "mixed_types m a b = Some (x, y) \<Longrightarrow> OBJ_TYPE m x = OBJTYPE_UNBOXED_VECTOR \<Longrightarrow>
      sml_obj_equal (Suc n) icmp m a b = Inr (memeq m x y (OBJ_SIZE m x))"
    and "mixed_types m a b = Some (x, y) \<Longrightarrow> OBJ_TYPE m x = OBJTYPE_BOXED_VECTOR \<Longrightarrow>
      sml_obj_equal (Suc n) icmp m a b
      = all_ok (\<lambda>i. sml_obj_equal n icmp m (field m x i) (field m y i)) [0..<num_fields m x]"
  using assms by (simp_all only: sml_obj_equal.simps obj_types if_False if_True simp_thms
      not_False_eq_True option.case prod.case)

lemma mixed_types_record:
  assumes "OBJ_TYPE m b = OBJTYPE_RECORD" "vector_tag (OBJ_TYPE m a) = Some tag"
  defines "r \<equiv> if \<forall>i \<in> set [0..<num_fields m b]. BITMAP_BIT m (OBJ_BITMAP m b) i = tag
      then Some (a, b) else None"
  shows "mixed_types m a b = r" "mixed_types m b a = r"
proof -
  have "OBJ_TYPE m a \<noteq> OBJTYPE_RECORD" using assms(2) by (auto simp: vector_tag_def obj_types)
  then show "mixed_types m a b = r" "mixed_types m b a = r"
    using assms(1,2) by (simp_all add: mixed_types_def r_def)
qed

lemma equal_mixed:
  assumes IH: "\<forall>a b v w. unfold n ival m a = Some v \<longrightarrow> unfold n ival m b = Some w \<longrightarrow>
      sml_obj_equal n icmp m a b = Inr (v = w)"
    and "unfold (Suc n) ival m a = Some v" "unfold (Suc n) ival m b = Some w" "a \<noteq> 0" "b \<noteq> 0" "a \<noteq> b"
    and "OBJ_SIZE m a = OBJ_SIZE m b" "OBJ_TYPE m a \<noteq> OBJ_TYPE m b"
  shows "sml_obj_equal (Suc n) icmp m a b = Inr (v = w)"
proof -
  consider (B) tag where "OBJ_TYPE m b = OBJTYPE_RECORD" "vector_tag (OBJ_TYPE m a) = Some tag"
    | (A) tag where "OBJ_TYPE m a = OBJTYPE_RECORD" "vector_tag (OBJ_TYPE m b) = Some tag"
    | (N) "OBJ_TYPE m a = OBJTYPE_RECORD \<Longrightarrow> vector_tag (OBJ_TYPE m b) = None"
      "OBJ_TYPE m b = OBJTYPE_RECORD \<Longrightarrow> vector_tag (OBJ_TYPE m a) = None"
    by (cases "vector_tag (OBJ_TYPE m a)"; cases "vector_tag (OBJ_TYPE m b)") auto
  then show ?thesis
  proof cases
    case B
    have t: "OBJ_TYPE m a = OBJTYPE_UNBOXED_VECTOR \<or> OBJ_TYPE m a = OBJTYPE_BOXED_VECTOR"
      using B(2) by (auto simp: vector_tag_def split: if_splits)
    note vr = vector_record[OF IH assms(2,3,4,5,7) B] and es = equal_step_mixed[OF assms(6,4,5,7,8)]
    show ?thesis
    proof (cases "\<forall>i \<in> set [0..<num_fields m b]. BITMAP_BIT m (OBJ_BITMAP m b) i = tag")
      case True
      then have "mixed_types m a b = Some (a, b)" unfolding mixed_types_record[OF B] by (rule if_P)
      then show ?thesis using t es(2,3) vr(2,3)[OF True] 
        by (elim disjE) (simp_all del: sml_obj_equal.simps add: eq_commute[of v w])
    next
      case False
      then have "mixed_types m a b = None" unfolding mixed_types_record[OF B] by (rule if_not_P)
      then show ?thesis using es(1) vr(1)[OF False] by simp
    qed
  next
    case A
    have t: "OBJ_TYPE m b = OBJTYPE_UNBOXED_VECTOR \<or> OBJ_TYPE m b = OBJTYPE_BOXED_VECTOR"
      using A(2) by (auto simp: vector_tag_def split: if_splits)
    note vr = vector_record[OF IH assms(3,2,5,4) assms(7)[symmetric] A]
      and es = equal_step_mixed[OF assms(6,4,5,7,8)]
    show ?thesis
    proof (cases "\<forall>i \<in> set [0..<num_fields m a]. BITMAP_BIT m (OBJ_BITMAP m a) i = tag")
      case True
      then have "mixed_types m a b = Some (b, a)" unfolding mixed_types_record[OF A] by (rule if_P)
      then show ?thesis using t es(2,3) vr(2,3)[OF True] 
        by (elim disjE) (simp_all del: sml_obj_equal.simps add: eq_commute[of v w])
    next
      case False
      then have "mixed_types m a b = None" unfolding mixed_types_record[OF A] by (rule if_not_P)
      then show ?thesis using es(1) vr(1)[OF False] by simp
    qed
  next
    case N
    have "mixed_types m a b = None"
      using N assms(8) by (auto simp: mixed_types_def)
    moreover have "v \<noteq> w"
      using assms(2,4)
    proof (cases rule: unfold_cases)
      case C: Arr
      show ?thesis using assms(3,5) by (cases rule: unfold_cases) (use C assms(6) in auto)
    next
      case C: Intinf
      show ?thesis using assms(3,5) by (cases rule: unfold_cases) (use C assms(8) in auto)
    next
      case C: Bytes
      show ?thesis using assms(3,5)
        by (cases rule: unfold_cases) (use C assms(8) N in \<open>auto simp: vector_tag_def obj_types\<close>)
    next
      case C: (Fields fs)
      show ?thesis using assms(3,5)
        by (cases rule: unfold_cases) (use C assms(8) N in \<open>auto simp: vector_tag_def obj_types\<close>)
    qed
    ultimately show ?thesis using assms(4-8) by simp
  qed
qed


lemma equal_decides:
  "unfold n ival m a = Some v \<Longrightarrow> unfold n ival m b = Some w \<Longrightarrow>
   (\<And>x y. icmp x y = 0 \<longleftrightarrow> ival x = ival y) \<Longrightarrow> sml_obj_equal n icmp m a b = Inr (v = w)"
proof (induction n arbitrary: a b v w)
  case (Suc n)
  have IH: "\<forall>a b v w. unfold n ival m a = Some v \<longrightarrow> unfold n ival m b = Some w \<longrightarrow>
      sml_obj_equal n icmp m a b = Inr (v = w)" using Suc.IH Suc.prems(3) by blast
  show ?case
  proof (cases "a = b \<or> a = 0 \<or> b = 0")
    case True
    then show ?thesis
      using Suc.prems(1,2) unfold_null[OF Suc.prems(1)] unfold_null[OF Suc.prems(2)]
      by (auto simp del: unfold.simps)
  next
    case False
    show ?thesis
    proof (cases "OBJ_SIZE m a = OBJ_SIZE m b")
      case sz: True
      show ?thesis
        using equal_same_type[OF IH Suc.prems(1,2) _ _ _ sz _ Suc.prems(3)]
          equal_mixed[OF IH Suc.prems(1,2) _ _ _ sz] False by (cases "OBJ_TYPE m a = OBJ_TYPE m b") simp_all
    next
      case sz: False
      have "v \<noteq> w"
      proof
        assume "v = w"
        then have "unfold (Suc n) ival m b = Some v" using Suc.prems(2) by (simp only:)
        then show False using unfold_size[OF Suc.prems(1)] sz False by (simp del: unfold.simps)
      qed
      then show ?thesis using sz False by simp
    qed
  qed
qed simp

section \<open>Writing objects\<close>

lemma store_bytes_other: "x < a \<or> a + n \<le> x \<Longrightarrow> store_bytes m a n v x = m x"
  by (induction n arbitrary: m a v) auto

lemma load_bytes_cong: "(\<And>i. i < n \<Longrightarrow> m (a + i) = m' (a + i)) \<Longrightarrow> load_bytes m a n = load_bytes m' a n"
  by (simp add: load_bytes_eq_iff)

lemma load_store_bytes: "load_bytes (store_bytes m a n v) a n = v mod 256 ^ n"
proof (induction n arbitrary: m a v)
  case (Suc n)
  have "store_bytes (m(a := of_nat (v mod 256))) (Suc a) n (v div 256) a = of_nat (v mod 256)"
    by (simp add: store_bytes_other)
  then show ?case by (simp add: Suc unsigned_of_nat mod_mult2_eq take_bit_eq_mod)
qed simp

lemma load32_store32 [mem_simps]: "load32 (store32 m a w) a = w"
proof -
  have "unat w < 2 ^ 32" using unsigned_less[of w] by simp
  then show ?thesis by (simp add: load32_def store32_def load_store_bytes)
qed

lemma load64_store64 [mem_simps]: "v < 2 ^ 64 \<Longrightarrow> load64 (store64 m a v) a = v"
  by (simp add: load64_def store64_def load_store_bytes)

lemma load32_other [mem_simps]:
  "(\<And>i. i < 4 \<Longrightarrow> m' (a + i) = m (a + i)) \<Longrightarrow> load32 m' a = load32 m a"
  by (simp add: load32_def load_bytes_cong[of 4 m' a m])

lemma store_list_other: "x < a \<or> a + length bs \<le> x \<Longrightarrow> store_list m a bs x = m x"
  by (induction bs arbitrary: m a) auto

lemma store_list_nth: "i < length bs \<Longrightarrow> store_list m a bs (a + i) = bs ! i"
proof (induction bs arbitrary: m a i)
  case (Cons b bs)
  then show ?case
    by (cases i) (simp_all add: store_list_other flip: add_Suc)
qed simp

lemma header_word_fields:
  assumes "sz < 2 ^ 28" "t AND OBJ_SIZE_MASK = 0" "t AND OBJ_TYPE_MASK = t"
  shows "unat (OBJ_HEADER_WORD t (of_nat sz) AND OBJ_SIZE_MASK) = sz"
    and "OBJ_HEADER_WORD t (of_nat sz) AND OBJ_TYPE_MASK = t"
proof -
  let ?s = "of_nat sz :: u32"
  have us: "unat ?s = sz" using assms(1) by (simp add: unsigned_of_nat take_bit_nat_eq_self)
  have m: "OBJ_SIZE_MASK = mask 28" by (simp add: OBJ_SIZE_MASK_def mask_eq_exp_minus_1)
  have a: "?s AND OBJ_SIZE_MASK = ?s"
    unfolding m by (rule less_mask_eq) (use us assms(1) in \<open>simp add: word_less_nat_alt\<close>)
  have "?s AND OBJ_TYPE_MASK = (?s AND OBJ_SIZE_MASK) AND OBJ_TYPE_MASK" by (simp add: a)
  also have "\<dots> = 0" by (simp add: and.assoc obj_simps)
  finally have b: "?s AND OBJ_TYPE_MASK = 0" .
  show "unat (OBJ_HEADER_WORD t ?s AND OBJ_SIZE_MASK) = sz"
    by (simp add: OBJ_HEADER_WORD_def bit.conj_disj_distrib2 assms(2) a us)
  show "OBJ_HEADER_WORD t ?s AND OBJ_TYPE_MASK = t"
    by (simp add: OBJ_HEADER_WORD_def bit.conj_disj_distrib2 assms(3) b)
qed

lemma obj_alloc_header:
  assumes "payload < 2 ^ 28" "t AND OBJ_SIZE_MASK = 0" "t AND OBJ_TYPE_MASK = t"
  shows "OBJ_SIZE (sml_obj_alloc m obj t payload) obj = payload"
    and "OBJ_TYPE (sml_obj_alloc m obj t payload) obj = t"
  using header_word_fields[OF assms]
  by (simp_all add: OBJ_SIZE_def OBJ_TYPE_def OBJ_HEADER_def sml_obj_alloc_def load32_store32)

lemma str_new_facts:
  fixes m :: mem
  assumes "length str + 1 < 2 ^ 28" "4 \<le> obj"
  defines "m' \<equiv> sml_str_new2 m obj str"
  shows "OBJ_TYPE m' obj = OBJTYPE_UNBOXED_VECTOR" "OBJ_STR_SIZE m' obj = length str"
    and "obj_bytes m' obj = str @ [0]"
    and "a < obj - 4 \<or> obj + length str < a \<Longrightarrow> m' a = m a"
proof -
  let ?h = "sml_obj_alloc m obj OBJTYPE_UNBOXED_VECTOR (length str + 1)"
  have keep: "load32 m' (obj - 4) = load32 ?h (obj - 4)"
  proof (rule load32_other)
    fix i :: nat assume "i < 4"
    then have "obj - 4 + i < obj" using assms(2) by simp
    then show "m' (obj - 4 + i) = ?h (obj - 4 + i)" by (simp add: m'_def sml_str_new2_def store_list_other)
  qed
  have s: "OBJ_SIZE m' obj = length str + 1" "OBJ_TYPE m' obj = OBJTYPE_UNBOXED_VECTOR"
    using obj_alloc_header[OF assms(1), of OBJTYPE_UNBOXED_VECTOR m obj] keep
    by (simp_all add: OBJ_SIZE_def OBJ_TYPE_def OBJ_HEADER_def OBJTYPE_UNBOXED_VECTOR_def)
  show "OBJ_TYPE m' obj = OBJTYPE_UNBOXED_VECTOR" "OBJ_STR_SIZE m' obj = length str"
    using s by (simp_all add: OBJ_STR_SIZE_def)
  show "obj_bytes m' obj = str @ [0]"
  proof (rule nth_equalityI)
    show "length (obj_bytes m' obj) = length (str @ [0])" by (simp add: obj_bytes_def s)
    fix i assume "i < length (obj_bytes m' obj)"
    then have i: "i < length str + 1" by (simp add: obj_bytes_def s)
    then have "obj_bytes m' obj ! i = m' (obj + i)" by (simp add: obj_bytes_def s del: upt_Suc)
    also have "\<dots> = (str @ [0]) ! i"
      using i by (auto simp: m'_def sml_str_new2_def nth_append store_list_nth)
    finally show "obj_bytes m' obj ! i = (str @ [0]) ! i" .
  qed
  show "m' a = m a" if "a < obj - 4 \<or> obj + length str < a"
  proof -
    have x: "a < obj \<or> obj + length str \<le> a" "a < obj - 4 \<or> (obj - 4) + 4 \<le> a" "a \<noteq> obj + length str"
      using that assms(2) by auto
    show ?thesis unfolding m'_def sml_str_new2_def Let_def sml_obj_alloc_def store32_def
      by (simp add: x(3) store_list_other[OF x(1)] store_bytes_other[OF x(2)])
  qed
qed


section \<open>Properties\<close>

text \<open>C15.  \<open>sml_obj_equal\<close> decides structural equality: when two objects stand for the values \<open>v\<close> and
  \<open>w\<close> (of depth below the fuel), it returns, and the answer is whether the values are the same;
  arrays are compared by address, big integers by value, and a record equals a vector that has the
  same fields.\<close>

theorem sml_obj_equal_decides:
  assumes "unfold n ival m obj1 = Some v" "unfold n ival m obj2 = Some w"
    and "\<forall>x y. intinf_cmp x y = 0 \<longleftrightarrow> ival x = ival y"
  shows "sml_obj_equal n intinf_cmp m obj1 obj2 = Inr (v = w)"
  using equal_decides[OF assms(1,2)] assms(3) by blast

text \<open>Two one-character strings, a vector that holds the first and a record that holds the second.\<close>

definition sample_objects :: mem where
  "sample_objects a =
     (let bytes = [2,0,0,0, 65,0,0,0, 2,0,0,0, 65,0,0,0, 8,0,0,16, 8,0,0,0,0,0,0,0, 0,0,0,0,
                   8,0,0,80, 16,0,0,0,0,0,0,0, 1,0,0,0]
      in if 4 \<le> a \<and> a < 4 + length bytes then bytes ! (a - 4) else 0)"

lemma load_bytes_4: "load_bytes m a 4 =
    unat (m a) + 256 * (unat (m (a + 1)) + 256 * (unat (m (a + 2)) + 256 * unat (m (a + 3))))"
proof -
  have "4 = Suc (Suc (Suc (Suc 0)))" by simp
  then show ?thesis by (simp only: load_bytes.simps) (simp add: numeral_2_eq_2 numeral_3_eq_3)
qed

lemma load_bytes_add: "load_bytes m a (n + k) = load_bytes m a n + 256 ^ n * load_bytes m (a + n) k"
  by (induction n arbitrary: a) (simp_all add: algebra_simps)

lemma load_bytes_8: "load_bytes m a 8 = load_bytes m a 4 + 256 ^ 4 * load_bytes m (a + 4) 4"
  using load_bytes_add[of m a 4 4] by simp

lemma sample_words:
  "load32 sample_objects 4 = 2" "load32 sample_objects 12 = 2" "load32 sample_objects 20 = 0x10000008"
  "load32 sample_objects 36 = 0x50000008" "load32 sample_objects 48 = 1"
  "load64 sample_objects 24 = 8" "load64 sample_objects 40 = 16"
  by (simp_all add: load32_def load64_def load_bytes_8 load_bytes_4 sample_objects_def)

lemma sample_headers:
  "OBJ_TYPE sample_objects 8 = OBJTYPE_UNBOXED_VECTOR" "OBJ_SIZE sample_objects 8 = 2"
  "OBJ_TYPE sample_objects 16 = OBJTYPE_UNBOXED_VECTOR" "OBJ_SIZE sample_objects 16 = 2"
  "OBJ_TYPE sample_objects 24 = OBJTYPE_BOXED_VECTOR" "OBJ_SIZE sample_objects 24 = 8"
  "OBJ_TYPE sample_objects 40 = OBJTYPE_RECORD" "OBJ_SIZE sample_objects 40 = 8"
  by (simp_all add: OBJ_TYPE_def OBJ_SIZE_def OBJ_HEADER_def sample_words obj_simps)

lemma sample_plain: "plain_type sample_objects 8" "plain_type sample_objects 16"
    "obj_bytes sample_objects 8 = [65, 0]" "obj_bytes sample_objects 16 = [65, 0]"
  by (simp_all add: plain_type_def sample_headers obj_bytes_def upt_conv_Cons sample_objects_def)

lemma sample_strings:
  "unfold (Suc n) int sample_objects 8 = Some (VBytes [65, 0])"
  "unfold (Suc n) int sample_objects 16 = Some (VBytes [65, 0])"
  by (simp_all add: sample_headers sample_plain obj_types tagged_def)

lemma sample_unfold:
  "unfold (Suc (Suc n)) int sample_objects 24 = Some (VFields [FObj (VBytes [65, 0])])"
  "unfold (Suc (Suc n)) int sample_objects 40 = Some (VFields [FObj (VBytes [65, 0])])"
proof -
  have b: "bit (1 :: u32) j \<longleftrightarrow> j = 0" for j by (simp add: bit_1_iff)
  have "plain_type sample_objects 24" by (simp add: plain_type_def sample_headers)
  moreover have "plain_type sample_objects 40"
    by (simp add: plain_type_def sample_headers obj_types spare_clear_def OBJ_NUM_BITMAPS_def num_fields_def
        OBJ_BITMAPS_LEN_def OBJ_BITMAP_def sample_words b)
  ultimately show "unfold (Suc (Suc n)) int sample_objects 24 = Some (VFields [FObj (VBytes [65, 0])])"
    "unfold (Suc (Suc n)) int sample_objects 40 = Some (VFields [FObj (VBytes [65, 0])])"
    by (simp_all add: sample_headers obj_types tagged_def num_fields_def field_def field_addr_def
        sample_words OBJ_BITMAP_def BITMAP_BIT_01 b TAG_UNBOXED_def sample_plain)
qed

theorem sml_obj_equal_decides_witness:
  "sml_obj_equal (Suc (Suc 0)) (\<lambda>x y. int x - int y) sample_objects 24 40 = Inr True"
  using sml_obj_equal_decides[OF sample_unfold, of "\<lambda>x y. int x - int y"]
  by (simp del: sml_obj_equal.simps)

text \<open>C31.  A string object that \<open>sml_str_new2\<close> builds has the vector type, the length of the
  string, the bytes of the string and a null byte after them, nothing else in memory changes, and
  polymorphic equality on two such objects is equality of the strings.\<close>

theorem sml_str_new2_correct:
  fixes m :: mem
  assumes "length s + 1 < 2 ^ 28" "length t + 1 < 2 ^ 28" "4 \<le> a" "a + length s + 1 \<le> b - 4"
  defines "m' \<equiv> sml_str_new2 (sml_str_new2 m a s) b t"
  shows "OBJ_TYPE m' b = OBJTYPE_UNBOXED_VECTOR \<and> OBJ_STR_SIZE m' b = length t
     \<and> OBJ_STR_SIZE m' a = length s
     \<and> obj_bytes m' b = t @ [0] \<and> obj_bytes m' a = s @ [0]
     \<and> (\<forall>x. (x < a - 4 \<or> a + length s < x) \<and> (x < b - 4 \<or> b + length t < x) \<longrightarrow> m' x = m x)
     \<and> sml_obj_equal 1 intinf_cmp m' a b = Inr (s = t)"
proof -
  let ?m = "sml_str_new2 m a s"
  have b4: "4 \<le> b" using assms(3,4) by simp
  note fa = str_new_facts[OF assms(1,3), where m = m]
    and fb = str_new_facts[OF assms(2) b4, where m = ?m, folded m'_def]
  have low: "m' x = ?m x" if "x < b - 4" for x using fb(4) that by blast
  have h: "load32 m' (a - 4) = load32 ?m (a - 4)"
    by (rule load32_other, rule low) (use assms(3,4) in simp)
  have sz: "OBJ_SIZE m' a = OBJ_SIZE ?m a" "OBJ_TYPE m' a = OBJ_TYPE ?m a"
    by (simp_all add: OBJ_SIZE_def OBJ_TYPE_def OBJ_HEADER_def h)
  have "length (obj_bytes ?m a) = length s + 1" using fa(3) by simp
  then have la: "OBJ_SIZE ?m a = length s + 1" by (simp add: obj_bytes_def)
  have ba: "obj_bytes m' a = s @ [0]"
    unfolding fa(3)[symmetric] using la low assms(4) by (auto simp: obj_bytes_def sz)
  have u: "unfold 1 (\<lambda>_. 0) m' a = Some (VBytes (s @ [0]))" "unfold 1 (\<lambda>_. 0) m' b = Some (VBytes (t @ [0]))"
    using fa(1) fb(1,3) ba assms(3) b4 sz(2)
    by (auto simp: plain_type_def tagged_def obj_types)
  have "sml_obj_equal 1 intinf_cmp m' a b = sml_obj_equal 1 (\<lambda>_ _. 0) m' a b"
    using fa(1) fb(1) sz(2) by (simp add: obj_types)
  also have "\<dots> = Inr (VBytes (s @ [0]) = VBytes (t @ [0]))"
    by (rule equal_decides[OF u]) simp
  finally have eq: "sml_obj_equal 1 intinf_cmp m' a b = Inr (s = t)" by simp
  have far: "m' x = m x" if "x < a - 4 \<or> a + length s < x" "x < b - 4 \<or> b + length t < x" for x
    using fa(4) fb(4) that by simp
  show ?thesis
    using fa(2) fb(1-3) ba eq far by (auto simp: OBJ_STR_SIZE_def sz)
qed

theorem sml_str_new2_correct_witness:
  "sml_obj_equal 1 (\<lambda>_ _. 1) (sml_str_new2 (sml_str_new2 (\<lambda>_. 0) 104 [65, 66]) 204 [65]) 104 204 = Inr False"
  using sml_str_new2_correct[of "[65, 66]" "[65]" 104 204 "\<lambda>_. 0" "\<lambda>_ _. 1"] by simp

end
