(* ===== verification/Segment.thy ===== *)
theory Segment
  imports SegLayout
begin

unbundle bit_operations_syntax

text \<open>
  One heap segment and the operations on its bitmaps (src/smlsharp/src/runtime/heap_concurrent.c):
  \<open>init_segment\<close>, \<open>clear_collect_bitmap\<close>, \<open>copy_collect_bitmap\<close>, \<open>free_count\<close>, \<open>stat_segment\<close>.
  The memory of a segment is a function from word index (byte offset divided by 4) to 32-bit words;
  object addresses are byte offsets.  \<open>bitmap_wf\<close> is the invariant of the two-level bitmap.
\<close>

record segment =
  seg_layout :: "segment_layout option"
  seg_words :: "nat \<Rightarrow> u32"
  allocptr_snapshot :: nat
  seg_free_count :: nat

definition BITMAP_BASE :: "segment_layout \<Rightarrow> nat \<Rightarrow> nat" where
  "BITMAP_BASE l level = bitmap_offset l ! level div 4"

definition BITMAP_LIMIT :: "segment_layout \<Rightarrow> nat \<Rightarrow> nat" where
  "BITMAP_LIMIT l level = bitmap_offset l ! (level + 1) div 4"

definition BITMAP0_BASE :: nat where "BITMAP0_BASE = BITMAP0_OFFSET div 4"

definition COLLECT_BITMAP_BASE :: "segment_layout \<Rightarrow> nat" where
  "COLLECT_BITMAP_BASE l = bitmap_offset l ! SEG_RANK div 4"

definition BLOCK_BASE :: "segment_layout \<Rightarrow> nat" where "BLOCK_BASE l = block_offset l"
definition BLOCK_LIMIT :: "segment_layout \<Rightarrow> nat" where "BLOCK_LIMIT l = block_limit l"

text \<open>\<open>memset\<close> to zero and \<open>memcpy\<close> on word ranges.\<close>

definition fill_zero :: "nat \<Rightarrow> nat \<Rightarrow> (nat \<Rightarrow> u32) \<Rightarrow> nat \<Rightarrow> u32" where
  "fill_zero lo hi w = (\<lambda>j. if lo \<le> j \<and> j < hi then 0 else w j)"

definition copy_words :: "nat \<Rightarrow> nat \<Rightarrow> nat \<Rightarrow> (nat \<Rightarrow> u32) \<Rightarrow> nat \<Rightarrow> u32" where
  "copy_words dst src len w = (\<lambda>j. if dst \<le> j \<and> j < dst + len then w (src + (j - dst)) else w j)"

definition init_segment :: "segment \<Rightarrow> nat \<Rightarrow> segment" where
  "init_segment seg subheap_index =
     (let new_layout = compute_segment_layout subheap_index in
      if seg_layout seg = Some new_layout then seg
      else
        let cleared =
          (case seg_layout seg of
             None \<Rightarrow> seg_words seg
           | Some old \<Rightarrow>
               let w = fold (\<lambda>i w. w(BITMAP_LIMIT old i - 1 := 0)) [0..<SEG_RANK] (seg_words seg);
                   old_limit = zerofill_limit old div 4;
                   new_limit = zerofill_limit new_layout div 4
               in if new_limit > old_limit then fill_zero old_limit new_limit w else w)
        in seg\<lparr>seg_layout := Some new_layout,
               allocptr_snapshot := BLOCK_BASE new_layout,
               seg_free_count := num_blocks new_layout,
               seg_words := fold (\<lambda>i w. w(BITMAP_LIMIT new_layout i - 1 :=
                   bitmap_sentinel new_layout ! i)) [0..<SEG_RANK] cleared\<rparr>)"

definition clear_collect_bitmap :: "segment_layout \<Rightarrow> (nat \<Rightarrow> u32) \<Rightarrow> nat \<Rightarrow> u32" where
  "clear_collect_bitmap l w =
     fill_zero (COLLECT_BITMAP_BASE l) (COLLECT_BITMAP_BASE l + bitmap0_length l div 4) w"

text \<open>The inner loop of \<open>copy_collect_bitmap\<close>: one bit of the upper level per word of the lower.\<close>

function build_level :: "(nat \<Rightarrow> u32) \<Rightarrow> nat \<Rightarrow> nat \<Rightarrow> u32 \<Rightarrow> u32 \<Rightarrow> nat \<Rightarrow>
    (nat \<Rightarrow> u32) \<times> nat \<times> u32" where
  "build_level w lower limit bt wd upper =
     (if lower < limit then
        let wd1 = (if w lower = - 1 then wd OR bt else wd); bt1 = push_bit 1 bt
        in if bt1 = 0 then build_level (w(upper := wd1)) (lower + 1) limit 1 0 (upper + 1)
           else build_level w (lower + 1) limit bt1 wd1 upper
      else (w, upper, wd))"
  by pat_completeness auto
termination by (relation "measure (\<lambda>(w, lower, limit, bt, wd, upper). limit - lower)") auto

declare build_level.simps [simp del]

text \<open>The outer loop: levels \<open>i\<close> to \<open>SEG_RANK - 1\<close>; \<open>lower\<close> and \<open>upper\<close> run on from level to level.\<close>

function build_levels :: "segment_layout \<Rightarrow> nat \<Rightarrow> nat \<Rightarrow> nat \<Rightarrow> (nat \<Rightarrow> u32) \<Rightarrow> nat \<Rightarrow> u32" where
  "build_levels l i lower upper w =
     (if i < SEG_RANK then
        case build_level w lower upper 1 0 upper of (w', upper', wd) \<Rightarrow>
          build_levels l (i + 1) upper (upper' + 1) (w'(upper' := wd OR bitmap_sentinel l ! i))
      else w)"
  by pat_completeness auto
termination by (relation "measure (\<lambda>(l, i, lower, upper, w). SEG_RANK - i)") auto

declare build_levels.simps [simp del]

definition copy_collect_bitmap :: "segment_layout \<Rightarrow> (nat \<Rightarrow> u32) \<Rightarrow> nat \<Rightarrow> u32" where
  "copy_collect_bitmap l w =
     (let w1 = copy_words BITMAP0_BASE (COLLECT_BITMAP_BASE l) (bitmap0_length l div 4) w;
          last0 = BITMAP_LIMIT l 0 - 1;
          w2 = w1(last0 := w1 last0 OR bitmap_sentinel l ! 0)
      in build_levels l 1 BITMAP0_BASE (BITMAP_LIMIT l 0) w2)"

definition popcount :: "u32 \<Rightarrow> nat" where
  "popcount w = length (filter (bit w) [0..<32])"

definition free_count :: "segment_layout \<Rightarrow> (nat \<Rightarrow> u32) \<Rightarrow> nat option \<Rightarrow> nat" where
  "free_count l w allocptr =
     (let limit = BITMAP_LIMIT l 0;
          p = (case allocptr of None \<Rightarrow> BITMAP0_BASE
               | Some a \<Rightarrow> bp_ptr (BITPTR BITMAP0_BASE (object_index l a)) + 1)
      in sum_list (map (\<lambda>q. popcount (NOT (w q))) [p..<limit]))"

record stat_segment_t =
  num_marked :: nat
  num_unmarked :: nat
  num_marked_before_allocptr :: nat
  num_unmarked_before_allocptr :: nat

definition stat_segment :: "segment_layout \<Rightarrow> (nat \<Rightarrow> u32) \<Rightarrow> nat \<Rightarrow> stat_segment_t" where
  "stat_segment l w allocptr = fst (fold (\<lambda>i (st, b, blk).
       (let before = (if blk < allocptr then 1 else 0)
        in if BITPTR_TEST w b
           then st\<lparr>num_marked := num_marked st + 1,
                   num_marked_before_allocptr := num_marked_before_allocptr st + before\<rparr>
           else st\<lparr>num_unmarked := num_unmarked st + 1,
                   num_unmarked_before_allocptr := num_unmarked_before_allocptr st + before\<rparr>,
        BITPTR_INC b, blk + blocksize_bytes l))
     [0..<num_blocks l]
     (\<lparr>num_marked = 0, num_unmarked = 0, num_marked_before_allocptr = 0,
       num_unmarked_before_allocptr = 0\<rparr>, BITPTR BITMAP0_BASE 0, BLOCK_BASE l))"

definition stat_segment_add :: "stat_segment_t \<Rightarrow> stat_segment_t \<Rightarrow> stat_segment_t" where
  "stat_segment_add s1 s2 = \<lparr>num_marked = num_marked s1 + num_marked s2,
     num_unmarked = num_unmarked s1 + num_unmarked s2,
     num_marked_before_allocptr = num_marked_before_allocptr s1 + num_marked_before_allocptr s2,
     num_unmarked_before_allocptr =
       num_unmarked_before_allocptr s1 + num_unmarked_before_allocptr s2\<rparr>"

section \<open>Where the regions are, in words\<close>

lemma BITMAP0_BASE_eq [simp]: "BITMAP0_BASE = 8"
  by (simp add: BITMAP0_BASE_def layout_simps)

lemma word_offsets:
  "BITMAP_BASE (layout_with g n) 0 = 8" "BITMAP_BASE (layout_with g n) (Suc 0) = 8 + len1_of n"
  "BITMAP_LIMIT (layout_with g n) 0 = 8 + len1_of n"
  "BITMAP_LIMIT (layout_with g n) (Suc 0) = 8 + len1_of n + bits1_of n div 32"
  "COLLECT_BITMAP_BASE (layout_with g n) = 8 + len1_of n + bits1_of n div 32"
  "bitmap0_length (layout_with g n) div 4 = len1_of n"
  "zerofill_limit (layout_with g n) div 4 = 8 + len1_of n + bits1_of n div 32 + len1_of n"
proof -
  obtain r where r: "bits1_of n = 32 * r" using bits1_of_props(1)[of n] by blast
  show "BITMAP_BASE (layout_with g n) 0 = 8" "BITMAP_BASE (layout_with g n) (Suc 0) = 8 + len1_of n"
  "BITMAP_LIMIT (layout_with g n) 0 = 8 + len1_of n"
  "BITMAP_LIMIT (layout_with g n) (Suc 0) = 8 + len1_of n + bits1_of n div 32"
  "COLLECT_BITMAP_BASE (layout_with g n) = 8 + len1_of n + bits1_of n div 32"
  "bitmap0_length (layout_with g n) div 4 = len1_of n"
  "zerofill_limit (layout_with g n) div 4 = 8 + len1_of n + bits1_of n div 32 + len1_of n"
    by (simp_all add: BITMAP_BASE_def BITMAP_LIMIT_def COLLECT_BITMAP_BASE_def
        layout_simps layout_with_sel bits0_of_props(4) r)
qed

lemma bits1_words: "bits1_of n div 32 = Suc (len1_of n div 32)"
proof -
  obtain r where r: "bits1_of n = 32 * r" using bits1_of_props(1)[of n] by blast
  then show ?thesis using bits1_of_props(2,3)[of n] by simp
qed

definition bitmap_wf :: "segment_layout \<Rightarrow> (nat \<Rightarrow> u32) \<Rightarrow> bool" where
  "bitmap_wf l w \<longleftrightarrow>
     (\<forall>i. num_blocks l \<le> i \<and> i < bits0_of (num_blocks l) \<longrightarrow> bit_at w (BITMAP_BASE l 0) i)
   \<and> (\<forall>j < len1_of (num_blocks l).
        bit_at w (BITMAP_BASE l 1) j \<longleftrightarrow> w (BITMAP_BASE l 0 + j) = - 1)
   \<and> (\<forall>j. len1_of (num_blocks l) \<le> j \<and> j < bits1_of (num_blocks l) \<longrightarrow> bit_at w (BITMAP_BASE l 1) j)"

text \<open>\<open>is_free l w i\<close>: the \<open>i\<close>-th block exists and its mark bit is clear.\<close>

definition is_free :: "segment_layout \<Rightarrow> (nat \<Rightarrow> u32) \<Rightarrow> nat \<Rightarrow> bool" where
  "is_free l w i \<longleftrightarrow> i < num_blocks l \<and> \<not> bit_at w (BITMAP_BASE l 0) i"

lemma bit_sentinel: "k \<le> 32 \<Longrightarrow> i < 32 \<Longrightarrow> bit (push_bit (32 - k) (- 1) :: u32) i \<longleftrightarrow> 32 - k \<le> i"
  by (auto simp: bit_not_iff bit_mask_iff)

section \<open>Rebuilding the upper level\<close>

text \<open>
  State of the loop after \<open>t\<close> of the words starting at \<open>L\<close>: whole upper words are stored from \<open>U\<close>
  on, the rest is in the accumulator \<open>wd\<close>.
\<close>

definition level_built :: "(nat \<Rightarrow> u32) \<Rightarrow> nat \<Rightarrow> nat \<Rightarrow> nat \<Rightarrow> (nat \<Rightarrow> u32) \<Rightarrow> u32 \<Rightarrow> bool" where
  "level_built src L U t w wd \<longleftrightarrow>
     (\<forall>j < 32 * (t div 32). bit_at w U j \<longleftrightarrow> src (L + j) = - 1)
   \<and> (\<forall>k < 32. bit wd k \<longleftrightarrow> k < t mod 32 \<and> src (L + 32 * (t div 32) + k) = - 1)
   \<and> (\<forall>x. x < U \<or> U + t div 32 \<le> x \<longrightarrow> w x = src x)"

lemma level_built_0: "level_built src L U 0 src 0"
  by (simp add: level_built_def)

lemma push_bit_1_pow2: "k < 32 \<Longrightarrow> push_bit 1 (2 ^ k :: u32) = (if k = 31 then 0 else 2 ^ Suc k)"
  by (auto simp: push_bit_eq_mult)

lemma level_built_step:
  fixes src w :: "nat \<Rightarrow> u32" and wd :: u32
  assumes "level_built src L U t w wd" and "L + t < U"
  defines "wd1 \<equiv> if w (L + t) = - 1 then wd OR 2 ^ (t mod 32) else wd"
  shows "t mod 32 \<noteq> 31 \<Longrightarrow> level_built src L U (Suc t) w wd1"
    and "t mod 32 = 31 \<Longrightarrow> level_built src L U (Suc t) (w(U + t div 32 := wd1)) 0"
proof -
  have same: "w (L + t) = src (L + t)" using assms(1,2) by (simp add: level_built_def)
  have t: "t = 32 * (t div 32) + t mod 32" by simp
  have wd1: "bit wd1 k \<longleftrightarrow> k \<le> t mod 32 \<and> src (L + 32 * (t div 32) + k) = - 1" if k: "k < 32" for k
  proof -
    have "bit wd k \<longleftrightarrow> k < t mod 32 \<and> src (L + 32 * (t div 32) + k) = - 1"
      using assms(1) k by (simp add: level_built_def)
    moreover have "bit wd1 k \<longleftrightarrow> bit wd k \<or> k = t mod 32 \<and> src (L + t) = - 1"
      using k by (auto simp: wd1_def same bit_or_iff bit_pow2_iff)
    moreover have "k = t mod 32 \<Longrightarrow> L + 32 * (t div 32) + k = L + t" using t by linarith
    ultimately show ?thesis by (metis le_less)
  qed
  show "level_built src L U (Suc t) w wd1" if ne: "t mod 32 \<noteq> 31"
  proof -
    have "Suc t mod 32 = Suc (t mod 32)" "Suc t div 32 = t div 32"
      using ne by (auto simp: mod_Suc div_Suc)
    then show ?thesis using assms(1) wd1 by (simp add: level_built_def less_Suc_eq_le)
  qed
  show "level_built src L U (Suc t) (w(U + t div 32 := wd1)) 0" if eq: "t mod 32 = 31"
  proof -
    have s: "Suc t mod 32 = 0" "Suc t div 32 = Suc (t div 32)"
      using eq by (auto simp: mod_Suc div_Suc)
    have "bit_at (w(U + t div 32 := wd1)) U j \<longleftrightarrow> src (L + j) = - 1"
      if j: "j < 32 * Suc (t div 32)" for j
    proof (cases "j < 32 * (t div 32)")
      case True
      then have "j div 32 \<noteq> t div 32" by (metis less_irrefl mult.commute div_less_iff_less_mult
            zero_less_numeral)
      then show ?thesis using assms(1) True by (simp add: level_built_def bit_at_def)
    next
      case False
      then have d: "j div 32 = t div 32" using j by (intro div_nat_eqI) auto
      then have e: "L + 32 * (t div 32) + j mod 32 = L + j" by (metis add.assoc mult_div_mod_eq)
      have "j mod 32 \<le> 31" using mod_less_divisor[of 32 j] by linarith
      then show ?thesis using wd1[of "j mod 32", unfolded e] d eq by (simp add: bit_at_def)
    qed
    then show ?thesis using assms(1) by (auto simp: level_built_def s)
  qed
qed

lemma build_level_built:
  assumes "level_built src L U t w wd" "t \<le> len" "L + len \<le> U"
    and "build_level w (L + t) (L + len) (2 ^ (t mod 32)) wd (U + t div 32) = (w', upper', wd')"
  shows "level_built src L U len w' wd' \<and> upper' = U + len div 32"
  using assms
proof (induction "len - t" arbitrary: t w wd)
  case 0
  then have "t = len" by simp
  with 0 show ?case by (simp add: build_level.simps)
next
  case (Suc d)
  then have lt: "L + t < L + len" "L + t < U" by simp_all
  let ?wd1 = "if w (L + t) = - 1 then wd OR 2 ^ (t mod 32) else wd"
  have pb: "push_bit 1 (2 ^ (t mod 32) :: u32) = (if t mod 32 = 31 then 0 else 2 ^ Suc (t mod 32))"
    by (rule push_bit_1_pow2) simp
  note step = level_built_step[OF Suc.prems(1) lt(2)]
  show ?case
  proof (cases "t mod 32 = 31")
    case True
    then have s: "Suc t mod 32 = 0" "Suc t div 32 = Suc (t div 32)" by (auto simp: mod_Suc div_Suc)
    have "build_level (w(U + t div 32 := ?wd1)) (L + Suc t) (L + len) (2 ^ (Suc t mod 32)) 0
        (U + Suc t div 32) = (w', upper', wd')"
      using Suc.prems(4) lt pb True unfolding s
      by (subst (asm) build_level.simps) (simp add: Let_def)
    from Suc.hyps(1)[OF _ step(2)[OF True] _ Suc.prems(3) this] show ?thesis
      using Suc.hyps(2) lt by simp
  next
    case False
    then have s: "Suc t mod 32 = Suc (t mod 32)" "Suc t div 32 = t div 32"
      by (auto simp: mod_Suc div_Suc)
    have nz: "(2 :: u32) ^ Suc (t mod 32) \<noteq> 0"
    proof -
      have "Suc (t mod 32) < 32" using s(1) by (metis mod_less_divisor zero_less_numeral)
      then show ?thesis by (metis bit_pow2_iff bit_0_eq bot_apply bot_bool_def)
    qed
    have "build_level w (L + Suc t) (L + len) (2 ^ (Suc t mod 32)) ?wd1
        (U + Suc t div 32) = (w', upper', wd')"
      using Suc.prems(4) lt pb False nz unfolding s
      by (subst (asm) build_level.simps) (simp add: Let_def del: power_Suc)
    from Suc.hyps(1)[OF _ step(1)[OF False] _ Suc.prems(3) this] show ?thesis
      using Suc.hyps(2) lt by simp
  qed
qed

lemma last_word_index:
  "n \<le> i \<Longrightarrow> i < bits0_of n \<Longrightarrow> i div 32 = len1_of n - 1"
  "0 < len1_of n"
proof -
  have b: "bits0_of n = 32 * len1_of n" "bits0_of n \<le> n + 32" "n < bits0_of n"
    using bits0_of_props[of n] by auto
  show "i div 32 = len1_of n - 1" if "n \<le> i" "i < bits0_of n"
    using that b by (intro div_nat_eqI) auto
  show "0 < len1_of n" using b by (cases "len1_of n") auto
qed

lemma copy_collect_bitmap_effect:
  fixes w :: "nat \<Rightarrow> u32" and g n :: nat
  defines "l \<equiv> layout_with g n"
  defines "w' \<equiv> copy_collect_bitmap l w"
  shows copy_collect_bits: "i < n \<Longrightarrow> bit_at w' 8 i \<longleftrightarrow> bit_at w (COLLECT_BITMAP_BASE l) i"
    and copy_collect_wf: "bitmap_wf l w'"
    and copy_collect_frame: "x < 8 \<or> COLLECT_BITMAP_BASE l \<le> x \<Longrightarrow> w' x = w x"
proof -
  let ?L = "len1_of n" let ?C = "COLLECT_BITMAP_BASE l"
  let ?s0 = "push_bit (32 - (bits0_of n - n)) (- 1) :: u32"
  let ?s1 = "push_bit (32 - (bits1_of n - ?L)) (- 1) :: u32"
  note off = word_offsets[of g n, folded l_def]
  have sent: "bitmap_sentinel l = [?s0, ?s1]" by (simp add: l_def layout_with_sel)
  have L0: "0 < ?L" by (rule last_word_index(2))
  define w1 where "w1 = copy_words 8 ?C ?L w"
  define w2 where "w2 = w1(8 + ?L - 1 := w1 (8 + ?L - 1) OR ?s0)"
  obtain w3 up wd where bl: "build_level w2 8 (8 + ?L) 1 0 (8 + ?L) = (w3, up, wd)"
    by (metis prod_cases3)
  from build_level_built[of w2 8 "8 + ?L" 0 w2 0 ?L w3 up wd] bl
  have built: "level_built w2 8 (8 + ?L) ?L w3 wd" and up: "up = 8 + ?L + ?L div 32"
    by (simp_all add: level_built_0)
  have "w' = build_levels l 1 8 (8 + ?L) w2"
    unfolding w'_def copy_collect_bitmap_def Let_def w2_def w1_def
    by (simp only: off(3) off(6) BITMAP0_BASE_eq sent nth_Cons_0)
  then have w'_def': "w' = w3(up := wd OR ?s1)"
    using bl by (simp add: build_levels.simps SEG_RANK_def sent)
  have C: "?C = 8 + ?L + Suc (?L div 32)" by (simp add: off bits1_words)
  have low: "w' x = w2 x" if "x < 8 + ?L" for x
    using built that by (simp add: w'_def' up level_built_def)
  have w1: "w1 (8 + q) = w (?C + q)" if "q < ?L" for q
    using that by (simp add: w1_def copy_words_def)
  have w2: "bit (w2 (8 + i div 32)) (i mod 32) \<longleftrightarrow> bit_at w ?C i \<or> n \<le> i"
    if i: "i < bits0_of n" for i
  proof -
    have q: "i div 32 < ?L" using i bits0_of_props(4)[of n] by (simp add: less_mult_imp_div_less mult.commute)
    have e0: "bits0_of n = 32 * ?L" "bits0_of n \<le> n + 32" "n < bits0_of n"
      using bits0_of_props[of n] by auto
    show ?thesis
    proof (cases "i div 32 = ?L - 1")
      case True
      have "bit ?s0 (i mod 32) \<longleftrightarrow> 32 - (bits0_of n - n) \<le> i mod 32"
        using e0 by (intro bit_sentinel) auto
      also have "\<dots> \<longleftrightarrow> n \<le> i"
      proof -
        have "i = 32 * (?L - 1) + i mod 32" using True by (metis mult_div_mod_eq)
        then show ?thesis using e0 L0 by (cases ?L) auto
      qed
      finally show ?thesis
        using True L0 w1[OF q] by (simp add: w2_def bit_or_iff bit_at_def True)
    next
      case False
      then have "\<not> n \<le> i" using i last_word_index(1) by blast
      moreover have "8 + i div 32 \<noteq> 8 + ?L - 1" using False L0 by linarith
      ultimately show ?thesis using w1[OF q] by (simp add: w2_def bit_at_def)
    qed
  qed
  have lvl0: "bit_at w' 8 i \<longleftrightarrow> bit_at w ?C i \<or> n \<le> i" if i: "i < bits0_of n" for i
  proof -
    have "i div 32 < ?L" using i bits0_of_props(4)[of n] by (simp add: less_mult_imp_div_less mult.commute)
    then show ?thesis using w2[OF i] low by (simp add: bit_at_def)
  qed
  show "i < n \<Longrightarrow> bit_at w' 8 i \<longleftrightarrow> bit_at w ?C i"
    using lvl0 bits0_of_props(2)[of n] by (meson not_le less_trans)
  have lvl1: "bit_at w' (8 + ?L) j \<longleftrightarrow> (if j < ?L then w' (8 + j) = - 1 else True)"
    if j: "j < bits1_of n" for j
  proof (cases "j < 32 * (?L div 32)")
    case True
    then have "j div 32 < ?L div 32" by (simp add: less_mult_imp_div_less mult.commute)
    moreover have "j < ?L" using True by (metis le_less_trans mult_div_mod_eq le_add1 not_le)
    ultimately show ?thesis using built True low
      by (simp add: w'_def' up level_built_def bit_at_def)
  next
    case False
    have b1: "bits1_of n = 32 * Suc (?L div 32)"
      using bits1_words[of n] bits1_of_props(1)[of n] by (metis dvd_mult_div_cancel)
    then have d: "j div 32 = ?L div 32" using j False by (intro div_nat_eqI) auto
    have jd: "j = 32 * (?L div 32) + j mod 32" using d by (metis mult_div_mod_eq)
    have Ld: "?L = 32 * (?L div 32) + ?L mod 32" by simp
    have r: "32 - (bits1_of n - ?L) = ?L mod 32" using b1 Ld by arith
    have "bit ?s1 (j mod 32) \<longleftrightarrow> 32 - (bits1_of n - ?L) \<le> j mod 32"
      using bits1_of_props(3)[of n] by (intro bit_sentinel) auto
    then have s1: "bit ?s1 (j mod 32) \<longleftrightarrow> ?L \<le> j"
      unfolding r using jd Ld by (metis add_le_cancel_left)
    have e: "8 + 32 * (?L div 32) + j mod 32 = 8 + j" using jd by linarith
    have "bit wd (j mod 32) \<longleftrightarrow> j mod 32 < ?L mod 32
        \<and> w2 (8 + 32 * (?L div 32) + j mod 32) = - 1"
      using built by (simp add: level_built_def)
    moreover have "j mod 32 < ?L mod 32 \<longleftrightarrow> j < ?L" using jd Ld by (metis add_less_cancel_left)
    ultimately have wd: "bit wd (j mod 32) \<longleftrightarrow> j < ?L \<and> w2 (8 + j) = - 1" unfolding e by blast
    have "bit_at w' (8 + ?L) j \<longleftrightarrow> bit wd (j mod 32) \<or> bit ?s1 (j mod 32)"
      by (simp add: bit_at_def w'_def' up d bit_or_iff)
    then show ?thesis using wd s1 low by auto
  qed
  show "bitmap_wf l w'"
    unfolding bitmap_wf_def using lvl0 lvl1 off bits1_of_props(2)[of n]
    by (auto simp: l_def layout_with_sel(3))
  show "w' x = w x" if "x < 8 \<or> ?C \<le> x"
  proof -
    have "w3 x = w2 x" using built that C by (auto simp: level_built_def)
    moreover have "w2 x = w x" using that C L0 by (auto simp: w2_def w1_def copy_words_def)
    moreover have "x \<noteq> up" using that C up by auto
    ultimately show ?thesis by (simp add: w'_def')
  qed
qed

section \<open>Blank segments\<close>

text \<open>
  A segment that holds no object: never used (its memory is zero, as the kernel maps it), or
  initialised for some layout with every bitmap word zero but for the sentinels.  This is what
  \<open>init_segment\<close> assumes of the segments it is given, and what it establishes.
\<close>

definition blank_word :: "segment_layout \<Rightarrow> nat \<Rightarrow> u32" where
  "blank_word l j = (if j = BITMAP_LIMIT l 0 - 1 then bitmap_sentinel l ! 0
     else if j = BITMAP_LIMIT l 1 - 1 then bitmap_sentinel l ! 1 else 0)"

definition blank_words :: "segment_layout \<Rightarrow> (nat \<Rightarrow> u32) \<Rightarrow> bool" where
  "blank_words l w \<longleftrightarrow> (\<forall>j. 8 \<le> j \<and> j < zerofill_limit l div 4 \<longrightarrow> w j = blank_word l j)"

definition blank :: "segment \<Rightarrow> bool" where
  "blank seg \<longleftrightarrow> (case seg_layout seg of
     None \<Rightarrow> \<forall>j. 8 \<le> j \<and> j < SEGMENT_SIZE div 4 \<longrightarrow> seg_words seg j = 0
   | Some l \<Rightarrow> layout_ok l \<and> blank_words l (seg_words seg)
       \<and> allocptr_snapshot seg = BLOCK_BASE l \<and> seg_free_count seg = num_blocks l)"

lemma fold_upd_RANK:
  "fold (\<lambda>i w. w(f i := g i)) [0..<SEG_RANK] w = (w(f 0 := g 0))(f 1 := g 1)"
  by (simp add: SEG_RANK_def numeral_2_eq_2)

lemma zerofill_in_segment:
  assumes "layout_ok l"
  shows "zerofill_limit l div 4 \<le> SEGMENT_SIZE div 4"
proof -
  obtain g n where l: "l = layout_with g n" and le: "block_limit (layout_with g n) \<le> SEGMENT_SIZE"
    using assms by (rule layout_okE)
  have "zerofill_limit l \<le> SEGMENT_SIZE"
    using layout_with_order(2,3)[of g n] le unfolding l layout_with_sel(11) by linarith
  then show ?thesis by (rule div_le_mono)
qed

lemma limits_in_range:
  assumes "layout_ok l"
  shows "8 < BITMAP_LIMIT l 0" "BITMAP_LIMIT l 0 < BITMAP_LIMIT l 1"
    "BITMAP_LIMIT l 1 \<le> zerofill_limit l div 4"
proof -
  obtain g n where l: "l = layout_with g n" using assms by (rule layout_okE)
  show "8 < BITMAP_LIMIT l 0" "BITMAP_LIMIT l 0 < BITMAP_LIMIT l 1"
    "BITMAP_LIMIT l 1 \<le> zerofill_limit l div 4"
    using last_word_index(2)[of n] by (auto simp: l word_offsets bits1_words)
qed

lemma init_segment_blank:
  assumes "blank seg" "i < NUM_SUBHEAPS"
  shows "blank (init_segment seg i)" "seg_layout (init_segment seg i) = Some (compute_segment_layout i)"
proof -
  let ?l = "compute_segment_layout i" let ?w = "seg_words seg"
  have ok: "layout_ok ?l" by (rule compute_segment_layout_ok(1)[OF assms(2)])
  show "seg_layout (init_segment seg i) = Some ?l"
    by (simp add: init_segment_def Let_def)
  show "blank (init_segment seg i)"
  proof (cases "seg_layout seg = Some ?l")
    case True
    then show ?thesis using assms(1) by (simp add: init_segment_def)
  next
    case False
    define cl where "cl = (case seg_layout seg of None \<Rightarrow> ?w
       | Some old \<Rightarrow>
           let w = fold (\<lambda>i w. w(BITMAP_LIMIT old i - 1 := 0)) [0..<SEG_RANK] ?w;
               old_limit = zerofill_limit old div 4;
               new_limit = zerofill_limit ?l div 4
           in if new_limit > old_limit then fill_zero old_limit new_limit w else w)"
    have zero: "cl j = 0" if j: "8 \<le> j" "j < zerofill_limit ?l div 4" for j
    proof (cases "seg_layout seg")
      case None
      then show ?thesis
        using assms(1) j zerofill_in_segment[OF ok] by (simp add: cl_def blank_def)
    next
      case (Some old)
      then have old: "layout_ok old" "blank_words old ?w" using assms(1) by (auto simp: blank_def)
      then show ?thesis
        using j limits_in_range[OF old(1)]
        by (auto simp: cl_def Some fold_upd_RANK Let_def fill_zero_def blank_words_def blank_word_def)
    qed
    have "init_segment seg i = seg\<lparr>seg_layout := Some ?l, allocptr_snapshot := BLOCK_BASE ?l,
        seg_free_count := num_blocks ?l,
        seg_words := (cl(BITMAP_LIMIT ?l 0 - 1 := bitmap_sentinel ?l ! 0))
           (BITMAP_LIMIT ?l 1 - 1 := bitmap_sentinel ?l ! 1)\<rparr>"
      using False by (simp add: init_segment_def fold_upd_RANK cl_def[symmetric] Let_def)
    then show ?thesis
      using ok zero limits_in_range[OF ok] by (simp add: blank_def blank_words_def blank_word_def)
  qed
qed

text \<open>The bits of a blank segment: only sentinels are set.\<close>

lemma word_bit_at: "k < 32 \<Longrightarrow> bit (w (p + q)) k = bit_at w p (32 * q + k)"
  by (simp add: bit_at_def)

lemma words_bits:
  "(\<forall>q < m. w (p + q) = v q)
     \<longleftrightarrow> (\<forall>i < 32 * m. bit_at w p i \<longleftrightarrow> bit (v (i div 32)) (i mod 32))" (is "?A \<longleftrightarrow> ?B")
proof
  show "?A \<Longrightarrow> ?B" by (simp add: bit_at_def less_mult_imp_div_less mult.commute)
  assume B: ?B
  show ?A
  proof (intro allI impI word_eqI32)
    fix q k :: nat assume "q < m" "k < 32"
    have "32 * Suc q \<le> 32 * m" using \<open>q < m\<close> by (intro mult_le_mono2 Suc_leI)
    then have "32 * q + k < 32 * m" using \<open>k < 32\<close> by simp
    then show "bit (w (p + q)) k = bit (v q) k"
      using B[rule_format, of "32 * q + k"] \<open>k < 32\<close> by (simp add: bit_at_def)
  qed
qed

lemma three_ranges:
  fixes a :: nat
  shows "a \<le> j \<and> j < a + x + y + z \<longleftrightarrow>
    (\<exists>q < x. j = a + q) \<or> (\<exists>q < y. j = a + x + q) \<or> (\<exists>q < z. j = a + x + y + q)" (is "?A \<longleftrightarrow> ?B")
proof
  assume A: ?A
  consider "j - a < x" | "x \<le> j - a" "j - a - x < y" | "x + y \<le> j - a" by linarith
  then show ?B
  proof cases
    case 1
    then have "j - a < x \<and> j = a + (j - a)" using A by simp
    then show ?thesis by blast
  next
    case 2
    then have "j - a - x < y \<and> j = a + x + (j - a - x)" using A by arith
    then show ?thesis by blast
  next
    case 3
    then have "j - a - x - y < z \<and> j = a + x + y + (j - a - x - y)" using A by arith
    then show ?thesis by blast
  qed
qed auto

lemma all_three_ranges:
  fixes a :: nat
  shows "(\<forall>j. a \<le> j \<and> j < a + x + y + z \<longrightarrow> P j) \<longleftrightarrow>
    (\<forall>q < x. P (a + q)) \<and> (\<forall>q < y. P (a + x + q)) \<and> (\<forall>q < z. P (a + x + y + q))"
  unfolding three_ranges by blast

lemma blank_bits:
  assumes l: "l = layout_with g n"
  shows "blank_words l w \<longleftrightarrow>
     (\<forall>i < bits0_of n. bit_at w 8 i \<longleftrightarrow> n \<le> i)
   \<and> (\<forall>j < bits1_of n. bit_at w (8 + len1_of n) j \<longleftrightarrow> len1_of n \<le> j)
   \<and> (\<forall>i < bits0_of n. \<not> bit_at w (COLLECT_BITMAP_BASE l) i)" (is "_ \<longleftrightarrow> ?R")
proof -
  let ?L = "len1_of n" let ?C = "COLLECT_BITMAP_BASE l"
  note off = word_offsets[of g n, folded l]
  have b0: "bits0_of n = 32 * ?L" "bits0_of n \<le> n + 32" "n < bits0_of n" "0 < ?L"
    using bits0_of_props[of n] last_word_index(2)[of n] by auto
  have b1: "bits1_of n = 32 * Suc (?L div 32)"
    using bits1_words[of n] bits1_of_props(1)[of n] by (metis dvd_mult_div_cancel)
  have C: "?C = 8 + ?L + Suc (?L div 32)" by (simp add: off bits1_words)
  have zf: "zerofill_limit l div 4 = ?C + ?L" by (simp add: off)
  let ?s0 = "push_bit (32 - (bits0_of n - n)) (- 1) :: u32"
  let ?s1 = "push_bit (32 - (bits1_of n - ?L)) (- 1) :: u32"
  have sent: "bitmap_sentinel l = [?s0, ?s1]" by (simp add: l layout_with_sel)
  have w0: "bit (blank_word l (8 + q)) k \<longleftrightarrow> n \<le> 32 * q + k" if "q < ?L" "k < 32" for q k
  proof (cases "q = ?L - 1")
    case True
    have "bit ?s0 k \<longleftrightarrow> 32 - (bits0_of n - n) \<le> k" using that b0 by (intro bit_sentinel) auto
    also have "\<dots> \<longleftrightarrow> n \<le> 32 * q + k" using True b0 by (cases ?L) auto
    finally show ?thesis using True b0 by (simp add: blank_word_def off sent)
  next
    case False
    then show ?thesis using that b0 by (auto simp: blank_word_def off)
  qed
  have w1: "bit (blank_word l (8 + ?L + q)) k \<longleftrightarrow> ?L \<le> 32 * q + k"
    if "q < Suc (?L div 32)" "k < 32" for q k
  proof (cases "q = ?L div 32")
    case True
    have "bit ?s1 k \<longleftrightarrow> 32 - (bits1_of n - ?L) \<le> k"
      using that bits1_of_props(3)[of n] by (intro bit_sentinel) auto
    also have "\<dots> \<longleftrightarrow> ?L \<le> 32 * q + k" using True b1 by arith
    finally show ?thesis using True b0(4) by (simp add: blank_word_def off sent bits1_words)
  next
    case False
    then have "Suc q \<le> ?L div 32" using that by simp
    then have "32 * Suc q \<le> 32 * (?L div 32)" by (rule mult_le_mono2)
    also have "32 * (?L div 32) \<le> ?L" by simp
    finally have "32 * q + k < ?L" using that(2) by simp
    then show ?thesis using that False b0(4) by (auto simp: blank_word_def off bits1_words)
  qed
  have w2: "blank_word l (?C + q) = 0" for q
    unfolding blank_word_def One_nat_def off(3,4) C bits1_words using b0(4) by simp
  have "blank_words l w \<longleftrightarrow> (\<forall>q < ?L. w (8 + q) = blank_word l (8 + q))
     \<and> (\<forall>q < Suc (?L div 32). w (8 + ?L + q) = blank_word l (8 + ?L + q))
     \<and> (\<forall>q < ?L. w (?C + q) = 0)"
    unfolding blank_words_def zf C all_three_ranges by (simp only: w2[unfolded C])
  moreover have "(\<forall>q < ?L. w (8 + q) = blank_word l (8 + q))
     \<longleftrightarrow> (\<forall>i < bits0_of n. bit_at w 8 i \<longleftrightarrow> n \<le> i)"
    unfolding b0(1) words_bits[of ?L w 8 "\<lambda>q. blank_word l (8 + q)"] using w0 by (simp add: less_mult_imp_div_less mult.commute)
  moreover have "(\<forall>q < Suc (?L div 32). w (8 + ?L + q) = blank_word l (8 + ?L + q))
     \<longleftrightarrow> (\<forall>j < bits1_of n. bit_at w (8 + ?L) j \<longleftrightarrow> ?L \<le> j)"
    unfolding b1 words_bits[of "Suc (?L div 32)" w "8 + ?L" "\<lambda>q. blank_word l (8 + ?L + q)"] using w1 by (simp add: less_mult_imp_div_less mult.commute)
  moreover have "(\<forall>q < ?L. w (?C + q) = 0) \<longleftrightarrow> (\<forall>i < bits0_of n. \<not> bit_at w ?C i)"
    unfolding b0(1) words_bits[of ?L w ?C "\<lambda>q. 0"] by simp
  ultimately show ?thesis by simp
qed

text \<open>Facts about a segment whose layout is one of the ten.\<close>

lemma layout_bits:
  assumes "layout_ok l"
  shows "BITMAP_BASE l 0 = 8" "BITMAP_BASE l 1 = 8 + len1_of (num_blocks l)"
    "BITMAP_LIMIT l 0 = 8 + len1_of (num_blocks l)"
    "32 * (len1_of (num_blocks l) - 1) < num_blocks l"
    "num_blocks l < 32 * len1_of (num_blocks l)"
    "bits0_of (num_blocks l) = 32 * len1_of (num_blocks l)"
    "len1_of (num_blocks l) < bits1_of (num_blocks l)"
proof -
  obtain g n where l: "l = layout_with g n" and n: "n mod 32 \<noteq> 0"
    using assms by (rule layout_okE)
  show "BITMAP_BASE l 0 = 8" "BITMAP_BASE l 1 = 8 + len1_of (num_blocks l)"
    "BITMAP_LIMIT l 0 = 8 + len1_of (num_blocks l)"
    by (simp_all add: l word_offsets layout_with_sel(3))
  have "32 * (n div 32) < n" using n by (metis mult_div_mod_eq less_add_same_cancel1 gr_zeroI)
  then show "32 * (len1_of (num_blocks l) - 1) < num_blocks l"
    using len1_of_eq[OF n] by (simp add: l layout_with_sel(3))
  show "num_blocks l < 32 * len1_of (num_blocks l)"
    "bits0_of (num_blocks l) = 32 * len1_of (num_blocks l)"
    "len1_of (num_blocks l) < bits1_of (num_blocks l)"
    using bits0_of_props[of "num_blocks l"] bits1_of_props(2) by auto
qed

lemma word_has_block: "layout_ok l \<Longrightarrow> j < len1_of (num_blocks l) \<Longrightarrow> 32 * j < num_blocks l"
  using layout_bits(4)[of l] by simp

lemma word_not_full:
  assumes "layout_ok l" "j < len1_of (num_blocks l)"
    "\<And>i. i < num_blocks l \<Longrightarrow> \<not> bit_at w 8 i"
  shows "w (8 + j) \<noteq> - 1"
proof -
  have "\<not> bit_at w 8 (32 * j)" using assms(3) word_has_block[OF assms(1,2)] by blast
  then have "\<not> bit (w (8 + j)) 0" by (simp add: bit_at_def)
  then show ?thesis by (metis word_ones_bit zero_less_numeral)
qed

lemma blank_facts:
  assumes "layout_ok l" "blank_words l w"
  shows "bitmap_wf l w" "i < num_blocks l \<Longrightarrow> is_free l w i"
    "i < bits0_of (num_blocks l) \<Longrightarrow> \<not> bit_at w (COLLECT_BITMAP_BASE l) i"
proof -
  obtain g n where l: "l = layout_with g n" using assms(1) by (rule layout_okE)
  have n: "num_blocks l = n" by (simp add: l layout_with_sel(3))
  note b = blank_bits[OF l, of w, THEN iffD1, OF assms(2)]
  note lb = layout_bits[OF assms(1), unfolded n]
  have free: "\<not> bit_at w 8 i" if "i < n" for i
    using b bits0_of_props(2)[of n] that by (meson not_le less_trans)
  show "i < num_blocks l \<Longrightarrow> is_free l w i" using free by (simp add: is_free_def n lb)
  show "i < bits0_of (num_blocks l) \<Longrightarrow> \<not> bit_at w (COLLECT_BITMAP_BASE l) i"
    using b by (simp add: n)
  have "w (8 + j) \<noteq> - 1" if "j < len1_of n" for j
    using word_not_full[OF assms(1), of j w] that free by (simp add: n)
  moreover have "bit_at w (8 + len1_of n) j \<longleftrightarrow> len1_of n \<le> j" if "j < bits1_of n" for j
    using b that by simp
  moreover have "bit_at w 8 i" if "n \<le> i" "i < bits0_of n" for i using b that by simp
  ultimately show "bitmap_wf l w"
    unfolding bitmap_wf_def n lb(1,2) using lb(7) by (meson not_le order_less_trans)
qed

text \<open>
  \<open>clear_collect_bitmap\<close> and \<open>copy_collect_bitmap\<close> together start the next cycle: the mark bitmap
  is the collect bitmap of the last one, and the collect bitmap is empty.  If nothing was marked the
  segment is blank.
\<close>

lemma clear_collect_bits:
  assumes "layout_ok l"
  shows "i < bits0_of (num_blocks l) \<Longrightarrow> \<not> bit_at (clear_collect_bitmap l w) (COLLECT_BITMAP_BASE l) i"
    and "x < COLLECT_BITMAP_BASE l \<Longrightarrow> clear_collect_bitmap l w x = w x"
proof -
  obtain g n where l: "l = layout_with g n" using assms by (rule layout_okE)
  show "\<not> bit_at (clear_collect_bitmap l w) (COLLECT_BITMAP_BASE l) i" if "i < bits0_of (num_blocks l)"
  proof -
    have "i div 32 < len1_of n"
      using that bits0_of_props(4)[of n] by (simp add: l layout_with_sel(3) less_mult_imp_div_less mult.commute)
    then show ?thesis by (simp add: clear_collect_bitmap_def fill_zero_def bit_at_def l word_offsets(6))
  qed
  show "x < COLLECT_BITMAP_BASE l \<Longrightarrow> clear_collect_bitmap l w x = w x"
    by (simp add: clear_collect_bitmap_def fill_zero_def)
qed

lemma collect_base_ge:
  assumes "layout_ok l"
  shows "8 + len1_of (num_blocks l) + bits1_of (num_blocks l) div 32 = COLLECT_BITMAP_BASE l"
proof -
  obtain g n where l: "l = layout_with g n" using assms by (rule layout_okE)
  show ?thesis by (simp add: l word_offsets layout_with_sel(3))
qed

lemma bit_at_cong: "(\<And>x. x < c \<Longrightarrow> w x = v x) \<Longrightarrow> p + i div 32 < c \<Longrightarrow> bit_at w p i = bit_at v p i"
  by (simp add: bit_at_def)

lemma bitmap_wf_cong:
  assumes "layout_ok l" "\<And>x. x < COLLECT_BITMAP_BASE l \<Longrightarrow> w x = v x"
  shows "bitmap_wf l w = bitmap_wf l v" "i < bits0_of (num_blocks l) \<Longrightarrow> bit_at w 8 i = bit_at v 8 i"
proof -
  let ?n = "num_blocks l"
  note c = collect_base_ge[OF assms(1), symmetric] and lb = layout_bits[OF assms(1)]
  have b1: "bits1_of ?n = 32 * (bits1_of ?n div 32)" using bits1_of_props(1)[of ?n] by simp
  have p: "0 < bits1_of ?n div 32" by (simp add: bits1_words)
  have z: "bit_at w 8 i = bit_at v 8 i" if "i < bits0_of ?n" for i
  proof -
    have "i div 32 < len1_of ?n" using that lb(6) by (simp add: less_mult_imp_div_less mult.commute)
    then have "8 + i div 32 < COLLECT_BITMAP_BASE l" using c p by linarith
    then show ?thesis by (intro bit_at_cong[OF assms(2)])
  qed
  have o: "bit_at w (8 + len1_of ?n) j = bit_at v (8 + len1_of ?n) j" if "j < bits1_of ?n" for j
  proof -
    have "j div 32 < bits1_of ?n div 32" using that b1 by (metis less_mult_imp_div_less mult.commute)
    then have "8 + len1_of ?n + j div 32 < COLLECT_BITMAP_BASE l" using c by linarith
    then show ?thesis by (intro bit_at_cong[OF assms(2)])
  qed
  have e: "w (8 + j) = v (8 + j)" if "j < len1_of ?n" for j using that c p by (intro assms(2)) simp
  show "i < bits0_of (num_blocks l) \<Longrightarrow> bit_at w 8 i = bit_at v 8 i" using z .
  have o': "bit_at w (8 + len1_of ?n) j = bit_at v (8 + len1_of ?n) j" if "j < len1_of ?n" for j
    using o lb(7) that by simp
  show "bitmap_wf l w = bitmap_wf l v"
    unfolding bitmap_wf_def lb(1,2) by (simp add: z o o' e cong: conj_cong)
qed

lemma copy_collect_blank:
  assumes "layout_ok l" "\<And>i. i < bits0_of (num_blocks l) \<Longrightarrow> \<not> bit_at w (COLLECT_BITMAP_BASE l) i"
  shows "blank_words l (copy_collect_bitmap l w)"
proof -
  obtain g n where l: "l = layout_with g n" using assms(1) by (rule layout_okE)
  have n: "num_blocks l = n" by (simp add: l layout_with_sel(3))
  let ?w = "copy_collect_bitmap l w"
  note lb = layout_bits[OF assms(1), unfolded n]
  have lt: "n < bits0_of n" by (rule bits0_of_props(2))
  have free: "\<not> bit_at ?w 8 i" if "i < n" for i
    using copy_collect_bits[where w = w and g = g, OF that] assms(2)[of i] that lt by (simp add: n flip: l)
  have wf: "bitmap_wf l ?w" unfolding l by (rule copy_collect_wf)
  have col: "\<not> bit_at ?w (COLLECT_BITMAP_BASE l) i" if "i < bits0_of n" for i
    using assms(2)[of i] that copy_collect_frame[where x = "COLLECT_BITMAP_BASE l + i div 32" and g = g and n = n and w = w]
    by (simp add: bit_at_def n flip: l)
  have nf: "?w (8 + j) \<noteq> - 1" if "j < len1_of n" for j
    using word_not_full[OF assms(1), of j ?w] that free by (simp add: n)
  show ?thesis
    unfolding blank_bits[OF l]
    using wf[unfolded bitmap_wf_def n lb(1,2)] free col nf lb(7) by (metis not_le)
qed

section \<open>Counting\<close>

lemma popcount_card: "popcount w = card {k. k < 32 \<and> bit w k}"
proof -
  have "popcount w = card (set (filter (bit w) [0..<32]))"
    unfolding popcount_def by (rule distinct_card[symmetric]) simp
  also have "set (filter (bit w) [0..<32]) = {k. k < 32 \<and> bit w k}" by auto
  finally show ?thesis .
qed

lemma sum_popcount:
  "sum_list (map (\<lambda>q. popcount (v q)) [a..<a + m])
     = card {i. 32 * a \<le> i \<and> i < 32 * (a + m) \<and> bit (v (i div 32)) (i mod 32)}"
proof (induction m)
  case (Suc m)
  let ?S = "\<lambda>m. {i. 32 * a \<le> i \<and> i < 32 * (a + m) \<and> bit (v (i div 32)) (i mod 32)}"
  let ?T = "(\<lambda>k. 32 * (a + m) + k) ` {k. k < 32 \<and> bit (v (a + m)) k}"
  have div_simp: "(32 * (a + m) + k) div 32 = a + m" "(32 * (a + m) + k) mod 32 = k" if "k < 32" for k
  proof -
    have "32 * (a + m) + k = k + (a + m) * 32" by simp
    then show "(32 * (a + m) + k) div 32 = a + m" "(32 * (a + m) + k) mod 32 = k"
      using that by (simp_all only: div_mult_self1 mod_mult_self1 mod_less div_less)
  qed
  have "?S (Suc m) = ?S m \<union> ?T"
  proof (intro equalityI subsetI)
    fix i assume i: "i \<in> ?S (Suc m)"
    show "i \<in> ?S m \<union> ?T"
    proof (cases "i < 32 * (a + m)")
      case False
      then have "i div 32 = a + m" using i by (intro div_nat_eqI) auto
      then have "i = 32 * (a + m) + i mod 32" by (metis mult_div_mod_eq)
      then show ?thesis using i \<open>i div 32 = a + m\<close> by (metis (no_types, lifting) UnCI image_eqI
            mem_Collect_eq mod_less_divisor zero_less_numeral)
    qed (use i in auto)
  qed (auto simp: div_simp simp del: distrib_left_numeral intro: trans_le_add1 mult_le_mono2)
  moreover have "?S m \<inter> ?T = {}" by auto
  moreover have "finite (?S m)" by (rule finite_subset[of _ "{..<32 * (a + m)}"]) auto
  moreover have "card ?T = popcount (v (a + m))"
    unfolding popcount_card by (rule card_image) (simp add: inj_on_def)
  ultimately have "card (?S (Suc m)) = card (?S m) + popcount (v (a + m))"
    by (simp add: card_Un_disjoint)
  then show ?case using Suc.IH by simp
qed auto

lemma free_words_count:
  assumes "layout_ok l" "bitmap_wf l w" "a \<le> len1_of (num_blocks l)"
  shows "sum_list (map (\<lambda>q. popcount (NOT (w q))) [8 + a..<BITMAP_LIMIT l 0])
     = card {i. is_free l w i \<and> 32 * a \<le> i}"
proof -
  let ?L = "len1_of (num_blocks l)"
  note lb = layout_bits[OF assms(1)]
  have "map (\<lambda>q. popcount (NOT (w q))) [8 + a..<8 + ?L]
      = map (\<lambda>q. popcount (NOT (w (8 + q)))) [a..<a + (?L - a)]"
    using assms(3) by (intro nth_equalityI) (auto simp: add.assoc)
  then have "sum_list (map (\<lambda>q. popcount (NOT (w q))) [8 + a..<8 + ?L])
     = card {i. 32 * a \<le> i \<and> i < 32 * (a + (?L - a)) \<and> bit (NOT (w (8 + i div 32))) (i mod 32)}"
    by (simp only: sum_popcount)
  also have "{i. 32 * a \<le> i \<and> i < 32 * (a + (?L - a)) \<and> bit (NOT (w (8 + i div 32))) (i mod 32)}
     = {i. is_free l w i \<and> 32 * a \<le> i}"
  proof -
    have "i < 32 * ?L \<and> \<not> bit_at w 8 i \<longleftrightarrow> i < num_blocks l \<and> \<not> bit_at w 8 i" for i
      using assms(2) lb(5,6) unfolding bitmap_wf_def lb(1) by (metis not_le order_less_trans)
    then show ?thesis
      using assms(3) by (auto simp: is_free_def bit_not_iff lb(1) simp flip: bit_at_def)
  qed
  finally show ?thesis by (simp add: lb(3))
qed

lemma free_count_None:
  assumes "layout_ok l" "bitmap_wf l w"
  shows "free_count l w None = card {i. is_free l w i}"
  using free_words_count[OF assms, of 0] by (simp add: free_count_def)


text \<open>With an allocation pointer, counting starts at the word after the pointer's.\<close>

lemma free_count_Some:
  assumes "layout_ok l" "bitmap_wf l w" "a \<le> num_blocks l"
  shows "free_count l w (Some (block_addr l a)) = card {i. is_free l w i \<and> 32 * (a div 32 + 1) \<le> i}"
proof -
  have idx: "object_index l (block_addr l a) = a"
    by (simp add: object_index_def block_addr_def push_bit_eq_mult drop_bit_eq_div)
  have "a div 32 + 1 \<le> len1_of (num_blocks l)"
    using assms(3) layout_bits(5)[OF assms(1)] by (simp add: div_less_iff_less_mult Suc_le_eq mult.commute)
  from free_words_count[OF assms(1,2) this] show ?thesis
    by (simp add: free_count_def idx add.commute)
qed

section \<open>Statistics\<close>

lemma length_filter_upt_Suc:
  "length (filter P [0..<Suc k]) = length (filter P [0..<k]) + (if P k then 1 else 0)"
  by simp

lemma stat_segment_counts:
  assumes "layout_ok l"
  shows "stat_segment l w a = \<lparr>
     num_marked = length (filter (bit_at w 8) [0..<num_blocks l]),
     num_unmarked = length (filter (\<lambda>i. \<not> bit_at w 8 i) [0..<num_blocks l]),
     num_marked_before_allocptr =
       length (filter (\<lambda>i. bit_at w 8 i \<and> block_addr l i < a) [0..<num_blocks l]),
     num_unmarked_before_allocptr =
       length (filter (\<lambda>i. \<not> bit_at w 8 i \<and> block_addr l i < a) [0..<num_blocks l])\<rparr>"
proof -
  obtain g n where l: "l = layout_with g n" using assms by (rule layout_okE)
  have adr: "block_addr l i = block_offset l + i * blocksize_bytes l" for i
    by (simp add: block_addr_def l layout_with_sel push_bit_eq_mult)
  have "fold (\<lambda>i (st, b, blk).
       (let before = (if blk < a then 1 else 0)
        in if BITPTR_TEST w b
           then st\<lparr>num_marked := num_marked st + 1,
                   num_marked_before_allocptr := num_marked_before_allocptr st + before\<rparr>
           else st\<lparr>num_unmarked := num_unmarked st + 1,
                   num_unmarked_before_allocptr := num_unmarked_before_allocptr st + before\<rparr>,
        BITPTR_INC b, blk + blocksize_bytes l))
     [0..<k]
     (\<lparr>num_marked = 0, num_unmarked = 0, num_marked_before_allocptr = 0,
       num_unmarked_before_allocptr = 0\<rparr>, BITPTR BITMAP0_BASE 0, BLOCK_BASE l)
   = (\<lparr>num_marked = length (filter (bit_at w 8) [0..<k]),
       num_unmarked = length (filter (\<lambda>i. \<not> bit_at w 8 i) [0..<k]),
       num_marked_before_allocptr = length (filter (\<lambda>i. bit_at w 8 i \<and> block_addr l i < a) [0..<k]),
       num_unmarked_before_allocptr =
         length (filter (\<lambda>i. \<not> bit_at w 8 i \<and> block_addr l i < a) [0..<k])\<rparr>,
      BITPTR 8 k, block_addr l k)" for k
    by (induction k)
      (simp_all add: BLOCK_BASE_def adr BITPTR_TEST_BITPTR BITPTR_INC_BITPTR Let_def algebra_simps)
  then show ?thesis by (simp add: stat_segment_def)
qed

section \<open>Properties\<close>

text \<open>C23.  \<open>init_segment\<close> takes a segment that holds no object -- fresh zeroed memory or a segment
  left blank in any of the ten layouts -- and installs the layout of any subheap: afterwards the
  two-level bitmap is well formed, every block is free, the collect bitmap is empty, the segment is
  blank again and its \<open>free_count\<close> field is exact.\<close>

theorem init_segment_fresh:
  assumes "blank seg" "i < NUM_SUBHEAPS"
  defines "seg' \<equiv> init_segment seg i"
  defines "l \<equiv> compute_segment_layout i"
  shows "seg_layout seg' = Some l \<and> blank seg' \<and> bitmap_wf l (seg_words seg')
     \<and> (\<forall>k < num_blocks l. is_free l (seg_words seg') k
          \<and> \<not> bit_at (seg_words seg') (COLLECT_BITMAP_BASE l) k)
     \<and> allocptr_snapshot seg' = BLOCK_BASE l
     \<and> seg_free_count seg' = free_count l (seg_words seg') None"
proof -
  note b = init_segment_blank[OF assms(1,2), folded seg'_def l_def]
  have ok: "layout_ok l" unfolding l_def by (rule compute_segment_layout_ok(1)[OF assms(2)])
  have bw: "blank_words l (seg_words seg')" "allocptr_snapshot seg' = BLOCK_BASE l"
      "seg_free_count seg' = num_blocks l"
    using b by (simp_all add: blank_def)
  note f = blank_facts[OF ok bw(1)]
  have "{k. is_free l (seg_words seg') k} = {..<num_blocks l}"
    using f(2) by (auto simp: is_free_def)
  then have "free_count l (seg_words seg') None = num_blocks l"
    by (simp add: free_count_None[OF ok f(1)])
  then show ?thesis using b bw f bits0_of_props(2)[of "num_blocks l"] by auto
qed

theorem init_segment_fresh_witness:
  "blank \<lparr>seg_layout = None, seg_words = \<lambda>_. 0, allocptr_snapshot = 0, seg_free_count = 0\<rparr>
   \<and> blank (init_segment \<lparr>seg_layout = None, seg_words = \<lambda>_. 0, allocptr_snapshot = 0,
        seg_free_count = 0\<rparr> 4)"
proof -
  have h: "blank \<lparr>seg_layout = None, seg_words = \<lambda>_. 0, allocptr_snapshot = 0, seg_free_count = 0\<rparr>"
    by (simp add: blank_def)
  have i: "(4 :: nat) < NUM_SUBHEAPS" by (simp add: layout_simps)
  show ?thesis using init_segment_fresh[OF h i] h by blast
qed

lemma collected_bits:
  fixes w :: "nat \<Rightarrow> u32"
  assumes "layout_ok l"
  defines "w' \<equiv> clear_collect_bitmap l (copy_collect_bitmap l w)"
  shows "bitmap_wf l w'
     \<and> (\<forall>i < num_blocks l. is_free l w' i \<longleftrightarrow> \<not> bit_at w (COLLECT_BITMAP_BASE l) i)
     \<and> (\<forall>i < num_blocks l. \<not> bit_at w' (COLLECT_BITMAP_BASE l) i)"
proof -
  obtain g n where l: "l = layout_with g n" using assms(1) by (rule layout_okE)
  have n: "num_blocks l = n" by (simp add: l layout_with_sel(3))
  let ?v = "copy_collect_bitmap l w"
  have same: "w' x = ?v x" if "x < COLLECT_BITMAP_BASE l" for x
    unfolding w'_def by (rule clear_collect_bits(2)[OF assms(1) that])
  have wf: "bitmap_wf l w'"
    using bitmap_wf_cong(1)[OF assms(1) same] copy_collect_wf[of g n w] by (simp flip: l)
  have lt: "n < bits0_of n" by (rule bits0_of_props(2))
  have b: "bit_at w' 8 i = bit_at w (COLLECT_BITMAP_BASE l) i" if "i < n" for i
    using bitmap_wf_cong(2)[OF assms(1) same, where i = i] copy_collect_bits[where w = w and g = g, OF that]
      that lt by (simp add: n flip: l)
  have fr: "is_free l w' i \<longleftrightarrow> i < n \<and> \<not> bit_at w (COLLECT_BITMAP_BASE l) i" for i
    using b by (auto simp: is_free_def n layout_bits(1)[OF assms(1)])
  moreover have "\<not> bit_at w' (COLLECT_BITMAP_BASE l) i" if "i < n" for i
    unfolding w'_def using that lt n by (intro clear_collect_bits(1)[OF assms(1)]) simp
  ultimately show ?thesis using wf by (simp add: n)
qed

text \<open>C24.  At the end of a collection cycle \<open>copy_collect_bitmap\<close> followed by
  \<open>clear_collect_bitmap\<close> makes the blocks marked in the cycle the used ones and all other blocks
  free, rebuilds a well-formed upper level, and empties the collect bitmap for the next cycle; the
  count taken with no allocation pointer is the exact number of free blocks.\<close>

theorem collect_cycle_bitmap:
  fixes w :: "nat \<Rightarrow> u32"
  assumes "layout_ok l"
  defines "w' \<equiv> clear_collect_bitmap l (copy_collect_bitmap l w)"
  shows "bitmap_wf l w'
     \<and> (\<forall>i < num_blocks l. is_free l w' i \<longleftrightarrow> \<not> bit_at w (COLLECT_BITMAP_BASE l) i)
     \<and> (\<forall>i < num_blocks l. \<not> bit_at w' (COLLECT_BITMAP_BASE l) i)
     \<and> free_count l w' None = card {i. i < num_blocks l \<and> \<not> bit_at w (COLLECT_BITMAP_BASE l) i}"
proof -
  note c = collected_bits[OF assms(1), of w, folded w'_def]
  then have "{i. i < num_blocks l \<and> is_free l w' i} = {i. i < num_blocks l \<and> \<not> bit_at w (COLLECT_BITMAP_BASE l) i}" by blast
  moreover have "{i. i < num_blocks l \<and> is_free l w' i} = {i. is_free l w' i}" by (auto simp: is_free_def)
  ultimately show ?thesis using c free_count_None[OF assms(1), of w'] by simp
qed

theorem collect_cycle_bitmap_witness:
  "layout_ok (compute_segment_layout 2)
   \<and> free_count (compute_segment_layout 2) (clear_collect_bitmap (compute_segment_layout 2)
       (copy_collect_bitmap (compute_segment_layout 2) (\<lambda>_. 0))) None = 812"
proof -
  have i: "(2 :: nat) < NUM_SUBHEAPS" by (simp add: layout_simps)
  note ok = compute_segment_layout_ok[OF i]
  have "num_blocks (compute_segment_layout 2) = 812" using ok(3) by (simp add: num_blocks_table_def)
  then show ?thesis
    using collect_cycle_bitmap[OF ok(1), of "\<lambda>_. 0"] ok(1) by (simp add: bit_at_def)
qed

text \<open>C25.  With an allocation pointer, \<open>free_count\<close> never overestimates the free blocks at or after
  the pointer, and misses at most 32 of them; the source's comment says at most 31, but a pointer
  that stands on the first bit of a word with no used block misses all 32.\<close>

theorem free_count_estimate:
  assumes "layout_ok l" "bitmap_wf l w" "a \<le> num_blocks l"
  defines "est \<equiv> free_count l w (Some (block_addr l a))"
  shows "est \<le> card {i. is_free l w i \<and> a \<le> i} \<and> card {i. is_free l w i \<and> a \<le> i} \<le> est + 32
     \<and> ((\<forall>i \<in> {a..<a + 32}. is_free l w i) \<and> 32 dvd a \<longrightarrow>
          card {i. is_free l w i \<and> a \<le> i} = est + 32)"
proof -
  let ?A = "{i. is_free l w i \<and> a \<le> i}" let ?b = "32 * (a div 32 + 1)"
  let ?B = "{i. is_free l w i \<and> ?b \<le> i}" let ?D = "{i. is_free l w i \<and> a \<le> i \<and> i < ?b}"
  have est: "est = card ?B" unfolding est_def by (rule free_count_Some[OF assms(1-3)])
  have fin: "finite {i. is_free l w i}"
    by (rule finite_subset[of _ "{..<num_blocks l}"]) (auto simp: is_free_def)
  have "a < ?b" by presburger
  then have "?A = ?B \<union> ?D" "?B \<inter> ?D = {}" by auto
  then have card: "card ?A = est + card ?D"
    using fin unfolding est by (subst \<open>?A = ?B \<union> ?D\<close>, intro card_Un_disjoint) (auto intro: finite_subset)
  have sub: "?D \<subseteq> {a..<?b}" by auto
  have "?b \<le> a + 32" by simp
  then have le: "card ?D \<le> 32" using card_mono[OF _ sub] by simp
  have "card ?D = 32" if "\<forall>i \<in> {a..<a + 32}. is_free l w i" "32 dvd a"
  proof -
    have "?b = a + 32" using that(2) by auto
    then have "?D = {a..<a + 32}" using that(1) by auto
    then show ?thesis by simp
  qed
  then show ?thesis using card le by auto
qed

theorem free_count_estimate_witness:
  "\<exists>w. layout_ok (compute_segment_layout 0) \<and> bitmap_wf (compute_segment_layout 0) w
     \<and> card {i. is_free (compute_segment_layout 0) w i \<and> 64 \<le> i}
       = free_count (compute_segment_layout 0) w (Some (block_addr (compute_segment_layout 0) 64)) + 32"
proof -
  let ?l = "compute_segment_layout 0"
  have i: "(0 :: nat) < NUM_SUBHEAPS" by (simp add: layout_simps)
  note ok = compute_segment_layout_ok[OF i]
  have n: "num_blocks ?l = 2013" using ok(3) by (simp add: num_blocks_table_def)
  have w: "blank_words ?l (copy_collect_bitmap ?l (\<lambda>_. 0))"
    by (rule copy_collect_blank[OF ok(1)]) (simp add: bit_at_def)
  let ?v = "copy_collect_bitmap ?l (\<lambda>_. 0)"
  note f = blank_facts[OF ok(1) w]
  have a: "64 \<le> num_blocks ?l" by (simp add: n)
  have "card {i. is_free ?l ?v i \<and> 64 \<le> i} = free_count ?l ?v (Some (block_addr ?l 64)) + 32"
    using free_count_estimate[OF ok(1) f(1) a] f(2) n by auto
  then show ?thesis using ok(1) f(1) by blast
qed

text \<open>\<open>stat_segment\<close> counts the marked and the unmarked blocks, and of each those before the
  allocation pointer.\<close>

theorem stat_segment_correct:
  assumes "layout_ok l"
  shows "num_marked (stat_segment l w a) = card {i. i < num_blocks l \<and> bit_at w (BITMAP_BASE l 0) i}
     \<and> num_marked (stat_segment l w a) + num_unmarked (stat_segment l w a) = num_blocks l
     \<and> num_marked_before_allocptr (stat_segment l w a)
        = card {i. i < num_blocks l \<and> bit_at w (BITMAP_BASE l 0) i \<and> block_addr l i < a}
     \<and> num_unmarked_before_allocptr (stat_segment l w a)
        = card {i. is_free l w i \<and> block_addr l i < a}"
proof -
  have len: "length (filter P [0..<n]) = card {i. i < n \<and> P i}" for P n
  proof -
    have "length (filter P [0..<n]) = card (set (filter P [0..<n]))"
      by (rule distinct_card[symmetric]) simp
    also have "set (filter P [0..<n]) = {i. i < n \<and> P i}" by auto
    finally show ?thesis .
  qed
  have tot: "length (filter P [0..<n]) + length (filter (\<lambda>i. \<not> P i) [0..<n]) = n" for P n
    using sum_length_filter_compl[of P "[0..<n]"] by simp
  show ?thesis
    unfolding stat_segment_counts[OF assms] layout_bits(1)[OF assms] is_free_def
    using tot by (simp add: len conj_assoc)
qed

theorem stat_segment_correct_witness:
  "num_marked (stat_segment (compute_segment_layout 9) (\<lambda>_. 1) 0)
     + num_unmarked (stat_segment (compute_segment_layout 9) (\<lambda>_. 1) 0) = 7"
proof -
  have i: "(9 :: nat) < NUM_SUBHEAPS" by (simp add: layout_simps)
  note ok = compute_segment_layout_ok[OF i]
  have "num_blocks (compute_segment_layout 9) = 7" using ok(3) by (simp add: num_blocks_table_def)
  then show ?thesis using stat_segment_correct[OF ok(1)] by metis
qed

end
