(* ===== verification/Phase.thy ===== *)
theory Phase
  imports Prelude
begin

unbundle bit_operations_syntax

text \<open>
  The synchronisation phases of the collector (src/smlsharp/src/runtime/smlsharp.h,
  \<open>enum sml_sync_phase\<close>), ordered by their numeric codes: the C code compares phases with
  \<open><=\<close>.  The order is an instance of \<open>linorder\<close>.
\<close>

datatype sml_sync_phase =
  PREASYNC | ASYNC | PRESYNC1 | SYNC1 | PRESYNC2 | SYNC2 | PREMARK | MARK | DUMMY_PHASE

fun phase_num :: "sml_sync_phase \<Rightarrow> nat" where
  "phase_num PREASYNC = 0"
| "phase_num ASYNC = 1"
| "phase_num PRESYNC1 = 2"
| "phase_num SYNC1 = 3"
| "phase_num PRESYNC2 = 4"
| "phase_num SYNC2 = 5"
| "phase_num PREMARK = 6"
| "phase_num MARK = 7"
| "phase_num DUMMY_PHASE = 16"

lemma phase_num_inj [simp]: "phase_num p = phase_num q \<longleftrightarrow> p = q"
  by (cases p; cases q) simp_all

instantiation sml_sync_phase :: linorder
begin

definition less_eq_sml_sync_phase :: "sml_sync_phase \<Rightarrow> sml_sync_phase \<Rightarrow> bool" where
  "less_eq_sml_sync_phase p q \<longleftrightarrow> phase_num p \<le> phase_num q"

definition less_sml_sync_phase :: "sml_sync_phase \<Rightarrow> sml_sync_phase \<Rightarrow> bool" where
  "less_sml_sync_phase p q \<longleftrightarrow> phase_num p < phase_num q"

instance
  by standard (auto simp: less_eq_sml_sync_phase_def less_sml_sync_phase_def)

end

lemmas phase_order = less_eq_sml_sync_phase_def less_sml_sync_phase_def

text \<open>The phases in which a worker has not yet taken its allocation pointer snapshot.\<close>

definition before_snapshot :: "sml_sync_phase \<Rightarrow> bool" where
  "before_snapshot phase \<longleftrightarrow> ASYNC \<le> phase \<and> phase \<le> PRESYNC2"

lemma before_snapshot_iff:
  "before_snapshot p \<longleftrightarrow> p = ASYNC \<or> p = PRESYNC1 \<or> p = SYNC1 \<or> p = PRESYNC2"
  by (cases p) (simp_all add: before_snapshot_def phase_order)

end
