(* ===== verification/AllocPtr.thy ===== *)
theory AllocPtr
  imports Segment Phase
begin

unbundle bit_operations_syntax

text \<open>
  The allocation pointer and the search for the next free block
  (src/smlsharp/src/runtime/heap_concurrent.c).  An allocation pointer is a bit pointer into the
  mark bitmap of its segment together with the address of the corresponding block.  Segments are
  numbered and an address in one is an offset, so that \<open>ALLOC_PTR_TO_SEGMENT\<close>, which masks the
  bit pointer's address, is the field \<open>ap_seg\<close>; \<open>None\<close> is the static dummy bitmap.
\<close>

type_synonym segments = "nat \<Rightarrow> segment"

record alloc_ptr =
  ap_b :: sml_bitptr
  ap_p :: "nat option"
  ap_blocksize :: nat
  ap_seg :: "nat option"

definition dummy_bitmap :: u32 where "dummy_bitmap = - 1"

definition dummy_bitptr :: sml_bitptr where "dummy_bitptr = \<lparr>bp_ptr = 0, bp_mask = 1\<rparr>"

definition clear_alloc_ptr :: "alloc_ptr \<Rightarrow> alloc_ptr" where
  "clear_alloc_ptr ptr = ptr\<lparr>ap_b := dummy_bitptr, ap_p := None, ap_seg := None\<rparr>"

definition init_alloc_ptr :: "nat \<Rightarrow> alloc_ptr" where
  "init_alloc_ptr log2 = clear_alloc_ptr
     \<lparr>ap_b = dummy_bitptr, ap_p = None, ap_blocksize = push_bit log2 1, ap_seg = None\<rparr>"

definition seg_the_layout :: "segment \<Rightarrow> segment_layout" where
  "seg_the_layout seg = the (seg_layout seg)"

definition set_alloc_ptr :: "alloc_ptr \<Rightarrow> nat \<Rightarrow> sml_sync_phase \<Rightarrow> segments \<Rightarrow> alloc_ptr \<times> segments" where
  "set_alloc_ptr ptr s phase segs =
     (let l = seg_the_layout (segs s) in
      (ptr\<lparr>ap_b := BITPTR BITMAP0_BASE 0, ap_p := Some (BLOCK_BASE l), ap_seg := Some s\<rparr>,
       if ASYNC \<le> phase \<and> phase \<le> PRESYNC2
       then segs(s := (segs s)\<lparr>allocptr_snapshot := BLOCK_LIMIT l\<rparr>) else segs))"

definition release_alloc_ptr :: "alloc_ptr \<Rightarrow> sml_sync_phase \<Rightarrow> segments \<Rightarrow> nat \<times> alloc_ptr \<times> segments" where
  "release_alloc_ptr ptr phase segs =
     (let s = the (ap_seg ptr) in
      (s, clear_alloc_ptr ptr,
       if ASYNC \<le> phase \<and> phase \<le> PRESYNC2
       then segs(s := (segs s)\<lparr>allocptr_snapshot := BLOCK_LIMIT (seg_the_layout (segs s))\<rparr>)
       else segs))"

definition save_alloc_ptr :: "alloc_ptr \<Rightarrow> segments \<Rightarrow> segments" where
  "save_alloc_ptr ptr segs =
     (case ap_p ptr of
        None \<Rightarrow> segs
      | Some p \<Rightarrow> let s = the (ap_seg ptr) in segs(s := (segs s)\<lparr>allocptr_snapshot := p\<rparr>))"

text \<open>The words the bit pointer of an allocation pointer reads.\<close>

definition ap_words :: "segments \<Rightarrow> alloc_ptr \<Rightarrow> nat \<Rightarrow> u32" where
  "ap_words segs ptr =
     (case ap_seg ptr of None \<Rightarrow> (\<lambda>_. dummy_bitmap) | Some s \<Rightarrow> seg_words (segs s))"

function bitptr_linear_search :: "(nat \<Rightarrow> u32) \<Rightarrow> nat \<Rightarrow> nat \<Rightarrow> sml_bitptr" where
  "bitptr_linear_search w start limit =
     (if start < limit then
        let b = BITPTR_NEXT0 w \<lparr>bp_ptr = start, bp_mask = 1\<rparr> in
        if \<not> BITPTR_NEXT_FAILED b then b else bitptr_linear_search w (start + 1) limit
      else \<lparr>bp_ptr = start, bp_mask = 0\<rparr>)"
  by pat_completeness auto
termination by (relation "measure (\<lambda>(w, start, limit). limit - start)") auto

declare bitptr_linear_search.simps [simp del]

text \<open>The loop of \<open>find_bitmap\<close> that climbs from a full word to the upper level.\<close>

function find_climb :: "segment_layout \<Rightarrow> (nat \<Rightarrow> u32) \<Rightarrow> nat \<Rightarrow> nat \<Rightarrow> sml_bitptr \<Rightarrow>
    (nat \<times> nat \<times> sml_bitptr) option" where
  "find_climb l w i base b =
     (let index = BITPTR_WORDINDEX b base + 1;
          base1 = BITMAP_BASE l i;
          b1 = BITPTR_NEXT0 w (BITPTR base1 index)
      in if \<not> BITPTR_NEXT_FAILED b1 then Some (i, base1, b1)
         else if i \<ge> SEG_RANK - 1 then
           let b2 = bitptr_linear_search w (bp_ptr b1 + 1) (BITMAP_LIMIT l i)
           in if BITPTR_NEXT_FAILED b2 then None else Some (i, base1, b2)
         else find_climb l w (i + 1) base1 b1)"
  by pat_completeness auto
termination by (relation "measure (\<lambda>(l, w, i, base, b). SEG_RANK - i)") auto

declare find_climb.simps [simp del]

text \<open>The loop that descends to the word of level 0 the bits found stand for.\<close>

fun find_descend :: "segment_layout \<Rightarrow> (nat \<Rightarrow> u32) \<Rightarrow> nat \<Rightarrow> nat \<Rightarrow> sml_bitptr \<Rightarrow> nat \<times> sml_bitptr" where
  "find_descend l w 0 base b = (base, b)"
| "find_descend l w (Suc i) base b =
     (let index = BITPTR_INDEX b base;
          base1 = BITMAP_BASE l i
      in find_descend l w i base1 (BITPTR_NEXT0 w (BITPTR (base1 + index) 0)))"

definition find_bitmap :: "alloc_ptr \<Rightarrow> segments \<Rightarrow> nat option \<times> alloc_ptr" where
  "find_bitmap ptr segs =
     (case ap_p ptr of
        None \<Rightarrow> (None, ptr)
      | Some _ \<Rightarrow>
          let seg = segs (the (ap_seg ptr)); l = seg_the_layout seg; w = seg_words seg;
              b = BITPTR_NEXT0 w (ap_b ptr);
              found = (if BITPTR_NEXT_FAILED b
                       then (case find_climb l w 1 BITMAP0_BASE b of
                               None \<Rightarrow> None
                             | Some (i, base, b) \<Rightarrow> Some (find_descend l w i base b))
                       else Some (BITMAP0_BASE, b))
          in case found of
               None \<Rightarrow> (None, ptr)
             | Some (base, b) \<Rightarrow>
                 let index = BITPTR_INDEX b base;
                     obj = BLOCK_BASE l + push_bit (blocksize_log2 l) index
                 in (Some obj,
                     ptr\<lparr>ap_b := BITPTR_INC b, ap_p := Some (obj + ap_blocksize ptr)\<rparr>))"

text \<open>
  The part of \<open>sml_alloc\<close> and \<open>sml_alloc_important\<close> that looks at one allocation pointer: the fast
  path, then \<open>find_bitmap\<close>.
\<close>

definition alloc_from_ptr :: "alloc_ptr \<Rightarrow> segments \<Rightarrow> nat option \<times> alloc_ptr" where
  "alloc_from_ptr ptr segs =
     (if \<not> BITPTR_TEST (ap_words segs ptr) (ap_b ptr)
      then (ap_p ptr,
            ptr\<lparr>ap_b := BITPTR_INC (ap_b ptr),
                ap_p := Some (the (ap_p ptr) + ap_blocksize ptr)\<rparr>)
      else find_bitmap ptr segs)"

section \<open>Searching\<close>

text \<open>The least clear bit in a range of words.\<close>

lemma BITPTR_word: "\<lparr>bp_ptr = p + q, bp_mask = 1\<rparr> = BITPTR p (32 * q)"
  by (simp add: BITPTR_def)

lemma bitptr_linear_search_cases:
  obtains (found) j where "32 * q \<le> j" "j < 32 * m" "\<not> bit_at w p j"
      "\<And>i. 32 * q \<le> i \<Longrightarrow> i < j \<Longrightarrow> bit_at w p i" "bitptr_linear_search w (p + q) (p + m) = BITPTR p j"
    | (failed) "\<And>i. 32 * q \<le> i \<Longrightarrow> i < 32 * m \<Longrightarrow> bit_at w p i"
      "BITPTR_NEXT_FAILED (bitptr_linear_search w (p + q) (p + m))"
proof -
  have "(\<exists>j. 32 * q \<le> j \<and> j < 32 * m \<and> \<not> bit_at w p j
          \<and> (\<forall>i. 32 * q \<le> i \<and> i < j \<longrightarrow> bit_at w p i)
          \<and> bitptr_linear_search w (p + q) (p + m) = BITPTR p j)
     \<or> (\<forall>i. 32 * q \<le> i \<and> i < 32 * m \<longrightarrow> bit_at w p i)
          \<and> BITPTR_NEXT_FAILED (bitptr_linear_search w (p + q) (p + m))"
  proof (induction "m - q" arbitrary: q)
    case 0
    then have le: "32 * m \<le> 32 * q" and f: "\<not> q < m" by simp_all
    have "\<forall>i. 32 * q \<le> i \<and> i < 32 * m \<longrightarrow> bit_at w p i" using le by (meson leD le_trans)
    with f show ?case by (simp add: bitptr_linear_search.simps)
  next
    case (Suc d)
    then have lt: "q < m" by simp
    show ?case
    proof (cases rule: BITPTR_NEXT0_cases[of "32 * q" w p])
      case (found n')
      then have "n' < 32 * m" using lt by (simp add: same_word) 
      moreover have "bitptr_linear_search w (p + q) (p + m) = BITPTR p n'"
        using found(5) lt by (simp add: bitptr_linear_search.simps BITPTR_word Let_def)
      ultimately show ?thesis using found by blast
    next
      case failed
      have eq: "bitptr_linear_search w (p + q) (p + m) = bitptr_linear_search w (p + (q + 1)) (p + m)"
        using failed(2) lt by (subst bitptr_linear_search.simps) (simp add: BITPTR_word Let_def)
      have ones: "bit_at w p i" if "32 * q \<le> i" "i < 32 * (q + 1)" for i
        using failed(1)[of i] that same_word[of i q] by simp
      have ge: "32 * q \<le> i" if "32 * (q + 1) \<le> i" for i using that by simp
      have d: "d = m - (q + 1)" using Suc.hyps(2) by simp
      from Suc.hyps(1)[OF d] show ?thesis
      proof (elim disjE exE conjE)
        fix j assume j: "32 * (q + 1) \<le> j" "j < 32 * m" "\<not> bit_at w p j"
          "\<forall>i. 32 * (q + 1) \<le> i \<and> i < j \<longrightarrow> bit_at w p i"
          "bitptr_linear_search w (p + (q + 1)) (p + m) = BITPTR p j"
        then have "\<forall>i. 32 * q \<le> i \<and> i < j \<longrightarrow> bit_at w p i" using ones by (meson not_le)
        then show ?thesis unfolding eq using j ge by blast
      next
        assume a: "\<forall>i. 32 * (q + 1) \<le> i \<and> i < 32 * m \<longrightarrow> bit_at w p i"
          and f: "BITPTR_NEXT_FAILED (bitptr_linear_search w (p + (q + 1)) (p + m))"
        have "\<forall>i. 32 * q \<le> i \<and> i < 32 * m \<longrightarrow> bit_at w p i" using a ones by (meson not_le)
        then show ?thesis unfolding eq using f by blast
      qed
    qed
  qed
  then show thesis using found failed by blast
qed

section \<open>find_bitmap finds the next free block\<close>

text \<open>\<open>ap_at segs ptr s l k\<close>: the pointer stands at block \<open>k\<close> of segment \<open>s\<close> with layout \<open>l\<close>.\<close>

definition ap_at :: "segments \<Rightarrow> alloc_ptr \<Rightarrow> nat \<Rightarrow> segment_layout \<Rightarrow> nat \<Rightarrow> bool" where
  "ap_at segs ptr s l k \<longleftrightarrow> ap_seg ptr = Some s \<and> seg_layout (segs s) = Some l \<and> layout_ok l
     \<and> bitmap_wf l (seg_words (segs s)) \<and> k \<le> num_blocks l
     \<and> ap_b ptr = BITPTR BITMAP0_BASE k \<and> ap_p ptr = Some (block_addr l k)
     \<and> ap_blocksize ptr = blocksize_bytes l"

definition next_free :: "segment_layout \<Rightarrow> (nat \<Rightarrow> u32) \<Rightarrow> nat \<Rightarrow> nat option" where
  "next_free l w k = find (is_free l w) [k..<num_blocks l]"

lemma next_free_Some:
  assumes "k \<le> i" "is_free l w i" "\<And>j. k \<le> j \<Longrightarrow> j < i \<Longrightarrow> \<not> is_free l w j"
  shows "next_free l w k = Some i"
proof -
  have "i < num_blocks l" using assms(2) by (simp add: is_free_def)
  then have "[k..<num_blocks l] = [k..<i] @ i # [Suc i..<num_blocks l]"
    using assms(1) by (metis le_Suc_ex less_imp_le_nat upt_add_eq_append upt_conv_Cons)
  moreover have "find (is_free l w) [k..<i] = None" using assms(3) by (auto simp: find_None_iff)
  ultimately show ?thesis
    using assms(2) by (simp add: next_free_def find_append)
qed

lemma next_free_None: "next_free l w k = None \<longleftrightarrow> (\<forall>i \<ge> k. \<not> is_free l w i)"
  by (auto simp: next_free_def find_None_iff is_free_def)

lemma block_addr_eq:
  assumes "layout_ok l"
  shows "BLOCK_BASE l + push_bit (blocksize_log2 l) i = block_addr l i"
    and "block_addr l i + blocksize_bytes l = block_addr l (Suc i)"
    and "block_addr l (num_blocks l) = BLOCK_LIMIT l"
proof -
  obtain g n where l: "l = layout_with g n" using assms by (rule layout_okE)
  show "BLOCK_BASE l + push_bit (blocksize_log2 l) i = block_addr l i"
    by (simp add: block_addr_def BLOCK_BASE_def)
  show "block_addr l i + blocksize_bytes l = block_addr l (Suc i)"
    "block_addr l (num_blocks l) = BLOCK_LIMIT l"
    by (simp_all add: l block_addr_def BLOCK_LIMIT_def layout_with_sel push_bit_eq_mult)
qed

text \<open>The search on level 0, and the climb to level 1 when the rest of the word is full.\<close>

lemma wf_level0:
  assumes "layout_ok l" "bitmap_wf l w" "i < 32 * len1_of (num_blocks l)"
  shows "is_free l w i \<longleftrightarrow> \<not> bit_at w 8 i"
  using assms layout_bits[OF assms(1)] by (metis bitmap_wf_def is_free_def not_le)

lemma wf_level1:
  assumes "layout_ok l" "bitmap_wf l w" "j < bits1_of (num_blocks l)"
  shows "\<not> bit_at w (8 + len1_of (num_blocks l)) j
    \<longleftrightarrow> j < len1_of (num_blocks l) \<and> w (8 + j) \<noteq> - 1"
  using assms layout_bits[OF assms(1)] unfolding bitmap_wf_def by (metis not_le)

lemma word_full_iff:
  assumes "layout_ok l" "bitmap_wf l w" "j < len1_of (num_blocks l)"
  shows "w (8 + j) = - 1 \<longleftrightarrow> (\<forall>i. 32 * j \<le> i \<and> i < 32 * (j + 1) \<longrightarrow> \<not> is_free l w i)"
proof -
  have lt: "i < 32 * len1_of (num_blocks l)" if "i < 32 * (j + 1)" for i
    using that assms(3) by (metis (no_types, lifting) Suc_leI less_le_trans mult_le_mono2 Suc_eq_plus1)
  have "w (8 + j) = - 1 \<longleftrightarrow> (\<forall>k < 32. bit_at w 8 (32 * j + k))"
    by (simp add: word_ones_bit bit_at_def)
  also have "\<dots> \<longleftrightarrow> (\<forall>i. 32 * j \<le> i \<and> i < 32 * (j + 1) \<longrightarrow> bit_at w 8 i)"
  proof (intro iffI allI impI)
    fix i assume a: "\<forall>k < 32. bit_at w 8 (32 * j + k)" and i: "32 * j \<le> i \<and> i < 32 * (j + 1)"
    then have "i = 32 * j + (i - 32 * j)" "i - 32 * j < 32" by auto
    then show "bit_at w 8 i" using a by metis
  qed auto
  also have "\<dots> \<longleftrightarrow> (\<forall>i. 32 * j \<le> i \<and> i < 32 * (j + 1) \<longrightarrow> \<not> is_free l w i)"
    using wf_level0[OF assms(1,2)] lt by blast
  finally show ?thesis .
qed

lemma find_descend_level1:
  assumes "layout_ok l" "bitmap_wf l w" "j < len1_of (num_blocks l)" "w (8 + j) \<noteq> - 1"
  obtains i where "32 * j \<le> i" "i < 32 * (j + 1)" "is_free l w i"
    "\<And>i'. 32 * j \<le> i' \<Longrightarrow> i' < i \<Longrightarrow> \<not> is_free l w i'"
    "find_descend l w 1 (8 + len1_of (num_blocks l)) (BITPTR (8 + len1_of (num_blocks l)) j)
       = (8, BITPTR 8 i)"
proof -
  note lb = layout_bits[OF assms(1)]
  have lt: "i < 32 * len1_of (num_blocks l)" if "i < 32 * (j + 1)" for i
    using that assms(3) by (metis (no_types, lifting) Suc_leI less_le_trans mult_le_mono2 Suc_eq_plus1)
  have start: "BITPTR (8 + j) 0 = BITPTR 8 (32 * j)" by (simp add: BITPTR_def)
  have eq: "find_descend l w 1 (8 + len1_of (num_blocks l)) (BITPTR (8 + len1_of (num_blocks l)) j)
     = (8, BITPTR_NEXT0 w (BITPTR 8 (32 * j)))"
    by (simp add: lb(1) Let_def start)
  show thesis
  proof (cases rule: BITPTR_NEXT0_cases[of "32 * j" w 8])
    case (found i)
    have r: "32 * j \<le> i" "i < 32 * (j + 1)" using found(1,2) by (auto simp: same_word)
    show thesis
      by (rule that[of i]) (use r found lt wf_level0[OF assms(1,2)] eq in \<open>auto intro: less_trans\<close>)
  next
    case failed
    have "\<not> is_free l w i" if "32 * j \<le> i" "i < 32 * (j + 1)" for i
      using failed(1)[of i] that lt wf_level0[OF assms(1,2)] same_word[of i j] by simp
    then show thesis using word_full_iff[OF assms(1-3)] assms(4) by blast
  qed
qed

text \<open>Climbing from word \<open>c - 1\<close>: the first word from \<open>c\<close> on that is not full, if any.\<close>

lemma find_climb_cases:
  assumes "layout_ok l" "bitmap_wf l w" "0 < c" "c \<le> len1_of (num_blocks l)"
    "bp_ptr b = 8 + (c - 1)"
  obtains (found) j where "c \<le> j" "j < len1_of (num_blocks l)" "w (8 + j) \<noteq> - 1"
      "\<And>j'. c \<le> j' \<Longrightarrow> j' < j \<Longrightarrow> w (8 + j') = - 1"
      "find_climb l w 1 8 b = Some (1, 8 + len1_of (num_blocks l), BITPTR (8 + len1_of (num_blocks l)) j)"
    | (failed) "\<And>j. c \<le> j \<Longrightarrow> j < len1_of (num_blocks l) \<Longrightarrow> w (8 + j) = - 1"
      "find_climb l w 1 8 b = None"
proof -
  let ?L = "len1_of (num_blocks l)" let ?m = "bits1_of (num_blocks l) div 32"
  note lb = layout_bits[OF assms(1)]
  have m: "bits1_of (num_blocks l) = 32 * ?m" using bits1_of_props(1)[of "num_blocks l"] by simp
  have lim: "BITMAP_LIMIT l 1 = 8 + ?L + ?m"
  proof -
    obtain g n where "l = layout_with g n" using assms(1) by (rule layout_okE)
    then show ?thesis by (simp add: word_offsets layout_with_sel(3))
  qed
  have idx: "BITPTR_WORDINDEX b 8 + 1 = c" using assms(3,5) by (simp add: BITPTR_WORDINDEX_def)
  have cb: "c div 32 < ?m"
    using assms(4) lb(7) m by (metis le_less_trans less_mult_imp_div_less mult.commute)
  have inm: "j < 32 * ?m" if "j div 32 = c div 32" for j
    using that cb by (metis div_less_iff_less_mult mult.commute zero_less_numeral)
  have hit: "j < ?L \<and> w (8 + j) \<noteq> - 1" if "j < 32 * ?m" "\<not> bit_at w (8 + ?L) j" for j
    using wf_level1[OF assms(1,2)] that m by simp
  have miss: "w (8 + j) = - 1" if "bit_at w (8 + ?L) j" "j < ?L" for j
    using wf_level1[OF assms(1,2), of j] that lb(7) by simp
  show thesis
  proof (cases rule: BITPTR_NEXT0_cases[of c w "8 + ?L"])
    case (found j)
    have eq: "find_climb l w 1 8 b = Some (1, 8 + ?L, BITPTR (8 + ?L) j)"
      unfolding find_climb.simps[of l w 1] Let_def idx lb(2) by (simp add: found(5))
    have h: "j < ?L \<and> w (8 + j) \<noteq> - 1" using hit[OF inm[OF found(2)] found(3)] .
    show thesis
      by (rule that(1)[of j]) (use found(1,4) h miss eq in \<open>auto intro: less_trans\<close>)
  next
    case failed
    have part: "bit_at w (8 + ?L) i" if "c \<le> i" "i < 32 * (c div 32 + 1)" for i
    proof -
      have "32 * (c div 32) \<le> i" using that(1) by (metis le_trans times_div_less_eq_dividend)
      then have "i div 32 = c div 32" using that(2) same_word by blast
      then show ?thesis using failed(1) that(1) by blast
    qed
    let ?s = "bitptr_linear_search w (8 + ?L + (c div 32 + 1)) (8 + ?L + ?m)"
    have eq: "find_climb l w 1 8 b = (if BITPTR_NEXT_FAILED ?s then None else Some (1, 8 + ?L, ?s))"
      unfolding find_climb.simps[of l w 1] Let_def idx lb(2) lim
      by (simp add: failed(2) SEG_RANK_def add.assoc)
    show thesis
    proof (cases rule: bitptr_linear_search_cases[of "c div 32 + 1" ?m w "8 + ?L"])
      case (found j)
      have lt: "c < 32 * (c div 32 + 1)" using same_word[of c "c div 32"] by simp
      have all: "bit_at w (8 + ?L) i" if "c \<le> i" "i < j" for i
        using part found(4) that by (meson not_le)
      have h: "j < ?L \<and> w (8 + j) \<noteq> - 1" using hit[OF found(2,3)] .
      have e: "find_climb l w 1 8 b = Some (1, 8 + ?L, BITPTR (8 + ?L) j)"
        unfolding eq found(5) by simp
      show thesis
        by (rule that(1)[of j]) (use found(1) lt h miss all e in \<open>auto intro: less_trans\<close>)
    next
      case failed': failed
      have "w (8 + j) = - 1" if "c \<le> j" "j < ?L" for j
      proof -
        have "j < 32 * ?m" using that(2) lb(7) m by simp
        then have "bit_at w (8 + ?L) j" using part failed'(1) that(1) by (meson not_le)
        then show ?thesis using miss that(2) by blast
      qed
      then show thesis using eq failed'(2) by (intro that(2)) auto
    qed
  qed
qed

lemma next_free_SomeD:
  assumes "next_free l w k = Some i"
  shows "k \<le> i" "is_free l w i" "i < num_blocks l" "\<And>j. k \<le> j \<Longrightarrow> j < i \<Longrightarrow> \<not> is_free l w j"
proof -
  obtain q where q: "q < num_blocks l - k" "is_free l w (k + q)" "i = k + q"
      "\<And>j. j < q \<Longrightarrow> \<not> is_free l w ([k..<num_blocks l] ! j)"
    using assms unfolding next_free_def find_Some_iff by auto
  then show "k \<le> i" "is_free l w i" "i < num_blocks l" by auto
  fix j assume j: "k \<le> j" "j < i"
  then have "j - k < q" "[k..<num_blocks l] ! (j - k) = j" using q(1,3) by auto
  then show "\<not> is_free l w j" using q(4) by metis
qed

lemma next_free_skip:
  assumes "k \<le> m" "\<And>i. k \<le> i \<Longrightarrow> i < m \<Longrightarrow> \<not> is_free l w i"
  shows "next_free l w k = next_free l w m"
proof (cases "next_free l w m")
  case None
  then show ?thesis using assms by (metis next_free_None not_le)
next
  case (Some i)
  note d = next_free_SomeD[OF Some]
  have "\<not> is_free l w j" if "k \<le> j" "j < i" for j using assms(2) d(4) that by (meson not_le)
  then show ?thesis unfolding Some using assms(1) d(1,2) by (intro next_free_Some) auto
qed

lemma find_bitmap_next_free:
  assumes at: "ap_at segs ptr s l k"
  shows "find_bitmap ptr segs = (case next_free l (seg_words (segs s)) k of
     None \<Rightarrow> (None, ptr)
   | Some i \<Rightarrow> (Some (block_addr l i),
        ptr\<lparr>ap_b := BITPTR BITMAP0_BASE (Suc i), ap_p := Some (block_addr l (Suc i))\<rparr>))"
proof -
  let ?w = "seg_words (segs s)" let ?L = "len1_of (num_blocks l)"
  have ap: "ap_seg ptr = Some s" "seg_layout (segs s) = Some l" "layout_ok l" "bitmap_wf l ?w"
      "k \<le> num_blocks l" "ap_b ptr = BITPTR 8 k" "ap_p ptr = Some (block_addr l k)"
      "ap_blocksize ptr = blocksize_bytes l"
    using at by (simp_all add: ap_at_def)
  note lb = layout_bits[OF ap(3)] and adr = block_addr_eq[OF ap(3)]
  have lay: "seg_the_layout (segs s) = l" by (simp add: seg_the_layout_def ap(2))
  have kL: "k < 32 * ?L" using ap(5) lb(5) by simp
  let ?found = "if BITPTR_NEXT_FAILED (BITPTR_NEXT0 ?w (BITPTR 8 k))
       then (case find_climb l ?w 1 8 (BITPTR_NEXT0 ?w (BITPTR 8 k)) of
               None \<Rightarrow> None | Some (i, base, b) \<Rightarrow> Some (find_descend l ?w i base b))
       else Some (8, BITPTR_NEXT0 ?w (BITPTR 8 k))"
  have key: "?found = map_option (\<lambda>i. (8, BITPTR 8 i)) (next_free l ?w k)"
  proof (cases rule: BITPTR_NEXT0_cases[of k ?w 8])
    case (found i)
    have lt: "j < 32 * ?L" if "j \<le> i" for j
      using that found(2) kL by (metis div_less_iff_less_mult le_less_trans mult.commute zero_less_numeral)
    have "next_free l ?w k = Some i"
      by (rule next_free_Some) (use found lt wf_level0[OF ap(3,4)] in auto)
    then show ?thesis by (simp add: found(5))
  next
    case failed
    let ?c = "k div 32 + 1"
    have c: "0 < ?c" "?c \<le> ?L" using kL by (auto simp: less_mult_imp_div_less mult.commute Suc_le_eq)
    have used: "\<not> is_free l ?w i" if "k \<le> i" "i < 32 * ?c" for i
    proof -
      have "32 * (k div 32) \<le> i" using that(1) by (metis le_trans times_div_less_eq_dividend)
      then have "i div 32 = k div 32" using that(2) same_word by blast
      then have "bit_at ?w 8 i" using failed(1) that(1) by blast
      then show ?thesis by (simp add: is_free_def lb(1))
    qed
    have kc: "k \<le> 32 * ?c" using same_word[of k "k div 32"] by simp
    have skip: "next_free l ?w k = next_free l ?w (32 * ?c)" by (rule next_free_skip[OF kc used])
    have F: "BITPTR_NEXT_FAILED (BITPTR_NEXT0 ?w (BITPTR 8 k))" by (simp add: failed(2))
    have pos: "bp_ptr (BITPTR_NEXT0 ?w (BITPTR 8 k)) = 8 + (?c - 1)" by (simp add: failed(2))
    have full: "\<not> is_free l ?w i" if "\<And>j. ?c \<le> j \<Longrightarrow> j < q \<Longrightarrow> ?w (8 + j) = - 1" "q \<le> ?L"
        "32 * ?c \<le> i" "i < 32 * q" for i q
    proof -
      have j: "?c \<le> i div 32" "i div 32 < q"
        using that(3,4) by (simp add: less_eq_div_iff_mult_less_eq, metis less_mult_imp_div_less mult.commute)
      then have "i div 32 < ?L" using that(2) by simp
      then show ?thesis
        using word_full_iff[OF ap(3,4), of "i div 32"] that(1)[OF j] same_word by blast
    qed
    show ?thesis
    proof (cases rule: find_climb_cases[OF ap(3,4) c pos])
      case 1: (1 j)
      obtain i where i: "32 * j \<le> i" "is_free l ?w i" "\<And>i'. 32 * j \<le> i' \<Longrightarrow> i' < i \<Longrightarrow> \<not> is_free l ?w i'"
        and d: "find_descend l ?w 1 (8 + ?L) (BITPTR (8 + ?L) j) = (8, BITPTR 8 i)"
        using find_descend_level1[OF ap(3,4) 1(2,3)] by blast
      have jc: "32 * ?c \<le> 32 * j" using 1(1) by (rule mult_le_mono2)
      have "\<not> is_free l ?w i'" if "32 * ?c \<le> i'" "i' < i" for i'
        using full[of j i'] 1(2,4) i(3) that by (meson not_le less_imp_le_nat)
      then have "next_free l ?w (32 * ?c) = Some i" using i jc by (intro next_free_Some) auto
      then show ?thesis using d F 1(5) unfolding skip by simp
    next
      case 2
      have "\<not> is_free l ?w i" if "32 * ?c \<le> i" for i
      proof (cases "i < 32 * ?L")
        case True then show ?thesis using full[of ?L i] 2(1) that by blast
      next
        case False then show ?thesis using lb(5) by (simp add: is_free_def)
      qed
      then have "next_free l ?w (32 * ?c) = None" by (simp add: next_free_None)
      then show ?thesis using F 2(2) unfolding skip by simp
    qed
  qed
  show ?thesis
    unfolding find_bitmap_def ap(1,6,7) option.sel option.case Let_def lay BITMAP0_BASE_eq key
    by (cases "next_free l ?w k") (simp_all add: BITPTR_INC_BITPTR adr ap(8))
qed

lemma ap_at_advance:
  assumes "ap_at segs ptr s l k" "i < num_blocks l"
  shows "ap_at segs (ptr\<lparr>ap_b := BITPTR BITMAP0_BASE (Suc i), ap_p := Some (block_addr l (Suc i))\<rparr>) s l (Suc i)"
  using assms by (simp add: ap_at_def)

lemma alloc_from_ptr_next_free:
  assumes at: "ap_at segs ptr s l k"
  shows "alloc_from_ptr ptr segs = (case next_free l (seg_words (segs s)) k of
     None \<Rightarrow> (None, ptr)
   | Some i \<Rightarrow> (Some (block_addr l i),
        ptr\<lparr>ap_b := BITPTR BITMAP0_BASE (Suc i), ap_p := Some (block_addr l (Suc i))\<rparr>))"
proof (cases "BITPTR_TEST (ap_words segs ptr) (ap_b ptr)")
  case True
  then show ?thesis using find_bitmap_next_free[OF at] by (simp add: alloc_from_ptr_def)
next
  case False
  let ?w = "seg_words (segs s)"
  have ap: "ap_seg ptr = Some s" "layout_ok l" "bitmap_wf l ?w" "k \<le> num_blocks l"
      "ap_b ptr = BITPTR 8 k" "ap_p ptr = Some (block_addr l k)" "ap_blocksize ptr = blocksize_bytes l"
    using at by (simp_all add: ap_at_def)
  have "\<not> bit_at ?w 8 k" using False by (simp add: ap_words_def ap BITPTR_TEST_BITPTR)
  then have "is_free l ?w k"
    using wf_level0[OF ap(2,3)] layout_bits(5)[OF ap(2)] ap(4) by simp
  then have "next_free l ?w k = Some k" by (intro next_free_Some) auto
  then show ?thesis
    using False by (simp add: alloc_from_ptr_def ap BITPTR_INC_BITPTR block_addr_eq(2)[OF ap(2)])
qed

text \<open>Allocating until the segment is exhausted, with \<open>n\<close> as a bound on the number of calls.\<close>

fun alloc_run :: "nat \<Rightarrow> alloc_ptr \<Rightarrow> segments \<Rightarrow> nat list" where
  "alloc_run 0 ptr segs = []"
| "alloc_run (Suc n) ptr segs =
     (case alloc_from_ptr ptr segs of
        (None, _) \<Rightarrow> []
      | (Some obj, ptr') \<Rightarrow> obj # alloc_run n ptr' segs)"

lemma filter_free_upt:
  "next_free l w k = Some i \<Longrightarrow>
     filter (is_free l w) [k..<num_blocks l] = i # filter (is_free l w) [Suc i..<num_blocks l]"
proof -
  assume s: "next_free l w k = Some i"
  note d = next_free_SomeD[OF s]
  have "[k..<num_blocks l] = [k..<i] @ i # [Suc i..<num_blocks l]"
    using d(1,3) by (metis le_Suc_ex less_imp_le_nat upt_add_eq_append upt_conv_Cons)
  moreover have "filter (is_free l w) [k..<i] = []" using d(4) by (simp add: filter_empty_conv)
  ultimately show ?thesis using d(2) by simp
qed

lemma alloc_run_exact:
  assumes "ap_at segs ptr s l k" "num_blocks l < k + n"
  shows "alloc_run n ptr segs
     = map (block_addr l) (filter (is_free l (seg_words (segs s))) [k..<num_blocks l])"
  using assms
proof (induction n arbitrary: ptr k)
  case 0
  then show ?case by simp
next
  case (Suc n)
  let ?w = "seg_words (segs s)"
  show ?case
  proof (cases "next_free l ?w k")
    case None
    then have "filter (is_free l ?w) [k..<num_blocks l] = []"
      by (auto simp: filter_empty_conv next_free_None)
    then show ?thesis using None by (simp add: alloc_from_ptr_next_free[OF Suc.prems(1)])
  next
    case (Some i)
    then have i: "k \<le> i" "i < num_blocks l"
      using next_free_SomeD[OF Some] by simp_all
    let ?p = "ptr\<lparr>ap_b := BITPTR BITMAP0_BASE (Suc i), ap_p := Some (block_addr l (Suc i))\<rparr>"
    have "alloc_run n ?p segs = map (block_addr l) (filter (is_free l ?w) [Suc i..<num_blocks l])"
      using Suc.prems(2) i by (intro Suc.IH ap_at_advance[OF Suc.prems(1)]) simp_all
    then show ?thesis
      using Some by (simp add: alloc_from_ptr_next_free[OF Suc.prems(1)] filter_free_upt)
  qed
qed

lemma set_alloc_ptr_at:
  assumes "seg_layout (segs s) = Some l" "layout_ok l" "bitmap_wf l (seg_words (segs s))"
    "ap_blocksize ptr = blocksize_bytes l" "set_alloc_ptr ptr s phase segs = (ptr', segs')"
  shows "ap_at segs' ptr' s l 0"
    and "seg_words (segs' x) = seg_words (segs x)" "seg_layout (segs' x) = seg_layout (segs x)"
proof -
  have "block_addr l 0 = BLOCK_BASE l" by (simp add: block_addr_def BLOCK_BASE_def)
  then show "ap_at segs' ptr' s l 0"
    using assms by (auto simp: set_alloc_ptr_def seg_the_layout_def ap_at_def Let_def)
  show "seg_words (segs' x) = seg_words (segs x)" "seg_layout (segs' x) = seg_layout (segs x)"
    using assms(5) by (auto simp: set_alloc_ptr_def Let_def)
qed

section \<open>Properties\<close>

text \<open>C21.  \<open>find_bitmap\<close>, through the two levels of the bitmap, returns the first free block at or
  after the allocation pointer and moves the pointer just past it; it returns no block exactly when
  no block at or after the pointer is free, and then leaves the pointer alone.\<close>

theorem find_bitmap_least_free:
  assumes "ap_at segs ptr s l k"
  shows "(case find_bitmap ptr segs of
      (None, ptr') \<Rightarrow> ptr' = ptr \<and> (\<forall>i \<ge> k. \<not> is_free l (seg_words (segs s)) i)
    | (Some obj, ptr') \<Rightarrow> (\<exists>i. k \<le> i \<and> is_free l (seg_words (segs s)) i \<and> obj = block_addr l i
         \<and> (\<forall>j. k \<le> j \<and> j < i \<longrightarrow> \<not> is_free l (seg_words (segs s)) j)
         \<and> ap_at segs ptr' s l (Suc i)))"
proof (cases "next_free l (seg_words (segs s)) k")
  case None
  then show ?thesis
    using next_free_None[THEN iffD1, OF None] by (simp add: find_bitmap_next_free[OF assms])
next
  case (Some i)
  note d = next_free_SomeD[OF Some]
  show ?thesis
    using Some d ap_at_advance[OF assms d(3)] by (auto simp: find_bitmap_next_free[OF assms])
qed

text \<open>A blank segment of the largest block size, for the witnesses.\<close>

definition sample_segments :: segments where
  "sample_segments = (\<lambda>_. init_segment
     \<lparr>seg_layout = None, seg_words = \<lambda>_. 0, allocptr_snapshot = 0, seg_free_count = 0\<rparr> 9)"

definition sample_ptr :: alloc_ptr where
  "sample_ptr = fst (set_alloc_ptr (init_alloc_ptr 12) 0 MARK sample_segments)"

lemma sample_segment:
  defines "l \<equiv> compute_segment_layout 9"
  shows "seg_layout (sample_segments x) = Some l" "layout_ok l" "bitmap_wf l (seg_words (sample_segments x))"
    "ap_blocksize (init_alloc_ptr 12) = blocksize_bytes l" "num_blocks l = 7"
    "i < 7 \<Longrightarrow> is_free l (seg_words (sample_segments x)) i"
proof -
  have i: "(9 :: nat) < NUM_SUBHEAPS" by (simp add: layout_simps)
  have b: "blank \<lparr>seg_layout = None, seg_words = \<lambda>_. 0, allocptr_snapshot = 0, seg_free_count = 0\<rparr>"
    by (simp add: blank_def)
  note o = compute_segment_layout_ok[OF i, folded l_def] and bl = init_segment_blank[OF b i, folded l_def]
  show ok: "layout_ok l" by (rule o)
  show lay: "seg_layout (sample_segments x) = Some l"
    by (simp add: sample_segments_def bl)
  have bw: "blank_words l (seg_words (sample_segments x))"
    using bl by (simp add: sample_segments_def blank_def)
  show "bitmap_wf l (seg_words (sample_segments x))" by (rule blank_facts(1)[OF ok bw])
  show n: "num_blocks l = 7" using o(3) by (simp add: num_blocks_table_def)
  show "i < 7 \<Longrightarrow> is_free l (seg_words (sample_segments x)) i"
    using blank_facts(2)[OF ok bw] n by simp
  have "l = layout_with 12 (num_blocks l)" using ok o(2) by (simp add: layout_ok_def)
  then show "ap_blocksize (init_alloc_ptr 12) = blocksize_bytes l"
    by (metis layout_with_sel(2) init_alloc_ptr_def clear_alloc_ptr_def alloc_ptr.simps(3)
        alloc_ptr.simps(5,6,8) alloc_ptr.update_convs push_bit_eq_mult mult_1)
qed

lemma sample_ptr_at: "ap_at sample_segments sample_ptr 0 (compute_segment_layout 9) 0"
proof -
  note f = sample_segment
  have "set_alloc_ptr (init_alloc_ptr 12) 0 MARK sample_segments = (sample_ptr, sample_segments)"
    by (simp add: sample_ptr_def set_alloc_ptr_def Let_def phase_order)
  from set_alloc_ptr_at(1)[where segs = sample_segments, OF f(1,2,3,4) this] show ?thesis .
qed

theorem find_bitmap_least_free_witness:
  "\<exists>obj ptr'. find_bitmap sample_ptr sample_segments = (Some obj, ptr')
     \<and> ap_at sample_segments sample_ptr 0 (compute_segment_layout 9) 0"
proof -
  have "\<not> (\<forall>i\<ge>0. \<not> is_free (compute_segment_layout 9) (seg_words (sample_segments 0)) i)"
    using sample_segment(6)[where x = 0 and i = 0] by auto
  then show ?thesis
    using find_bitmap_least_free[OF sample_ptr_at] sample_ptr_at
    by (cases "find_bitmap sample_ptr sample_segments") (auto split: option.splits)
qed

text \<open>Putting an allocation pointer on a segment and allocating from it -- fast path and bitmap
  search together -- until it fails returns every free block of the segment exactly once, in address
  order, and no used block, in every phase.\<close>

theorem alloc_run_all_free:
  assumes "seg_layout (segs s) = Some l" "layout_ok l" "bitmap_wf l (seg_words (segs s))"
    and "ap_blocksize ptr = blocksize_bytes l"
    and "set_alloc_ptr ptr s phase segs = (ptr', segs')"
  shows "alloc_run (num_blocks l + 1) ptr' segs'
     = map (block_addr l) (filter (is_free l (seg_words (segs s))) [0..<num_blocks l])"
  using alloc_run_exact[OF set_alloc_ptr_at(1)[OF assms], of "num_blocks l + 1"]
    set_alloc_ptr_at(2)[OF assms] by simp

theorem alloc_run_all_free_witness:
  "alloc_run 8 sample_ptr sample_segments = map (block_addr (compute_segment_layout 9)) [0..<7]"
proof -
  note f = sample_segment
  have s: "set_alloc_ptr (init_alloc_ptr 12) 0 MARK sample_segments = (sample_ptr, sample_segments)"
    by (simp add: sample_ptr_def set_alloc_ptr_def Let_def phase_order)
  have "filter (is_free (compute_segment_layout 9) (seg_words (sample_segments 0))) [0..<7] = [0..<7]"
    using f(6) by (simp add: filter_id_conv)
  then show ?thesis
    using alloc_run_all_free[where segs = sample_segments, OF f(1,2,3,4) s] f(5) by simp
qed

end
