(* ===== verification/Pool.thy ===== *)
theory Pool
  imports AllocPtr "HOL-Library.Multiset"
begin

unbundle bit_operations_syntax

text \<open>
  The heaps of the workers and the global segment pool
  (src/smlsharp/src/runtime/heap_concurrent.c): the memory the segments come from, the segment pool,
  the subheaps, and the allocation functions up to \<open>sml_alloc\<close>.  Linked lists of segments are lists
  of segment numbers, which SegList relates to the pointers.  The location of a segment is the
  list it is in; the invariant gives, for each location, what its segments must satisfy.
\<close>

section \<open>Memory\<close>

record memory =
  mem_begin :: nat
  mem_count :: nat
  mem_alloced :: nat

datatype init_error = Unaligned_Pagesize | Allocation_Failed

text \<open>
  \<open>init_memory\<close>: \<open>alloc_page\<close> is the operating system's page allocator; the result also lists the
  ranges given to \<open>ReleasePage\<close> as start and length.
\<close>

definition init_memory :: "nat \<Rightarrow> (nat \<Rightarrow> nat option) \<Rightarrow> nat \<Rightarrow> init_error + memory \<times> (nat \<times> nat) list" where
  "init_memory pagesize alloc_page max_size =
     (if SEGMENT_SIZE mod pagesize \<noteq> 0 then Inl Unaligned_Pagesize
      else let bytes = CEILING max_size SEGMENT_SIZE in
        case alloc_page (bytes + SEGMENT_SIZE) of
          None \<Rightarrow> Inl Allocation_Failed
        | Some p \<Rightarrow>
            let gap = p AND (SEGMENT_SIZE - 1) in
            if gap = 0
            then Inr (\<lparr>mem_begin = p, mem_count = bytes div SEGMENT_SIZE, mem_alloced = 0\<rparr>,
                      [(p + bytes, SEGMENT_SIZE)])
            else let q = p + (SEGMENT_SIZE - gap) in
                 Inr (\<lparr>mem_begin = q, mem_count = bytes div SEGMENT_SIZE, mem_alloced = 0\<rparr>,
                      [(p, SEGMENT_SIZE - gap), (q + bytes, gap)]))"

text \<open>The compare-and-swap loop of \<open>allocate_segment\<close>, with the values other threads leave in
  \<open>alloced\<close> at each attempt.\<close>

fun allocate_segment_loop :: "nat list \<Rightarrow> nat \<Rightarrow> nat \<Rightarrow> nat option" where
  "allocate_segment_loop cs n bound =
     (if n \<ge> bound then None
      else case cs of [] \<Rightarrow> Some n
        | cur # rest \<Rightarrow> if cur = n then Some n else allocate_segment_loop rest cur bound)"

definition allocate_segment :: "memory \<Rightarrow> nat \<Rightarrow> nat option \<times> memory" where
  "allocate_segment mem limit =
     (let n = mem_alloced mem;
          bound = (if limit < mem_count mem then limit else mem_count mem)
      in case allocate_segment_loop [] n bound of
           None \<Rightarrow> (None, mem)
         | Some s \<Rightarrow> (Some s, mem\<lparr>mem_alloced := s + 1\<rparr>))"

section \<open>Pool and heaps\<close>

record subpool =
  sp_filled :: "nat list"
  sp_partial :: "nat list"
  sp_partial_marked :: "nat list"

record segment_pool =
  subpools :: "nat \<Rightarrow> subpool"
  malloc_subpool :: "nat list"
  pool_freelist :: "nat list"
  pool_memory :: memory
  min_num_segments :: nat
  max_num_segments :: nat

record subheap =
  sh_filled :: "nat list"
  sh_partial :: "nat list"

record subheap_count =
  threshold :: int
  extension_room :: nat

record heap =
  hp_ptr :: "nat \<Rightarrow> alloc_ptr"
  hp_subheap :: "nat \<Rightarrow> subheap"
  hp_count :: "nat \<Rightarrow> subheap_count"
  malloc_subheap :: "nat list"
  hp_freelist :: "nat list"

text \<open>What a thread sees while it allocates: its heap, the pool, the segments, whether it has asked
  for a collection with \<open>sml_gc\<close>, and the phase \<open>sml_current_phase\<close> returns.\<close>

record alloc_state =
  as_heap :: heap
  as_pool :: segment_pool
  as_segs :: segments
  as_gc :: bool
  as_phase :: sml_sync_phase

definition init_segment_pool :: "memory \<Rightarrow> nat \<Rightarrow> segment_pool" where
  "init_segment_pool mem min_size =
     \<lparr>subpools = (\<lambda>_. \<lparr>sp_filled = [], sp_partial = [], sp_partial_marked = []\<rparr>),
      malloc_subpool = [], pool_freelist = [], pool_memory = mem,
      min_num_segments = CEILING min_size SEGMENT_SIZE div SEGMENT_SIZE,
      max_num_segments = mem_count mem\<rparr>"

text \<open>The initial counts come from floating-point ratios; they are an argument.\<close>

definition init_heap :: "(nat \<Rightarrow> subheap_count) \<Rightarrow> heap" where
  "init_heap subheap_count_init =
     \<lparr>hp_ptr = (\<lambda>i. init_alloc_ptr (i + BLOCKSIZE_MIN_LOG2)),
      hp_subheap = (\<lambda>_. \<lparr>sh_filled = [], sh_partial = []\<rparr>),
      hp_count = subheap_count_init, malloc_subheap = [], hp_freelist = []\<rparr>"

definition update_segment :: "segments \<Rightarrow> nat \<Rightarrow> (segment \<Rightarrow> segment) \<Rightarrow> segments" where
  "update_segment segs s f = segs(s := f (segs s))"

definition seg_copy_collect :: "segment \<Rightarrow> segment" where
  "seg_copy_collect seg = seg\<lparr>seg_words := copy_collect_bitmap (seg_the_layout seg) (seg_words seg)\<rparr>"

definition seg_clear_collect :: "segment \<Rightarrow> segment" where
  "seg_clear_collect seg = seg\<lparr>seg_words := clear_collect_bitmap (seg_the_layout seg) (seg_words seg)\<rparr>"

definition get_segment_from_pool ::
    "segment_pool \<Rightarrow> segments \<Rightarrow> nat \<Rightarrow> sml_sync_phase \<Rightarrow> sml_sync_phase
       \<Rightarrow> nat option \<times> segment_pool \<times> segments" where
  "get_segment_from_pool pool segs i phase current_phase =
     (let sp = subpools pool i in
      case sp_partial sp of
        s # rest \<Rightarrow> (Some s, pool\<lparr>subpools := (subpools pool)(i := sp\<lparr>sp_partial := rest\<rparr>)\<rparr>, segs)
      | [] \<Rightarrow>
          (case (if phase = MARK \<or> phase = ASYNC \<or> phase = PREASYNC then sp_partial_marked sp else []) of
             s # rest \<Rightarrow>
               (Some s, pool\<lparr>subpools := (subpools pool)(i := sp\<lparr>sp_partial_marked := rest\<rparr>)\<rparr>,
                if current_phase = ASYNC
                then update_segment segs s (seg_clear_collect \<circ> seg_copy_collect) else segs)
           | [] \<Rightarrow>
               (case pool_freelist pool of
                  s # rest \<Rightarrow>
                    (Some s, pool\<lparr>pool_freelist := rest\<rparr>, update_segment segs s (\<lambda>g. init_segment g i))
                | [] \<Rightarrow>
                    (case allocate_segment (pool_memory pool) (mem_count (pool_memory pool)) of
                       (None, mem) \<Rightarrow> (None, pool, segs)
                     | (Some s, mem) \<Rightarrow>
                         (Some s, pool\<lparr>pool_memory := mem\<rparr>,
                          update_segment segs s (\<lambda>g. init_segment g i))))))"

text \<open>\<open>try_find_segment\<close> in its four steps: retire the current segment, take a new one, put the
  allocation pointer on it, search it.\<close>

definition retire_current :: "alloc_state \<Rightarrow> nat \<Rightarrow> sml_sync_phase \<Rightarrow> alloc_state" where
  "retire_current st i phase =
     (let heap = as_heap st; ptr = hp_ptr heap i; sh = hp_subheap heap i; count = hp_count heap i in
      case ap_p ptr of
        None \<Rightarrow> st
      | Some _ \<Rightarrow>
          (case release_alloc_ptr ptr phase (as_segs st) of (s, ptr', segs') \<Rightarrow>
             st\<lparr>as_heap := heap\<lparr>hp_ptr := (hp_ptr heap)(i := ptr'),
                   hp_subheap := (hp_subheap heap)(i := sh\<lparr>sh_filled := s # sh_filled sh\<rparr>),
                   hp_count := (hp_count heap)(i := count\<lparr>threshold := threshold count - 1\<rparr>)\<rparr>,
                as_segs := segs',
                as_gc := as_gc st \<or> threshold count - 1 = 0\<rparr>))"

definition take_segment :: "alloc_state \<Rightarrow> nat \<Rightarrow> sml_sync_phase \<Rightarrow> nat option \<times> alloc_state" where
  "take_segment st i phase =
     (let heap = as_heap st; sh = hp_subheap heap i; count = hp_count heap i;
          spend = (\<lambda>h. h\<lparr>hp_count := (hp_count h)(i :=
                     (hp_count h i)\<lparr>extension_room := extension_room (hp_count h i) - 1\<rparr>)\<rparr>) in
      case sh_partial sh of
        s # rest \<Rightarrow>
          (Some s, st\<lparr>as_heap := heap\<lparr>hp_subheap := (hp_subheap heap)(i := sh\<lparr>sh_partial := rest\<rparr>)\<rparr>\<rparr>)
      | [] \<Rightarrow>
          if extension_room count = 0 then (None, st)
          else
            (case hp_freelist heap of
               s # rest \<Rightarrow>
                 (Some s, st\<lparr>as_heap := spend (heap\<lparr>hp_freelist := rest\<rparr>),
                             as_segs := update_segment (as_segs st) s (\<lambda>g. init_segment g i)\<rparr>)
             | [] \<Rightarrow>
                 (case get_segment_from_pool (as_pool st) (as_segs st) i phase (as_phase st) of
                    (None, _) \<Rightarrow> (None, st)
                  | (Some s, pool, segs) \<Rightarrow>
                      (Some s, st\<lparr>as_heap := spend heap, as_pool := pool, as_segs := segs\<rparr>))))"

definition install_segment :: "alloc_state \<Rightarrow> nat \<Rightarrow> nat \<Rightarrow> sml_sync_phase \<Rightarrow> alloc_state" where
  "install_segment st i s phase =
     (case set_alloc_ptr (hp_ptr (as_heap st) i) s phase (as_segs st) of (ptr, segs) \<Rightarrow>
        st\<lparr>as_heap := (as_heap st)\<lparr>hp_ptr := (hp_ptr (as_heap st))(i := ptr)\<rparr>, as_segs := segs\<rparr>)"

text \<open>An object in a segment: the segment and the offset.\<close>

type_synonym obj_addr = "nat \<times> nat"

definition with_ptr :: "alloc_state \<Rightarrow> nat \<Rightarrow> nat option \<times> alloc_ptr \<Rightarrow> obj_addr option \<times> alloc_state" where
  "with_ptr st i r = (case r of (obj, ptr) \<Rightarrow>
     (map_option (\<lambda>off. (the (ap_seg ptr), off)) obj,
      st\<lparr>as_heap := (as_heap st)\<lparr>hp_ptr := (hp_ptr (as_heap st))(i := ptr)\<rparr>\<rparr>))"

definition try_find_segment :: "alloc_state \<Rightarrow> nat \<Rightarrow> sml_sync_phase \<Rightarrow>
    obj_addr option \<times> alloc_state" where
  "try_find_segment st i phase =
     (case take_segment (retire_current st i phase) i phase of
        (None, st1) \<Rightarrow> (None, st1)
      | (Some s, st1) \<Rightarrow>
          let st2 = install_segment st1 i s phase
          in with_ptr st2 i (find_bitmap (hp_ptr (as_heap st2) i) (as_segs st2)))"

text \<open>
  \<open>find_segment\<close> lets the collector run: \<open>sml_check_internal\<close> and \<open>sml_wait_gc\<close> hand control to
  it, and what it leaves behind is an argument.  \<open>None\<close> is the fatal error.
\<close>

definition find_segment :: "(alloc_state \<Rightarrow> alloc_state) \<Rightarrow> (alloc_state \<Rightarrow> alloc_state) \<Rightarrow> bool \<Rightarrow> alloc_state \<Rightarrow> nat \<Rightarrow> (obj_addr \<times> alloc_state) option" where
  "find_segment check_internal wait_gc check_flag st i =
     (let attempt = (\<lambda>st. try_find_segment st i (as_phase st));
          st0 = (if check_flag then check_internal st else st) in
      case attempt st0 of
        (Some obj, st1) \<Rightarrow> Some (obj, st1)
      | (None, st1) \<Rightarrow>
          (case attempt (wait_gc st1) of
             (Some obj, st2) \<Rightarrow> Some (obj, st2)
           | (None, st2) \<Rightarrow>
               (case attempt (wait_gc st2) of
                  (Some obj, st3) \<Rightarrow> Some (obj, st3)
                | (None, st3) \<Rightarrow> None)))"

text \<open>The subheap of an object size; \<open>None\<close> is an object that gets a malloc segment.\<close>

definition alloc_subheap :: "nat \<Rightarrow> nat option" where
  "alloc_subheap objsize =
     (if objsize > BLOCKSIZE_MAX - OBJ_HEADER_SIZE then None
      else Some (CEIL_LOG2 (CEILING (OBJ_HEADER_SIZE + objsize) BLOCKSIZE_MIN) - BLOCKSIZE_MIN_LOG2))"

datatype allocation = Small nat obj_addr | Large nat

text \<open>\<open>malloc_object\<close> and \<open>malloc_segment\<close>: the address comes from the C library.\<close>

record malloc_seg =
  ms_size :: nat
  ms_bit :: bool
  ms_collect_bit :: u32

definition malloc_segment :: "nat \<Rightarrow> sml_sync_phase \<Rightarrow> malloc_seg" where
  "malloc_segment alloc_size phase =
     \<lparr>ms_size = alloc_size, ms_bit = (ASYNC \<le> phase \<and> phase \<le> PRESYNC2), ms_collect_bit = 0\<rparr>"

definition malloc_object :: "alloc_state \<Rightarrow> nat \<Rightarrow> alloc_state" where
  "malloc_object st address =
     st\<lparr>as_heap := (as_heap st)\<lparr>malloc_subheap := address # malloc_subheap (as_heap st)\<rparr>\<rparr>"

definition sml_alloc :: "(alloc_state \<Rightarrow> alloc_state) \<Rightarrow> (alloc_state \<Rightarrow> alloc_state) \<Rightarrow> bool \<Rightarrow> nat \<Rightarrow> alloc_state \<Rightarrow> nat
    \<Rightarrow> (allocation \<times> alloc_state) option" where
  "sml_alloc check_internal wait_gc check_flag malloc_address st objsize =
     (case alloc_subheap objsize of
        None \<Rightarrow> Some (Large malloc_address, malloc_object st malloc_address)
      | Some i \<Rightarrow>
          (case with_ptr st i (alloc_from_ptr (hp_ptr (as_heap st) i) (as_segs st)) of
             (Some obj, st') \<Rightarrow> Some (Small i obj, st')
           | (None, _) \<Rightarrow>
               map_option (\<lambda>(obj, st'). (Small i obj, st'))
                 (find_segment check_internal wait_gc check_flag st i)))"

text \<open>\<open>sml_alloc_important\<close>: no collection; larger subheaps are tried instead.\<close>

function alloc_important_from :: "alloc_state \<Rightarrow> nat \<Rightarrow> sml_sync_phase \<Rightarrow>
    allocation option \<times> alloc_state" where
  "alloc_important_from st i phase =
     (case with_ptr st i (alloc_from_ptr (hp_ptr (as_heap st) i) (as_segs st)) of
        (Some obj, st1) \<Rightarrow> (Some (Small i obj), st1)
      | (None, st1) \<Rightarrow>
          (case try_find_segment st1 i phase of
             (Some obj, st2) \<Rightarrow> (Some (Small i obj), st2)
           | (None, st2) \<Rightarrow>
               if i < NUM_SUBHEAPS - 1 then alloc_important_from st2 (i + 1) phase
               else (None, st2)))"
  by pat_completeness auto
termination by (relation "measure (\<lambda>(st, i, phase). NUM_SUBHEAPS - i)") auto

declare alloc_important_from.simps [simp del]

definition sml_alloc_important :: "nat \<Rightarrow> alloc_state \<Rightarrow> nat \<Rightarrow> sml_sync_phase \<Rightarrow>
    allocation option \<times> alloc_state" where
  "sml_alloc_important malloc_address st objsize phase =
     (case alloc_subheap objsize of
        None \<Rightarrow> (Some (Large malloc_address), malloc_object st malloc_address)
      | Some i \<Rightarrow> alloc_important_from st i phase)"

section \<open>Where the segments are\<close>

text \<open>
  \<open>InHand i\<close> is a segment for subheap \<open>i\<close> between two steps of \<open>try_find_segment\<close>.  \<open>located C P n\<close>:
  no segment is in two places or twice in one, every segment satisfies what its location demands,
  and only segments below \<open>n\<close> are in use.
\<close>

datatype location = Filled nat nat | Current nat nat | Partial nat nat | LocalFree nat
  | PoolFilled nat | PoolPartial nat | PoolMarked nat | PoolFree | InHand nat

definition located :: "(location \<Rightarrow> nat list) \<Rightarrow> (location \<Rightarrow> nat \<Rightarrow> bool) \<Rightarrow> nat \<Rightarrow> bool" where
  "located C P n \<longleftrightarrow> (\<forall>loc. distinct (C loc))
     \<and> (\<forall>loc loc' s. s \<in> set (C loc) \<and> s \<in> set (C loc') \<longrightarrow> loc = loc')
     \<and> (\<forall>loc s. s \<in> set (C loc) \<longrightarrow> P loc s \<and> s < n)"

lemma located_mono:
  "located C P n \<Longrightarrow> (\<And>loc s. s \<in> set (C loc) \<Longrightarrow> P loc s \<Longrightarrow> Q loc s) \<Longrightarrow> located C Q n"
  by (auto simp: located_def)

lemma located_move:
  assumes "located C P n" "C A = s # rest" "A \<noteq> B" "Q B s"
    and "\<And>loc x. x \<in> set (C loc) \<Longrightarrow> x \<noteq> s \<Longrightarrow> P loc x \<Longrightarrow> Q loc x"
  shows "located (C(A := rest, B := s # C B)) Q n"
proof -
  have s: "s \<in> set (C A)" using assms(2) by simp
  have d: "distinct (s # rest)" using assms(1,2) by (metis located_def)
  have only: "s \<notin> set (C loc)" if "loc \<noteq> A" for loc using assms(1) s that by (auto simp: located_def)
  have in_old: "x \<in> set (C loc) \<or> x = s \<and> loc = B" if "x \<in> set ((C(A := rest, B := s # C B)) loc)" for x loc
    using that assms(2) by (auto split: if_splits)
  have not_s: "x \<noteq> s" if "x \<in> set ((C(A := rest, B := s # C B)) loc)" "loc \<noteq> B" for x loc
    using that d only by (auto split: if_splits)
  show ?thesis unfolding located_def
  proof (intro conjI allI impI)
    fix loc show "distinct ((C(A := rest, B := s # C B)) loc)"
      using assms(1) d only[of B] assms(3) by (auto simp: located_def)
  next
    fix loc loc' x
    assume "x \<in> set ((C(A := rest, B := s # C B)) loc) \<and> x \<in> set ((C(A := rest, B := s # C B)) loc')"
    then show "loc = loc'"
      using in_old not_s assms(1) unfolding located_def by metis
  next
    fix loc x assume x: "x \<in> set ((C(A := rest, B := s # C B)) loc)"
    show "Q loc x"
    proof (cases "x = s")
      case True then show ?thesis using not_s[OF x] assms(4) by blast
    next
      case False
      then have "x \<in> set (C loc)" using in_old[OF x] by blast
      then show ?thesis using assms(1,5) False by (metis located_def)
    qed
    show "x < n" using in_old[OF x] s assms(1) by (metis located_def)
  qed
qed

lemma located_new:
  assumes "located C P n" "Q B n"
    and "\<And>loc x. x \<in> set (C loc) \<Longrightarrow> x \<noteq> n \<Longrightarrow> P loc x \<Longrightarrow> Q loc x"
  shows "located (C(B := n # C B)) Q (n + 1)"
proof -
  have new: "n \<notin> set (C loc)" for loc using assms(1) by (auto simp: located_def)
  have P: "P loc x \<and> x < n" if "x \<in> set (C loc)" for loc x using assms(1) that by (simp add: located_def)
  have U: "loc = loc'" if "x \<in> set (C loc)" "x \<in> set (C loc')" for loc loc' x
    using assms(1) that unfolding located_def by blast
  have D: "distinct (C loc)" for loc using assms(1) by (simp add: located_def)
  have cases: "x \<in> set (C loc) \<and> x \<noteq> n \<or> x = n \<and> loc = B"
    if "x \<in> set ((C(B := n # C B)) loc)" for loc x using that new by (auto split: if_splits)
  show ?thesis unfolding located_def
  proof (intro conjI allI impI)
    fix loc show "distinct ((C(B := n # C B)) loc)" using D new by auto
  next
    fix loc loc' x
    assume "x \<in> set ((C(B := n # C B)) loc) \<and> x \<in> set ((C(B := n # C B)) loc')"
    then show "loc = loc'" using cases U by metis
  next
    fix loc x assume x: "x \<in> set ((C(B := n # C B)) loc)"
    show "Q loc x" using cases[OF x] P assms(2,3) by blast
    show "x < n + 1" using cases[OF x] P by fastforce
  qed
qed

text \<open>The location of every segment in a state with the heaps \<open>hs\<close> of the workers.\<close>

fun contents :: "(nat \<Rightarrow> heap) \<Rightarrow> segment_pool \<Rightarrow> (nat \<times> nat) option \<Rightarrow> location \<Rightarrow> nat list" where
  "contents hs pool hand (Filled a i) = sh_filled (hp_subheap (hs a) i)"
| "contents hs pool hand (Current a i) =
     (case ap_seg (hp_ptr (hs a) i) of None \<Rightarrow> [] | Some s \<Rightarrow> [s])"
| "contents hs pool hand (Partial a i) = sh_partial (hp_subheap (hs a) i)"
| "contents hs pool hand (LocalFree a) = hp_freelist (hs a)"
| "contents hs pool hand (PoolFilled i) = sp_filled (subpools pool i)"
| "contents hs pool hand (PoolPartial i) = sp_partial (subpools pool i)"
| "contents hs pool hand (PoolMarked i) = sp_partial_marked (subpools pool i)"
| "contents hs pool hand PoolFree = pool_freelist pool"
| "contents hs pool hand (InHand i) =
     (case hand of None \<Rightarrow> [] | Some (j, s) \<Rightarrow> if i = j then [s] else [])"

text \<open>
  A segment of subheap \<open>i\<close>; one that still has room; one with an allocation pointer.  Bits of the
  collect bitmap are only set for blocks, in a segment with room only for used ones.
\<close>

definition seg_in :: "segments \<Rightarrow> nat \<Rightarrow> nat \<Rightarrow> bool" where
  "seg_in segs i s \<longleftrightarrow> (let l = compute_segment_layout i; w = seg_words (segs s) in
     seg_layout (segs s) = Some l \<and> bitmap_wf l w
     \<and> (\<forall>k. num_blocks l \<le> k \<and> k < bits0_of (num_blocks l) \<longrightarrow> \<not> bit_at w (COLLECT_BITMAP_BASE l) k))"

definition seg_partial :: "segments \<Rightarrow> nat \<Rightarrow> nat \<Rightarrow> bool" where
  "seg_partial segs i s \<longleftrightarrow> (let l = compute_segment_layout i; w = seg_words (segs s) in
     seg_in segs i s \<and> allocptr_snapshot (segs s) = BLOCK_BASE l
     \<and> (\<exists>k. is_free l w k)
     \<and> (\<forall>k < num_blocks l. bit_at w (COLLECT_BITMAP_BASE l) k \<longrightarrow> bit_at w (BITMAP_BASE l 0) k))"

text \<open>
  \<open>U\<close> is the set of the objects in use, each a segment and a block number.  The objects of a segment
  with room are among the marked blocks, those of a current segment are marked or before the
  allocation pointer, and free segments hold none.  Those of a filled segment of the pool are marked
  or before the snapshot of its former owner.  \<open>asy\<close> says that the ASYNC phase has begun: then
  the objects in segments of \<open>partial_marked\<close> are those of the collect bitmap.
\<close>

definition objs_valid :: "(nat \<times> nat) set \<Rightarrow> nat \<Rightarrow> nat \<Rightarrow> bool" where
  "objs_valid U i s \<longleftrightarrow> (\<forall>k. (s, k) \<in> U \<longrightarrow> k < num_blocks (compute_segment_layout i))"

definition objs_marked :: "(nat \<times> nat) set \<Rightarrow> segments \<Rightarrow> nat \<Rightarrow> nat \<Rightarrow> bool" where
  "objs_marked U segs i s \<longleftrightarrow>
     (\<forall>k. (s, k) \<in> U \<longrightarrow> bit_at (seg_words (segs s)) (BITMAP_BASE (compute_segment_layout i) 0) k)"

definition objs_collected :: "(nat \<times> nat) set \<Rightarrow> segments \<Rightarrow> nat \<Rightarrow> nat \<Rightarrow> bool" where
  "objs_collected U segs i s \<longleftrightarrow>
     (\<forall>k. (s, k) \<in> U \<longrightarrow> bit_at (seg_words (segs s)) (COLLECT_BITMAP_BASE (compute_segment_layout i)) k)"

definition objs_none :: "(nat \<times> nat) set \<Rightarrow> nat \<Rightarrow> bool" where
  "objs_none U s \<longleftrightarrow> (\<forall>k. (s, k) \<notin> U)"

definition objs_before :: "(nat \<times> nat) set \<Rightarrow> segments \<Rightarrow> nat \<Rightarrow> nat \<Rightarrow> nat \<Rightarrow> bool" where
  "objs_before U segs i s pos \<longleftrightarrow>
     (\<forall>k. (s, k) \<in> U \<longrightarrow>
        k < pos \<or> bit_at (seg_words (segs s)) (BITMAP_BASE (compute_segment_layout i) 0) k)"

definition objs_covered :: "(nat \<times> nat) set \<Rightarrow> segments \<Rightarrow> nat \<Rightarrow> nat \<Rightarrow> bool" where
  "objs_covered U segs i s \<longleftrightarrow>
     (\<forall>k. (s, k) \<in> U \<longrightarrow> block_addr (compute_segment_layout i) k < allocptr_snapshot (segs s)
        \<or> bit_at (seg_words (segs s)) (BITMAP_BASE (compute_segment_layout i) 0) k)"

lemmas objs_defs = objs_covered_def objs_valid_def objs_marked_def objs_collected_def objs_none_def objs_before_def

fun loc_ok :: "(nat \<times> nat) set \<Rightarrow> bool \<Rightarrow> segments \<Rightarrow> (nat \<Rightarrow> heap) \<Rightarrow> location \<Rightarrow> nat \<Rightarrow> bool" where
  "loc_ok U asy segs hs (Filled a i) s = (seg_in segs i s \<and> objs_valid U i s)"
| "loc_ok U asy segs hs (Current a i) s =
     (seg_in segs i s \<and> objs_valid U i s
      \<and> (\<exists>k. ap_at segs (hp_ptr (hs a) i) s (compute_segment_layout i) k \<and> objs_before U segs i s k))"
| "loc_ok U asy segs hs (Partial a i) s =
     (seg_partial segs i s \<and> objs_valid U i s \<and> objs_marked U segs i s)"
| "loc_ok U asy segs hs (LocalFree a) s = (blank (segs s) \<and> objs_none U s)"
| "loc_ok U asy segs hs (PoolFilled i) s =
     (seg_in segs i s \<and> objs_valid U i s \<and> objs_covered U segs i s)"
| "loc_ok U asy segs hs (PoolPartial i) s =
     (seg_partial segs i s \<and> objs_valid U i s \<and> objs_marked U segs i s)"
| "loc_ok U asy segs hs (PoolMarked i) s =
     (seg_partial segs i s \<and> objs_valid U i s \<and> objs_marked U segs i s
      \<and> (asy \<longrightarrow> objs_collected U segs i s))"
| "loc_ok U asy segs hs PoolFree s = (blank (segs s) \<and> objs_none U s)"
| "loc_ok U asy segs hs (InHand i) s =
     (seg_partial segs i s \<and> objs_valid U i s \<and> objs_marked U segs i s)"

definition ptr_ok :: "alloc_ptr \<Rightarrow> nat \<Rightarrow> bool" where
  "ptr_ok ptr i \<longleftrightarrow> ap_blocksize ptr = 2 ^ (i + 3)
     \<and> (ap_seg ptr = None \<longleftrightarrow> ap_p ptr = None) \<and> (ap_seg ptr = None \<longrightarrow> ap_b ptr = dummy_bitptr)"

definition heap_inv :: "(nat \<times> nat) set \<Rightarrow> bool \<Rightarrow> (nat \<Rightarrow> heap) \<Rightarrow> segment_pool \<Rightarrow> segments \<Rightarrow> (nat \<times> nat) option \<Rightarrow> bool" where
  "heap_inv U asy hs pool segs hand \<longleftrightarrow>
     located (contents hs pool hand) (loc_ok U asy segs hs) (mem_alloced (pool_memory pool))
   \<and> mem_alloced (pool_memory pool) \<le> mem_count (pool_memory pool)
   \<and> (\<forall>s \<ge> mem_alloced (pool_memory pool). seg_layout (segs s) = None \<and> blank (segs s) \<and> objs_none U s)
   \<and> (\<forall>a. \<forall>i < NUM_SUBHEAPS. ptr_ok (hp_ptr (hs a) i) i)"

definition worker_inv :: "(nat \<times> nat) set \<Rightarrow> nat \<Rightarrow> (nat \<Rightarrow> heap) \<Rightarrow> alloc_state \<Rightarrow> (nat \<times> nat) option \<Rightarrow> bool" where
  "worker_inv U a hs st hand \<longleftrightarrow> heap_inv U (as_phase st = ASYNC) (hs(a := as_heap st)) (as_pool st) (as_segs st) hand"

text \<open>Changing one segment does not affect the others.\<close>

lemma loc_ok_other:
  "(loc_ok U asy segs hs loc x) \<Longrightarrow> segs' x = segs x \<Longrightarrow>
   (\<And>b i. loc = Current b i \<Longrightarrow> hp_ptr (hs' b) i = hp_ptr (hs b) i) \<Longrightarrow> loc_ok U asy segs' hs' loc x"
  by (cases loc) (auto simp: seg_in_def seg_partial_def ap_at_def objs_defs Let_def)

lemma layout_of: "i < NUM_SUBHEAPS \<Longrightarrow> layout_ok (compute_segment_layout i)"
  by (rule compute_segment_layout_ok(1))

lemma blocksize_of:
  "i < NUM_SUBHEAPS \<Longrightarrow> blocksize_bytes (compute_segment_layout i) = 2 ^ (i + 3)"
  using compute_segment_layout_table[of i] by (simp add: layout_with_sel)

text \<open>What \<open>init_segment\<close> makes of a blank segment can be allocated from.\<close>

lemma init_segment_partial:
  assumes "blank (segs s)" "i < NUM_SUBHEAPS"
  shows "seg_partial (segs(s := init_segment (segs s) i)) i s"
proof -
  let ?l = "compute_segment_layout i" let ?g = "init_segment (segs s) i"
  note b = init_segment_blank[OF assms] and ok = layout_of[OF assms(2)]
  have bw: "blank_words ?l (seg_words ?g)" "allocptr_snapshot ?g = BLOCK_BASE ?l"
    using b by (simp_all add: blank_def)
  note f = blank_facts[OF ok bw(1)]
  have "0 < num_blocks ?l" using layout_bits(4)[OF ok] by simp
  then have "is_free ?l (seg_words ?g) 0" by (rule f(2))
  then show ?thesis
    using b(2) bw f bits0_of_props(2)[of "num_blocks ?l"]
    unfolding seg_partial_def seg_in_def Let_def by (simp only: fun_upd_same) (meson less_trans)
qed

lemma init_segment_objs:
  "objs_none U s \<Longrightarrow> objs_valid U i s \<and> objs_marked U segs i s"
  by (simp add: objs_defs)

lemma collect_partial_objs:
  assumes "seg_partial segs i s" "i < NUM_SUBHEAPS" "objs_valid U i s" "objs_collected U segs i s"
  shows "objs_marked U (update_segment segs s (seg_clear_collect \<circ> seg_copy_collect)) i s"
proof -
  let ?l = "compute_segment_layout i" let ?w = "seg_words (segs s)"
  have "seg_layout (segs s) = Some ?l" using assms(1) by (simp add: seg_partial_def seg_in_def Let_def)
  moreover have "is_free ?l (clear_collect_bitmap ?l (copy_collect_bitmap ?l ?w)) k
     \<longleftrightarrow> \<not> bit_at ?w (COLLECT_BITMAP_BASE ?l) k" if "k < num_blocks ?l" for k
    using collected_bits[OF layout_of[OF assms(2)], of ?w] that by blast
  ultimately show ?thesis
    using assms(3,4)
    by (auto simp: objs_defs update_segment_def seg_the_layout_def seg_copy_collect_def
        seg_clear_collect_def is_free_def)
qed

lemma collect_partial:
  assumes "seg_partial segs i s" "i < NUM_SUBHEAPS"
  shows "seg_partial (update_segment segs s (seg_clear_collect \<circ> seg_copy_collect)) i s"
proof -
  let ?l = "compute_segment_layout i" let ?w = "seg_words (segs s)"
  let ?w' = "clear_collect_bitmap ?l (copy_collect_bitmap ?l ?w)"
  note ok = layout_of[OF assms(2)]
  have p: "seg_layout (segs s) = Some ?l" "allocptr_snapshot (segs s) = BLOCK_BASE ?l"
      "\<exists>k. is_free ?l ?w k"
      "\<And>k. k < num_blocks ?l \<Longrightarrow> bit_at ?w (COLLECT_BITMAP_BASE ?l) k \<Longrightarrow> bit_at ?w (BITMAP_BASE ?l 0) k"
    using assms(1) by (simp_all add: seg_partial_def seg_in_def Let_def)
  have w: "bitmap_wf ?l ?w'" "\<And>k. k < num_blocks ?l \<Longrightarrow> is_free ?l ?w' k \<longleftrightarrow> \<not> bit_at ?w (COLLECT_BITMAP_BASE ?l) k"
      "\<And>k. k < num_blocks ?l \<Longrightarrow> \<not> bit_at ?w' (COLLECT_BITMAP_BASE ?l) k"
    using collected_bits[OF ok, of ?w] by auto
  have c: "\<And>k. k < bits0_of (num_blocks ?l) \<Longrightarrow> \<not> bit_at ?w' (COLLECT_BITMAP_BASE ?l) k"
    by (rule clear_collect_bits(1)[OF ok])
  obtain k where k: "is_free ?l ?w k" using p(3) by blast
  then have "k < num_blocks ?l" "\<not> bit_at ?w (COLLECT_BITMAP_BASE ?l) k"
    using p(4) by (auto simp: is_free_def)
  then have "is_free ?l ?w' k" using w(2) by blast
  then show ?thesis
    using p(1,2) w(1,3) c
    by (auto simp: update_segment_def seg_partial_def seg_in_def Let_def seg_the_layout_def
        seg_copy_collect_def seg_clear_collect_def)
qed

section \<open>The steps of the allocator preserve the invariant\<close>

lemma heap_inv_move:
  assumes inv: "heap_inv U asy hs pool segs hand"
    and C: "contents hs' pool' hand' = (contents hs pool hand)(A := rest, B := s # contents hs pool hand B)"
    and A: "contents hs pool hand A = s # rest" "A \<noteq> B"
    and B: "loc_ok U asy segs' hs' B s"
    and other: "\<And>x. x \<noteq> s \<Longrightarrow> segs' x = segs x"
    and ptrs: "\<And>b i x. x \<in> set (contents hs pool hand (Current b i)) \<Longrightarrow> x \<noteq> s \<Longrightarrow>
        hp_ptr (hs' b) i = hp_ptr (hs b) i"
    and mem: "pool_memory pool' = pool_memory pool"
    and ok: "\<And>b i. i < NUM_SUBHEAPS \<Longrightarrow> ptr_ok (hp_ptr (hs' b) i) i"
  shows "heap_inv U asy hs' pool' segs' hand'"
proof -
  let ?n = "mem_alloced (pool_memory pool)"
  have L: "located (contents hs pool hand) (loc_ok U asy segs hs) ?n" using inv by (simp add: heap_inv_def)
  have "located ((contents hs pool hand)(A := rest, B := s # contents hs pool hand B)) (loc_ok U asy segs' hs') ?n"
  proof (rule located_move[OF L A])
    show "loc_ok U asy segs' hs' B s" by (rule B)
    show "loc_ok U asy segs' hs' loc x"
      if "x \<in> set (contents hs pool hand loc)" "x \<noteq> s" "loc_ok U asy segs hs loc x" for loc x
      using loc_ok_other[where U = U and asy = asy and segs = segs and hs = hs and segs' = segs'
          and hs' = hs' and loc = loc and x = x] that other ptrs by blast
  qed
  moreover have "s < ?n"
  proof -
    have "s \<in> set (contents hs pool hand A)" using A(1) by simp
    then show ?thesis using L unfolding located_def by blast
  qed
  then have "segs' x = segs x" if "?n \<le> x" for x using other that by (metis not_le)
  ultimately show ?thesis using inv ok unfolding heap_inv_def C mem by simp
qed

lemma heap_inv_new:
  assumes inv: "heap_inv U asy hs pool segs hand" and n: "n = mem_alloced (pool_memory pool)"
    and C: "contents hs' pool' hand' = (contents hs pool hand)(B := n # contents hs pool hand B)"
    and B: "loc_ok U asy segs' hs' B n"
    and other: "\<And>x. x \<noteq> n \<Longrightarrow> segs' x = segs x"
    and ptrs: "\<And>b i. hp_ptr (hs' b) i = hp_ptr (hs b) i"
    and mem: "pool_memory pool' = (pool_memory pool)\<lparr>mem_alloced := n + 1\<rparr>" "n < mem_count (pool_memory pool)"
  shows "heap_inv U asy hs' pool' segs' hand'"
proof -
  have L: "located (contents hs pool hand) (loc_ok U asy segs hs) n" using inv n by (simp add: heap_inv_def)
  have "located ((contents hs pool hand)(B := n # contents hs pool hand B)) (loc_ok U asy segs' hs') (n + 1)"
  proof (rule located_new[OF L])
    show "loc_ok U asy segs' hs' B n" by (rule B)
    show "loc_ok U asy segs' hs' loc x"
      if "x \<in> set (contents hs pool hand loc)" "x \<noteq> n" "loc_ok U asy segs hs loc x" for loc x
      using loc_ok_other[where U = U and asy = asy and segs = segs and hs = hs and segs' = segs'
          and hs' = hs' and loc = loc and x = x] that other ptrs by blast
  qed
  then show ?thesis
    using inv n mem(2) other unfolding heap_inv_def C mem(1) by (simp add: ptrs)
qed

lemma inv_parts:
  assumes "heap_inv U asy hs pool segs hand"
  shows "i < NUM_SUBHEAPS \<Longrightarrow> ptr_ok (hp_ptr (hs b) i) i"
    and "s \<in> set (contents hs pool hand loc) \<Longrightarrow> loc_ok U asy segs hs loc s"
    and "s \<in> set (contents hs pool hand loc) \<Longrightarrow> s < mem_alloced (pool_memory pool)"
    and "mem_alloced (pool_memory pool) \<le> s \<Longrightarrow> blank (segs s) \<and> objs_none U s"
  using assms by (auto simp: heap_inv_def located_def)

lemma retire_current_inv:
  assumes inv: "worker_inv U a hs st None" and i: "i < NUM_SUBHEAPS"
  shows "worker_inv U a hs (retire_current st i phase) None"
    and "ap_seg (hp_ptr (as_heap (retire_current st i phase)) i) = None"
    and "as_pool (retire_current st i phase) = as_pool st"
    and "as_phase (retire_current st i phase) = as_phase st"
proof -
  let ?ptr = "hp_ptr (as_heap st) i" let ?hs = "hs(a := as_heap st)"
  note I = inv[unfolded worker_inv_def]
  have pok: "ptr_ok ?ptr i" using inv_parts(1)[OF I i, of a] by simp
  have *: "worker_inv U a hs (retire_current st i phase) None
    \<and> ap_seg (hp_ptr (as_heap (retire_current st i phase)) i) = None
    \<and> as_pool (retire_current st i phase) = as_pool st
    \<and> as_phase (retire_current st i phase) = as_phase st"
  proof (cases "ap_p ?ptr")
    case None
    then show ?thesis using inv pok by (simp add: retire_current_def Let_def ptr_ok_def)
  next
    case (Some p)
    then obtain s where s: "ap_seg ?ptr = Some s" using pok by (auto simp: ptr_ok_def)
    let ?st' = "retire_current st i phase" let ?hs' = "hs(a := as_heap ?st')"
    let ?sg = "if ASYNC \<le> phase \<and> phase \<le> PRESYNC2
      then (as_segs st)(s := (as_segs st s)\<lparr>allocptr_snapshot := BLOCK_LIMIT (seg_the_layout (as_segs st s))\<rparr>)
      else as_segs st"
    have rel: "release_alloc_ptr ?ptr phase (as_segs st) = (s, clear_alloc_ptr ?ptr, ?sg)"
      by (simp add: release_alloc_ptr_def s)
    have st': "as_segs ?st' = ?sg" "as_pool ?st' = as_pool st" "as_phase ?st' = as_phase st"
      "hp_ptr (as_heap ?st') = (hp_ptr (as_heap st))(i := clear_alloc_ptr ?ptr)"
      "hp_subheap (as_heap ?st') = (hp_subheap (as_heap st))(i :=
         (hp_subheap (as_heap st) i)\<lparr>sh_filled := s # sh_filled (hp_subheap (as_heap st) i)\<rparr>)"
      "hp_freelist (as_heap ?st') = hp_freelist (as_heap st)"
      using Some by (simp_all add: retire_current_def Let_def rel)
    have mem: "s \<in> set (contents ?hs (as_pool st) None (Current a i))" by (simp add: s)
    have "heap_inv U (as_phase st = ASYNC) ?hs' (as_pool ?st') (as_segs ?st') None"
    proof (rule heap_inv_move[OF I, where A = "Current a i" and B = "Filled a i" and s = s and rest = "[]"])
      show "contents ?hs' (as_pool ?st') None = (contents ?hs (as_pool st) None)
          (Current a i := [], Filled a i := s # contents ?hs (as_pool st) None (Filled a i))"
      proof
        fix loc
        show "contents ?hs' (as_pool ?st') None loc = ((contents ?hs (as_pool st) None)
          (Current a i := [], Filled a i := s # contents ?hs (as_pool st) None (Filled a i))) loc"
          by (cases loc) (auto simp: st' clear_alloc_ptr_def)
      qed
      show "contents ?hs (as_pool st) None (Current a i) = [s]" by (simp add: s)
      show "loc_ok U (as_phase st = ASYNC) (as_segs ?st') ?hs' (Filled a i) s"
        using inv_parts(2)[OF I mem] by (simp add: st' seg_in_def Let_def)
      show "as_segs ?st' x = as_segs st x" if "x \<noteq> s" for x using that by (simp add: st')
      show "hp_ptr (?hs' b) j = hp_ptr (?hs b) j"
        if "x \<in> set (contents ?hs (as_pool st) None (Current b j))" "x \<noteq> s" for b j x
        using that by (auto simp: st' s)
      show "ptr_ok (hp_ptr (?hs' b) j) j" if "j < NUM_SUBHEAPS" for b j
        using inv_parts(1)[OF I that, of b] pok
        by (auto simp: st' ptr_ok_def clear_alloc_ptr_def)
    qed (simp_all add: st')
    then show ?thesis by (simp add: worker_inv_def st' clear_alloc_ptr_def)
  qed
  then show "worker_inv U a hs (retire_current st i phase) None"
    "ap_seg (hp_ptr (as_heap (retire_current st i phase)) i) = None"
    "as_pool (retire_current st i phase) = as_pool st"
    "as_phase (retire_current st i phase) = as_phase st" by blast+
qed

lemma contents_hand:
  "C = contents hs pool None \<Longrightarrow> contents hs pool (Some (i, s)) = C(InHand i := [s])"
  by (rule ext, rename_tac loc, case_tac loc) auto

lemma get_segment_from_pool_inv:
  assumes inv: "heap_inv U asy hs pool segs None" and i: "i < NUM_SUBHEAPS"
    and get: "get_segment_from_pool pool segs i phase cur = (Some s, pool', segs')"
    and asy: "cur = ASYNC \<Longrightarrow> asy"
  shows "heap_inv U asy hs pool' segs' (Some (i, s))"
proof -
  let ?sp = "subpools pool i" and ?C = "contents hs pool None"
  note ok = inv_parts(1)[OF inv]
  have hand: "contents hs pool None (InHand i) = []" by simp
  consider (partial) rest where "sp_partial ?sp = s # rest"
      "pool' = pool\<lparr>subpools := (subpools pool)(i := ?sp\<lparr>sp_partial := rest\<rparr>)\<rparr>" "segs' = segs"
    | (marked) rest where "sp_partial_marked ?sp = s # rest"
      "pool' = pool\<lparr>subpools := (subpools pool)(i := ?sp\<lparr>sp_partial_marked := rest\<rparr>)\<rparr>"
      "segs' = (if cur = ASYNC then update_segment segs s (seg_clear_collect \<circ> seg_copy_collect) else segs)"
    | (free) rest where "pool_freelist pool = s # rest" "pool' = pool\<lparr>pool_freelist := rest\<rparr>"
      "segs' = update_segment segs s (\<lambda>g. init_segment g i)"
    | (new) "s = mem_alloced (pool_memory pool)" "s < mem_count (pool_memory pool)"
      "pool' = pool\<lparr>pool_memory := (pool_memory pool)\<lparr>mem_alloced := s + 1\<rparr>\<rparr>"
      "segs' = update_segment segs s (\<lambda>g. init_segment g i)"
    using get unfolding get_segment_from_pool_def Let_def
    by (auto simp: allocate_segment_def Let_def split: list.splits if_splits)
  then show ?thesis
  proof cases
    case partial
    show ?thesis
    proof (rule heap_inv_move[OF inv, where A = "PoolPartial i" and B = "InHand i" and s = s and rest = rest])
      show "contents hs pool' (Some (i, s)) = ?C(PoolPartial i := rest, InHand i := s # ?C (InHand i))"
        by (rule ext, rename_tac loc, case_tac loc) (auto simp: partial)
      have "s \<in> set (?C (PoolPartial i))" by (simp add: partial)
      from inv_parts(2)[OF inv this] show "loc_ok U asy segs' hs (InHand i) s" by (simp add: partial)
    qed (use partial ok in auto)
  next
    case marked
    show ?thesis
    proof (rule heap_inv_move[OF inv, where A = "PoolMarked i" and B = "InHand i" and s = s and rest = rest])
      show "contents hs pool' (Some (i, s)) = ?C(PoolMarked i := rest, InHand i := s # ?C (InHand i))"
        by (rule ext, rename_tac loc, case_tac loc) (auto simp: marked)
      have "s \<in> set (?C (PoolMarked i))" by (simp add: marked)
      then have "loc_ok U asy segs hs (PoolMarked i) s" using inv_parts(2)[OF inv] by blast
      then show "loc_ok U asy segs' hs (InHand i) s"
        using collect_partial[OF _ i] collect_partial_objs[OF _ i] asy by (simp add: marked)
    qed (use marked ok in \<open>auto simp: update_segment_def\<close>)
  next
    case free
    show ?thesis
    proof (rule heap_inv_move[OF inv, where A = PoolFree and B = "InHand i" and s = s and rest = rest])
      show "contents hs pool' (Some (i, s)) = ?C(PoolFree := rest, InHand i := s # ?C (InHand i))"
        by (rule ext, rename_tac loc, case_tac loc) (auto simp: free)
      have "s \<in> set (?C PoolFree)" by (simp add: free)
      then have "loc_ok U asy segs hs PoolFree s" using inv_parts(2)[OF inv] by blast
      then show "loc_ok U asy segs' hs (InHand i) s"
        using init_segment_partial[OF _ i] init_segment_objs by (simp add: free update_segment_def)
    qed (use free ok in \<open>auto simp: update_segment_def\<close>)
  next
    case new
    show ?thesis
    proof (rule heap_inv_new[OF inv new(1), where B = "InHand i"])
      show "contents hs pool' (Some (i, s)) = ?C(InHand i := s # ?C (InHand i))"
        by (rule ext, rename_tac loc, case_tac loc) (auto simp: new(3))
      have "blank (segs s) \<and> objs_none U s" using inv_parts(4)[OF inv] new(1) by simp
      then show "loc_ok U asy segs' hs (InHand i) s"
        using init_segment_partial[OF _ i] init_segment_objs by (simp add: new(4) update_segment_def)
    qed (use new in \<open>auto simp: update_segment_def\<close>)
  qed
qed

lemma heap_inv_spend:
  "heap_inv U asy (hs(a := h)) pool segs hand \<Longrightarrow>
   hp_ptr h' = hp_ptr h \<Longrightarrow> hp_subheap h' = hp_subheap h \<Longrightarrow> hp_freelist h' = hp_freelist h \<Longrightarrow>
   heap_inv U asy (hs(a := h')) pool segs hand"
proof -
  assume inv: "heap_inv U asy (hs(a := h)) pool segs hand" and h: "hp_ptr h' = hp_ptr h"
    "hp_subheap h' = hp_subheap h" "hp_freelist h' = hp_freelist h"
  have "contents (hs(a := h')) pool hand = contents (hs(a := h)) pool hand"
    by (rule ext, rename_tac loc, case_tac loc) (auto simp: h)
  moreover have "loc_ok U asy segs (hs(a := h')) = loc_ok U asy segs (hs(a := h))"
    by (intro ext, rename_tac loc x, case_tac loc) (auto simp: h)
  moreover have "hp_ptr ((hs(a := h')) b) = hp_ptr ((hs(a := h)) b)" for b by (simp add: h)
  ultimately show ?thesis using inv unfolding heap_inv_def by presburger
qed

lemma take_segment_inv:
  assumes inv: "worker_inv U a hs st None" and i: "i < NUM_SUBHEAPS"
    and take: "take_segment st i phase = (r, st')"
  shows "worker_inv U a hs st' (map_option (Pair i) r)" "hp_ptr (as_heap st') = hp_ptr (as_heap st)"
    "r = None \<Longrightarrow> st' = st" "as_phase st' = as_phase st"
proof -
  let ?heap = "as_heap st" and ?hs = "hs(a := as_heap st)"
  let ?C = "contents ?hs (as_pool st) None" and ?sh = "hp_subheap (as_heap st) i"
  note I = inv[unfolded worker_inv_def]
  note ok = inv_parts(1)[OF I]
  define spend where "spend h = h\<lparr>hp_count := (hp_count h)(i :=
     (hp_count h i)\<lparr>extension_room := extension_room (hp_count h i) - 1\<rparr>)\<rparr>" for h :: heap
  have sp: "hp_ptr (spend h) = hp_ptr h" "hp_subheap (spend h) = hp_subheap h"
    "hp_freelist (spend h) = hp_freelist h" for h by (simp_all add: spend_def)
  note t = take[unfolded take_segment_def Let_def, folded spend_def]
  consider (none) "r = None" "st' = st"
    | (partial) s rest where "r = Some s" "sh_partial ?sh = s # rest"
      "st' = st\<lparr>as_heap := ?heap\<lparr>hp_subheap := (hp_subheap ?heap)(i := ?sh\<lparr>sh_partial := rest\<rparr>)\<rparr>\<rparr>"
    | (free) s rest where "r = Some s" "hp_freelist ?heap = s # rest"
      "st' = st\<lparr>as_heap := spend (?heap\<lparr>hp_freelist := rest\<rparr>),
                as_segs := update_segment (as_segs st) s (\<lambda>g. init_segment g i)\<rparr>"
    | (pool) s pool segs where "r = Some s"
      "get_segment_from_pool (as_pool st) (as_segs st) i phase (as_phase st) = (Some s, pool, segs)"
      "st' = st\<lparr>as_heap := spend ?heap, as_pool := pool, as_segs := segs\<rparr>"
  proof (cases "sh_partial ?sh")
    case (Cons s rest)
    then show thesis using t by (intro partial[of s rest]) auto
  next
    case Nil
    show thesis
    proof (cases "extension_room (hp_count ?heap i) = 0")
      case True
      then show thesis using t Nil by (intro none) auto
    next
      case room: False
      show thesis
      proof (cases "hp_freelist ?heap")
        case (Cons s rest)
        then show thesis using t Nil room by (intro free[of s rest]) auto
      next
        case Nil': Nil
        obtain o' p g where get: "get_segment_from_pool (as_pool st) (as_segs st) i phase (as_phase st) = (o', p, g)"
          by (metis prod_cases3)
        show thesis
        proof (cases o')
          case None
          then show thesis using t Nil room Nil' get by (intro none) auto
        next
          case (Some s)
          then show thesis using t Nil room Nil' get by (intro pool[of s p g]) auto
        qed
      qed
    qed
  qed
  then have "worker_inv U a hs st' (map_option (Pair i) r) \<and> hp_ptr (as_heap st') = hp_ptr (as_heap st)
     \<and> (r = None \<longrightarrow> st' = st) \<and> as_phase st' = as_phase st"
  proof cases
    case none
    then show ?thesis using inv by simp
  next
    case partial
    have "heap_inv U (as_phase st = ASYNC) (hs(a := as_heap st')) (as_pool st') (as_segs st') (Some (i, s))"
    proof (rule heap_inv_move[OF I, where A = "Partial a i" and B = "InHand i" and s = s and rest = rest])
      show "contents (hs(a := as_heap st')) (as_pool st') (Some (i, s))
         = ?C(Partial a i := rest, InHand i := s # ?C (InHand i))"
        by (rule ext, rename_tac loc, case_tac loc) (auto simp: partial)
      have "s \<in> set (?C (Partial a i))" by (simp add: partial)
      from inv_parts(2)[OF I this] show "loc_ok U (as_phase st = ASYNC) (as_segs st') (hs(a := as_heap st')) (InHand i) s"
        by (simp add: partial)
      show "ptr_ok (hp_ptr ((hs(a := as_heap st')) b) j) j" if "j < NUM_SUBHEAPS" for b j
        using ok[OF that, of b] by (auto simp: partial)
    qed (use partial in auto)
    then show ?thesis using partial by (simp add: worker_inv_def)
  next
    case free
    let ?h = "?heap\<lparr>hp_freelist := rest\<rparr>"
    have "heap_inv U (as_phase st = ASYNC) (hs(a := ?h)) (as_pool st') (as_segs st') (Some (i, s))"
    proof (rule heap_inv_move[OF I, where A = "LocalFree a" and B = "InHand i" and s = s and rest = rest])
      show "contents (hs(a := ?h)) (as_pool st') (Some (i, s))
         = ?C(LocalFree a := rest, InHand i := s # ?C (InHand i))"
        by (rule ext, rename_tac loc, case_tac loc) (auto simp: free)
      have "s \<in> set (?C (LocalFree a))" by (simp add: free)
      then have "loc_ok U (as_phase st = ASYNC) (as_segs st) ?hs (LocalFree a) s" using inv_parts(2)[OF I] by blast
      then show "loc_ok U (as_phase st = ASYNC) (as_segs st') (hs(a := ?h)) (InHand i) s"
        using init_segment_partial[OF _ i] init_segment_objs by (simp add: free update_segment_def)
      show "ptr_ok (hp_ptr ((hs(a := ?h)) b) j) j" if "j < NUM_SUBHEAPS" for b j
        using ok[OF that, of b] by auto
    qed (use free in \<open>auto simp: update_segment_def\<close>)
    from heap_inv_spend[OF this, of "spend ?h"] show ?thesis using free by (simp add: worker_inv_def sp)
  next
    case pool
    from get_segment_from_pool_inv[OF I i pool(2)]
    have "heap_inv U (as_phase st = ASYNC) (hs(a := spend ?heap)) pool segs (Some (i, s))"
      by (rule heap_inv_spend) (simp_all add: sp)
    then show ?thesis using pool by (simp add: worker_inv_def sp)
  qed
  then show "worker_inv U a hs st' (map_option (Pair i) r)" "hp_ptr (as_heap st') = hp_ptr (as_heap st)"
    "r = None \<Longrightarrow> st' = st" "as_phase st' = as_phase st" by blast+
qed

lemma install_segment_inv:
  fixes phase :: sml_sync_phase
  assumes inv: "worker_inv U a hs st (Some (i, s))" and i: "i < NUM_SUBHEAPS"
    and empty: "ap_seg (hp_ptr (as_heap st) i) = None"
  defines "st' \<equiv> install_segment st i s phase"
  shows "worker_inv U a hs st' None" "ap_at (as_segs st') (hp_ptr (as_heap st') i) s (compute_segment_layout i) 0"
    "\<exists>k. is_free (compute_segment_layout i) (seg_words (as_segs st' s)) k"
proof -
  let ?hs = "hs(a := as_heap st)" and ?l = "compute_segment_layout i"
  let ?C = "contents ?hs (as_pool st) (Some (i, s))"
  note I = inv[unfolded worker_inv_def] and ok = layout_of[OF i]
  obtain ptr segs where set: "set_alloc_ptr (hp_ptr (as_heap st) i) s phase (as_segs st) = (ptr, segs)"
    by fastforce
  have st': "as_heap st' = (as_heap st)\<lparr>hp_ptr := (hp_ptr (as_heap st))(i := ptr)\<rparr>"
    "as_segs st' = segs" "as_pool st' = as_pool st" "as_phase st' = as_phase st"
    by (simp_all add: st'_def install_segment_def set)
  have "s \<in> set (?C (InHand i))" by simp
  note p0 = inv_parts(2)[OF I this]
  then have "seg_partial (as_segs st) i s" by simp
  then have lay: "seg_layout (as_segs st s) = Some ?l" "bitmap_wf ?l (seg_words (as_segs st s))"
    "\<exists>k. is_free ?l (seg_words (as_segs st s)) k" "seg_in (as_segs st) i s"
    by (simp_all add: seg_partial_def seg_in_def Let_def)
  have objs: "objs_valid U i s" "objs_marked U (as_segs st) i s" using p0 by simp_all
  have pok: "ptr_ok (hp_ptr (as_heap st) i) i" using inv_parts(1)[OF I i, of a] by simp
  then have bs: "ap_blocksize (hp_ptr (as_heap st) i) = blocksize_bytes ?l"
    by (simp add: ptr_ok_def blocksize_of[OF i])
  note at = set_alloc_ptr_at[OF lay(1) ok lay(2) bs set]
  show "ap_at (as_segs st') (hp_ptr (as_heap st') i) s ?l 0" using at(1) by (simp add: st')
  show "\<exists>k. is_free ?l (seg_words (as_segs st' s)) k" using lay(3) at(2) by (simp add: st')
  have ap: "ap_seg ptr = Some s" using at(1) by (simp add: ap_at_def)
  have "heap_inv U (as_phase st = ASYNC) (hs(a := as_heap st')) (as_pool st') (as_segs st') None"
  proof (rule heap_inv_move[OF I, where A = "InHand i" and B = "Current a i" and s = s and rest = "[]"])
    show "contents (hs(a := as_heap st')) (as_pool st') None
       = ?C(InHand i := [], Current a i := s # ?C (Current a i))"
      by (rule ext, rename_tac loc, case_tac loc) (auto simp: st' ap empty)
    show "loc_ok U (as_phase st = ASYNC) (as_segs st') (hs(a := as_heap st')) (Current a i) s"
    proof -
      have "seg_in segs i s" using lay(4) at(2,3) by (simp add: seg_in_def Let_def)
      moreover have "objs_before U segs i s 0" using objs(2) at(2) by (simp add: objs_defs)
      ultimately show ?thesis using objs(1) at(1) by (auto simp: st')
    qed
    show "as_segs st' x = as_segs st x" if "x \<noteq> s" for x
      using set that by (auto simp: st' set_alloc_ptr_def Let_def)
    show "hp_ptr ((hs(a := as_heap st')) b) j = hp_ptr (?hs b) j"
      if "x \<in> set (?C (Current b j))" "x \<noteq> s" for b j x
      using that empty by (auto simp: st')
    have "ptr_ok ptr i" using set pok by (auto simp: ptr_ok_def set_alloc_ptr_def Let_def)
    then show "ptr_ok (hp_ptr ((hs(a := as_heap st')) b) j) j" if "j < NUM_SUBHEAPS" for b j
      using inv_parts(1)[OF I that, of b] by (auto simp: st')
  qed (auto simp: st')
  then show "worker_inv U a hs st' None" by (simp add: worker_inv_def st')
qed

lemma ap_at_unique: "ap_at segs ptr s l k \<Longrightarrow> ap_at segs ptr s' l' k' \<Longrightarrow> k = k'"
  unfolding ap_at_def by (metis BITPTR_INDEX_BITPTR)

lemma loc_ok_insert:
  "x \<noteq> s \<Longrightarrow> loc_ok (insert (s, j) U) asy segs hs loc x = loc_ok U asy segs hs loc x"
  by (cases loc) (simp_all add: objs_defs)

lemma advance_inv:
  assumes inv: "worker_inv U a hs st None" and i: "i < NUM_SUBHEAPS"
    and at: "ap_at (as_segs st) (hp_ptr (as_heap st) i) s (compute_segment_layout i) k"
    and nf: "next_free (compute_segment_layout i) (seg_words (as_segs st s)) k = Some j"
    and ptr': "ptr' = (hp_ptr (as_heap st) i)\<lparr>ap_b := BITPTR BITMAP0_BASE (Suc j),
        ap_p := Some (block_addr (compute_segment_layout i) (Suc j))\<rparr>"
    and st': "st' = st\<lparr>as_heap := (as_heap st)\<lparr>hp_ptr := (hp_ptr (as_heap st))(i := ptr')\<rparr>\<rparr>"
  shows "(s, j) \<notin> U" "worker_inv (insert (s, j) U) a hs st' None"
    "ap_at (as_segs st') (hp_ptr (as_heap st') i) s (compute_segment_layout i) (Suc j)"
proof -
  let ?hs = "hs(a := as_heap st)" and ?hs' = "hs(a := as_heap st')" and ?l = "compute_segment_layout i"
  let ?C = "contents ?hs (as_pool st) None"
  note I = inv[unfolded worker_inv_def] and d = next_free_SomeD[OF nf] and ok = layout_of[OF i]
  have seg: "ap_seg (hp_ptr (as_heap st) i) = Some s" using at by (simp add: ap_at_def)
  have mem: "s \<in> set (?C (Current a i))" by (simp add: seg)
  note cur = inv_parts(2)[OF I mem]
  then have sin: "seg_in (as_segs st) i s" "objs_valid U i s" by simp_all
  obtain k' where k': "ap_at (as_segs st) (hp_ptr (as_heap st) i) s ?l k'" "objs_before U (as_segs st) i s k'"
    using cur by auto
  then have bef: "objs_before U (as_segs st) i s k" using ap_at_unique[OF at k'(1)] by simp
  have clear: "\<not> bit_at (seg_words (as_segs st s)) (BITMAP_BASE ?l 0) j" using d(2) by (simp add: is_free_def)
  show new: "(s, j) \<notin> U" using bef clear d(1) by (auto simp: objs_before_def)
  show at': "ap_at (as_segs st') (hp_ptr (as_heap st') i) s ?l (Suc j)"
    using ap_at_advance[OF at d(3)] by (simp add: st' ptr')
  have C: "contents ?hs' (as_pool st') None = ?C"
    by (rule ext, rename_tac loc, case_tac loc) (auto simp: st' ptr' seg)
  have L: "located ?C (loc_ok U (as_phase st = ASYNC) (as_segs st) ?hs) (mem_alloced (pool_memory (as_pool st)))"
    using I by (simp add: heap_inv_def)
  have "located ?C (loc_ok (insert (s, j) U) (as_phase st = ASYNC) (as_segs st') ?hs') (mem_alloced (pool_memory (as_pool st)))"
  proof (rule located_mono[OF L])
    fix loc x assume x: "x \<in> set (?C loc)" "loc_ok U (as_phase st = ASYNC) (as_segs st) ?hs loc x"
    show "loc_ok (insert (s, j) U) (as_phase st = ASYNC) (as_segs st') ?hs' loc x"
    proof (cases "x = s")
      case True
      then have "loc = Current a i" using x(1) mem L unfolding located_def by blast
      moreover have "objs_valid (insert (s, j) U) i s" "objs_before (insert (s, j) U) (as_segs st) i s (Suc j)"
        using sin(2) bef d(1,3) by (auto simp: objs_defs)
      ultimately show ?thesis using True sin(1) at' by (auto simp: st')
    next
      case False
      have "hp_ptr (?hs' b) i' = hp_ptr (?hs b) i'" if "loc = Current b i'" for b i'
        using x(1) False that seg by (auto simp: st')
      then have "loc_ok U (as_phase st = ASYNC) (as_segs st') ?hs' loc x"
        using loc_ok_other[where U = U and asy = "as_phase st = ASYNC", OF x(2), of "as_segs st'" ?hs'] by (simp add: st')
      then show ?thesis using loc_ok_insert[OF False] by simp
    qed
  qed
  moreover have "ptr_ok (hp_ptr (?hs' b) i') i'" if "i' < NUM_SUBHEAPS" for b i'
    using inv_parts(1)[OF I that, of b] inv_parts(1)[OF I i, of a]
    by (auto simp: st' ptr' ptr_ok_def seg)
  moreover have "s < mem_alloced (pool_memory (as_pool st))" by (rule inv_parts(3)[OF I mem])
  then have "objs_none (insert (s, j) U) x" if "mem_alloced (pool_memory (as_pool st)) \<le> x" for x
    using inv_parts(4)[OF I that] that by (auto simp: objs_none_def)
  ultimately show "worker_inv (insert (s, j) U) a hs st' None"
    using I unfolding worker_inv_def heap_inv_def C by (simp add: st')
qed

text \<open>Allocation from the current segment, if there is one.\<close>

lemma current_or_none:
  assumes inv: "worker_inv U a hs st None" and i: "i < NUM_SUBHEAPS"
  obtains (none) "ap_seg (hp_ptr (as_heap st) i) = None" "ap_p (hp_ptr (as_heap st) i) = None"
      "ap_b (hp_ptr (as_heap st) i) = dummy_bitptr"
    | (at) s k where "ap_at (as_segs st) (hp_ptr (as_heap st) i) s (compute_segment_layout i) k"
proof (cases "ap_seg (hp_ptr (as_heap st) i)")
  case None
  have "ptr_ok (hp_ptr (as_heap st) i) i"
    using inv_parts(1)[OF inv[unfolded worker_inv_def] i, of a] by simp
  then show ?thesis using None by (intro none) (simp_all add: ptr_ok_def)
next
  case (Some s)
  then have "s \<in> set (contents (hs(a := as_heap st)) (as_pool st) None (Current a i))" by simp
  from inv_parts(2)[OF inv[unfolded worker_inv_def] this] show ?thesis by (auto intro: at)
qed

lemma with_ptr_same [simp]: "with_ptr st i (None, hp_ptr (as_heap st) i) = (None, st)"
  by (simp add: with_ptr_def)

lemma alloc_from_ptr_inv:
  assumes inv: "worker_inv U a hs st None" and i: "i < NUM_SUBHEAPS"
    and al: "with_ptr st i (alloc_from_ptr (hp_ptr (as_heap st) i) (as_segs st)) = (r, st')"
  shows "case r of None \<Rightarrow> st' = st
    | Some (s, off) \<Rightarrow> \<exists>j. off = block_addr (compute_segment_layout i) j
         \<and> j < num_blocks (compute_segment_layout i) \<and> (s, j) \<notin> U
         \<and> worker_inv (insert (s, j) U) a hs st' None"
  using inv i
proof (cases rule: current_or_none)
  case none
  then have "BITPTR_TEST (ap_words (as_segs st) (hp_ptr (as_heap st) i)) (ap_b (hp_ptr (as_heap st) i))"
    by (simp add: ap_words_def BITPTR_TEST_def dummy_bitptr_def dummy_bitmap_def)
  then show ?thesis using al none by (auto simp: alloc_from_ptr_def find_bitmap_def)
next
  case (at s k)
  let ?l = "compute_segment_layout i"
  note eq = alloc_from_ptr_next_free[OF at]
  have seg: "ap_seg (hp_ptr (as_heap st) i) = Some s" using at by (simp add: ap_at_def)
  show ?thesis
  proof (cases "next_free ?l (seg_words (as_segs st s)) k")
    case None
    then show ?thesis using al by (auto simp: eq)
  next
    case (Some j)
    note adv = advance_inv[OF inv i at Some refl refl]
    show ?thesis using al adv next_free_SomeD(3)[OF Some]
      by (auto simp: eq Some with_ptr_def seg)
  qed
qed

lemma try_find_segment_inv:
  assumes inv: "worker_inv U a hs st None" and i: "i < NUM_SUBHEAPS"
    and tf: "try_find_segment st i phase = (r, st')"
  shows "case r of None \<Rightarrow> worker_inv U a hs st' None
    | Some (s, off) \<Rightarrow> \<exists>j. off = block_addr (compute_segment_layout i) j
         \<and> j < num_blocks (compute_segment_layout i) \<and> (s, j) \<notin> U
         \<and> worker_inv (insert (s, j) U) a hs st' None"
    and "r = None \<longleftrightarrow> fst (take_segment (retire_current st i phase) i phase) = None"
proof -
  let ?st0 = "retire_current st i phase" and ?l = "compute_segment_layout i"
  note R = retire_current_inv[OF inv i, of phase]
  obtain q st1 where t: "take_segment ?st0 i phase = (q, st1)" by fastforce
  note T = take_segment_inv[OF R(1) i t]
  have "(case r of None \<Rightarrow> worker_inv U a hs st' None
    | Some (s, off) \<Rightarrow> \<exists>j. off = block_addr ?l j \<and> j < num_blocks ?l \<and> (s, j) \<notin> U
         \<and> worker_inv (insert (s, j) U) a hs st' None) \<and> (r = None \<longleftrightarrow> q = None)"
  proof (cases q)
    case None
    then show ?thesis using tf t T(1) by (auto simp: try_find_segment_def)
  next
    case (Some s)
    let ?st2 = "install_segment st1 i s phase"
    have e: "ap_seg (hp_ptr (as_heap st1) i) = None" using R(2) T(2) by simp
    have "worker_inv U a hs st1 (Some (i, s))" using T(1) Some by simp
    note S = install_segment_inv[OF this i e, of phase]
    obtain j where nf: "next_free ?l (seg_words (as_segs ?st2 s)) 0 = Some j"
      using S(3) next_free_None[of ?l "seg_words (as_segs ?st2 s)" 0] by auto
    note adv = advance_inv[OF S(1) i S(2) nf refl refl]
    have seg: "ap_seg (hp_ptr (as_heap ?st2) i) = Some s" using S(2) by (simp add: ap_at_def)
    show ?thesis
      using tf t Some adv next_free_SomeD(3)[OF nf]
      by (auto simp: try_find_segment_def Let_def find_bitmap_next_free[OF S(2)] nf with_ptr_def seg)
  qed
  then show "case r of None \<Rightarrow> worker_inv U a hs st' None
    | Some (s, off) \<Rightarrow> \<exists>j. off = block_addr ?l j \<and> j < num_blocks ?l \<and> (s, j) \<notin> U
         \<and> worker_inv (insert (s, j) U) a hs st' None"
    and "r = None \<longleftrightarrow> fst (take_segment ?st0 i phase) = None" by (simp_all add: t)
qed

section \<open>The initial state\<close>

definition zero_segments :: segments where
  "zero_segments = (\<lambda>_. \<lparr>seg_layout = None, seg_words = \<lambda>_. 0, allocptr_snapshot = 0, seg_free_count = 0\<rparr>)"

definition initial_state :: "(nat \<Rightarrow> subheap_count) \<Rightarrow> memory \<Rightarrow> nat \<Rightarrow> alloc_state" where
  "initial_state counts mem min_size =
     \<lparr>as_heap = init_heap counts, as_pool = init_segment_pool mem min_size,
      as_segs = zero_segments, as_gc = False, as_phase = ASYNC\<rparr>"

lemma initial_inv:
  assumes "mem_alloced mem = 0"
  shows "worker_inv {} a (\<lambda>_. init_heap counts) (initial_state counts mem min_size) None"
proof -
  have hs: "(\<lambda>_. init_heap counts)(a := as_heap (initial_state counts mem min_size)) = (\<lambda>_. init_heap counts)"
    by (simp add: initial_state_def fun_eq_iff)
  have C: "contents (\<lambda>_. init_heap counts) (init_segment_pool mem min_size) None loc = []" for loc
    by (cases loc) (simp_all add: init_heap_def init_segment_pool_def init_alloc_ptr_def clear_alloc_ptr_def)
  have "ptr_ok (hp_ptr (init_heap counts) i) i" for i
    by (simp add: init_heap_def init_alloc_ptr_def clear_alloc_ptr_def ptr_ok_def push_bit_eq_mult layout_simps)
  then show ?thesis
    unfolding worker_inv_def heap_inv_def hs
    using assms by (simp add: initial_state_def init_segment_pool_def located_def C[unfolded init_segment_pool_def]
        zero_segments_def blank_def objs_none_def)
qed

section \<open>The sizes of blocks\<close>

lemma alloc_subheap_fit:
  assumes "alloc_subheap objsize = Some i"
  shows "i < NUM_SUBHEAPS" "OBJ_HEADER_SIZE + objsize \<le> 2 ^ (i + 3)"
    "0 < i \<Longrightarrow> 2 ^ (i + 2) < OBJ_HEADER_SIZE + objsize"
proof -
  let ?x = "CEILING (OBJ_HEADER_SIZE + objsize) BLOCKSIZE_MIN"
  have o: "objsize \<le> 4092" and i: "i = CEIL_LOG2 ?x - 3"
    using assms by (auto simp: alloc_subheap_def layout_simps split: if_splits)
  have x: "8 dvd ?x" "4 + objsize \<le> ?x" "?x < 12 + objsize"
    using CEILING_ge[of 8 "4 + objsize"] CEILING_less[of 8 "4 + objsize"] by (simp_all add: layout_simps)
  then obtain y where y: "?x = 8 * y" by blast
  have y2: "y \<le> 512" "1 \<le> y" using x o y by linarith+
  have b: "?x \<le> 2 ^ CEIL_LOG2 ?x" "2 ^ (CEIL_LOG2 ?x - 1) < ?x"
    using CEIL_LOG2_bounds[of ?x] y y2 by simp_all
  have ge: "3 \<le> CEIL_LOG2 ?x"
  proof (rule ccontr)
    assume "\<not> ?thesis"
    then have "(2 :: nat) ^ CEIL_LOG2 ?x \<le> 2 ^ 2" by (intro power_increasing) auto
    then show False using b(1) y y2 by simp
  qed
  have le: "CEIL_LOG2 ?x \<le> 12"
  proof (rule ccontr)
    assume "\<not> ?thesis"
    then have "(2 :: nat) ^ 12 \<le> 2 ^ (CEIL_LOG2 ?x - 1)" by (intro power_increasing) auto
    then show False using b(2) y y2 by simp
  qed
  show "i < NUM_SUBHEAPS" using ge le i by (simp add: layout_simps)
  have e: "i + 3 = CEIL_LOG2 ?x" using ge i by simp
  show "OBJ_HEADER_SIZE + objsize \<le> 2 ^ (i + 3)" using b(1) x(2) unfolding e by (simp add: layout_simps)
  assume "0 < i"
  then have "8 dvd (2 :: nat) ^ (i + 2)"
  proof -
    have "(2 :: nat) ^ 3 dvd 2 ^ (i + 2)" using \<open>0 < i\<close> by (intro le_imp_power_dvd) simp
    then show ?thesis by simp
  qed
  then obtain z where z: "(2 :: nat) ^ (i + 2) = 8 * z" by blast
  have "i + 2 = CEIL_LOG2 ?x - 1" using e by simp
  then have "8 * z < 8 * y" using b(2) y z by simp
  then show "2 ^ (i + 2) < OBJ_HEADER_SIZE + objsize"
    using x(3) y z by (simp add: layout_simps)
qed

text \<open>What an allocation of \<open>objsize\<close> bytes may return, and the invariant it leaves.\<close>

definition fresh_object :: "(nat \<times> nat) set \<Rightarrow> nat \<Rightarrow> (nat \<Rightarrow> heap) \<Rightarrow> nat \<Rightarrow> nat \<Rightarrow> obj_addr
    \<Rightarrow> alloc_state \<Rightarrow> bool" where
  "fresh_object U a hs objsize i obj st' \<longleftrightarrow>
     (case obj of (s, off) \<Rightarrow> \<exists>j. off = block_addr (compute_segment_layout i) j
         \<and> j < num_blocks (compute_segment_layout i) \<and> (s, j) \<notin> U
         \<and> i < NUM_SUBHEAPS \<and> OBJ_HEADER_SIZE + objsize \<le> blocksize_bytes (compute_segment_layout i)
         \<and> worker_inv (insert (s, j) U) a hs st' None)"

lemma alloc_important_from_inv:
  assumes "worker_inv U a hs st None" "i < NUM_SUBHEAPS"
    "OBJ_HEADER_SIZE + objsize \<le> 2 ^ (i + 3)" "alloc_important_from st i phase = (r, st')"
  shows "case r of None \<Rightarrow> worker_inv U a hs st' None
    | Some (Small i' obj) \<Rightarrow> fresh_object U a hs objsize i' obj st'
    | Some (Large addr) \<Rightarrow> False"
  using assms
proof (induction st i phase arbitrary: r st' rule: alloc_important_from.induct)
  case (1 st i phase)
  note i = "1.prems"(2) and sz = "1.prems"(3)
  have bs: "OBJ_HEADER_SIZE + objsize \<le> blocksize_bytes (compute_segment_layout i)"
    using sz by (simp add: blocksize_of[OF i])
  note al = "1.prems"(4)[unfolded alloc_important_from.simps[of st i]]
  obtain r1 st1 where p: "with_ptr st i (alloc_from_ptr (hp_ptr (as_heap st) i) (as_segs st)) = (r1, st1)"
    by fastforce
  note P = alloc_from_ptr_inv[OF "1.prems"(1) i p]
  show ?case
  proof (cases r1)
    case (Some obj)
    then show ?thesis using al p P i bs by (auto simp: fresh_object_def)
  next
    case None
    then have st1: "st1 = st" using P by simp
    obtain r2 st2 where t: "try_find_segment st i phase = (r2, st2)" by fastforce
    note T = try_find_segment_inv(1)[OF "1.prems"(1) i t]
    show ?thesis
    proof (cases r2)
      case (Some obj)
      then show ?thesis using al p None st1 t T i bs by (auto simp: fresh_object_def)
    next
      case None2: None
      show ?thesis
      proof (cases "i < NUM_SUBHEAPS - 1")
        case True
        have "(2 :: nat) ^ (i + 3) \<le> 2 ^ (i + 1 + 3)" by (intro power_increasing) auto
        then have "OBJ_HEADER_SIZE + objsize \<le> 2 ^ (i + 1 + 3)" using sz by linarith
        moreover have "alloc_important_from st2 (i + 1) phase = (r, st')"
          using al p None st1 t None2 True by simp
        ultimately show ?thesis
          using "1.IH"[OF p[symmetric] None _ None2 True, of st2 r st'] t st1 T None2 True
          by simp
      next
        case False
        then show ?thesis using al p None st1 t None2 T by auto
      qed
    qed
  qed
qed

text \<open>
  A state of worker \<open>a\<close> that is consistent for the objects \<open>U\<close>, whatever the other workers' heaps
  are; \<open>keeps\<close> is what an allocation needs of the collector it may wait for.
\<close>

definition consistent :: "nat \<Rightarrow> (nat \<times> nat) set \<Rightarrow> alloc_state \<Rightarrow> bool" where
  "consistent a U st \<longleftrightarrow> (\<exists>hs. worker_inv U a hs st None)"

definition keeps :: "nat \<Rightarrow> (nat \<times> nat) set \<Rightarrow> (alloc_state \<Rightarrow> alloc_state) \<Rightarrow> bool" where
  "keeps a U f \<longleftrightarrow> (\<forall>st. consistent a U st \<longrightarrow> consistent a U (f st))"

definition new_block :: "nat \<Rightarrow> (nat \<times> nat) set \<Rightarrow> nat \<Rightarrow> obj_addr \<Rightarrow> alloc_state \<Rightarrow> bool" where
  "new_block a U i obj st' \<longleftrightarrow> (case obj of (s, off) \<Rightarrow>
     \<exists>j < num_blocks (compute_segment_layout i). off = block_addr (compute_segment_layout i) j
       \<and> (s, j) \<notin> U \<and> consistent a (insert (s, j) U) st')"

lemma attempt_consistent:
  assumes "consistent a U st" "i < NUM_SUBHEAPS" "try_find_segment st i phase = (r, st')"
  shows "case r of None \<Rightarrow> consistent a U st' | Some obj \<Rightarrow> new_block a U i obj st'"
proof -
  obtain hs where hs: "worker_inv U a hs st None" using assms(1) by (auto simp: consistent_def)
  then show ?thesis
    using try_find_segment_inv(1)[OF hs assms(2,3)]
    by (auto simp: consistent_def new_block_def split: option.splits)
qed

lemma find_segment_consistent:
  assumes "consistent a U st" "i < NUM_SUBHEAPS" "keeps a U check" "keeps a U wait_gc"
    "find_segment check wait_gc flag st i = Some (obj, st')"
  shows "new_block a U i obj st'"
proof -
  define st0 where "st0 = (if flag then check st else st)"
  have c0: "consistent a U st0" using assms(1,3) by (simp add: st0_def keeps_def)
  let ?attempt = "\<lambda>st. try_find_segment st i (as_phase st)"
  obtain r1 st1 where t1: "?attempt st0 = (r1, st1)" by fastforce
  obtain r2 st2 where t2: "?attempt (wait_gc st1) = (r2, st2)" by fastforce
  obtain r3 st3 where t3: "?attempt (wait_gc st2) = (r3, st3)" by fastforce
  note find = assms(5)[unfolded find_segment_def Let_def, folded st0_def, unfolded t1]
  note a1 = attempt_consistent[OF c0 assms(2) t1]
  show ?thesis
  proof (cases r1)
    case (Some obj)
    then show ?thesis using find a1 by auto
  next
    case None1: None
    then have "consistent a U (wait_gc st1)" using a1 assms(4) by (simp add: keeps_def)
    note a2 = attempt_consistent[OF this assms(2) t2]
    show ?thesis
    proof (cases r2)
      case (Some obj)
      then show ?thesis using find None1 a2 t2 by auto
    next
      case None2: None
      then have "consistent a U (wait_gc st2)" using a2 assms(4) by (simp add: keeps_def)
      note a3 = attempt_consistent[OF this assms(2) t3]
      then show ?thesis using find None1 None2 t2 t3 by (cases r3) auto
    qed
  qed
qed

section \<open>Properties\<close>

text \<open>The size classes: an object that is not too large gets the smallest block size of at
  least 8 bytes that holds it together with its header, and an object is too large exactly when its
  payload exceeds 4092 bytes.\<close>

theorem alloc_subheap_smallest:
  "case alloc_subheap objsize of
     None \<Rightarrow> BLOCKSIZE_MAX < OBJ_HEADER_SIZE + objsize
   | Some i \<Rightarrow> i < NUM_SUBHEAPS
       \<and> OBJ_HEADER_SIZE + objsize \<le> blocksize_bytes (compute_segment_layout i)
       \<and> (\<forall>i' < i. blocksize_bytes (compute_segment_layout i') < OBJ_HEADER_SIZE + objsize)"
proof (cases "alloc_subheap objsize")
  case None
  then show ?thesis by (auto simp: alloc_subheap_def layout_simps split: if_splits)
next
  case (Some i)
  note f = alloc_subheap_fit[OF Some]
  have "blocksize_bytes (compute_segment_layout i') < OBJ_HEADER_SIZE + objsize" if "i' < i" for i'
  proof -
    have "(2 :: nat) ^ (i' + 3) \<le> 2 ^ (i + 2)" using that by (intro power_increasing) auto
    then show ?thesis using f(1,3) that blocksize_of[of i'] by simp
  qed
  then show ?thesis using Some f blocksize_of[OF f(1)] by simp
qed

theorem alloc_subheap_smallest_witness:
  "\<exists>i. alloc_subheap 100 = Some i \<and> OBJ_HEADER_SIZE + 100 \<le> blocksize_bytes (compute_segment_layout i)
     \<and> (\<forall>i' < i. blocksize_bytes (compute_segment_layout i') < OBJ_HEADER_SIZE + 100)"
proof -
  obtain i where i: "alloc_subheap 100 = Some i" by (simp add: alloc_subheap_def layout_simps)
  show ?thesis using alloc_subheap_smallest[of 100] i by simp
qed

text \<open>C28.  \<open>sml_alloc_important\<close>, which may move segments between the lists of the worker and the
  pool, start new segments and fall back to larger blocks, never hands out a block that is in use: the
  block is not in \<open>U\<close>, is large enough, and afterwards the heap is consistent with it in use.  When it
  fails the heap is still consistent for \<open>U\<close>.\<close>

theorem sml_alloc_important_fresh:
  assumes "worker_inv U a hs st None"
  shows "case sml_alloc_important addr st objsize phase of
      (None, st') \<Rightarrow> worker_inv U a hs st' None
    | (Some (Small i (s, off)), st') \<Rightarrow> i < NUM_SUBHEAPS
        \<and> OBJ_HEADER_SIZE + objsize \<le> blocksize_bytes (compute_segment_layout i)
        \<and> (\<exists>j < num_blocks (compute_segment_layout i). off = block_addr (compute_segment_layout i) j
            \<and> (s, j) \<notin> U \<and> worker_inv (insert (s, j) U) a hs st' None)
    | (Some (Large addr'), st') \<Rightarrow> addr' = addr \<and> BLOCKSIZE_MAX < OBJ_HEADER_SIZE + objsize
        \<and> malloc_subheap (as_heap st') = addr # malloc_subheap (as_heap st)"
proof (cases "alloc_subheap objsize")
  case None
  then show ?thesis using alloc_subheap_smallest[of objsize]
    by (simp add: sml_alloc_important_def malloc_object_def Let_def)
next
  case (Some i)
  note f = alloc_subheap_fit[OF Some]
  obtain r st' where al: "alloc_important_from st i phase = (r, st')" by fastforce
  from alloc_important_from_inv[OF assms f(1) f(2) al]
  show ?thesis using Some al
    by (auto simp: sml_alloc_important_def fresh_object_def split: option.splits allocation.splits)
qed

definition sample_counts :: "nat \<Rightarrow> subheap_count" where
  "sample_counts = (\<lambda>_. \<lparr>threshold = 1, extension_room = 1\<rparr>)"

definition sample_memory :: memory where
  "sample_memory = \<lparr>mem_begin = 0, mem_count = 4, mem_alloced = 0\<rparr>"

definition sample_state :: alloc_state where
  "sample_state = initial_state sample_counts sample_memory 0"

lemma sample_state_inv: "worker_inv {} 0 (\<lambda>_. init_heap sample_counts) sample_state None"
  unfolding sample_state_def by (rule initial_inv) (simp add: sample_memory_def)

lemma sample_state_pool:
  "get_segment_from_pool (as_pool sample_state) zero_segments i p q = (Some 0,
     (as_pool sample_state)\<lparr>pool_memory := sample_memory\<lparr>mem_alloced := 1\<rparr>\<rparr>,
     update_segment zero_segments 0 (\<lambda>g. init_segment g i))"
  by (simp add: get_segment_from_pool_def sample_state_def initial_state_def init_segment_pool_def
      allocate_segment_def sample_memory_def Let_def)

lemma sample_state_succeeds: "fst (try_find_segment sample_state i p) \<noteq> None" if "i < NUM_SUBHEAPS"
proof -
  obtain r st' where t: "try_find_segment sample_state i p = (r, st')" by fastforce
  have f: "as_segs sample_state = zero_segments" "as_heap sample_state = init_heap sample_counts"
    by (simp_all add: sample_state_def initial_state_def)
  have "retire_current sample_state i p = sample_state"
    by (simp add: retire_current_def f init_heap_def init_alloc_ptr_def clear_alloc_ptr_def)
  moreover have "fst (take_segment sample_state i p) \<noteq> None"
    by (simp add: take_segment_def f init_heap_def sample_counts_def sample_state_pool)
  ultimately show ?thesis using try_find_segment_inv(2)[OF sample_state_inv that t] t by simp
qed

lemma sample_state_dummy:
  "with_ptr sample_state i (alloc_from_ptr (hp_ptr (as_heap sample_state) i) (as_segs sample_state))
     = (None, sample_state)"
proof -
  have "hp_ptr (as_heap sample_state) i = init_alloc_ptr (i + BLOCKSIZE_MIN_LOG2)"
    by (simp add: sample_state_def initial_state_def init_heap_def)
  then have "alloc_from_ptr (hp_ptr (as_heap sample_state) i) (as_segs sample_state)
      = (None, hp_ptr (as_heap sample_state) i)"
    by (simp add: init_alloc_ptr_def clear_alloc_ptr_def alloc_from_ptr_def ap_words_def BITPTR_TEST_def
        dummy_bitptr_def dummy_bitmap_def find_bitmap_def)
  then show ?thesis by simp
qed

theorem sml_alloc_important_fresh_witness:
  "worker_inv {} 0 (\<lambda>_. init_heap sample_counts) sample_state None
   \<and> (\<exists>i s off st'. sml_alloc_important 0 sample_state 100 MARK = (Some (Small i (s, off)), st')
        \<and> OBJ_HEADER_SIZE + 100 \<le> blocksize_bytes (compute_segment_layout i))"
proof -
  obtain i where i: "alloc_subheap 100 = Some i" by (simp add: alloc_subheap_def layout_simps)
  note f = alloc_subheap_fit[OF i]
  note dummy = sample_state_dummy[of i]
  obtain obj st' where "try_find_segment sample_state i MARK = (Some obj, st')"
    using sample_state_succeeds[OF f(1), of MARK] by (cases "try_find_segment sample_state i MARK") auto
  then have al: "sml_alloc_important 0 sample_state 100 MARK = (Some (Small i obj), st')"
    by (simp add: sml_alloc_important_def i alloc_important_from.simps[of sample_state i] dummy)
  show ?thesis
    using sml_alloc_important_fresh[OF sample_state_inv, where addr = 0 and objsize = 100 and phase = MARK]
      sample_state_inv
    by (cases obj) (auto simp: al)
qed

text \<open>C5.  \<open>sml_alloc\<close> with everything on its way -- the fast path, the bitmap search, up to three
  attempts with the collector running in between -- returns a block that is large enough and not in
  use, provided the collector keeps the heap consistent for the objects in use.  The objects that get
  a malloc segment are those that do not fit the largest block.\<close>

theorem sml_alloc_fresh:
  assumes "consistent a U st" "keeps a U check" "keeps a U wait_gc"
    and "sml_alloc check wait_gc flag addr st objsize = Some (obj, st')"
  shows "case obj of
      Small i (s, off) \<Rightarrow> OBJ_HEADER_SIZE + objsize \<le> blocksize_bytes (compute_segment_layout i)
        \<and> (\<exists>j < num_blocks (compute_segment_layout i). off = block_addr (compute_segment_layout i) j
             \<and> (s, j) \<notin> U \<and> consistent a (insert (s, j) U) st')
    | Large addr' \<Rightarrow> addr' = addr \<and> BLOCKSIZE_MAX < OBJ_HEADER_SIZE + objsize"
proof (cases "alloc_subheap objsize")
  case None
  then show ?thesis using assms(4) alloc_subheap_smallest[of objsize]
    by (auto simp: sml_alloc_def)
next
  case (Some i)
  note f = alloc_subheap_fit[OF Some]
  have sz: "OBJ_HEADER_SIZE + objsize \<le> blocksize_bytes (compute_segment_layout i)"
    using f(2) by (simp add: blocksize_of[OF f(1)])
  obtain hs where hs: "worker_inv U a hs st None" using assms(1) by (auto simp: consistent_def)
  obtain r st1 where p: "with_ptr st i (alloc_from_ptr (hp_ptr (as_heap st) i) (as_segs st)) = (r, st1)"
    by fastforce
  have "\<exists>o'. obj = Small i o' \<and> new_block a U i o' st'"
  proof (cases r)
    case (Some o')
    then have "new_block a U i o' st1"
      using alloc_from_ptr_inv[OF hs f(1) p] by (auto simp: new_block_def consistent_def)
    moreover have "obj = Small i o' \<and> st1 = st'"
      using assms(4) \<open>alloc_subheap objsize = Some i\<close> p Some by (auto simp: sml_alloc_def)
    ultimately show ?thesis by blast
  next
    case None
    then obtain o' where "find_segment check wait_gc flag st i = Some (o', st')" "obj = Small i o'"
      using assms(4) \<open>alloc_subheap objsize = Some i\<close> p by (auto simp: sml_alloc_def)
    then show ?thesis using find_segment_consistent[OF assms(1) f(1) assms(2,3)] by blast
  qed
  then show ?thesis using sz by (auto simp: new_block_def)
qed

theorem sml_alloc_fresh_witness:
  "consistent 0 {} sample_state \<and> keeps 0 {} id
   \<and> (\<exists>i s off st'. sml_alloc id id False 0 sample_state 20 = Some (Small i (s, off), st')
        \<and> OBJ_HEADER_SIZE + 20 \<le> blocksize_bytes (compute_segment_layout i))"
proof -
  have c: "consistent 0 {} sample_state" using sample_state_inv by (auto simp: consistent_def)
  have k: "keeps 0 {} id" by (simp add: keeps_def)
  obtain i where i: "alloc_subheap 20 = Some i" by (simp add: alloc_subheap_def layout_simps)
  note f = alloc_subheap_fit[OF i]
  note dummy = sample_state_dummy[of i]
  obtain s off st' where "try_find_segment sample_state i (as_phase sample_state) = (Some (s, off), st')"
    using sample_state_succeeds[OF f(1), of "as_phase sample_state"]
    by (cases "try_find_segment sample_state i (as_phase sample_state)") auto
  then have al: "sml_alloc id id False 0 sample_state 20 = Some (Small i (s, off), st')"
    by (simp add: sml_alloc_def i dummy find_segment_def)
  show ?thesis using sml_alloc_fresh[OF c k k al] c k al by auto
qed

definition addr_range :: "nat \<times> nat \<Rightarrow> nat set" where
  "addr_range r = {fst r..<fst r + snd r}"

lemma gap_mod: "p AND (SEGMENT_SIZE - 1) = p mod SEGMENT_SIZE" for p :: nat
proof -
  have "SEGMENT_SIZE - 1 = mask 15" by (simp add: SEGMENT_SIZE_def mask_eq_exp_minus_1)
  then have "p AND (SEGMENT_SIZE - 1) = take_bit 15 p" by (simp add: take_bit_eq_mask)
  then show ?thesis by (simp add: SEGMENT_SIZE_def take_bit_eq_mod)
qed

text \<open>C29.  \<open>init_memory\<close> maps one segment more than asked for and releases the rest: what it keeps
  starts at a multiple of the segment size, lies inside the mapping, holds at least \<open>max_size\<close> bytes,
  and together with the released ranges it is exactly the mapping, without overlap.\<close>

theorem init_memory_partition:
  assumes "init_memory pagesize alloc_page max_size = Inr (mem, released)"
  shows "\<exists>p. alloc_page (CEILING max_size SEGMENT_SIZE + SEGMENT_SIZE) = Some p
     \<and> SEGMENT_SIZE dvd mem_begin mem \<and> max_size \<le> mem_count mem * SEGMENT_SIZE
     \<and> mem_alloced mem = 0
     \<and> addr_range (mem_begin mem, mem_count mem * SEGMENT_SIZE) \<union> \<Union> (set (map addr_range released))
        = addr_range (p, CEILING max_size SEGMENT_SIZE + SEGMENT_SIZE)
     \<and> (\<forall>r \<in> set released. addr_range (mem_begin mem, mem_count mem * SEGMENT_SIZE) \<inter> addr_range r = {})"
proof -
  let ?bytes = "CEILING max_size SEGMENT_SIZE"
  have S: "0 < SEGMENT_SIZE" by (simp add: SEGMENT_SIZE_def)
  obtain k where k: "?bytes = SEGMENT_SIZE * k" using CEILING_dvd by (rule dvdE)
  have ge: "max_size \<le> ?bytes" by (rule CEILING_ge[OF S])
  have div: "?bytes div SEGMENT_SIZE * SEGMENT_SIZE = ?bytes" by (simp add: k)
  obtain p where p: "alloc_page (?bytes + SEGMENT_SIZE) = Some p"
    using assms by (auto simp: init_memory_def Let_def split: if_splits option.splits)
  let ?g = "p mod SEGMENT_SIZE"
  have g: "?g < SEGMENT_SIZE" using S by simp
  show ?thesis
  proof (cases "?g = 0")
    case True
    then have "mem = \<lparr>mem_begin = p, mem_count = ?bytes div SEGMENT_SIZE, mem_alloced = 0\<rparr>"
      "released = [(p + ?bytes, SEGMENT_SIZE)]"
      using assms p unfolding init_memory_def Let_def gap_mod by (auto split: if_splits)
    then show ?thesis using p ge div True by (auto simp: addr_range_def dvd_eq_mod_eq_0)
  next
    case False
    then have m: "mem = \<lparr>mem_begin = p + (SEGMENT_SIZE - ?g), mem_count = ?bytes div SEGMENT_SIZE, mem_alloced = 0\<rparr>"
      "released = [(p, SEGMENT_SIZE - ?g), (p + (SEGMENT_SIZE - ?g) + ?bytes, ?g)]"
      using assms p unfolding init_memory_def Let_def gap_mod by (auto split: if_splits)
    have "p + (SEGMENT_SIZE - ?g) = SEGMENT_SIZE * (p div SEGMENT_SIZE) + SEGMENT_SIZE"
      using g by (metis (no_types, lifting) add.assoc le_add_diff_inverse less_imp_le mult_div_mod_eq)
    then have "SEGMENT_SIZE dvd p + (SEGMENT_SIZE - ?g)" by simp
    then show ?thesis using p ge div g unfolding m by (auto simp: addr_range_def)
  qed
qed

theorem init_memory_partition_witness:
  "\<exists>mem released. init_memory 4096 (\<lambda>_. Some 4096) 100000 = Inr (mem, released)
     \<and> SEGMENT_SIZE dvd mem_begin mem"
proof -
  obtain mem released where i: "init_memory 4096 (\<lambda>_. Some 4096) 100000 = Inr (mem, released)"
    by (cases "init_memory 4096 (\<lambda>_. Some 4096) 100000") (auto simp: init_memory_def Let_def layout_simps split: if_splits)
  show ?thesis using init_memory_partition[OF i] i by blast
qed

end
