(* ===== verification/Reclaim.thy ===== *)
theory Reclaim
  imports Pool
begin

unbundle bit_operations_syntax

text \<open>
  The end of a collection cycle and the life of a worker's heap
  (src/smlsharp/src/runtime/heap_concurrent.c): \<open>reclaim_subheap\<close>, \<open>reclaim_heap\<close>,
  \<open>reclaim_subpool\<close>, \<open>reclaim_segment_pool\<close>, \<open>reclaim_malloc_segments\<close>, the functions
  \<open>sml_heap_..._async\<close> that call them, and \<open>sml_heap_worker_init\<close>, \<open>sml_heap_worker_register\<close>,
  \<open>sml_heap_worker_kill\<close>.  The theorems say that reclamation keeps every object that is alive.
\<close>

section \<open>Reclaiming segments\<close>

text \<open>Where a loop of the reclamation puts a segment, and the statistics it gathers.\<close>

datatype fate = ToFree | ToPartial | ToFilled

record stat_reclaim =
  rs_num_partial :: nat
  rs_num_filled :: nat
  rs_num_blocks_free :: nat
  rs_num_blocks_alloced :: nat
  rs_num_blocks_room :: nat

definition stat_reclaim0 :: stat_reclaim where
  "stat_reclaim0 = \<lparr>rs_num_partial = 0, rs_num_filled = 0, rs_num_blocks_free = 0,
     rs_num_blocks_alloced = 0, rs_num_blocks_room = 0\<rparr>"

type_synonym reclaim_step = "segment \<Rightarrow> stat_reclaim \<Rightarrow> fate \<times> segment \<times> stat_reclaim"

fun reclaim_loop :: "reclaim_step \<Rightarrow> segments \<Rightarrow> nat list \<Rightarrow> stat_reclaim \<Rightarrow>
    segments \<times> (fate \<times> nat) list \<times> stat_reclaim" where
  "reclaim_loop step segs [] st = (segs, [], st)"
| "reclaim_loop step segs (s # ss) st =
     (case step (segs s) st of (f, seg, st1) \<Rightarrow>
        case reclaim_loop step (segs(s := seg)) ss st1 of (segs', fs, st') \<Rightarrow> (segs', (f, s) # fs, st'))"

definition pick :: "fate \<Rightarrow> (fate \<times> nat) list \<Rightarrow> nat list" where
  "pick f fs = map snd (filter (\<lambda>(g, s). g = f) fs)"

text \<open>The body of the loop over the partial segments in \<open>reclaim_subheap\<close>.\<close>

definition reclaim_partial_seg :: reclaim_step where
  "reclaim_partial_seg seg st =
     (let seg1 = seg_copy_collect seg; l = seg_the_layout seg;
          count = free_count l (seg_words seg1) None
      in if count = num_blocks l
         then (ToFree, seg1\<lparr>seg_free_count := count\<rparr>, st)
         else (ToPartial, seg_clear_collect (seg1\<lparr>seg_free_count := count\<rparr>),
               st\<lparr>rs_num_partial := rs_num_partial st + 1,
                  rs_num_blocks_free := rs_num_blocks_free st + count,
                  rs_num_blocks_room := rs_num_blocks_room st + seg_free_count seg\<rparr>))"

text \<open>The segment of the allocation pointer.\<close>

definition reclaim_current_seg :: "nat \<Rightarrow> segment \<Rightarrow> stat_reclaim \<Rightarrow> segment \<times> stat_reclaim" where
  "reclaim_current_seg p seg st =
     (let l = seg_the_layout seg;
          seg1 = (seg_clear_collect (seg_copy_collect seg))\<lparr>allocptr_snapshot := BLOCK_LIMIT l\<rparr>;
          count = free_count l (seg_words seg1) (Some p)
      in (seg1\<lparr>seg_free_count := count\<rparr>,
          st\<lparr>rs_num_blocks_free := rs_num_blocks_free st + count,
             rs_num_blocks_room := rs_num_blocks_room st + count,
             rs_num_blocks_alloced := rs_num_blocks_alloced st + object_index l p,
             rs_num_filled := rs_num_filled st + 1\<rparr>))"

text \<open>The body of the loop over the filled segments.\<close>

definition reclaim_filled_seg :: reclaim_step where
  "reclaim_filled_seg seg st0 =
     (let l = seg_the_layout seg;
          st = st0\<lparr>rs_num_blocks_alloced := rs_num_blocks_alloced st0 + seg_free_count seg\<rparr>;
          seg1 = seg_copy_collect seg;
          count = free_count l (seg_words seg1) None;
          seg2 = seg1\<lparr>seg_free_count := count\<rparr>
      in if allocptr_snapshot seg < BLOCK_LIMIT l \<or> count = 0
         then (ToFilled, (seg_clear_collect seg2)\<lparr>allocptr_snapshot := BLOCK_LIMIT l\<rparr>,
               st\<lparr>rs_num_filled := rs_num_filled st + 1\<rparr>)
         else if count = num_blocks l
         then (ToFree, seg2\<lparr>allocptr_snapshot := BLOCK_BASE l\<rparr>, st)
         else (ToPartial, (seg_clear_collect seg2)\<lparr>allocptr_snapshot := BLOCK_BASE l\<rparr>,
               st\<lparr>rs_num_partial := rs_num_partial st + 1,
                  rs_num_blocks_free := rs_num_blocks_free st + count\<rparr>))"

definition reclaim_subheap :: "heap \<Rightarrow> segments \<Rightarrow> nat \<Rightarrow> heap \<times> segments \<times> stat_reclaim" where
  "reclaim_subheap heap segs i =
     (let sh = hp_subheap heap i; ptr = hp_ptr heap i;
          st0 = stat_reclaim0
      in case reclaim_loop reclaim_partial_seg segs (sh_partial sh) st0 of (segs1, fs1, st1) \<Rightarrow>
         case (case ap_p ptr of
                 None \<Rightarrow> (segs1, st1)
               | Some p \<Rightarrow>
                   (case reclaim_current_seg p (segs1 (the (ap_seg ptr))) st1 of
                      (seg, st) \<Rightarrow> (segs1(the (ap_seg ptr) := seg), st))) of (segs2, st2) \<Rightarrow>
         case reclaim_loop reclaim_filled_seg segs2 (sh_filled sh) st2 of (segs3, fs3, st3) \<Rightarrow>
           (heap\<lparr>hp_subheap := (hp_subheap heap)(i :=
                   \<lparr>sh_filled = pick ToFilled fs3, sh_partial = pick ToPartial fs1 @ pick ToPartial fs3\<rparr>),
                 hp_freelist := hp_freelist heap @ pick ToFree fs1 @ pick ToFree fs3\<rparr>,
            segs3, st3))"

fun reclaim_subheaps :: "nat list \<Rightarrow> heap \<Rightarrow> segments \<Rightarrow> (nat \<Rightarrow> stat_reclaim) \<Rightarrow>
    heap \<times> segments \<times> (nat \<Rightarrow> stat_reclaim)" where
  "reclaim_subheaps [] heap segs stat = (heap, segs, stat)"
| "reclaim_subheaps (i # is) heap segs stat =
     (case reclaim_subheap heap segs i of (heap', segs', st) \<Rightarrow>
        reclaim_subheaps is heap' segs' (stat(i := st)))"

text \<open>Malloc segments are records by address; \<open>None\<close> is freed memory.\<close>

type_synonym malloc_mem = "nat \<Rightarrow> malloc_seg option"

fun reclaim_malloc_segments :: "malloc_mem \<Rightarrow> nat list \<Rightarrow> malloc_mem \<times> nat list" where
  "reclaim_malloc_segments mem [] = (mem, [])"
| "reclaim_malloc_segments mem (m # ms) =
     (let mseg = the (mem m) in
      if \<not> ms_bit mseg \<or> ms_collect_bit mseg \<noteq> 0
      then (case reclaim_malloc_segments
                (mem(m := Some (mseg\<lparr>ms_bit := True, ms_collect_bit := 0\<rparr>))) ms of
              (mem', kept) \<Rightarrow> (mem', m # kept))
      else reclaim_malloc_segments (mem(m := None)) ms)"

text \<open>
  \<open>reclaim_heap\<close>.  The number of segments each subheap may be extended by and its collection
  threshold are computed in floating point from the statistics; \<open>policy\<close> is that computation, and
  what the code guarantees of its result -- both are at least 1 -- is applied here.
\<close>

type_synonym reclaim_policy = "(nat \<Rightarrow> stat_reclaim) \<Rightarrow> nat \<Rightarrow> nat \<times> int"

definition new_count :: "nat \<times> int \<Rightarrow> subheap_count" where
  "new_count p = (case p of (room, thr) \<Rightarrow>
     \<lparr>threshold = (if thr \<le> 0 then thr + 1 else thr), extension_room = (if room \<le> 0 then 1 else room)\<rparr>)"

definition reclaim_heap :: "reclaim_policy \<Rightarrow> heap \<Rightarrow> segment_pool \<Rightarrow> segments \<Rightarrow> malloc_mem \<Rightarrow>
    heap \<times> segment_pool \<times> segments \<times> malloc_mem" where
  "reclaim_heap policy heap pool segs mem =
     (let pool' = pool\<lparr>pool_freelist := hp_freelist heap @ pool_freelist pool\<rparr>;
          heap0 = heap\<lparr>hp_freelist := []\<rparr>
      in case reclaim_subheaps [0..<NUM_SUBHEAPS] heap0 segs (\<lambda>_. stat_reclaim0) of (heap1, segs1, stat) \<Rightarrow>
         case reclaim_malloc_segments mem (malloc_subheap heap1) of (mem', kept) \<Rightarrow>
           (heap1\<lparr>malloc_subheap := kept,
                  hp_count := (\<lambda>i. if i < NUM_SUBHEAPS then new_count (policy stat i) else hp_count heap1 i)\<rparr>,
            pool', segs1, mem'))"

text \<open>\<open>reclaim_subpool\<close>: first the segments of \<open>partial_marked\<close>, pushed back one at a time, then the
  filled ones.\<close>

definition reclaim_marked_seg :: reclaim_step where
  "reclaim_marked_seg seg st =
     (let l = seg_the_layout seg;
          seg1 = (seg_copy_collect seg)\<lparr>allocptr_snapshot := BLOCK_BASE l\<rparr>;
          count = free_count l (seg_words seg1) None;
          seg2 = seg1\<lparr>seg_free_count := count\<rparr>
      in if count = num_blocks l then (ToFree, seg2, st) else (ToPartial, seg_clear_collect seg2, st))"

definition reclaim_pool_filled_seg :: reclaim_step where
  "reclaim_pool_filled_seg seg st =
     (let l = seg_the_layout seg;
          seg1 = (seg_copy_collect seg)\<lparr>allocptr_snapshot := BLOCK_BASE l\<rparr>;
          count = free_count l (seg_words seg1) None;
          seg2 = seg1\<lparr>seg_free_count := count\<rparr>
      in if count = 0 then (ToFilled, seg_clear_collect seg2, st)
         else if count = num_blocks l then (ToFree, seg2, st)
         else (ToPartial, seg_clear_collect seg2, st))"

definition reclaim_subpool :: "subpool \<Rightarrow> segments \<Rightarrow> nat list \<Rightarrow> subpool \<times> segments \<times> nat list" where
  "reclaim_subpool sp segs free =
     (let st0 = stat_reclaim0
      in case reclaim_loop reclaim_marked_seg segs (sp_partial_marked sp) st0 of (segs1, fs1, _) \<Rightarrow>
         case reclaim_loop reclaim_pool_filled_seg segs1 (sp_filled sp) st0 of (segs2, fs2, _) \<Rightarrow>
           (\<lparr>sp_filled = pick ToFilled fs2,
             sp_partial = pick ToPartial fs2 @ rev (pick ToPartial fs1) @ sp_partial sp,
             sp_partial_marked = []\<rparr>,
            segs2, free @ pick ToFree fs1 @ pick ToFree fs2))"

fun reclaim_subpools :: "nat list \<Rightarrow> (nat \<Rightarrow> subpool) \<Rightarrow> segments \<Rightarrow> nat list \<Rightarrow>
    (nat \<Rightarrow> subpool) \<times> segments \<times> nat list" where
  "reclaim_subpools [] sps segs free = (sps, segs, free)"
| "reclaim_subpools (i # is) sps segs free =
     (case reclaim_subpool (sps i) segs free of (sp, segs', free') \<Rightarrow>
        reclaim_subpools is (sps(i := sp)) segs' free')"

definition reclaim_segment_pool :: "segment_pool \<Rightarrow> segments \<Rightarrow> malloc_mem \<Rightarrow>
    segment_pool \<times> segments \<times> malloc_mem" where
  "reclaim_segment_pool pool segs mem =
     (case reclaim_subpools [0..<NUM_SUBHEAPS] (subpools pool) segs [] of (sps, segs', free) \<Rightarrow>
      case reclaim_malloc_segments mem (malloc_subpool pool) of (mem', kept) \<Rightarrow>
        (pool\<lparr>subpools := sps, pool_freelist := free @ pool_freelist pool, malloc_subpool := kept\<rparr>,
         segs', mem'))"

definition sml_heap_global_before_async :: "segment_pool \<Rightarrow> segment_pool" where
  "sml_heap_global_before_async pool =
     pool\<lparr>subpools := (\<lambda>i. if i < NUM_SUBHEAPS
        then (subpools pool i)\<lparr>sp_partial := [], sp_partial_marked := sp_partial (subpools pool i)\<rparr>
        else subpools pool i)\<rparr>"

section \<open>The life of a worker's heap\<close>

text \<open>The size of \<open>struct sml_alloc\<close> on LP64.\<close>

definition sizeof_sml_alloc :: nat where "sizeof_sml_alloc = 784"

definition sml_heap_worker_init :: "(nat \<Rightarrow> subheap_count) \<Rightarrow> nat \<Rightarrow> segment_pool \<Rightarrow> segments \<Rightarrow>
    sml_sync_phase \<Rightarrow> (heap \<times> obj_addr) option \<times> segment_pool \<times> segments" where
  "sml_heap_worker_init counts extra_allocsize pool segs current_phase =
     (let offset = CEILING extra_allocsize 8;
          allocsize = OBJ_HEADER_SIZE + offset + sizeof_sml_alloc;
          log2 = CEIL_LOG2 allocsize;
          i = log2 - BLOCKSIZE_MIN_LOG2
      in case get_segment_from_pool pool segs i DUMMY_PHASE current_phase of
           (None, pool', segs') \<Rightarrow> (None, pool', segs')
         | (Some s, pool', segs') \<Rightarrow>
             (case set_alloc_ptr (init_alloc_ptr log2) s DUMMY_PHASE segs' of (ptr, segs'') \<Rightarrow>
                case find_bitmap ptr segs'' of
                  (None, _) \<Rightarrow> (None, pool', segs'')
                | (Some memory, ptr') \<Rightarrow>
                    (Some ((init_heap counts)\<lparr>hp_ptr := (hp_ptr (init_heap counts))(i := ptr')\<rparr>, (s, memory)),
                     pool', segs'')))"

definition sml_heap_worker_register :: "heap \<Rightarrow> segments \<Rightarrow> sml_sync_phase \<Rightarrow> segments" where
  "sml_heap_worker_register heap segs phase =
     fold (\<lambda>i segs.
        let ptr = hp_ptr heap i; s = the (ap_seg ptr) in
        if ap_p ptr \<noteq> None \<and> ASYNC \<le> phase \<and> phase \<le> PRESYNC2
        then segs(s := (segs s)\<lparr>allocptr_snapshot := BLOCK_LIMIT (seg_the_layout (segs s))\<rparr>)
        else segs) [0..<NUM_SUBHEAPS] segs"

definition sml_heap_worker_kill :: "heap \<Rightarrow> segment_pool \<Rightarrow> heap \<times> segment_pool" where
  "sml_heap_worker_kill heap pool =
     (heap\<lparr>hp_subheap := (\<lambda>i. if i < NUM_SUBHEAPS then \<lparr>sh_filled = [], sh_partial = []\<rparr> else hp_subheap heap i),
           hp_ptr := (\<lambda>i. if i < NUM_SUBHEAPS then clear_alloc_ptr (hp_ptr heap i) else hp_ptr heap i)\<rparr>,
      pool\<lparr>subpools := (\<lambda>i. if i < NUM_SUBHEAPS then
              (subpools pool i)\<lparr>sp_filled := sh_filled (hp_subheap heap i)
                 @ (if ap_p (hp_ptr heap i) \<noteq> None then [the (ap_seg (hp_ptr heap i))] else [])
                 @ sh_partial (hp_subheap heap i) @ sp_filled (subpools pool i)\<rparr>
              else subpools pool i),
           malloc_subpool := malloc_subheap heap @ malloc_subpool pool,
           pool_freelist := hp_freelist heap @ pool_freelist pool\<rparr>)"

section \<open>One segment\<close>

text \<open>Every object in use is alive: marked in the cycle, or allocated after the snapshot.\<close>

definition objs_alive :: "(nat \<times> nat) set \<Rightarrow> segments \<Rightarrow> nat \<Rightarrow> nat \<Rightarrow> bool" where
  "objs_alive U segs i s \<longleftrightarrow> (let l = compute_segment_layout i; w = seg_words (segs s) in
     \<forall>k. (s, k) \<in> U \<longrightarrow> bit_at w (COLLECT_BITMAP_BASE l) k
        \<or> allocptr_snapshot (segs s) \<le> block_addr l k \<and> \<not> bit_at w (BITMAP_BASE l 0) k)"

lemma copy_facts:
  assumes "layout_ok l"
  shows "bitmap_wf l (copy_collect_bitmap l w)"
    and "k < num_blocks l \<Longrightarrow>
      bit_at (copy_collect_bitmap l w) (BITMAP_BASE l 0) k = bit_at w (COLLECT_BITMAP_BASE l) k"
    and "free_count l (copy_collect_bitmap l w) None
       = card {k. k < num_blocks l \<and> \<not> bit_at w (COLLECT_BITMAP_BASE l) k}"
proof -
  obtain g n where l: "l = layout_with g n" using assms by (rule layout_okE)
  have n: "num_blocks l = n" by (simp add: l layout_with_sel(3))
  show wf: "bitmap_wf l (copy_collect_bitmap l w)" unfolding l by (rule copy_collect_wf)
  have b: "bit_at (copy_collect_bitmap l w) (BITMAP_BASE l 0) k = bit_at w (COLLECT_BITMAP_BASE l) k"
    if "k < num_blocks l" for k
    using copy_collect_bits[where w = w and g = g, of k n] that
    by (simp add: n layout_bits(1)[OF assms] flip: l)
  then show "k < num_blocks l \<Longrightarrow>
      bit_at (copy_collect_bitmap l w) (BITMAP_BASE l 0) k = bit_at w (COLLECT_BITMAP_BASE l) k" .
  have "{k. is_free l (copy_collect_bitmap l w) k}
      = {k. k < num_blocks l \<and> \<not> bit_at w (COLLECT_BITMAP_BASE l) k}"
    using b by (auto simp: is_free_def)
  then show "free_count l (copy_collect_bitmap l w) None
      = card {k. k < num_blocks l \<and> \<not> bit_at w (COLLECT_BITMAP_BASE l) k}"
    by (simp add: free_count_None[OF assms wf])
qed

lemma card_all: "card {k. k < n \<and> P k} = n \<longleftrightarrow> (\<forall>k < n. P k)" for n :: nat
proof -
  have sub: "{k. k < n \<and> P k} \<subseteq> {..<n}" by auto
  have "card {k. k < n \<and> P k} = card {..<n} \<longleftrightarrow> {k. k < n \<and> P k} = {..<n}"
    using card_subset_eq[OF finite_lessThan sub] by metis
  then show ?thesis by auto
qed

lemma card_none: "card {k. k < n \<and> P k} = 0 \<longleftrightarrow> (\<forall>k < n. \<not> P k)" for n :: nat
  by auto

text \<open>A segment in which nothing was marked becomes blank.\<close>

lemma copied_blank:
  assumes "seg_in segs i s" "i < NUM_SUBHEAPS"
    "\<forall>k < num_blocks (compute_segment_layout i).
       \<not> bit_at (seg_words (segs s)) (COLLECT_BITMAP_BASE (compute_segment_layout i)) k"
    "seg_layout seg = seg_layout (segs s)"
    "seg_words seg = copy_collect_bitmap (compute_segment_layout i) (seg_words (segs s))"
    "allocptr_snapshot seg = BLOCK_BASE (compute_segment_layout i)"
    "seg_free_count seg = num_blocks (compute_segment_layout i)"
  shows "blank seg"
proof -
  let ?l = "compute_segment_layout i"
  have "\<not> bit_at (seg_words (segs s)) (COLLECT_BITMAP_BASE ?l) k" if "k < bits0_of (num_blocks ?l)" for k
    using assms(1,3) that unfolding seg_in_def Let_def by (meson not_le)
  then have "blank_words ?l (copy_collect_bitmap ?l (seg_words (segs s)))"
    by (rule copy_collect_blank[OF layout_of[OF assms(2)]])
  then show ?thesis
    using assms layout_of[OF assms(2)] by (simp add: blank_def seg_in_def Let_def)
qed

text \<open>A segment that is kept: its marked blocks are those of the collect bitmap.\<close>

lemma kept_segment:
  assumes "seg_in segs i s" "i < NUM_SUBHEAPS"
    "seg_layout (segs' s) = seg_layout (segs s)"
    "seg_words (segs' s) = clear_collect_bitmap (compute_segment_layout i)
       (copy_collect_bitmap (compute_segment_layout i) (seg_words (segs s)))"
  shows "seg_in segs' i s"
    and "k < num_blocks (compute_segment_layout i) \<Longrightarrow>
      bit_at (seg_words (segs' s)) (BITMAP_BASE (compute_segment_layout i) 0) k
      = bit_at (seg_words (segs s)) (COLLECT_BITMAP_BASE (compute_segment_layout i)) k"
    and "(\<exists>k < num_blocks (compute_segment_layout i).
        \<not> bit_at (seg_words (segs s)) (COLLECT_BITMAP_BASE (compute_segment_layout i)) k) \<Longrightarrow>
      allocptr_snapshot (segs' s) = BLOCK_BASE (compute_segment_layout i) \<Longrightarrow> seg_partial segs' i s"
proof -
  let ?l = "compute_segment_layout i" let ?w = "seg_words (segs s)"
  note ok = layout_of[OF assms(2)]
  note c = collected_bits[OF ok, of ?w] and cc = clear_collect_bits(1)[OF ok]
  show sin: "seg_in segs' i s"
    using assms c cc by (auto simp: seg_in_def Let_def)
  have b: "bit_at (seg_words (segs' s)) (BITMAP_BASE ?l 0) k = bit_at ?w (COLLECT_BITMAP_BASE ?l) k"
    if "k < num_blocks ?l" for k
    using c that unfolding assms(4) is_free_def by blast
  then show "k < num_blocks ?l \<Longrightarrow>
    bit_at (seg_words (segs' s)) (BITMAP_BASE ?l 0) k = bit_at ?w (COLLECT_BITMAP_BASE ?l) k" .
  assume "\<exists>k < num_blocks ?l. \<not> bit_at ?w (COLLECT_BITMAP_BASE ?l) k"
    "allocptr_snapshot (segs' s) = BLOCK_BASE ?l"
  moreover have "\<not> bit_at (seg_words (segs' s)) (COLLECT_BITMAP_BASE ?l) k" if "k < num_blocks ?l" for k
    using c that unfolding assms(4) by blast
  ultimately show "seg_partial segs' i s"
    using sin b by (auto simp: seg_partial_def Let_def is_free_def)
qed

section \<open>The loops\<close>

lemma reclaim_loop_pointwise:
  assumes "\<And>seg st. fst (step seg st) = F seg" "\<And>seg st. fst (snd (step seg st)) = G seg"
    and "distinct ss" "reclaim_loop step segs ss st = (segs', fs, st')"
  shows "segs' = (\<lambda>x. if x \<in> set ss then G (segs x) else segs x)"
    and "pick f fs = filter (\<lambda>s. F (segs s) = f) ss"
proof -
  have "segs' = (\<lambda>x. if x \<in> set ss then G (segs x) else segs x) \<and> fs = map (\<lambda>s. (F (segs s), s)) ss"
    using assms(3,4)
  proof (induction ss arbitrary: segs st segs' fs st')
    case Nil
    then show ?case by auto
  next
    case (Cons s ss)
    obtain g seg st1 where s: "step (segs s) st = (g, seg, st1)" by (metis prod_cases3)
    obtain sg fs1 st2 where r: "reclaim_loop step (segs(s := seg)) ss st1 = (sg, fs1, st2)" by (metis prod_cases3)
    have g: "g = F (segs s)" "seg = G (segs s)" using assms(1,2)[of "segs s" st] s by auto
    have "s \<notin> set ss" using Cons.prems(1) by simp
    moreover have "map (\<lambda>x. (F ((segs(s := seg)) x), x)) ss = map (\<lambda>x. (F (segs x), x)) ss"
      using \<open>s \<notin> set ss\<close> by auto
    ultimately show ?case
      using Cons.IH[OF _ r] Cons.prems s r g by auto
  qed
  then show "segs' = (\<lambda>x. if x \<in> set ss then G (segs x) else segs x)"
    and "pick f fs = filter (\<lambda>s. F (segs s) = f) ss"
    by (auto simp: pick_def filter_map comp_def)
qed

lemma located_merge:
  assumes L: "located C P n" and D: "\<And>loc. distinct (C' loc)"
    and M: "\<And>loc' s. s \<in> set (C' loc') \<longleftrightarrow> (\<exists>loc. s \<in> set (C loc) \<and> m loc s = loc')"
    and Q: "\<And>loc s. s \<in> set (C loc) \<Longrightarrow> P loc s \<Longrightarrow> Q (m loc s) s"
  shows "located C' Q n" "(\<Union>loc. set (C' loc)) = (\<Union>loc. set (C loc))"
proof -
  have U: "loc = loc'" if "s \<in> set (C loc)" "s \<in> set (C loc')" for s loc loc'
    using L that unfolding located_def by blast
  show "located C' Q n" unfolding located_def
  proof (intro conjI allI impI)
    fix loc1 loc2 s assume "s \<in> set (C' loc1) \<and> s \<in> set (C' loc2)"
    then show "loc1 = loc2" using M U by metis
  next
    fix loc s assume "s \<in> set (C' loc)"
    then obtain loc0 where "s \<in> set (C loc0)" "m loc0 s = loc" using M by blast
    then show "Q loc s" "s < n" using Q L unfolding located_def by blast+
  qed (rule D)
  show "(\<Union>loc. set (C' loc)) = (\<Union>loc. set (C loc))" using M by blast
qed

lemma seg_the_layout_upd [simp]:
  "seg_the_layout (seg\<lparr>seg_words := w\<rparr>) = seg_the_layout seg"
  "seg_the_layout (seg\<lparr>allocptr_snapshot := a\<rparr>) = seg_the_layout seg"
  "seg_the_layout (seg\<lparr>seg_free_count := c\<rparr>) = seg_the_layout seg"
  by (simp_all add: seg_the_layout_def)

text \<open>
  The four loop bodies.  When the objects of the segment are all in the collect bitmap, a segment
  sent to the free list holds none, and in a segment that is kept they are the marked blocks.
\<close>

definition fate_of :: "reclaim_step \<Rightarrow> segment \<Rightarrow> fate" where
  "fate_of step seg = fst (step seg stat_reclaim0)"

definition seg_of :: "reclaim_step \<Rightarrow> segment \<Rightarrow> segment" where
  "seg_of step seg = fst (snd (step seg stat_reclaim0))"

lemmas step_defs = reclaim_partial_seg_def reclaim_filled_seg_def reclaim_marked_seg_def
  reclaim_pool_filled_seg_def

datatype loop_kind = KPartial | KFilled | KMarked | KPoolFilled

fun step_of :: "loop_kind \<Rightarrow> reclaim_step" where
  "step_of KPartial = reclaim_partial_seg"
| "step_of KFilled = reclaim_filled_seg"
| "step_of KMarked = reclaim_marked_seg"
| "step_of KPoolFilled = reclaim_pool_filled_seg"

lemma step_pure:
  "fst (step_of q seg st) = fate_of (step_of q) seg" "fst (snd (step_of q seg st)) = seg_of (step_of q) seg"
  by (cases q; simp add: fate_of_def seg_of_def step_defs Let_def)+

lemma objs_collected_alive:
  assumes "objs_alive U segs i s"
  shows "objs_marked U segs i s \<Longrightarrow> objs_collected U segs i s"
    and "objs_covered U segs i s \<Longrightarrow> objs_collected U segs i s"
  using assms unfolding objs_alive_def objs_defs Let_def by (blast, meson not_le)

lemma block_below_limit:
  assumes "layout_ok l" "k < num_blocks l"
  shows "block_addr l k < BLOCK_LIMIT l"
proof -
  have "block_addr l j < block_addr l (Suc j)" for j
    using block_addr_eq(2)[OF assms(1), of j] assms(1)
    by (metis layout_okE layout_with_sel(2) less_add_same_cancel1 zero_less_numeral zero_less_power)
  then have "block_addr l k < block_addr l (num_blocks l)" using assms(2) by (rule lift_Suc_mono_less)
  then show ?thesis by (simp add: block_addr_eq(3)[OF assms(1)])
qed

lemma step_collected:
  assumes sin: "seg_in segs i s" and i: "i < NUM_SUBHEAPS"
    and U: "objs_valid U i s" "objs_collected U segs i s"
    and base: "q = KPartial \<or> q = KMarked \<Longrightarrow> seg_partial segs i s"
    and segs': "segs' s = seg_of (step_of q) (segs s)"
  shows "fate_of (step_of q) (segs s) = ToFree \<Longrightarrow> blank (segs' s) \<and> objs_none U s"
    and "fate_of (step_of q) (segs s) = ToPartial \<Longrightarrow>
       seg_partial segs' i s \<and> objs_marked U segs' i s"
    and "fate_of (step_of q) (segs s) = ToFilled \<Longrightarrow>
       seg_in segs' i s \<and> objs_covered U segs' i s"
proof -
  let ?l = "compute_segment_layout i" let ?w = "seg_words (segs s)"
  note ok = layout_of[OF i]
  have lay: "seg_the_layout (segs s) = ?l" using sin by (simp add: seg_in_def Let_def seg_the_layout_def)
  let ?c = "free_count ?l (copy_collect_bitmap ?l ?w) None"
  have full: "?c = num_blocks ?l \<longleftrightarrow> (\<forall>k < num_blocks ?l. \<not> bit_at ?w (COLLECT_BITMAP_BASE ?l) k)"
    unfolding copy_facts(3)[OF ok] by (rule card_all)
  have none: "?c = 0 \<longleftrightarrow> (\<forall>k < num_blocks ?l. bit_at ?w (COLLECT_BITMAP_BASE ?l) k)"
    unfolding copy_facts(3)[OF ok] by auto
  have pos: "0 < num_blocks ?l" using layout_bits(4)[OF ok] by simp
  have snap: "q = KPartial \<Longrightarrow> allocptr_snapshot (segs s) = BLOCK_BASE ?l"
    and room: "seg_partial segs i s \<Longrightarrow> ?c \<noteq> 0"
    using base none unfolding seg_partial_def Let_def is_free_def by auto
  have w: "seg_words (seg_of (step_of q) (segs s)) =
      (if fate_of (step_of q) (segs s) = ToFree then copy_collect_bitmap ?l ?w
       else clear_collect_bitmap ?l (copy_collect_bitmap ?l ?w))"
    "seg_layout (seg_of (step_of q) (segs s)) = seg_layout (segs s)"
    by (cases q; auto simp: seg_of_def fate_of_def step_defs Let_def lay seg_copy_collect_def
        seg_clear_collect_def)+
  show "blank (segs' s) \<and> objs_none U s" if f: "fate_of (step_of q) (segs s) = ToFree"
  proof -
    have c: "?c = num_blocks ?l"
      using f by (cases q) (auto simp: fate_of_def step_defs Let_def lay seg_copy_collect_def split: if_splits)
    have "allocptr_snapshot (segs' s) = BLOCK_BASE ?l \<and> seg_free_count (segs' s) = num_blocks ?l"
      using f c snap by (cases q) (auto simp: segs' fate_of_def seg_of_def step_defs Let_def lay
          seg_copy_collect_def split: if_splits)
    then have "blank (segs' s)"
      using copied_blank[OF sin i full[THEN iffD1, OF c]] w f by (simp add: segs')
    then show ?thesis using U full[THEN iffD1, OF c] by (auto simp: objs_defs)
  qed
  show "seg_partial segs' i s \<and> objs_marked U segs' i s"
    if f: "fate_of (step_of q) (segs s) = ToPartial"
  proof -
    have "?c \<noteq> 0"
    proof (cases "q = KPartial \<or> q = KMarked")
      case True then show ?thesis using room base by blast
    next
      case False
      then show ?thesis using f pos
        by (cases q) (auto simp: fate_of_def step_defs Let_def lay seg_copy_collect_def split: if_splits)
    qed
    then have ex: "\<exists>k < num_blocks ?l. \<not> bit_at ?w (COLLECT_BITMAP_BASE ?l) k" using none by metis
    have "allocptr_snapshot (segs' s) = BLOCK_BASE ?l"
      using f snap by (cases q) (auto simp: segs' fate_of_def seg_of_def step_defs Let_def lay
          seg_copy_collect_def seg_clear_collect_def split: if_splits)
    then show ?thesis
      using kept_segment[where segs' = segs', OF sin i] w f ex U by (auto simp: segs' objs_defs)
  qed
  show "seg_in segs' i s \<and> objs_covered U segs' i s" if f: "fate_of (step_of q) (segs s) = ToFilled"
    using kept_segment(1,2)[where segs' = segs', OF sin i] w f U by (auto simp: segs' objs_defs)
qed

text \<open>A filled segment of a worker may hold objects allocated after the snapshot: then it is kept.\<close>

lemma filled_step:
  assumes sin: "seg_in segs i s" and i: "i < NUM_SUBHEAPS"
    and U: "objs_valid U i s" "objs_alive U segs i s"
    and segs': "segs' s = seg_of reclaim_filled_seg (segs s)"
  shows "fate_of reclaim_filled_seg (segs s) = ToFree \<Longrightarrow> blank (segs' s) \<and> objs_none U s"
    and "fate_of reclaim_filled_seg (segs s) = ToPartial \<Longrightarrow>
       seg_partial segs' i s \<and> objs_marked U segs' i s"
    and "fate_of reclaim_filled_seg (segs s) = ToFilled \<Longrightarrow> seg_in segs' i s"
proof -
  let ?l = "compute_segment_layout i"
  have lay: "seg_the_layout (segs s) = ?l" using sin by (simp add: seg_in_def Let_def seg_the_layout_def)
  have col: "objs_collected U segs i s" if "fate_of reclaim_filled_seg (segs s) \<noteq> ToFilled"
  proof -
    have "BLOCK_LIMIT ?l \<le> allocptr_snapshot (segs s)"
      using that by (auto simp: fate_of_def reclaim_filled_seg_def Let_def lay split: if_splits)
    then have "block_addr ?l k < allocptr_snapshot (segs s)" if "k < num_blocks ?l" for k
      using block_below_limit[OF layout_of[OF i] that] by simp
    then show ?thesis using U unfolding objs_defs objs_alive_def Let_def by (meson not_le)
  qed
  note step = step_collected[where segs' = segs' and q = KFilled, OF sin i U(1), simplified, OF _ segs']
  show "fate_of reclaim_filled_seg (segs s) = ToFree \<Longrightarrow> blank (segs' s) \<and> objs_none U s"
    "fate_of reclaim_filled_seg (segs s) = ToPartial \<Longrightarrow> seg_partial segs' i s \<and> objs_marked U segs' i s"
    using step(1,2) col by (simp_all add: segs')
  assume f: "fate_of reclaim_filled_seg (segs s) = ToFilled"
  then have "seg_words (segs' s) = clear_collect_bitmap ?l (copy_collect_bitmap ?l (seg_words (segs s)))"
    "seg_layout (segs' s) = seg_layout (segs s)"
    using sin by (auto simp: segs' fate_of_def seg_of_def reclaim_filled_seg_def Let_def lay seg_copy_collect_def
        seg_clear_collect_def seg_the_layout_def seg_in_def split: if_splits)
  then show "seg_in segs' i s" using kept_segment(1)[where segs' = segs', OF sin i] by simp
qed

section \<open>Reclaiming a subheap\<close>

lemma contents_unique:
  assumes "heap_inv U asy hs pool segs hand"
  shows "distinct (contents hs pool hand loc)"
    and "s \<in> set (contents hs pool hand loc) \<Longrightarrow> s \<in> set (contents hs pool hand loc') \<Longrightarrow> loc = loc'"
  using assms unfolding heap_inv_def located_def by blast+

text \<open>The segments after the three loops, each changed by the step of the list it was in.\<close>

lemma reclaim_subheap_segs:
  assumes I: "heap_inv U asy (hs(a := heap)) pool segs None" and i: "i < NUM_SUBHEAPS"
    and r: "reclaim_subheap heap segs i = (heap', segs', st)"
  defines "P \<equiv> sh_partial (hp_subheap heap i)" and "F \<equiv> sh_filled (hp_subheap heap i)"
    and "cur \<equiv> contents (hs(a := heap)) pool None (Current a i)"
  shows "x \<in> set P \<Longrightarrow> segs' x = seg_of reclaim_partial_seg (segs x)"
    and "x \<in> set F \<Longrightarrow> segs' x = seg_of reclaim_filled_seg (segs x)"
    and "x \<in> set cur \<Longrightarrow>
       segs' x = fst (reclaim_current_seg (the (ap_p (hp_ptr heap i))) (segs x) stat_reclaim0)"
    and "x \<notin> set P \<Longrightarrow> x \<notin> set F \<Longrightarrow> x \<notin> set cur \<Longrightarrow> segs' x = segs x"
    and "hp_subheap heap' = (hp_subheap heap)(i :=
       \<lparr>sh_filled = filter (\<lambda>s. fate_of reclaim_filled_seg (segs s) = ToFilled) F,
        sh_partial = filter (\<lambda>s. fate_of reclaim_partial_seg (segs s) = ToPartial) P
          @ filter (\<lambda>s. fate_of reclaim_filled_seg (segs s) = ToPartial) F\<rparr>)"
    and "hp_freelist heap' = hp_freelist heap
       @ filter (\<lambda>s. fate_of reclaim_partial_seg (segs s) = ToFree) P
       @ filter (\<lambda>s. fate_of reclaim_filled_seg (segs s) = ToFree) F"
    and "hp_ptr heap' = hp_ptr heap" "malloc_subheap heap' = malloc_subheap heap"
proof -
  let ?hs = "hs(a := heap)" and ?ptr = "hp_ptr heap i"
  let ?C = "contents ?hs pool None"
  have d: "distinct P" "distinct F"
    using contents_unique(1)[OF I, of "Partial a i"] contents_unique(1)[OF I, of "Filled a i"]
    by (simp_all add: P_def F_def)
  have PF: "x \<notin> set F" if "x \<in> set P" for x
    using contents_unique(2)[OF I, of x "Partial a i" "Filled a i"] that by (auto simp: P_def F_def)
  have PC: "x \<notin> set cur" if "x \<in> set P" for x
    using contents_unique(2)[OF I, of x "Partial a i" "Current a i"] that by (auto simp: P_def cur_def)
  have FC: "x \<notin> set cur" if "x \<in> set F" for x
    using contents_unique(2)[OF I, of x "Filled a i" "Current a i"] that by (auto simp: F_def cur_def)
  have pok: "ptr_ok ?ptr i" using inv_parts(1)[OF I i, of a] by simp
  have cur: "cur = (case ap_seg ?ptr of None \<Rightarrow> [] | Some s \<Rightarrow> [s])" by (simp add: cur_def)
  obtain segs1 fs1 st1 where l1: "reclaim_loop reclaim_partial_seg segs P stat_reclaim0 = (segs1, fs1, st1)"
    by (metis prod_cases3)
  note L1 = reclaim_loop_pointwise[OF step_pure[of KPartial] d(1), simplified, OF l1]
  define c where "c = (case ap_p ?ptr of
                 None \<Rightarrow> (segs1, st1)
               | Some p \<Rightarrow>
                   (case reclaim_current_seg p (segs1 (the (ap_seg ?ptr))) st1 of
                      (seg, st) \<Rightarrow> (segs1(the (ap_seg ?ptr) := seg), st)))"
  obtain segs2 st2 where c2: "c = (segs2, st2)" by fastforce
  obtain segs3 fs3 st3 where l3: "reclaim_loop reclaim_filled_seg segs2 F st2 = (segs3, fs3, st3)"
    by (metis prod_cases3)
  note L3 = reclaim_loop_pointwise[OF step_pure[of KFilled] d(2), simplified, OF l3]
  have stp: "fst (reclaim_current_seg p seg st) = fst (reclaim_current_seg p seg st')" for p seg st st'
    by (simp add: reclaim_current_seg_def Let_def)
  have S2: "segs2 x = (if x \<in> set cur then fst (reclaim_current_seg (the (ap_p ?ptr)) (segs1 x) stat_reclaim0)
      else segs1 x)" for x
    using c2 pok
    by (auto simp: c_def cur ptr_ok_def stp[of _ _ stat_reclaim0 st1] split: option.splits prod.splits)
  have F2: "segs2 x = segs x" if "x \<in> set F" for x
    using that PF FC unfolding S2 L1(1) by auto
  have flt: "filter (\<lambda>s. fate_of reclaim_filled_seg (segs2 s) = f) F
      = filter (\<lambda>s. fate_of reclaim_filled_seg (segs s) = f) F" for f
    using F2 by (intro filter_cong) auto
  have res: "heap' = heap\<lparr>hp_subheap := (hp_subheap heap)(i :=
                   \<lparr>sh_filled = pick ToFilled fs3, sh_partial = pick ToPartial fs1 @ pick ToPartial fs3\<rparr>),
                 hp_freelist := hp_freelist heap @ pick ToFree fs1 @ pick ToFree fs3\<rparr>" "segs' = segs3"
    using r l1 l3 c2 by (auto simp: reclaim_subheap_def Let_def P_def F_def c_def)
  show "x \<in> set P \<Longrightarrow> segs' x = seg_of reclaim_partial_seg (segs x)"
    using PF PC unfolding res L3(1) S2 L1(1) by auto
  show "x \<in> set F \<Longrightarrow> segs' x = seg_of reclaim_filled_seg (segs x)"
    using F2 unfolding res L3(1) by simp
  show "x \<in> set cur \<Longrightarrow>
       segs' x = fst (reclaim_current_seg (the (ap_p (hp_ptr heap i))) (segs x) stat_reclaim0)"
    using FC PC unfolding res L3(1) S2 L1(1) by auto
  show "x \<notin> set P \<Longrightarrow> x \<notin> set F \<Longrightarrow> x \<notin> set cur \<Longrightarrow> segs' x = segs x"
    unfolding res L3(1) S2 L1(1) by auto
  show "hp_subheap heap' = (hp_subheap heap)(i :=
       \<lparr>sh_filled = filter (\<lambda>s. fate_of reclaim_filled_seg (segs s) = ToFilled) F,
        sh_partial = filter (\<lambda>s. fate_of reclaim_partial_seg (segs s) = ToPartial) P
          @ filter (\<lambda>s. fate_of reclaim_filled_seg (segs s) = ToPartial) F\<rparr>)"
    and "hp_freelist heap' = hp_freelist heap
       @ filter (\<lambda>s. fate_of reclaim_partial_seg (segs s) = ToFree) P
       @ filter (\<lambda>s. fate_of reclaim_filled_seg (segs s) = ToFree) F"
    and "hp_ptr heap' = hp_ptr heap" "malloc_subheap heap' = malloc_subheap heap"
    by (simp_all add: res L1(2) L3(2) flt)
qed

text \<open>Where a segment of the subheap goes.\<close>

fun reclaim_move :: "segments \<Rightarrow> nat \<Rightarrow> nat \<Rightarrow> location \<Rightarrow> nat \<Rightarrow> location" where
  "reclaim_move segs a i (Partial b j) s =
     (if b = a \<and> j = i then
        (if fate_of reclaim_partial_seg (segs s) = ToFree then LocalFree a else Partial a i)
      else Partial b j)"
| "reclaim_move segs a i (Filled b j) s =
     (if b = a \<and> j = i then
        (case fate_of reclaim_filled_seg (segs s) of
           ToFree \<Rightarrow> LocalFree a | ToPartial \<Rightarrow> Partial a i | ToFilled \<Rightarrow> Filled a i)
      else Filled b j)"
| "reclaim_move segs a i loc s = loc"

lemma partial_fates: "fate_of reclaim_partial_seg seg = ToFree \<or> fate_of reclaim_partial_seg seg = ToPartial"
  by (simp add: fate_of_def reclaim_partial_seg_def Let_def)

lemma reclaim_move_inv:
  "reclaim_move segs a i loc s = loc' \<Longrightarrow>
     loc' = loc \<or> (loc = Partial a i \<or> loc = Filled a i) \<and> (loc' = LocalFree a \<or> loc' = Partial a i)"
  by (cases loc) (auto split: if_splits fate.splits)

lemma reclaim_subheap_inv:
  assumes I: "heap_inv U asy (hs(a := heap)) pool segs None" and i: "i < NUM_SUBHEAPS"
    and A: "\<And>s loc. loc \<in> {Partial a i, Current a i, Filled a i} \<Longrightarrow>
        s \<in> set (contents (hs(a := heap)) pool None loc) \<Longrightarrow> objs_alive U segs i s"
    and r: "reclaim_subheap heap segs i = (heap', segs', st)"
  shows "heap_inv U asy (hs(a := heap')) pool segs' None"
    and "(\<Union>loc. set (contents (hs(a := heap')) pool None loc))
       = (\<Union>loc. set (contents (hs(a := heap)) pool None loc))"
proof -
  let ?hs = "hs(a := heap)" and ?hs' = "hs(a := heap')" and ?n = "mem_alloced (pool_memory pool)"
  let ?C = "contents ?hs pool None" and ?C' = "contents ?hs' pool None"
  let ?P = "sh_partial (hp_subheap heap i)" and ?F = "sh_filled (hp_subheap heap i)"
  note S = reclaim_subheap_segs[OF I i r]
  have cur: "?C (Current a i) = (case ap_seg (hp_ptr heap i) of None \<Rightarrow> [] | Some s \<Rightarrow> [s])" by simp
  note uniq = contents_unique[OF I]
  have L: "located ?C (loc_ok U asy segs ?hs) ?n" using I by (simp add: heap_inv_def)
  have other: "?C' loc = ?C loc" if "loc \<noteq> Partial a i" "loc \<noteq> Filled a i" "loc \<noteq> LocalFree a" for loc
    using that by (cases loc) (auto simp: S(5,7))
  have M: "s \<in> set (?C' loc') \<longleftrightarrow> (\<exists>loc. s \<in> set (?C loc) \<and> reclaim_move segs a i loc s = loc')" for loc' s
  proof -
    have p: "s \<in> set (?C' (Partial a i)) \<longleftrightarrow>
       s \<in> set ?P \<and> fate_of reclaim_partial_seg (segs s) = ToPartial
       \<or> s \<in> set ?F \<and> fate_of reclaim_filled_seg (segs s) = ToPartial" by (auto simp: S(5))
    have f: "s \<in> set (?C' (Filled a i)) \<longleftrightarrow> s \<in> set ?F \<and> fate_of reclaim_filled_seg (segs s) = ToFilled"
      by (auto simp: S(5))
    have l: "s \<in> set (?C' (LocalFree a)) \<longleftrightarrow> s \<in> set (hp_freelist heap)
       \<or> s \<in> set ?P \<and> fate_of reclaim_partial_seg (segs s) = ToFree
       \<or> s \<in> set ?F \<and> fate_of reclaim_filled_seg (segs s) = ToFree" by (auto simp: S(6))
    have src: "(\<exists>loc. s \<in> set (?C loc) \<and> reclaim_move segs a i loc s = loc') \<longleftrightarrow>
       s \<in> set (?C loc') \<and> reclaim_move segs a i loc' s = loc'
       \<or> s \<in> set ?P \<and> reclaim_move segs a i (Partial a i) s = loc'
       \<or> s \<in> set ?F \<and> reclaim_move segs a i (Filled a i) s = loc'"
    proof
      assume "\<exists>loc. s \<in> set (?C loc) \<and> reclaim_move segs a i loc s = loc'"
      then obtain loc where loc: "s \<in> set (?C loc)" "reclaim_move segs a i loc s = loc'" by blast
      from reclaim_move_inv[OF loc(2)] show "s \<in> set (?C loc') \<and> reclaim_move segs a i loc' s = loc'
       \<or> s \<in> set ?P \<and> reclaim_move segs a i (Partial a i) s = loc'
       \<or> s \<in> set ?F \<and> reclaim_move segs a i (Filled a i) s = loc'"
        using loc by (elim disjE conjE) auto
    next
      have "?C (Partial a i) = ?P" "?C (Filled a i) = ?F" by simp_all
      then show "s \<in> set (?C loc') \<and> reclaim_move segs a i loc' s = loc'
       \<or> s \<in> set ?P \<and> reclaim_move segs a i (Partial a i) s = loc'
       \<or> s \<in> set ?F \<and> reclaim_move segs a i (Filled a i) s = loc' \<Longrightarrow>
        \<exists>loc. s \<in> set (?C loc) \<and> reclaim_move segs a i loc s = loc'" by metis
    qed
    have pf: "\<not> (s \<in> set ?P \<and> s \<in> set ?F)" using uniq(2)[of s "Partial a i" "Filled a i"] by auto
    show ?thesis
    proof (cases "loc' = Partial a i \<or> loc' = Filled a i \<or> loc' = LocalFree a")
      case True
      then show ?thesis
        unfolding src using p f l partial_fates[of "segs s"]
        by (elim disjE) (auto split: fate.splits if_splits)
    next
      case False
      then have "reclaim_move segs a i loc' s = loc'" by (cases loc') auto
      moreover have "reclaim_move segs a i (Partial a i) s \<noteq> loc'" "reclaim_move segs a i (Filled a i) s \<noteq> loc'"
        using False by (auto split: fate.splits)
      ultimately show ?thesis unfolding src using other False by auto
    qed
  qed
  have D: "distinct (?C' loc)" for loc
  proof (cases "loc = Partial a i \<or> loc = Filled a i \<or> loc = LocalFree a")
    case True
    have d: "distinct ?P" "distinct ?F" "distinct (hp_freelist heap)"
      using uniq(1)[of "Partial a i"] uniq(1)[of "Filled a i"] uniq(1)[of "LocalFree a"] by simp_all
    have e: "set ?P \<inter> set ?F = {}" "set (hp_freelist heap) \<inter> (set ?P \<union> set ?F) = {}"
      using uniq(2)[of _ "Partial a i" "Filled a i"] uniq(2)[of _ "LocalFree a" "Filled a i"]
        uniq(2)[of _ "LocalFree a" "Partial a i"] by auto
    show ?thesis using True d e by (elim disjE) (auto simp: S(5,6))
  qed (use other uniq(1) in auto)
  have Q: "loc_ok U asy segs' ?hs' (reclaim_move segs a i loc s) s"
    if s: "s \<in> set (?C loc)" and ok: "loc_ok U asy segs ?hs loc s" for loc s
  proof -
    consider "loc = Partial a i" | "loc = Filled a i" | "loc = Current a i"
      | "loc \<noteq> Partial a i" "loc \<noteq> Filled a i" "loc \<noteq> Current a i" by blast
    then show ?thesis
    proof cases
      case 1
      then have al: "objs_alive U segs i s" and sp: "seg_partial segs i s" "objs_valid U i s" "objs_marked U segs i s"
        and e: "segs' s = seg_of reclaim_partial_seg (segs s)"
        using A[of "Partial a i" s] s ok S(1)[of s] by auto
      note col = objs_collected_alive(1)[OF al sp(3)]
      have sin: "seg_in segs i s" using sp(1) by (simp add: seg_partial_def Let_def)
      note st = step_collected[where segs' = segs' and q = KPartial, OF sin i sp(2) col, simplified, OF sp(1) e]
      show ?thesis using partial_fates[of "segs s"] st 1 sp(2) e by auto
    next
      case 2
      then have al: "objs_alive U segs i s" and sp: "seg_in segs i s" "objs_valid U i s"
        and e: "segs' s = seg_of reclaim_filled_seg (segs s)"
        using A[of "Filled a i" s] s ok S(2)[of s] by auto
      note st = filled_step[where segs' = segs', OF sp(1) i sp(2) al e]
      show ?thesis using st 2 sp(2) e by (cases "fate_of reclaim_filled_seg (segs s)") auto
    next
      case 3
      let ?l = "compute_segment_layout i" let ?w = "seg_words (segs s)"
      have al: "objs_alive U segs i s" using A[of "Current a i" s] s 3 by blast
      obtain k where k: "seg_in segs i s" "objs_valid U i s" "ap_at segs (hp_ptr heap i) s ?l k"
          "objs_before U segs i s k" using ok 3 by auto
      have e: "segs' s = fst (reclaim_current_seg (the (ap_p (hp_ptr heap i))) (segs s) stat_reclaim0)"
        using S(3)[of s] s 3 by simp
      have lay: "seg_the_layout (segs s) = ?l" using k(1) by (simp add: seg_in_def Let_def seg_the_layout_def)
      have w: "seg_words (segs' s) = clear_collect_bitmap ?l (copy_collect_bitmap ?l ?w)"
        "seg_layout (segs' s) = seg_layout (segs s)"
        by (simp_all add: e reclaim_current_seg_def Let_def seg_copy_collect_def seg_clear_collect_def lay)
      note kept = kept_segment[where segs' = segs', OF k(1) i w(2,1)]
      have "ap_at segs' (hp_ptr heap i) s ?l k"
        using k(3) kept(1) w(2) by (simp add: ap_at_def seg_in_def Let_def)
      moreover have "objs_before U segs' i s k"
        using k(2,4) al kept(2) unfolding objs_defs objs_alive_def Let_def by blast
      ultimately show ?thesis using 3 kept(1) k(2) by (auto simp: S(7))
    next
      case 4
      have ne: "reclaim_move segs a i loc s = loc" using 4 by (cases loc) auto
      have "s \<notin> set ?P" "s \<notin> set ?F" "s \<notin> set (?C (Current a i))"
        using uniq(2)[OF s, of "Partial a i"] uniq(2)[OF s, of "Filled a i"] uniq(2)[OF s, of "Current a i"] 4
        by auto
      then have "segs' s = segs s" using S(4) by blast
      moreover have "hp_ptr (?hs' b) j = hp_ptr (?hs b) j" for b j by (simp add: S(7))
      ultimately show ?thesis unfolding ne
        using loc_ok_other[where U = U and asy = asy and segs = segs and hs = ?hs, OF ok, of segs' ?hs'] by blast
    qed
  qed
  note merge = located_merge[where Q = "loc_ok U asy segs' ?hs'", OF L D M Q]
  show "(\<Union>loc. set (?C' loc)) = (\<Union>loc. set (?C loc))" by (rule merge(2))
  have "segs' x = segs x" if "?n \<le> x" for x
  proof (rule S(4))
    have nl: "x \<notin> set (?C loc)" for loc using inv_parts(3)[OF I] that by (meson not_le)
    show "x \<notin> set ?P" "x \<notin> set ?F" "x \<notin> set (?C (Current a i))"
      using nl[of "Partial a i"] nl[of "Filled a i"] nl[of "Current a i"] by auto
  qed
  moreover have "hp_ptr (?hs' b) = hp_ptr (?hs b)" for b by (simp add: S(7))
  ultimately show "heap_inv U asy ?hs' pool segs' None"
    using I merge(1) unfolding heap_inv_def by presburger
qed

definition worker_locs :: "nat \<Rightarrow> nat \<Rightarrow> location set" where
  "worker_locs a i = {Partial a i, Current a i, Filled a i}"

definition all_segments :: "(nat \<Rightarrow> heap) \<Rightarrow> segment_pool \<Rightarrow> nat set" where
  "all_segments hs pool = (\<Union>loc. set (contents hs pool None loc))"

lemma reclaim_subheaps_inv:
  assumes "heap_inv U asy (hs(a := heap)) pool segs None" "distinct is" "\<forall>i \<in> set is. i < NUM_SUBHEAPS"
    and "\<And>i s loc. i \<in> set is \<Longrightarrow> loc \<in> worker_locs a i \<Longrightarrow>
        s \<in> set (contents (hs(a := heap)) pool None loc) \<Longrightarrow> objs_alive U segs i s"
    and "reclaim_subheaps is heap segs stat = (heap', segs', stat')"
  shows "heap_inv U asy (hs(a := heap')) pool segs' None
     \<and> all_segments (hs(a := heap')) pool = all_segments (hs(a := heap)) pool
     \<and> malloc_subheap heap' = malloc_subheap heap"
  using assms
proof (induction "is" arbitrary: heap segs stat)
  case Nil
  then have "heap' = heap" "segs' = segs" by simp_all
  then show ?case using Nil.prems(1) by simp
next
  case (Cons i "is")
  obtain heap1 segs1 st where r: "reclaim_subheap heap segs i = (heap1, segs1, st)" by (metis prod_cases3)
  have i: "i < NUM_SUBHEAPS" and ni: "i \<notin> set is" using Cons.prems(2,3) by simp_all
  have A: "objs_alive U segs i s" if "loc \<in> {Partial a i, Current a i, Filled a i}"
    "s \<in> set (contents (hs(a := heap)) pool None loc)" for s loc
    by (rule Cons.prems(4)[of i loc s]) (use that in \<open>simp_all add: worker_locs_def del: fun_upd_apply\<close>)
  note I = Cons.prems(1)
  have R1: "heap_inv U asy (hs(a := heap1)) pool segs1 None"
    by (rule reclaim_subheap_inv(1)[OF I i _ r]) (rule A)
  have R2: "all_segments (hs(a := heap1)) pool = all_segments (hs(a := heap)) pool"
    unfolding all_segments_def by (rule reclaim_subheap_inv(2)[OF I i _ r]) (rule A)
  note S = reclaim_subheap_segs[OF I i r]
  have keep: "objs_alive U segs1 j s"
    if j: "j \<in> set is" and loc: "loc \<in> worker_locs a j"
      and s: "s \<in> set (contents (hs(a := heap1)) pool None loc)" for j s loc
  proof -
    have "j \<noteq> i" using j ni by blast
    then have s0: "s \<in> set (contents (hs(a := heap)) pool None loc)"
      using loc s by (auto simp: worker_locs_def S(5,7))
    have "loc \<noteq> Partial a i" "loc \<noteq> Filled a i" "loc \<noteq> Current a i"
      using loc \<open>j \<noteq> i\<close> by (auto simp: worker_locs_def)
    then have same: "segs1 s = segs s"
      using contents_unique(2)[OF I s0, of "Partial a i"] contents_unique(2)[OF I s0, of "Filled a i"]
        contents_unique(2)[OF I s0, of "Current a i"] by (intro S(4)) auto
    have "objs_alive U segs j s" by (rule Cons.prems(4)[OF _ loc s0]) (simp add: j)
    then show ?thesis using same by (simp add: objs_alive_def)
  qed
  have rest: "reclaim_subheaps is heap1 segs1 (stat(i := st)) = (heap', segs', stat')"
    using Cons.prems(5) r by simp
  have "heap_inv U asy (hs(a := heap')) pool segs' None
     \<and> all_segments (hs(a := heap')) pool = all_segments (hs(a := heap1)) pool
     \<and> malloc_subheap heap' = malloc_subheap heap1"
    by (rule Cons.IH[OF R1 _ _ _ rest]) (use Cons.prems(2,3) keep in \<open>simp_all del: fun_upd_apply\<close>)
  then show ?case unfolding R2 S(8) .
qed

text \<open>Malloc segments: those allocated before SYNC2 and not marked are freed, the others are kept and
  become subject to the next cycle.\<close>

definition malloc_alive :: "malloc_seg \<Rightarrow> bool" where
  "malloc_alive mseg \<longleftrightarrow> \<not> ms_bit mseg \<or> ms_collect_bit mseg \<noteq> 0"

lemma reclaim_malloc_segments_spec:
  assumes "distinct ms"
  shows "reclaim_malloc_segments mem ms =
    (\<lambda>m. if m \<notin> set ms then mem m
         else if malloc_alive (the (mem m)) then Some ((the (mem m))\<lparr>ms_bit := True, ms_collect_bit := 0\<rparr>)
         else None,
     filter (\<lambda>m. malloc_alive (the (mem m))) ms)"
  using assms
proof (induction ms arbitrary: mem)
  case (Cons m ms)
  have f: "filter (\<lambda>x. malloc_alive (the ((mem(m := v)) x))) ms = filter (\<lambda>x. malloc_alive (the (mem x))) ms" for v
    using Cons.prems by (intro filter_cong) auto
  have ih: "reclaim_malloc_segments (mem(m := v)) ms =
    (\<lambda>x. if x \<notin> set ms then (mem(m := v)) x
         else if malloc_alive (the ((mem(m := v)) x))
         then Some ((the ((mem(m := v)) x))\<lparr>ms_bit := True, ms_collect_bit := 0\<rparr>) else None,
     filter (\<lambda>x. malloc_alive (the (mem x))) ms)" for v
    using Cons.IH[of "mem(m := v)"] Cons.prems unfolding f by (simp del: fun_upd_apply)
  show ?case
    using Cons.prems by (auto simp: Let_def ih malloc_alive_def fun_eq_iff)
qed auto

section \<open>Reclaiming a worker's heap\<close>

lemma ex_move:
  "A \<noteq> B \<Longrightarrow> (\<exists>loc. P loc \<and> (if loc = A then B else loc) = loc') \<longleftrightarrow>
     loc' = B \<and> (P A \<or> P B) \<or> loc' \<noteq> A \<and> loc' \<noteq> B \<and> P loc'"
  by auto

lemma local_to_pool_inv:
  assumes I: "heap_inv U asy (hs(a := heap)) pool segs None"
  defines "pool' \<equiv> pool\<lparr>pool_freelist := hp_freelist heap @ pool_freelist pool\<rparr>"
    and "heap' \<equiv> heap\<lparr>hp_freelist := []\<rparr>"
  shows "heap_inv U asy (hs(a := heap')) pool' segs None"
    and "all_segments (hs(a := heap')) pool' = all_segments (hs(a := heap)) pool"
proof -
  let ?C = "contents (hs(a := heap)) pool None" and ?C' = "contents (hs(a := heap')) pool' None"
  let ?m = "\<lambda>loc (s :: nat). if loc = LocalFree a then PoolFree else loc"
  have L: "located ?C (loc_ok U asy segs (hs(a := heap))) (mem_alloced (pool_memory pool))"
    using I by (simp add: heap_inv_def)
  note uniq = contents_unique[OF I]
  have other: "?C' loc = ?C loc" if "loc \<noteq> LocalFree a" "loc \<noteq> PoolFree" for loc
    using that by (cases loc) (auto simp: heap'_def pool'_def)
  have two: "?C' (LocalFree a) = []" "?C' PoolFree = ?C (LocalFree a) @ ?C PoolFree"
    by (simp_all add: heap'_def pool'_def)
  have D: "distinct (?C' loc)" for loc
  proof (cases "loc = PoolFree")
    case True
    have "set (?C (LocalFree a)) \<inter> set (?C PoolFree) = {}" using uniq(2)[of _ "LocalFree a" PoolFree] by blast
    then show ?thesis
      unfolding True two using uniq(1)[of "LocalFree a"] uniq(1)[of PoolFree] by simp
  next
    case False
    then show ?thesis using other two(1) uniq(1) by (cases "loc = LocalFree a") simp_all
  qed
  have M: "s \<in> set (?C' loc') \<longleftrightarrow> (\<exists>loc. s \<in> set (?C loc) \<and> ?m loc s = loc')" for loc' s
  proof -
    have ne: "LocalFree a \<noteq> PoolFree" by simp
    show ?thesis
      unfolding ex_move[where P = "\<lambda>loc. s \<in> set (?C loc)", OF ne] using other[of loc'] two
      by (cases "loc' = LocalFree a"; cases "loc' = PoolFree") (simp_all del: contents.simps)
  qed
  have Q: "loc_ok U asy segs (hs(a := heap')) (?m loc s) s"
    if "s \<in> set (?C loc)" "loc_ok U asy segs (hs(a := heap)) loc s" for loc s
    using that(2) by (cases loc) (auto simp: heap'_def)
  note merge = located_merge[where Q = "loc_ok U asy segs (hs(a := heap'))" and m = ?m, OF L D M Q]
  show "all_segments (hs(a := heap')) pool' = all_segments (hs(a := heap)) pool"
    unfolding all_segments_def by (rule merge(2))
  have "hp_ptr ((hs(a := heap')) b) = hp_ptr ((hs(a := heap)) b)" for b by (simp add: heap'_def)
  moreover have "pool_memory pool' = pool_memory pool" by (simp add: pool'_def)
  ultimately show "heap_inv U asy (hs(a := heap')) pool' segs None"
    using I merge(1) unfolding heap_inv_def by presburger
qed

lemma heap_inv_malloc:
  "heap_inv U asy (hs(a := h)) pool segs None \<Longrightarrow>
   heap_inv U asy (hs(a := h\<lparr>malloc_subheap := m, hp_count := c\<rparr>)) pool segs None"
  by (rule heap_inv_spend) simp_all

lemma reclaim_heap_inv:
  assumes I: "heap_inv U asy (hs(a := heap)) pool segs None"
    and A: "\<And>i s loc. i < NUM_SUBHEAPS \<Longrightarrow> loc \<in> worker_locs a i \<Longrightarrow>
        s \<in> set (contents (hs(a := heap)) pool None loc) \<Longrightarrow> objs_alive U segs i s"
    and r: "reclaim_heap policy heap pool segs mem = (heap', pool', segs', mem')"
  shows "heap_inv U asy (hs(a := heap')) pool' segs' None"
    and "all_segments (hs(a := heap')) pool' = all_segments (hs(a := heap)) pool"
    and "reclaim_malloc_segments mem (malloc_subheap heap) = (mem', malloc_subheap heap')"
proof -
  let ?pool' = "pool\<lparr>pool_freelist := hp_freelist heap @ pool_freelist pool\<rparr>"
  let ?heap0 = "heap\<lparr>hp_freelist := []\<rparr>"
  note T = local_to_pool_inv[OF I]
  obtain heap1 segs1 stat where s: "reclaim_subheaps [0..<NUM_SUBHEAPS] ?heap0 segs (\<lambda>_. stat_reclaim0)
      = (heap1, segs1, stat)" by (metis prod_cases3)
  have A': "objs_alive U segs i x" if "i \<in> set [0..<NUM_SUBHEAPS]" "loc \<in> worker_locs a i"
    "x \<in> set (contents (hs(a := ?heap0)) ?pool' None loc)" for i x loc
    using A[of i loc x] that by (auto simp: worker_locs_def)
  have "heap_inv U asy (hs(a := heap1)) ?pool' segs1 None
    \<and> all_segments (hs(a := heap1)) ?pool' = all_segments (hs(a := ?heap0)) ?pool'
    \<and> malloc_subheap heap1 = malloc_subheap ?heap0"
    by (rule reclaim_subheaps_inv[OF T(1) _ _ _ s]) (simp_all add: A' del: fun_upd_apply)
  then have R: "heap_inv U asy (hs(a := heap1)) ?pool' segs1 None"
    "all_segments (hs(a := heap1)) ?pool' = all_segments (hs(a := ?heap0)) ?pool'"
    "malloc_subheap heap1 = malloc_subheap heap" by simp_all
  obtain mem1 kept where m: "reclaim_malloc_segments mem (malloc_subheap heap1) = (mem1, kept)" by fastforce
  define c where "c = (\<lambda>i. if i < NUM_SUBHEAPS then new_count (policy stat i) else hp_count heap1 i)"
  have res: "heap' = heap1\<lparr>malloc_subheap := kept, hp_count := c\<rparr>" "pool' = ?pool'" "segs' = segs1" "mem' = mem1"
    using r s m by (simp_all add: reclaim_heap_def Let_def c_def)
  show "heap_inv U asy (hs(a := heap')) pool' segs' None"
    unfolding res by (rule heap_inv_malloc[OF R(1)])
  have "contents (hs(a := heap')) pool' None loc = contents (hs(a := heap1)) pool' None loc" for loc
    by (cases loc) (auto simp: res)
  then show "all_segments (hs(a := heap')) pool' = all_segments (hs(a := heap)) pool"
    using R(2) T(2) by (simp add: all_segments_def res(2))
  show "reclaim_malloc_segments mem (malloc_subheap heap) = (mem', malloc_subheap heap')"
    using m R(3) by (simp add: res)
qed

section \<open>Reclaiming the pool\<close>

text \<open>While the subpools are reclaimed the free segments are collected in \<open>free\<close>; they are added to
  the pool's free list at the end.\<close>

definition pool_with :: "segment_pool \<Rightarrow> (nat \<Rightarrow> subpool) \<Rightarrow> nat list \<Rightarrow> segment_pool" where
  "pool_with pool sps free = pool\<lparr>subpools := sps, pool_freelist := free @ pool_freelist pool\<rparr>"

definition pool_locs :: "nat \<Rightarrow> location set" where
  "pool_locs i = {PoolMarked i, PoolFilled i}"

lemma reclaim_subpool_segs:
  assumes I: "heap_inv U asy hs (pool_with pool sps free) segs None"
    and r: "reclaim_subpool (sps i) segs free = (sp, segs', free')"
  defines "P \<equiv> sp_partial_marked (sps i)" and "F \<equiv> sp_filled (sps i)"
  shows "x \<in> set P \<Longrightarrow> segs' x = seg_of reclaim_marked_seg (segs x)"
    and "x \<in> set F \<Longrightarrow> segs' x = seg_of reclaim_pool_filled_seg (segs x)"
    and "x \<notin> set P \<Longrightarrow> x \<notin> set F \<Longrightarrow> segs' x = segs x"
    and "sp = \<lparr>sp_filled = filter (\<lambda>s. fate_of reclaim_pool_filled_seg (segs s) = ToFilled) F,
        sp_partial = filter (\<lambda>s. fate_of reclaim_pool_filled_seg (segs s) = ToPartial) F
          @ rev (filter (\<lambda>s. fate_of reclaim_marked_seg (segs s) = ToPartial) P) @ sp_partial (sps i),
        sp_partial_marked = []\<rparr>"
    and "free' = free @ filter (\<lambda>s. fate_of reclaim_marked_seg (segs s) = ToFree) P
       @ filter (\<lambda>s. fate_of reclaim_pool_filled_seg (segs s) = ToFree) F"
proof -
  let ?pool = "pool_with pool sps free"
  have d: "distinct P" "distinct F"
    using contents_unique(1)[OF I, of "PoolMarked i"] contents_unique(1)[OF I, of "PoolFilled i"]
    by (simp_all add: P_def F_def pool_with_def)
  have PF: "x \<notin> set F" if "x \<in> set P" for x
    using contents_unique(2)[OF I, of x "PoolMarked i" "PoolFilled i"] that
    by (auto simp: P_def F_def pool_with_def)
  obtain segs1 fs1 st1 where l1: "reclaim_loop reclaim_marked_seg segs P stat_reclaim0 = (segs1, fs1, st1)"
    by (metis prod_cases3)
  note L1 = reclaim_loop_pointwise[OF step_pure[of KMarked] d(1), simplified, OF l1]
  obtain segs3 fs3 st3 where l3: "reclaim_loop reclaim_pool_filled_seg segs1 F stat_reclaim0 = (segs3, fs3, st3)"
    by (metis prod_cases3)
  note L3 = reclaim_loop_pointwise[OF step_pure[of KPoolFilled] d(2), simplified, OF l3]
  have F2: "segs1 x = segs x" if "x \<in> set F" for x using that PF unfolding L1(1) by auto
  have flt: "filter (\<lambda>s. fate_of reclaim_pool_filled_seg (segs1 s) = f) F
      = filter (\<lambda>s. fate_of reclaim_pool_filled_seg (segs s) = f) F" for f
    using F2 by (intro filter_cong) auto
  have res: "sp = \<lparr>sp_filled = pick ToFilled fs3,
             sp_partial = pick ToPartial fs3 @ rev (pick ToPartial fs1) @ sp_partial (sps i),
             sp_partial_marked = []\<rparr>" "segs' = segs3" "free' = free @ pick ToFree fs1 @ pick ToFree fs3"
    using r l1 l3 by (auto simp: reclaim_subpool_def Let_def P_def F_def)
  show "x \<in> set P \<Longrightarrow> segs' x = seg_of reclaim_marked_seg (segs x)"
    using PF unfolding res L3(1) L1(1) by auto
  show "x \<in> set F \<Longrightarrow> segs' x = seg_of reclaim_pool_filled_seg (segs x)"
    using F2 unfolding res L3(1) by simp
  show "x \<notin> set P \<Longrightarrow> x \<notin> set F \<Longrightarrow> segs' x = segs x"
    unfolding res L3(1) L1(1) by auto
  show "sp = \<lparr>sp_filled = filter (\<lambda>s. fate_of reclaim_pool_filled_seg (segs s) = ToFilled) F,
        sp_partial = filter (\<lambda>s. fate_of reclaim_pool_filled_seg (segs s) = ToPartial) F
          @ rev (filter (\<lambda>s. fate_of reclaim_marked_seg (segs s) = ToPartial) P) @ sp_partial (sps i),
        sp_partial_marked = []\<rparr>"
    and "free' = free @ filter (\<lambda>s. fate_of reclaim_marked_seg (segs s) = ToFree) P
       @ filter (\<lambda>s. fate_of reclaim_pool_filled_seg (segs s) = ToFree) F"
    by (simp_all add: res L1(2) L3(2) flt)
qed

fun pool_move :: "segments \<Rightarrow> nat \<Rightarrow> location \<Rightarrow> nat \<Rightarrow> location" where
  "pool_move segs i (PoolMarked j) s =
     (if j = i then
        (if fate_of reclaim_marked_seg (segs s) = ToFree then PoolFree else PoolPartial i)
      else PoolMarked j)"
| "pool_move segs i (PoolFilled j) s =
     (if j = i then
        (case fate_of reclaim_pool_filled_seg (segs s) of
           ToFree \<Rightarrow> PoolFree | ToPartial \<Rightarrow> PoolPartial i | ToFilled \<Rightarrow> PoolFilled i)
      else PoolFilled j)"
| "pool_move segs i loc s = loc"

lemma marked_fates: "fate_of reclaim_marked_seg seg = ToFree \<or> fate_of reclaim_marked_seg seg = ToPartial"
  by (simp add: fate_of_def reclaim_marked_seg_def Let_def)

lemma pool_move_inv:
  "pool_move segs i loc s = loc' \<Longrightarrow>
     loc' = loc \<or> (loc = PoolMarked i \<or> loc = PoolFilled i) \<and> (loc' = PoolFree \<or> loc' = PoolPartial i)"
  by (cases loc) (auto split: if_splits fate.splits)

lemma reclaim_subpool_inv:
  assumes I: "heap_inv U asy hs (pool_with pool sps free) segs None" and i: "i < NUM_SUBHEAPS"
    and A: "\<And>s loc. loc \<in> pool_locs i \<Longrightarrow>
        s \<in> set (contents hs (pool_with pool sps free) None loc) \<Longrightarrow> objs_alive U segs i s"
    and r: "reclaim_subpool (sps i) segs free = (sp, segs', free')"
  shows "heap_inv U asy hs (pool_with pool (sps(i := sp)) free') segs' None"
    and "all_segments hs (pool_with pool (sps(i := sp)) free') = all_segments hs (pool_with pool sps free)"
proof -
  let ?pool = "pool_with pool sps free" and ?pool' = "pool_with pool (sps(i := sp)) free'"
  let ?n = "mem_alloced (pool_memory pool)"
  let ?C = "contents hs ?pool None" and ?C' = "contents hs ?pool' None"
  let ?P = "sp_partial_marked (sps i)" and ?F = "sp_filled (sps i)"
  have mem: "pool_memory ?pool = pool_memory pool" "pool_memory ?pool' = pool_memory pool"
    by (simp_all add: pool_with_def)
  note S = reclaim_subpool_segs[OF I r] and uniq = contents_unique[OF I]
  have L: "located ?C (loc_ok U asy segs hs) ?n" using I by (simp add: heap_inv_def mem)
  have cP: "?C (PoolMarked i) = ?P" "?C (PoolFilled i) = ?F" "?C (PoolPartial i) = sp_partial (sps i)"
    "?C PoolFree = free @ pool_freelist pool" by (simp_all add: pool_with_def)
  have other: "?C' loc = ?C loc" if "loc \<notin> {PoolMarked i, PoolFilled i, PoolPartial i, PoolFree}" for loc
    using that by (cases loc) (auto simp: pool_with_def)
  have m: "?C' (PoolMarked i) = []" by (simp add: pool_with_def S(4))
  have p: "?C' (PoolPartial i) = filter (\<lambda>s. fate_of reclaim_pool_filled_seg (segs s) = ToPartial) ?F
          @ rev (filter (\<lambda>s. fate_of reclaim_marked_seg (segs s) = ToPartial) ?P) @ ?C (PoolPartial i)"
    by (simp add: pool_with_def S(4))
  have f: "?C' (PoolFilled i) = filter (\<lambda>s. fate_of reclaim_pool_filled_seg (segs s) = ToFilled) ?F"
    by (simp add: pool_with_def S(4))
  have l: "?C' PoolFree = (free @ filter (\<lambda>s. fate_of reclaim_marked_seg (segs s) = ToFree) ?P
       @ filter (\<lambda>s. fate_of reclaim_pool_filled_seg (segs s) = ToFree) ?F) @ pool_freelist pool"
    by (simp add: pool_with_def S(5))
  have M: "s \<in> set (?C' loc') \<longleftrightarrow> (\<exists>loc. s \<in> set (?C loc) \<and> pool_move segs i loc s = loc')" for loc' s
  proof -
    have src: "(\<exists>loc. s \<in> set (?C loc) \<and> pool_move segs i loc s = loc') \<longleftrightarrow>
       s \<in> set (?C loc') \<and> pool_move segs i loc' s = loc'
       \<or> s \<in> set ?P \<and> pool_move segs i (PoolMarked i) s = loc'
       \<or> s \<in> set ?F \<and> pool_move segs i (PoolFilled i) s = loc'"
      using pool_move_inv cP(1,2) by metis
    show ?thesis
    proof (cases "loc' \<in> {PoolMarked i, PoolFilled i, PoolPartial i, PoolFree}")
      case True
      then consider "loc' = PoolMarked i" | "loc' = PoolFilled i" | "loc' = PoolPartial i" | "loc' = PoolFree"
        by blast
      then show ?thesis unfolding src
        by cases (use m p f l cP marked_fates[of "segs s"] in \<open>auto simp del: contents.simps split: fate.splits if_splits\<close>)
    next
      case False
      then have "pool_move segs i loc' s = loc'" by (cases loc') auto
      moreover have "pool_move segs i (PoolMarked i) s \<noteq> loc'" "pool_move segs i (PoolFilled i) s \<noteq> loc'"
        using False by (auto split: fate.splits)
      ultimately show ?thesis unfolding src using other[OF False] by metis
    qed
  qed
  have D: "distinct (?C' loc)" for loc
  proof (cases "loc \<in> {PoolMarked i, PoolFilled i, PoolPartial i, PoolFree}")
    case True
    have d: "distinct ?P" "distinct ?F" "distinct (?C (PoolPartial i))" "distinct (free @ pool_freelist pool)"
      using uniq(1)[of "PoolMarked i"] uniq(1)[of "PoolFilled i"] uniq(1)[of "PoolPartial i"] uniq(1)[of PoolFree]
      unfolding cP by simp_all
    have e: "set ?P \<inter> set ?F = {}" "set (?C (PoolPartial i)) \<inter> (set ?P \<union> set ?F) = {}"
      "set (free @ pool_freelist pool) \<inter> (set ?P \<union> set ?F) = {}"
      using uniq(2)[of _ "PoolMarked i" "PoolFilled i"] uniq(2)[of _ "PoolPartial i" "PoolFilled i"]
        uniq(2)[of _ "PoolPartial i" "PoolMarked i"] uniq(2)[of _ PoolFree "PoolFilled i"]
        uniq(2)[of _ PoolFree "PoolMarked i"] unfolding cP by blast+
    from True consider "loc = PoolMarked i" | "loc = PoolFilled i" | "loc = PoolPartial i" | "loc = PoolFree"
      by blast
    then show ?thesis
      by cases (use m p f l d e in \<open>auto simp del: contents.simps\<close>)
  next
    case False
    then show ?thesis using other[OF False] uniq(1) by metis
  qed
  have Q: "loc_ok U asy segs' hs (pool_move segs i loc s) s"
    if s: "s \<in> set (?C loc)" and ok: "loc_ok U asy segs hs loc s" for loc s
  proof -
    consider "loc = PoolMarked i" | "loc = PoolFilled i" | "loc \<noteq> PoolMarked i" "loc \<noteq> PoolFilled i" by blast
    then show ?thesis
    proof cases
      case 1
      have al: "objs_alive U segs i s" by (rule A[OF _ s]) (simp add: 1 pool_locs_def)
      have sp: "seg_partial segs i s" "objs_valid U i s" "objs_marked U segs i s" using ok 1 by simp_all
      have e: "segs' s = seg_of reclaim_marked_seg (segs s)" using S(1) s 1 cP(1) by metis
      note col = objs_collected_alive(1)[OF al sp(3)]
      have sin: "seg_in segs i s" using sp(1) by (simp add: seg_partial_def Let_def)
      note st = step_collected[where segs' = segs' and q = KMarked, OF sin i sp(2) col, simplified, OF sp(1) e]
      show ?thesis using marked_fates[of "segs s"] st 1 sp(2) e by auto
    next
      case 2
      have al: "objs_alive U segs i s" by (rule A[OF _ s]) (simp add: 2 pool_locs_def)
      have sp: "seg_in segs i s" "objs_valid U i s" "objs_covered U segs i s" using ok 2 by simp_all
      have e: "segs' s = seg_of reclaim_pool_filled_seg (segs s)" using S(2) s 2 cP(2) by metis
      note col = objs_collected_alive(2)[OF al sp(3)]
      note st = step_collected[where segs' = segs' and q = KPoolFilled, OF sp(1) i sp(2) col, simplified, OF e]
      show ?thesis using st 2 sp(2) e by (cases "fate_of reclaim_pool_filled_seg (segs s)") auto
    next
      case 3
      have ne: "pool_move segs i loc s = loc" using 3 by (cases loc) auto
      have "s \<notin> set ?P" "s \<notin> set ?F"
        using uniq(2)[OF s, of "PoolMarked i"] uniq(2)[OF s, of "PoolFilled i"] 3 unfolding cP by blast+
      then have "segs' s = segs s" by (rule S(3))
      then show ?thesis unfolding ne
        using loc_ok_other[where U = U and asy = asy and segs = segs and hs = hs, OF ok, of segs' hs] by blast
    qed
  qed
  note merge = located_merge[where Q = "loc_ok U asy segs' hs", OF L D M Q]
  show "all_segments hs ?pool' = all_segments hs ?pool" unfolding all_segments_def by (rule merge(2))
  have "segs' x = segs x" if "?n \<le> x" for x
  proof (rule S(3))
    have nl: "x \<notin> set (?C loc)" for loc using inv_parts(3)[OF I] that by (metis mem(1) not_le)
    show "x \<notin> set ?P" "x \<notin> set ?F" using nl cP(1,2) by metis+
  qed
  then show "heap_inv U asy hs ?pool' segs' None"
    using I merge(1) unfolding heap_inv_def mem by simp
qed

lemma reclaim_subpools_inv:
  assumes "heap_inv U asy hs (pool_with pool sps free) segs None" "distinct is" "\<forall>i \<in> set is. i < NUM_SUBHEAPS"
    and "\<And>i s loc. i \<in> set is \<Longrightarrow> loc \<in> pool_locs i \<Longrightarrow>
        s \<in> set (contents hs (pool_with pool sps free) None loc) \<Longrightarrow> objs_alive U segs i s"
    and "reclaim_subpools is sps segs free = (sps', segs', free')"
  shows "heap_inv U asy hs (pool_with pool sps' free') segs' None
     \<and> all_segments hs (pool_with pool sps' free') = all_segments hs (pool_with pool sps free)"
  using assms
proof (induction "is" arbitrary: sps segs free)
  case Nil
  then show ?case by simp
next
  case (Cons i "is")
  obtain sp segs1 free1 where r: "reclaim_subpool (sps i) segs free = (sp, segs1, free1)" by (metis prod_cases3)
  have i: "i < NUM_SUBHEAPS" and ni: "i \<notin> set is" using Cons.prems(2,3) by simp_all
  have A: "objs_alive U segs i s" if "loc \<in> pool_locs i"
    "s \<in> set (contents hs (pool_with pool sps free) None loc)" for s loc
    by (rule Cons.prems(4)[OF _ that]) simp
  note I = Cons.prems(1)
  let ?pool1 = "pool_with pool (sps(i := sp)) free1"
  have R1: "heap_inv U asy hs ?pool1 segs1 None"
    by (rule reclaim_subpool_inv(1)[OF I i _ r]) (rule A)
  have R2: "all_segments hs ?pool1 = all_segments hs (pool_with pool sps free)"
    by (rule reclaim_subpool_inv(2)[OF I i _ r]) (rule A)
  note S = reclaim_subpool_segs[OF I r]
  have keep: "objs_alive U segs1 j s"
    if j: "j \<in> set is" and loc: "loc \<in> pool_locs j" and s: "s \<in> set (contents hs ?pool1 None loc)" for j s loc
  proof -
    have "j \<noteq> i" using j ni by blast
    then have s0: "s \<in> set (contents hs (pool_with pool sps free) None loc)"
      using loc s by (auto simp: pool_locs_def pool_with_def)
    have "loc \<noteq> PoolMarked i" "loc \<noteq> PoolFilled i" using loc \<open>j \<noteq> i\<close> by (auto simp: pool_locs_def)
    then have "segs1 s = segs s"
      using contents_unique(2)[OF I s0, of "PoolMarked i"] contents_unique(2)[OF I s0, of "PoolFilled i"]
      by (intro S(3)) (auto simp: pool_with_def)
    moreover have "objs_alive U segs j s" by (rule Cons.prems(4)[OF _ loc s0]) (simp add: j)
    ultimately show ?thesis by (simp add: objs_alive_def)
  qed
  have rest: "reclaim_subpools is (sps(i := sp)) segs1 free1 = (sps', segs', free')"
    using Cons.prems(5) r by simp
  have "heap_inv U asy hs (pool_with pool sps' free') segs' None
     \<and> all_segments hs (pool_with pool sps' free') = all_segments hs ?pool1"
    by (rule Cons.IH[OF R1 _ _ _ rest]) (use Cons.prems(2,3) keep in \<open>simp_all del: fun_upd_apply\<close>)
  then show ?case unfolding R2 .
qed

lemma heap_inv_pool_malloc:
  "heap_inv U asy hs pool segs None \<Longrightarrow> heap_inv U asy hs (pool\<lparr>malloc_subpool := m\<rparr>) segs None"
proof -
  assume I: "heap_inv U asy hs pool segs None"
  have "contents hs (pool\<lparr>malloc_subpool := m\<rparr>) None = contents hs pool None"
    by (rule ext, rename_tac loc, case_tac loc) auto
  then show ?thesis using I by (simp add: heap_inv_def)
qed

lemma reclaim_segment_pool_inv:
  assumes I: "heap_inv U asy hs pool segs None"
    and A: "\<And>i s loc. i < NUM_SUBHEAPS \<Longrightarrow> loc \<in> pool_locs i \<Longrightarrow>
        s \<in> set (contents hs pool None loc) \<Longrightarrow> objs_alive U segs i s"
    and r: "reclaim_segment_pool pool segs mem = (pool', segs', mem')"
  shows "heap_inv U asy hs pool' segs' None" "all_segments hs pool' = all_segments hs pool"
    "reclaim_malloc_segments mem (malloc_subpool pool) = (mem', malloc_subpool pool')"
proof -
  obtain sps free segs1 where s: "reclaim_subpools [0..<NUM_SUBHEAPS] (subpools pool) segs []
      = (sps, segs1, free)" by (metis prod_cases3)
  obtain mem1 kept where m: "reclaim_malloc_segments mem (malloc_subpool pool) = (mem1, kept)" by fastforce
  have same: "pool_with pool (subpools pool) [] = pool" by (simp add: pool_with_def)
  have "heap_inv U asy hs (pool_with pool sps free) segs1 None
     \<and> all_segments hs (pool_with pool sps free) = all_segments hs (pool_with pool (subpools pool) [])"
    by (rule reclaim_subpools_inv[OF _ _ _ _ s]) (simp_all add: same I A)
  then have R: "heap_inv U asy hs (pool_with pool sps free) segs1 None"
    "all_segments hs (pool_with pool sps free) = all_segments hs pool" by (simp_all add: same)
  have res: "pool' = (pool_with pool sps free)\<lparr>malloc_subpool := kept\<rparr>" "segs' = segs1" "mem' = mem1"
    using r s m by (simp_all add: reclaim_segment_pool_def pool_with_def)
  show "heap_inv U asy hs pool' segs' None" unfolding res by (rule heap_inv_pool_malloc[OF R(1)])
  have "contents hs pool' None loc = contents hs (pool_with pool sps free) None loc" for loc
    by (cases loc) (auto simp: res)
  then show "all_segments hs pool' = all_segments hs pool" using R(2) by (simp add: all_segments_def)
  show "reclaim_malloc_segments mem (malloc_subpool pool) = (mem', malloc_subpool pool')"
    using m by (simp add: res)
qed

section \<open>Before the ASYNC phase\<close>

fun before_move :: "location \<Rightarrow> location" where
  "before_move (PoolPartial i) = (if i < NUM_SUBHEAPS then PoolMarked i else PoolPartial i)"
| "before_move loc = loc"

lemma before_async_inv:
  assumes I: "heap_inv U asy hs pool segs None"
    and empty: "\<And>i. sp_partial_marked (subpools pool i) = []"
    and A: "\<And>i s. i < NUM_SUBHEAPS \<Longrightarrow> s \<in> set (sp_partial (subpools pool i)) \<Longrightarrow> objs_alive U segs i s"
  shows "heap_inv U True hs (sml_heap_global_before_async pool) segs None"
    and "all_segments hs (sml_heap_global_before_async pool) = all_segments hs pool"
proof -
  let ?pool' = "sml_heap_global_before_async pool"
  let ?C = "contents hs pool None" and ?C' = "contents hs ?pool' None"
  have mem: "pool_memory ?pool' = pool_memory pool" by (simp add: sml_heap_global_before_async_def)
  note uniq = contents_unique[OF I]
  have L: "located ?C (loc_ok U asy segs hs) (mem_alloced (pool_memory pool))" using I by (simp add: heap_inv_def)
  have C': "?C' loc = (case loc of PoolPartial i \<Rightarrow> if i < NUM_SUBHEAPS then [] else ?C loc
      | PoolMarked i \<Rightarrow> if i < NUM_SUBHEAPS then ?C (PoolPartial i) else []
      | _ \<Rightarrow> ?C loc)" for loc
    by (cases loc) (simp_all add: sml_heap_global_before_async_def empty)
  have M: "s \<in> set (?C' loc') \<longleftrightarrow> (\<exists>loc. s \<in> set (?C loc) \<and> before_move loc = loc')" for loc' s
  proof
    assume s: "s \<in> set (?C' loc')"
    show "\<exists>loc. s \<in> set (?C loc) \<and> before_move loc = loc'"
    proof (cases "\<exists>i. loc' = PoolMarked i")
      case True
      then obtain i where i: "loc' = PoolMarked i" by blast
      have "s \<in> set (if i < NUM_SUBHEAPS then ?C (PoolPartial i) else [])" using s unfolding C' i by simp
      then have "i < NUM_SUBHEAPS" "s \<in> set (?C (PoolPartial i))" by (auto split: if_splits)
      then show ?thesis using i by (intro exI[of _ "PoolPartial i"]) simp
    next
      case False
      then have "s \<in> set (?C loc')" "before_move loc' = loc'"
        using s unfolding C' by (cases loc'; auto simp del: contents.simps split: if_splits)+
      then show ?thesis by blast
    qed
  next
    assume "\<exists>loc. s \<in> set (?C loc) \<and> before_move loc = loc'"
    then obtain loc where "s \<in> set (?C loc)" "before_move loc = loc'" by blast
    then show "s \<in> set (?C' loc')" using empty unfolding C' by (cases loc) (auto split: if_splits)
  qed
  have D: "distinct (?C' loc)" for loc
    using uniq(1) unfolding C' by (cases loc) (simp_all del: contents.simps)
  have Q: "loc_ok U True segs hs (before_move loc) s"
    if s: "s \<in> set (?C loc)" and ok: "loc_ok U asy segs hs loc s" for loc s
  proof (cases "(\<exists>i. loc = PoolPartial i) \<or> (\<exists>i. loc = PoolMarked i)")
    case True
    then obtain i where i: "loc = PoolPartial i" using s empty by auto
    then show ?thesis using ok A[of i s] s objs_collected_alive(1)[of U segs i s] by auto
  next
    case False
    then show ?thesis using ok by (cases loc) auto
  qed
  note merge = located_merge[where Q = "loc_ok U True segs hs" and m = "\<lambda>loc s. before_move loc", OF L D M Q]
  show "all_segments hs ?pool' = all_segments hs pool" unfolding all_segments_def by (rule merge(2))
  show "heap_inv U True hs ?pool' segs None" using I merge(1) unfolding heap_inv_def mem by simp
qed

text \<open>Objects that die leave a consistent heap.\<close>

lemma heap_inv_subset:
  assumes "heap_inv U asy hs pool segs hand" "U' \<subseteq> U"
  shows "heap_inv U' asy hs pool segs hand"
proof -
  have objs: "objs_valid U i s \<Longrightarrow> objs_valid U' i s" "objs_marked U segs i s \<Longrightarrow> objs_marked U' segs i s"
    "objs_collected U segs i s \<Longrightarrow> objs_collected U' segs i s" "objs_none U s \<Longrightarrow> objs_none U' s"
    "objs_before U segs i s k \<Longrightarrow> objs_before U' segs i s k" "objs_covered U segs i s \<Longrightarrow> objs_covered U' segs i s"
    for i s k using assms(2) by (auto simp: objs_defs)
  have "loc_ok U' asy segs hs loc s" if "loc_ok U asy segs hs loc s" for loc s
    using that by (cases loc) (auto intro: objs)
  then show ?thesis using assms(1) objs(4) unfolding heap_inv_def
    by (auto intro: located_mono)
qed

section \<open>The end of a worker\<close>

text \<open>
  A worker dies in the ASYNC phase, after its own reclamation: the snapshot of its filled and current
  segments is at their end.  Its segments become filled segments of the pool.
\<close>

fun kill_move :: "nat \<Rightarrow> location \<Rightarrow> location" where
  "kill_move a (Filled b i) = (if b = a \<and> i < NUM_SUBHEAPS then PoolFilled i else Filled b i)"
| "kill_move a (Current b i) = (if b = a \<and> i < NUM_SUBHEAPS then PoolFilled i else Current b i)"
| "kill_move a (Partial b i) = (if b = a \<and> i < NUM_SUBHEAPS then PoolFilled i else Partial b i)"
| "kill_move a (LocalFree b) = (if b = a then PoolFree else LocalFree b)"
| "kill_move a loc = loc"

lemma worker_kill_inv:
  assumes I: "heap_inv U asy (hs(a := heap)) pool segs None"
    and snap: "\<And>i s loc. i < NUM_SUBHEAPS \<Longrightarrow> loc \<in> {Filled a i, Current a i} \<Longrightarrow>
        s \<in> set (contents (hs(a := heap)) pool None loc) \<Longrightarrow>
        allocptr_snapshot (segs s) = BLOCK_LIMIT (compute_segment_layout i)"
    and r: "sml_heap_worker_kill heap pool = (heap', pool')"
  defines "dead \<equiv> heap'\<lparr>hp_freelist := []\<rparr>"
  shows "heap_inv U asy (hs(a := dead)) pool' segs None"
    and "all_segments (hs(a := dead)) pool' = all_segments (hs(a := heap)) pool"
proof -
  let ?hs = "hs(a := heap)" and ?hs' = "hs(a := dead)"
  let ?C = "contents ?hs pool None" and ?C' = "contents ?hs' pool' None"
  have mem: "pool_memory pool' = pool_memory pool" using r by (auto simp: sml_heap_worker_kill_def)
  note uniq = contents_unique[OF I]
  have L: "located ?C (loc_ok U asy segs ?hs) (mem_alloced (pool_memory pool))" using I by (simp add: heap_inv_def)
  have pok: "ptr_ok (hp_ptr heap i) i" if "i < NUM_SUBHEAPS" for i using inv_parts(1)[OF I that, of a] by simp
  have cur: "(if ap_p (hp_ptr heap i) \<noteq> None then [the (ap_seg (hp_ptr heap i))] else []) = ?C (Current a i)"
    if "i < NUM_SUBHEAPS" for i
    using pok[OF that] by (auto simp: ptr_ok_def split: option.splits)
  have C': "?C' loc = (case loc of
        Filled b i \<Rightarrow> if b = a \<and> i < NUM_SUBHEAPS then [] else ?C loc
      | Current b i \<Rightarrow> if b = a \<and> i < NUM_SUBHEAPS then [] else ?C loc
      | Partial b i \<Rightarrow> if b = a \<and> i < NUM_SUBHEAPS then [] else ?C loc
      | LocalFree b \<Rightarrow> if b = a then [] else ?C loc
      | PoolFilled i \<Rightarrow> if i < NUM_SUBHEAPS
          then ?C (Filled a i) @ ?C (Current a i) @ ?C (Partial a i) @ ?C loc else ?C loc
      | PoolFree \<Rightarrow> ?C (LocalFree a) @ ?C loc
      | _ \<Rightarrow> ?C loc)" for loc
    using r cur by (cases loc) (auto simp: sml_heap_worker_kill_def dead_def clear_alloc_ptr_def simp flip: cur)
  have M: "s \<in> set (?C' loc') \<longleftrightarrow> (\<exists>loc. s \<in> set (?C loc) \<and> kill_move a loc = loc')" for loc' s
  proof
    assume s: "s \<in> set (?C' loc')"
    show "\<exists>loc. s \<in> set (?C loc) \<and> kill_move a loc = loc'"
    proof (cases "s \<in> set (?C loc') \<and> kill_move a loc' = loc'")
      case True then show ?thesis by blast
    next
      case False
      then have "(\<exists>i. loc' = PoolFilled i \<and> i < NUM_SUBHEAPS
            \<and> s \<in> set (?C (Filled a i)) \<union> set (?C (Current a i)) \<union> set (?C (Partial a i)))
          \<or> loc' = PoolFree \<and> s \<in> set (?C (LocalFree a))"
        using s unfolding C' by (cases loc') (auto simp del: contents.simps split: if_splits)
      then show ?thesis
      proof (elim disjE exE conjE)
        fix i assume i: "loc' = PoolFilled i" "i < NUM_SUBHEAPS"
          "s \<in> set (?C (Filled a i)) \<union> set (?C (Current a i)) \<union> set (?C (Partial a i))"
        then consider "s \<in> set (?C (Filled a i))" | "s \<in> set (?C (Current a i))" | "s \<in> set (?C (Partial a i))"
          by blast
        moreover have "kill_move a (Filled a i) = loc'" "kill_move a (Current a i) = loc'"
          "kill_move a (Partial a i) = loc'" using i by simp_all
        ultimately show ?thesis by cases blast+
      next
        assume "loc' = PoolFree" "s \<in> set (?C (LocalFree a))"
        moreover have "kill_move a (LocalFree a) = PoolFree" by simp
        ultimately show ?thesis by blast
      qed
    qed
  next
    assume "\<exists>loc. s \<in> set (?C loc) \<and> kill_move a loc = loc'"
    then obtain loc where "s \<in> set (?C loc)" "kill_move a loc = loc'" by blast
    then show "s \<in> set (?C' loc')"
      unfolding C' by (cases loc) (auto simp del: contents.simps split: if_splits location.splits)
  qed
  have D: "distinct (?C' loc)" for loc
  proof (cases "\<exists>i. loc = PoolFilled i")
    case True
    then obtain i where i: "loc = PoolFilled i" by blast
    have "set (?C l1) \<inter> set (?C l2) = {}" if "l1 \<noteq> l2" for l1 l2 using uniq(2) that by blast
    from this[of "Filled a i" "Current a i"] this[of "Filled a i" "Partial a i"] this[of "Filled a i" "PoolFilled i"]
      this[of "Current a i" "Partial a i"] this[of "Current a i" "PoolFilled i"] this[of "Partial a i" "PoolFilled i"]
    show ?thesis unfolding C' i
      using uniq(1)[of "Filled a i"] uniq(1)[of "Current a i"] uniq(1)[of "Partial a i"] uniq(1)[of "PoolFilled i"]
      by (auto simp del: contents.simps)
  next
    case False
    have "set (?C (LocalFree a)) \<inter> set (?C PoolFree) = {}" using uniq(2)[of _ "LocalFree a" PoolFree] by blast
    then show ?thesis using False uniq(1) unfolding C'
      by (cases loc) (simp_all del: contents.simps)
  qed
  have Q: "loc_ok U asy segs ?hs' (kill_move a loc) s"
    if s: "s \<in> set (?C loc)" and ok: "loc_ok U asy segs ?hs loc s" for loc s
  proof -
    have same: "kill_move a loc = loc \<Longrightarrow> loc_ok U asy segs ?hs' loc s"
    proof -
      assume k: "kill_move a loc = loc"
      have "hp_ptr (?hs' b) j = hp_ptr (?hs b) j" if "loc = Current b j" for b j
        using k that r by (auto simp: dead_def sml_heap_worker_kill_def split: if_splits)
      then show ?thesis
        using loc_ok_other[where U = U and asy = asy and segs = segs and hs = ?hs, OF ok, of segs ?hs'] by blast
    qed
    have cov: "objs_covered U segs i s" if "allocptr_snapshot (segs s) = BLOCK_LIMIT (compute_segment_layout i)"
      "i < NUM_SUBHEAPS" "objs_valid U i s" for i
      using that block_below_limit[OF layout_of[OF that(2)]] by (auto simp: objs_defs)
    show ?thesis
    proof (cases "kill_move a loc = loc")
      case True then show ?thesis using same by simp
    next
      case False
      then consider (f) i where "loc = Filled a i" "i < NUM_SUBHEAPS" | (c) i where "loc = Current a i" "i < NUM_SUBHEAPS"
        | (p) i where "loc = Partial a i" "i < NUM_SUBHEAPS" | (l) "loc = LocalFree a"
        by (cases loc) (auto split: if_splits)
      then show ?thesis
      proof cases
        case f then show ?thesis using ok snap[OF f(2) _ s] cov[of i] by simp
      next
        case c then show ?thesis using ok snap[OF c(2) _ s] cov[of i] by auto
      next
        case p then show ?thesis using ok by (auto simp: seg_partial_def Let_def objs_defs)
      next
        case l then show ?thesis using ok by simp
      qed
    qed
  qed
  note merge = located_merge[where Q = "loc_ok U asy segs ?hs'" and m = "\<lambda>loc s. kill_move a loc", OF L D M Q]
  show "all_segments ?hs' pool' = all_segments ?hs pool" unfolding all_segments_def by (rule merge(2))
  have "ptr_ok (hp_ptr (?hs' b) i) i" if "i < NUM_SUBHEAPS" for b i
    using inv_parts(1)[OF I that, of b] pok[OF that] that r
    by (auto simp: dead_def sml_heap_worker_kill_def clear_alloc_ptr_def ptr_ok_def)
  then show "heap_inv U asy ?hs' pool' segs None" using I merge(1) unfolding heap_inv_def mem by simp
qed

section \<open>Properties\<close>

text \<open>C4.  Reclaiming a worker's heap at the end of a cycle frees no object that is alive.  Let \<open>V\<close>
  be the objects in use and \<open>U\<close> those of them that survive: in the segments of this worker, the marked
  ones and the ones allocated after the snapshot.  Afterwards the heap is consistent for \<open>U\<close> -- no
  later allocation can return one of their blocks -- no segment is lost, and of the malloc segments
  exactly those marked, or allocated after SYNC2, are still there.\<close>

theorem reclaim_heap_safe:
  assumes "heap_inv V asy (hs(a := heap)) pool segs None" "U \<subseteq> V"
    and "\<And>i s loc. i < NUM_SUBHEAPS \<Longrightarrow> loc \<in> {Partial a i, Current a i, Filled a i} \<Longrightarrow>
        s \<in> set (contents (hs(a := heap)) pool None loc) \<Longrightarrow> objs_alive U segs i s"
    and "distinct (malloc_subheap heap)"
    and "reclaim_heap policy heap pool segs mem = (heap', pool', segs', mem')"
  shows "heap_inv U asy (hs(a := heap')) pool' segs' None
     \<and> all_segments (hs(a := heap')) pool' = all_segments (hs(a := heap)) pool
     \<and> malloc_subheap heap' = filter (\<lambda>m. malloc_alive (the (mem m))) (malloc_subheap heap)
     \<and> (\<forall>m. mem' m = None \<longleftrightarrow> (if m \<in> set (malloc_subheap heap) then \<not> malloc_alive (the (mem m)) else mem m = None))"
proof -
  note I = heap_inv_subset[OF assms(1,2)]
  have A: "objs_alive U segs i s" if "i < NUM_SUBHEAPS" "loc \<in> worker_locs a i"
    "s \<in> set (contents (hs(a := heap)) pool None loc)" for i s loc
    by (rule assms(3)[OF that(1) _ that(3)]) (use that(2) in \<open>simp add: worker_locs_def\<close>)
  have "heap_inv U asy (hs(a := heap')) pool' segs' None"
    by (rule reclaim_heap_inv(1)[OF I _ assms(5)]) (rule A)
  moreover have "all_segments (hs(a := heap')) pool' = all_segments (hs(a := heap)) pool"
    by (rule reclaim_heap_inv(2)[OF I _ assms(5)]) (rule A)
  moreover have m: "reclaim_malloc_segments mem (malloc_subheap heap) = (mem', malloc_subheap heap')"
    by (rule reclaim_heap_inv(3)[OF I _ assms(5)]) (rule A)
  ultimately show ?thesis
    using m[unfolded reclaim_malloc_segments_spec[OF assms(4)]] by auto
qed

text \<open>
  A heap for the witnesses: segment 0 has room and segment 1 is filled, in each the blocks 0 and 1 are
  in use and the collector has marked block 0 only; of two malloc segments one is marked.  First the worker of
  \<open>worn_heap\<close> has the segments, then the pool.
\<close>

definition worn_segment :: "nat \<Rightarrow> segment" where
  "worn_segment snapshot = \<lparr>seg_layout = Some (compute_segment_layout 9),
     seg_words = (\<lambda>_. 0)(8 := 0xFFFFFF83, 9 := 0xFFFFFFFE, 10 := 1),
     allocptr_snapshot = snapshot, seg_free_count = 5\<rparr>"

definition worn_segments :: segments where
  "worn_segments = zero_segments(0 := worn_segment (BLOCK_BASE (compute_segment_layout 9)),
     1 := worn_segment (BLOCK_LIMIT (compute_segment_layout 9)))"

definition worn_heap :: heap where
  "worn_heap = (init_heap sample_counts)\<lparr>hp_subheap := (\<lambda>i. if i = 9 then \<lparr>sh_filled = [1], sh_partial = [0]\<rparr> else \<lparr>sh_filled = [], sh_partial = []\<rparr>),
     malloc_subheap := [512, 640]\<rparr>"

definition worn_pool :: segment_pool where
  "worn_pool = init_segment_pool (sample_memory\<lparr>mem_alloced := 2\<rparr>) 0"

definition worn_subpool :: segment_pool where
  "worn_subpool = worn_pool\<lparr>subpools := (\<lambda>i. if i = 9 then \<lparr>sp_filled = [1], sp_partial = [], sp_partial_marked = [0]\<rparr>
     else \<lparr>sp_filled = [], sp_partial = [], sp_partial_marked = []\<rparr>)\<rparr>"

lemma worn_layout:
  "BITMAP_BASE (compute_segment_layout 9) 0 = 8" "BITMAP_BASE (compute_segment_layout 9) (Suc 0) = 9"
  "COLLECT_BITMAP_BASE (compute_segment_layout 9) = 10" "num_blocks (compute_segment_layout 9) = 7"
  "bits0_of 7 = 32" "len1_of 7 = Suc 0" "bits1_of 7 = 32"
proof -
  have l: "compute_segment_layout 9 = layout_with 12 7"
    using compute_segment_layout_table[of 9] by (simp add: layout_simps num_blocks_table_def)
  show b: "bits0_of 7 = 32" using bits0_of_props(1-3)[of 7] by presburger
  then show e: "len1_of 7 = Suc 0" by (simp add: len1_of_def)
  then show c: "bits1_of 7 = 32" using bits1_of_props[of 7] by presburger
  show "BITMAP_BASE (compute_segment_layout 9) 0 = 8" "BITMAP_BASE (compute_segment_layout 9) (Suc 0) = 9"
    "COLLECT_BITMAP_BASE (compute_segment_layout 9) = 10" "num_blocks (compute_segment_layout 9) = 7"
    using word_offsets[of 12 7] by (simp_all add: l b c e layout_with_sel)
qed

lemma worn_bits:
  "k < 32 \<Longrightarrow> bit_at (seg_words (worn_segment p)) 8 k \<longleftrightarrow> k \<notin> {2..<7}"
  "k < 32 \<Longrightarrow> bit_at (seg_words (worn_segment p)) 9 k \<longleftrightarrow> 0 < k"
  "k < 32 \<Longrightarrow> bit_at (seg_words (worn_segment p)) 10 k \<longleftrightarrow> k = 0"
proof -
  have a: "list_all (\<lambda>k. bit_at (seg_words (worn_segment p)) 8 k \<longleftrightarrow> k \<notin> {2..<7}) [0..<32]"
   "list_all (\<lambda>k. bit_at (seg_words (worn_segment p)) 9 k \<longleftrightarrow> 0 < k) [0..<32]"
   "list_all (\<lambda>k. bit_at (seg_words (worn_segment p)) 10 k \<longleftrightarrow> k = 0) [0..<32]"
    by (simp_all add: upt_rec bit_at_def worn_segment_def)
  show  "k < 32 \<Longrightarrow> bit_at (seg_words (worn_segment p)) 8 k \<longleftrightarrow> k \<notin> {2..<7}"
   "k < 32 \<Longrightarrow> bit_at (seg_words (worn_segment p)) 9 k \<longleftrightarrow> 0 < k"
   "k < 32 \<Longrightarrow> bit_at (seg_words (worn_segment p)) 10 k \<longleftrightarrow> k = 0"
   using a unfolding list_all_iff by auto
qed

lemma worn_seg_in: "segs s = worn_segment p \<Longrightarrow> seg_in segs 9 s"
  using worn_bits[of _ p]
  by (auto simp: seg_in_def Let_def bitmap_wf_def worn_layout worn_segment_def)

lemma worn_partial: "segs s = worn_segment (BLOCK_BASE (compute_segment_layout 9)) \<Longrightarrow> seg_partial segs 9 s"
  using worn_bits[of _ "BLOCK_BASE (compute_segment_layout 9)"] worn_seg_in[of segs s]
  by (auto simp: seg_partial_def Let_def worn_layout is_free_def worn_segment_def intro!: exI[of _ 3])

definition worn_objects :: "(nat \<times> nat) set" where "worn_objects = {0, 1} \<times> {0, 1}"

lemma worn_world: "heap_inv worn_objects False ((\<lambda>_. init_heap sample_counts)(0 := worn_heap)) worn_pool worn_segments None"
proof -
  let ?hs = "(\<lambda>_. init_heap sample_counts)(0 := worn_heap)"
  have C: "contents ?hs worn_pool None loc = (if loc = Filled 0 9 then [1] else if loc = Partial 0 9 then [0] else [])" for loc
    by (cases loc) (simp_all add: worn_heap_def worn_pool_def init_heap_def init_segment_pool_def init_alloc_ptr_def clear_alloc_ptr_def)
  have p: "ptr_ok (hp_ptr worn_heap i) i" "ptr_ok (hp_ptr (init_heap sample_counts) i) i" for i
    by (simp_all add: worn_heap_def init_heap_def init_alloc_ptr_def clear_alloc_ptr_def ptr_ok_def push_bit_eq_mult layout_simps)
  have "seg_in worn_segments 9 1" "seg_partial worn_segments 9 0"
    by (auto intro!: worn_seg_in worn_partial simp: worn_segments_def)
  moreover have "objs_valid worn_objects 9 s" for s by (auto simp: objs_valid_def worn_objects_def worn_layout)
  moreover have "objs_marked worn_objects worn_segments 9 0"
    by (auto simp: objs_marked_def worn_objects_def worn_segments_def worn_layout worn_bits)
  moreover have "mem_alloced (pool_memory worn_pool) = 2" "mem_count (pool_memory worn_pool) = 4"
    by (simp_all add: worn_pool_def init_segment_pool_def sample_memory_def)
  moreover have "seg_layout (worn_segments s) = None \<and> blank (worn_segments s) \<and> objs_none worn_objects s" if "2 \<le> s" for s
    using that by (auto simp: worn_segments_def zero_segments_def blank_def objs_none_def worn_objects_def)
  ultimately show ?thesis using p by (auto simp: heap_inv_def located_def C)
qed

lemma worn_pool_world: "heap_inv worn_objects False (\<lambda>_. init_heap sample_counts) worn_subpool worn_segments None"
proof -
  let ?hs = "\<lambda>_. init_heap sample_counts"
  have C: "contents ?hs worn_subpool None loc = (if loc = PoolFilled 9 then [1] else if loc = PoolMarked 9 then [0] else [])" for loc
    by (cases loc) (simp_all add: worn_subpool_def worn_pool_def init_heap_def init_segment_pool_def init_alloc_ptr_def clear_alloc_ptr_def)
  have p: "ptr_ok (hp_ptr (?hs a) i) i" for a i
    by (simp add: init_heap_def init_alloc_ptr_def clear_alloc_ptr_def ptr_ok_def push_bit_eq_mult layout_simps)
  have "seg_in worn_segments 9 1" "seg_partial worn_segments 9 0"
    by (auto intro!: worn_seg_in worn_partial simp: worn_segments_def)
  moreover have "objs_valid worn_objects 9 s" for s by (auto simp: objs_valid_def worn_objects_def worn_layout)
  moreover have "objs_marked worn_objects worn_segments 9 0" "objs_covered worn_objects worn_segments 9 1"
    by (auto simp: objs_marked_def objs_covered_def worn_objects_def worn_segments_def worn_layout worn_bits)
  moreover have "mem_alloced (pool_memory worn_subpool) = 2" "mem_count (pool_memory worn_subpool) = 4"
    by (simp_all add: worn_subpool_def worn_pool_def init_segment_pool_def sample_memory_def)
  moreover have "seg_layout (worn_segments s) = None \<and> blank (worn_segments s) \<and> objs_none worn_objects s" if "2 \<le> s" for s
    using that by (auto simp: worn_segments_def zero_segments_def blank_def objs_none_def worn_objects_def)
  ultimately show ?thesis using p by (auto simp: heap_inv_def located_def C)
qed

definition worn_survivors :: "(nat \<times> nat) set" where "worn_survivors = {(0, 0), (1, 0)}"

lemma worn_alive: "s < 2 \<Longrightarrow> objs_alive worn_survivors worn_segments 9 s"
  by (auto simp: objs_alive_def worn_survivors_def worn_segments_def worn_layout worn_bits)

definition worn_malloc :: malloc_mem where
  "worn_malloc = [512 \<mapsto> \<lparr>ms_size = 100, ms_bit = True, ms_collect_bit = 1\<rparr>, 640 \<mapsto> \<lparr>ms_size = 100, ms_bit = True, ms_collect_bit = 0\<rparr>]"

lemma worn_subset: "worn_survivors \<subseteq> worn_objects" by (auto simp: worn_survivors_def worn_objects_def)

lemma worn_freed:
  assumes "step_of q (worn_segment p) st = (f, seg, st')"
  shows "is_free (compute_segment_layout 9) (seg_words seg) (Suc 0)"
proof -
  let ?l = "compute_segment_layout 9" and ?w = "seg_words (worn_segment p)"
  have i: "(9 :: nat) < NUM_SUBHEAPS" by (simp add: layout_simps)
  have c: "\<not> bit_at ?w (COLLECT_BITMAP_BASE ?l) 1" by (simp add: worn_layout worn_bits)
  have l: "seg_the_layout (worn_segment p) = ?l" by (simp add: worn_segment_def seg_the_layout_def)
  have "is_free ?l (copy_collect_bitmap ?l ?w) 1" "is_free ?l (clear_collect_bitmap ?l (copy_collect_bitmap ?l ?w)) 1"
    using copy_facts(2)[OF layout_of[OF i], of 1 ?w] collected_bits[OF layout_of[OF i], of ?w] c
    by (auto simp: is_free_def worn_layout)
  then show ?thesis
    using assms by (cases q) (auto simp: step_defs Let_def l seg_copy_collect_def seg_clear_collect_def split: if_splits)
qed

theorem reclaim_heap_safe_witness:
  "\<exists>heap' pool' segs' mem'. reclaim_heap (\<lambda>_ _. (0, 0)) worn_heap worn_pool worn_segments worn_malloc = (heap', pool', segs', mem')
     \<and> heap_inv {(0, 0), (1, 0)} False ((\<lambda>_. init_heap sample_counts)(0 := heap')) pool' segs' None
     \<and> (0, 1) \<in> worn_objects \<and> (1, 1) \<in> worn_objects
     \<and> (\<forall>s < 2. is_free (compute_segment_layout 9) (seg_words (segs' s)) 1) \<and> malloc_subheap heap' = [512] \<and> mem' 640 = None"
proof -
  obtain heap' pool' segs' mem' where r: "reclaim_heap (\<lambda>_ _. (0, 0)) worn_heap worn_pool worn_segments worn_malloc = (heap', pool', segs', mem')"
    by (metis prod_cases4)
  have f: "\<forall>s < 2. is_free (compute_segment_layout 9) (seg_words (segs' s)) 1"
    using r
    by (auto dest: worn_freed[of KPartial, simplified] worn_freed[of KFilled, simplified] simp: reclaim_heap_def reclaim_subheap_def layout_simps upt_rec worn_heap_def worn_segments_def less_Suc_eq numeral_2_eq_2
        init_heap_def init_alloc_ptr_def clear_alloc_ptr_def split: prod.splits)
  have m: "malloc_subheap worn_heap = [512, 640]" by (simp add: worn_heap_def)
  have al: "objs_alive worn_survivors worn_segments i s"
    if "i < NUM_SUBHEAPS" "loc \<in> {Partial 0 i, Current 0 i, Filled 0 i}"
      "s \<in> set (contents ((\<lambda>_. init_heap sample_counts)(0 := worn_heap)) worn_pool None loc)" for i s loc
    using that worn_alive[of s]
    by (auto simp: worn_heap_def init_heap_def init_alloc_ptr_def clear_alloc_ptr_def split: if_splits)
  note R = reclaim_heap_safe[where a = 0, OF worn_world worn_subset al _ r]
  show ?thesis using R f r by (auto simp: m worn_malloc_def malloc_alive_def worn_objects_def worn_survivors_def)
qed

text \<open>C8.  The same for the segment pool, whose \<open>partial_marked\<close> segments and filled segments are
  reclaimed by the last worker to respond: objects that are alive keep their blocks, no segment is
  lost, and \<open>partial_marked\<close> is empty afterwards.\<close>

theorem reclaim_segment_pool_safe:
  assumes "heap_inv V asy hs pool segs None" "U \<subseteq> V"
    and "\<And>i s loc. i < NUM_SUBHEAPS \<Longrightarrow> loc \<in> {PoolMarked i, PoolFilled i} \<Longrightarrow>
        s \<in> set (contents hs pool None loc) \<Longrightarrow> objs_alive U segs i s"
    and "reclaim_segment_pool pool segs mem = (pool', segs', mem')"
  shows "heap_inv U asy hs pool' segs' None \<and> all_segments hs pool' = all_segments hs pool
     \<and> (\<forall>i < NUM_SUBHEAPS. sp_partial_marked (subpools pool' i) = [])"
proof -
  note I = heap_inv_subset[OF assms(1,2)]
  have A: "objs_alive U segs i s" if "i < NUM_SUBHEAPS" "loc \<in> pool_locs i"
    "s \<in> set (contents hs pool None loc)" for i s loc
    by (rule assms(3)[OF that(1) _ that(3)]) (use that(2) in \<open>simp add: pool_locs_def\<close>)
  have "heap_inv U asy hs pool' segs' None"
    by (rule reclaim_segment_pool_inv(1)[OF I _ assms(4)]) (rule A)
  moreover have "all_segments hs pool' = all_segments hs pool"
    by (rule reclaim_segment_pool_inv(2)[OF I _ assms(4)]) (rule A)
  moreover have "sp_partial_marked (subpools pool' i) = []" if "i < NUM_SUBHEAPS" for i
  proof -
    have *: "reclaim_subpools is sps sg fr = (sps', sg', fr') \<Longrightarrow>
        (j \<in> set is \<longrightarrow> sp_partial_marked (sps' j) = [])
      \<and> (j \<notin> set is \<longrightarrow> sps' j = sps j)" for j "is" sps sg fr sps' sg' fr'
    proof (induction "is" arbitrary: sps sg fr)
      case (Cons i "is")
      obtain sp sg1 fr1 where r: "reclaim_subpool (sps i) sg fr = (sp, sg1, fr1)" by (metis prod_cases3)
      have "sp_partial_marked sp = []" using r by (auto simp: reclaim_subpool_def Let_def split: prod.splits)
      moreover have "reclaim_subpools is (sps(i := sp)) sg1 fr1 = (sps', sg', fr')"
        using Cons.prems r by simp
      note ih = Cons.IH[OF this]
      ultimately show ?case using ih by (cases "j = i"; cases "j \<in> set is") simp_all
    qed auto
    obtain sps sg fr where r: "reclaim_subpools [0..<NUM_SUBHEAPS] (subpools pool) segs [] = (sps, sg, fr)"
      by (metis prod_cases3)
    have "subpools pool' = sps"
      using assms(4) r by (auto simp: reclaim_segment_pool_def split: prod.splits)
    then show ?thesis using *[OF r, of i] that by simp
  qed
  ultimately show ?thesis by blast
qed

theorem reclaim_segment_pool_safe_witness:
  "\<exists>pool' segs' mem'. reclaim_segment_pool worn_subpool worn_segments (\<lambda>_. None) = (pool', segs', mem')
     \<and> heap_inv {(0, 0), (1, 0)} False (\<lambda>_. init_heap sample_counts) pool' segs' None
     \<and> (0, 1) \<in> worn_objects \<and> (1, 1) \<in> worn_objects
     \<and> (\<forall>s < 2. is_free (compute_segment_layout 9) (seg_words (segs' s)) 1)"
proof -
  obtain pool' segs' mem' where r: "reclaim_segment_pool worn_subpool worn_segments (\<lambda>_. None) = (pool', segs', mem')"
    by (metis prod_cases3)
  have f: "\<forall>s < 2. is_free (compute_segment_layout 9) (seg_words (segs' s)) 1"
    using r
    by (auto dest: worn_freed[of KMarked, simplified] worn_freed[of KPoolFilled, simplified] simp: reclaim_segment_pool_def reclaim_subpool_def layout_simps upt_rec worn_subpool_def worn_segments_def less_Suc_eq numeral_2_eq_2
        split: prod.splits)
  have al: "objs_alive worn_survivors worn_segments i s"
    if "i < NUM_SUBHEAPS" "loc \<in> {PoolMarked i, PoolFilled i}"
      "s \<in> set (contents (\<lambda>_. init_heap sample_counts) worn_subpool None loc)" for i s loc
    using that worn_alive[of s] by (auto simp: worn_subpool_def split: if_splits)
  show ?thesis using reclaim_segment_pool_safe[OF worn_pool_world worn_subset al r] f r
    by (auto simp: worn_objects_def worn_survivors_def)
qed

text \<open>\<open>sml_heap_global_before_async\<close> overwrites \<open>partial_marked\<close>; when that list is empty, as
  \<open>reclaim_segment_pool\<close> leaves it, no segment is lost and the segments it now holds may be taken by workers that are
  already in the ASYNC phase, which reset their bitmaps first: the objects alive are those of the
  collect bitmaps.\<close>

theorem before_async_safe:
  assumes "heap_inv V asy hs pool segs None" "U \<subseteq> V"
    and "\<And>i. sp_partial_marked (subpools pool i) = []"
    and "\<And>i s. i < NUM_SUBHEAPS \<Longrightarrow> s \<in> set (sp_partial (subpools pool i)) \<Longrightarrow> objs_alive U segs i s"
  shows "heap_inv U True hs (sml_heap_global_before_async pool) segs None
     \<and> all_segments hs (sml_heap_global_before_async pool) = all_segments hs pool"
  using before_async_inv[OF heap_inv_subset[OF assms(1,2)] assms(3)] assms(4) by blast

text \<open>C30.  \<open>sml_heap_worker_kill\<close> hands every segment of a dying worker to the pool.  When the worker
  dies as it does in the runtime, with the snapshots of its filled and current segments at their end,
  the pool's later reclamation still knows all its objects.\<close>

theorem worker_kill_safe:
  assumes "heap_inv U asy (hs(a := heap)) pool segs None"
    and "\<And>i s loc. i < NUM_SUBHEAPS \<Longrightarrow> loc \<in> {Filled a i, Current a i} \<Longrightarrow>
        s \<in> set (contents (hs(a := heap)) pool None loc) \<Longrightarrow>
        allocptr_snapshot (segs s) = BLOCK_LIMIT (compute_segment_layout i)"
    and "sml_heap_worker_kill heap pool = (heap', pool')"
  shows "heap_inv U asy (hs(a := heap'\<lparr>hp_freelist := []\<rparr>)) pool' segs None
     \<and> all_segments (hs(a := heap'\<lparr>hp_freelist := []\<rparr>)) pool' = all_segments (hs(a := heap)) pool
     \<and> (\<forall>i < NUM_SUBHEAPS. contents (hs(a := heap')) pool' None (Current a i) = []
          \<and> contents (hs(a := heap')) pool' None (Filled a i) = []
          \<and> contents (hs(a := heap')) pool' None (Partial a i) = [])"
proof -
  have "heap_inv U asy (hs(a := heap'\<lparr>hp_freelist := []\<rparr>)) pool' segs None"
    by (rule worker_kill_inv(1)[OF assms(1) _ assms(3)]) (rule assms(2))
  moreover have "all_segments (hs(a := heap'\<lparr>hp_freelist := []\<rparr>)) pool' = all_segments (hs(a := heap)) pool"
    by (rule worker_kill_inv(2)[OF assms(1) _ assms(3)]) (rule assms(2))
  moreover have "\<forall>i < NUM_SUBHEAPS. contents (hs(a := heap')) pool' None (Current a i) = []
          \<and> contents (hs(a := heap')) pool' None (Filled a i) = []
          \<and> contents (hs(a := heap')) pool' None (Partial a i) = []"
    using assms(3) by (auto simp: sml_heap_worker_kill_def clear_alloc_ptr_def)
  ultimately show ?thesis by blast
qed

theorem worker_kill_safe_witness:
  "\<exists>heap' pool'. sml_heap_worker_kill worn_heap worn_pool = (heap', pool')
     \<and> heap_inv worn_objects False ((\<lambda>_. init_heap sample_counts)(0 := heap'\<lparr>hp_freelist := []\<rparr>)) pool' worn_segments None
     \<and> sp_filled (subpools pool' 9) = [1, 0] \<and> (1, 1) \<in> worn_objects"
proof -
  obtain heap' pool' where r: "sml_heap_worker_kill worn_heap worn_pool = (heap', pool')" by fastforce
  have "heap_inv worn_objects False ((\<lambda>_. init_heap sample_counts)(0 := heap'\<lparr>hp_freelist := []\<rparr>)) pool' worn_segments None"
    by (rule worker_kill_safe[OF worn_world _ r, THEN conjunct1])
      (auto simp: worn_heap_def worn_segments_def worn_segment_def init_heap_def init_alloc_ptr_def clear_alloc_ptr_def split: if_splits)
  moreover have "sp_filled (subpools pool' 9) = [1, 0]"
    using r by (auto simp: sml_heap_worker_kill_def worn_heap_def worn_pool_def init_heap_def init_segment_pool_def
        init_alloc_ptr_def clear_alloc_ptr_def layout_simps)
  ultimately show ?thesis using r by (auto simp: worn_objects_def)
qed

end
