(* ===== verification/Trace.thy ===== *)
theory Trace
  imports Object Reclaim
begin

text \<open>
  Marking (the tracing and mutation parts of heap_concurrent.c).

  \<^item> \<open>gc_state\<close> is what marking reads and writes: object memory, segment headers and bitmaps, malloc
    segments by address, and the link words of the per-object stack slots.  Segment number \<open>s\<close>
    occupies the addresses from \<open>s * SEGMENT_SIZE\<close> up to the next segment.
  \<^item> Stacks of objects to be scanned are linked through the stack slots; \<open>stack_of\<close> relates the top of
    such a stack to the list of its objects.
  \<^item> An object is a \<open>target\<close> of the current cycle when it was allocated before the snapshot, and
    \<open>marked\<close> when its collect bit is set.
  \<^item> \<open>trace\<close> takes fuel; one more than the number of objects that are on the stack or can still be
    marked is enough.
  \<^item> The last part is the interleaving of scanning by any number of threads with writes of the mutator
    through the write barrier and with allocation; the locale \<open>tricolour\<close> states what such a marking
    system has to satisfy and what follows.
\<close>

section \<open>The state\<close>

datatype stack_slot = SegSlot nat nat | MallocSlot nat

record gc_state =
  gc_mem :: mem
  gc_segs :: segments
  gc_malloc :: malloc_mem
  gc_next :: "stack_slot \<Rightarrow> nat"

definition MALLOC_OBJECT_OFFSET :: nat where [layout_simps]: "MALLOC_OBJECT_OFFSET = 32"

definition OBJ_TO_MALLOC_SEGMENT :: "nat \<Rightarrow> nat" where
  "OBJ_TO_MALLOC_SEGMENT obj = obj - MALLOC_OBJECT_OFFSET"

definition MALLOC_SEGMENT_TO_OBJ :: "nat \<Rightarrow> nat" where
  "MALLOC_SEGMENT_TO_OBJ mseg = mseg + MALLOC_OBJECT_OFFSET"

definition MALLOC_SEGMENT_SIZE :: "mem \<Rightarrow> nat \<Rightarrow> nat" where
  "MALLOC_SEGMENT_SIZE m mseg = MALLOC_OBJECT_OFFSET + OBJ_TOTAL_SIZE m (MALLOC_SEGMENT_TO_OBJ mseg)
     - OBJ_HEADER_SIZE"

text \<open>The segment of an address, its offset there, and the index of its block.\<close>

definition segment_of :: "nat \<Rightarrow> nat" where "segment_of a = a div SEGMENT_SIZE"
definition offset_of :: "nat \<Rightarrow> nat" where "offset_of a = a mod SEGMENT_SIZE"

definition obj_seg :: "gc_state \<Rightarrow> nat \<Rightarrow> segment" where "obj_seg st obj = gc_segs st (segment_of obj)"

definition obj_index :: "gc_state \<Rightarrow> nat \<Rightarrow> nat" where
  "obj_index st obj = object_index (seg_the_layout (obj_seg st obj)) (offset_of obj)"

definition skipped :: "mem \<Rightarrow> nat \<Rightarrow> bool" where
  "skipped m obj \<longleftrightarrow> OBJ_HEADER m obj AND OBJ_FLAG_SKIP \<noteq> 0"

definition object_stack_slot :: "gc_state \<Rightarrow> nat \<Rightarrow> stack_slot option" where
  "object_stack_slot st obj =
     (if obj = 0 then None
      else if skipped (gc_mem st) obj then None
      else if OBJ_TOTAL_SIZE (gc_mem st) obj > BLOCKSIZE_MAX
      then Some (MallocSlot (OBJ_TO_MALLOC_SEGMENT obj))
      else Some (SegSlot (segment_of obj) (obj_index st obj)))"

definition malloc_seg_of :: "gc_state \<Rightarrow> nat \<Rightarrow> malloc_seg" where
  "malloc_seg_of st obj = the (gc_malloc st (OBJ_TO_MALLOC_SEGMENT obj))"

text \<open>The collect bit of a malloc segment is a one-word bitmap.\<close>

definition visit :: "gc_state \<Rightarrow> nat \<Rightarrow> stack_slot option \<times> gc_state" where
  "visit st obj =
     (if obj = 0 \<or> skipped (gc_mem st) obj then (None, st)
      else if OBJ_TOTAL_SIZE (gc_mem st) obj > BLOCKSIZE_MAX then
        (let mseg = malloc_seg_of st obj in
         if \<not> ms_bit mseg then (None, st)
         else case BITPTRA_TEST_AND_SET (\<lambda>_. ms_collect_bit mseg) (BITPTR 0 0) of
                (True, _) \<Rightarrow> (None, st)
              | (False, w) \<Rightarrow>
                  (Some (MallocSlot (OBJ_TO_MALLOC_SEGMENT obj)),
                   st\<lparr>gc_malloc := (gc_malloc st)
                        (OBJ_TO_MALLOC_SEGMENT obj := Some (mseg\<lparr>ms_collect_bit := w 0\<rparr>))\<rparr>))
      else
        (let seg = obj_seg st obj; l = seg_the_layout seg; index = obj_index st obj in
         if \<not> BITPTR_TEST (seg_words seg) (BITPTR BITMAP0_BASE index) \<and> offset_of obj \<ge> allocptr_snapshot seg
         then (None, st)
         else case BITPTRA_TEST_AND_SET (seg_words seg) (BITPTR (COLLECT_BITMAP_BASE l) index) of
                (True, _) \<Rightarrow> (None, st)
              | (False, w) \<Rightarrow>
                  (Some (SegSlot (segment_of obj) index),
                   st\<lparr>gc_segs := update_segment (gc_segs st) (segment_of obj)
                        (\<lambda>seg. seg\<lparr>seg_words := w\<rparr>)\<rparr>)))"

definition is_alive :: "gc_state \<Rightarrow> nat \<Rightarrow> bool" where
  "is_alive st obj \<longleftrightarrow>
     (if obj = 0 \<or> skipped (gc_mem st) obj then True
      else if OBJ_TOTAL_SIZE (gc_mem st) obj > BLOCKSIZE_MAX then
        (let mseg = malloc_seg_of st obj in \<not> ms_bit mseg \<or> ms_collect_bit mseg \<noteq> 0)
      else
        (let seg = obj_seg st obj; l = seg_the_layout seg; index = obj_index st obj in
         offset_of obj \<ge> allocptr_snapshot seg \<and> \<not> BITPTR_TEST (seg_words seg) (BITPTR BITMAP0_BASE index)
         \<or> BITPTR_TEST (seg_words seg) (BITPTR (COLLECT_BITMAP_BASE l) index)))"

definition push :: "gc_state \<Rightarrow> nat \<Rightarrow> nat \<Rightarrow> gc_state \<times> nat" where
  "push st stack_top obj =
     (case visit st obj of
        (None, st') \<Rightarrow> (st', stack_top)
      | (Some slot, st') \<Rightarrow> (st'\<lparr>gc_next := (gc_next st')(slot := stack_top)\<rparr>, obj))"

text \<open>\<open>push_enum\<close> on each of the slots an enumerator passes to it.\<close>

definition push_enum :: "nat \<Rightarrow> gc_state \<times> nat \<Rightarrow> gc_state \<times> nat" where
  "push_enum objp = (\<lambda>(st, stack_top). push st stack_top (load64 (gc_mem st) objp))"

definition enum_push :: "nat list \<Rightarrow> gc_state \<times> nat \<Rightarrow> gc_state \<times> nat" where
  "enum_push slots = fold push_enum slots"

text \<open>The two object stacks of an allocator.\<close>

record mark_stacks =
  root_set :: nat
  remembered_set :: nat

definition remember :: "gc_state \<Rightarrow> mark_stacks \<Rightarrow> nat \<Rightarrow> gc_state \<times> mark_stacks" where
  "remember st alloc obj =
     (case visit st obj of
        (None, st') \<Rightarrow> (st', alloc)
      | (Some slot, st') \<Rightarrow>
          (st'\<lparr>gc_next := (gc_next st')(slot := remembered_set alloc)\<rparr>, alloc\<lparr>remembered_set := obj\<rparr>))"

text \<open>One turn of the loop of \<open>trace\<close>, then the loop.\<close>

definition trace_step :: "gc_state \<Rightarrow> nat \<Rightarrow> obj_error + gc_state \<times> nat" where
  "trace_step st obj =
     (let stack_top = gc_next st (the (object_stack_slot st obj)) in
      case sml_obj_enum_ptr (gc_mem st) obj of
        Inl e \<Rightarrow> Inl e
      | Inr slots \<Rightarrow> Inr (enum_push slots (st, stack_top)))"

fun trace :: "nat \<Rightarrow> gc_state \<Rightarrow> nat \<Rightarrow> obj_error + gc_state" where
  "trace 0 st stack_top = Inl Out_Of_Fuel"
| "trace (Suc n) st stack_top =
     (if stack_top = 0 then Inr st
      else case trace_step st stack_top of
             Inl e \<Rightarrow> Inl e
           | Inr (st', stack_top') \<Rightarrow> trace n st' stack_top')"

section \<open>Entry points of the collector\<close>

text \<open>The enumerators of other components are given by the slots they enumerate.\<close>

definition sml_heap_user_sync2 :: "gc_state \<Rightarrow> nat \<Rightarrow> nat list \<Rightarrow> mark_stacks \<Rightarrow> gc_state \<times> mark_stacks" where
  "sml_heap_user_sync2 st user stack_slots alloc =
     (case enum_push stack_slots (snd (visit st user), root_set alloc) of
        (st', r) \<Rightarrow> (st', alloc\<lparr>root_set := r\<rparr>))"

definition take_allocptr_snapshot :: "heap \<Rightarrow> segments \<Rightarrow> segments" where
  "take_allocptr_snapshot heap segs = fold (\<lambda>i. save_alloc_ptr (hp_ptr heap i)) [0..<NUM_SUBHEAPS] segs"

definition sml_heap_worker_sync2 :: "gc_state \<Rightarrow> nat \<Rightarrow> nat \<Rightarrow> heap \<Rightarrow> gc_state" where
  "sml_heap_worker_sync2 st worker alloc_obj heap =
     (let st = snd (visit st worker);
          st = snd (visit st alloc_obj)
      in st\<lparr>gc_segs := take_allocptr_snapshot heap (gc_segs st)\<rparr>)"

definition sml_heap_global_sync2 :: "gc_state \<Rightarrow> nat list \<Rightarrow> nat list \<Rightarrow> mark_stacks \<Rightarrow> gc_state \<times> mark_stacks" where
  "sml_heap_global_sync2 st global_slots callback_slots alloc =
     (case enum_push callback_slots (enum_push global_slots (st, root_set alloc)) of
        (st', r) \<Rightarrow> (st', alloc\<lparr>root_set := r\<rparr>))"

definition sml_heap_worker_mark :: "nat \<Rightarrow> gc_state \<Rightarrow> mark_stacks \<Rightarrow> obj_error + gc_state \<times> mark_stacks" where
  "sml_heap_worker_mark n st alloc =
     (case trace n st (root_set alloc) of
        Inl e \<Rightarrow> Inl e
      | Inr st \<Rightarrow>
         (let alloc = alloc\<lparr>root_set := 0\<rparr> in
          case trace n st (remembered_set alloc) of
            Inl e \<Rightarrow> Inl e
          | Inr st \<Rightarrow> Inr (st, alloc\<lparr>remembered_set := 0\<rparr>)))"

definition sml_heap_check_alive :: "gc_state \<Rightarrow> nat \<Rightarrow> bool" where
  "sml_heap_check_alive st objptr = is_alive st (load64 (gc_mem st) objptr)"

text \<open>
  \<open>sml_heap_mark_finish\<close> reads the remembered sets of the allocators one after another, twice:
  \<open>rem t a\<close> is the remembered set of allocator \<open>a\<close> at the time of the \<open>t\<close>-th read.  \<open>c2\<close> is the list
  of allocators after that.
\<close>

definition sml_heap_mark_finish :: "(nat \<Rightarrow> nat \<Rightarrow> nat) \<Rightarrow> nat list \<Rightarrow> nat list \<Rightarrow> bool" where
  "sml_heap_mark_finish rem c1 c2 \<longleftrightarrow>
     (\<forall>k \<in> set [0..<length c1]. rem k (c1 ! k) = 0)
     \<and> (\<forall>k \<in> set [0..<length c1]. rem (length c1 + k) (c1 ! k) = 0)
     \<and> take 1 c1 = take 1 c2"

section \<open>Mutation\<close>

definition barrier :: "gc_state \<Rightarrow> mark_stacks \<Rightarrow> sml_sync_phase \<Rightarrow> nat \<Rightarrow> nat \<Rightarrow> gc_state \<times> mark_stacks" where
  "barrier st alloc phase old_value new_value =
     (if phase \<ge> SYNC1 then
        (let (st, alloc) = (if phase \<le> SYNC2 then remember st alloc new_value else (st, alloc))
         in remember st alloc old_value)
      else (st, alloc))"

definition sml_write :: "gc_state \<Rightarrow> mark_stacks \<Rightarrow> sml_sync_phase \<Rightarrow> nat \<Rightarrow> nat \<Rightarrow> gc_state \<times> mark_stacks" where
  "sml_write st alloc phase writeaddr new_value =
     (case barrier st alloc phase (load64 (gc_mem st) writeaddr) new_value of
        (st', alloc') \<Rightarrow> (st'\<lparr>gc_mem := store64 (gc_mem st') writeaddr new_value\<rparr>, alloc'))"

definition sml_cmpswap :: "gc_state \<Rightarrow> mark_stacks \<Rightarrow> sml_sync_phase \<Rightarrow> nat \<Rightarrow> nat \<Rightarrow> nat
    \<Rightarrow> bool \<times> gc_state \<times> mark_stacks" where
  "sml_cmpswap st alloc phase ref old_value new_value =
     (if load64 (gc_mem st) ref = old_value
      then (True, barrier (st\<lparr>gc_mem := store64 (gc_mem st) ref new_value\<rparr>) alloc phase old_value new_value)
      else (False, st, alloc))"

text \<open>\<open>sml_copyary\<close> copies array elements through \<open>sml_write\<close>, from the high end when the arrays are
  the same.\<close>

fun copy_down :: "nat \<Rightarrow> nat \<Rightarrow> nat \<Rightarrow> nat \<Rightarrow> sml_sync_phase \<Rightarrow> nat \<Rightarrow> gc_state \<times> mark_stacks \<Rightarrow> gc_state \<times> mark_stacks" where
  "copy_down src si dst di phase 0 s = s"
| "copy_down src si dst di phase (Suc len) (st, alloc) =
     copy_down src si dst di phase len
       (sml_write st alloc phase (field_addr dst (di + len)) (field (gc_mem st) src (si + len)))"

fun copy_up :: "nat \<Rightarrow> nat \<Rightarrow> nat \<Rightarrow> nat \<Rightarrow> sml_sync_phase \<Rightarrow> nat \<Rightarrow> gc_state \<times> mark_stacks \<Rightarrow> gc_state \<times> mark_stacks" where
  "copy_up src si dst di phase 0 s = s"
| "copy_up src si dst di phase (Suc len) (st, alloc) =
     copy_up src (si + 1) dst (di + 1) phase len
       (sml_write st alloc phase (field_addr dst di) (field (gc_mem st) src si))"

definition sml_copyary :: "gc_state \<times> mark_stacks \<Rightarrow> sml_sync_phase \<Rightarrow> nat \<Rightarrow> nat \<Rightarrow> nat \<Rightarrow> nat \<Rightarrow> nat
    \<Rightarrow> gc_state \<times> mark_stacks" where
  "sml_copyary s phase src si dst di len =
     (if src = dst then copy_down src si dst di phase len s
      else copy_up src si dst di phase len s)"


section \<open>Well-formed objects\<close>

definition large :: "gc_state \<Rightarrow> nat \<Rightarrow> bool" where
  "large st obj \<longleftrightarrow> OBJ_TOTAL_SIZE (gc_mem st) obj > BLOCKSIZE_MAX"

definition in_block :: "gc_state \<Rightarrow> nat \<Rightarrow> nat \<Rightarrow> nat \<Rightarrow> bool" where
  "in_block st obj i k \<longleftrightarrow> i < NUM_SUBHEAPS \<and> seg_layout (obj_seg st obj) = Some (compute_segment_layout i)
     \<and> k < num_blocks (compute_segment_layout i) \<and> offset_of obj = block_addr (compute_segment_layout i) k"

definition obj_ok :: "gc_state \<Rightarrow> nat \<Rightarrow> bool" where
  "obj_ok st obj \<longleftrightarrow> obj \<noteq> 0 \<and> \<not> skipped (gc_mem st) obj
     \<and> (if large st obj
        then MALLOC_OBJECT_OFFSET \<le> obj \<and> gc_malloc st (OBJ_TO_MALLOC_SEGMENT obj) \<noteq> None
           \<and> ms_collect_bit (malloc_seg_of st obj) \<in> {0, 1}
        else \<exists>i k. in_block st obj i k)"

definition target :: "gc_state \<Rightarrow> nat \<Rightarrow> bool" where
  "target st obj \<longleftrightarrow> obj \<noteq> 0 \<and> \<not> skipped (gc_mem st) obj
     \<and> (if large st obj then ms_bit (malloc_seg_of st obj)
        else bit_at (seg_words (obj_seg st obj)) BITMAP0_BASE (obj_index st obj)
           \<or> offset_of obj < allocptr_snapshot (obj_seg st obj))"

definition marked :: "gc_state \<Rightarrow> nat \<Rightarrow> bool" where
  "marked st obj \<longleftrightarrow>
     (if large st obj then ms_collect_bit (malloc_seg_of st obj) \<noteq> 0
      else bit_at (seg_words (obj_seg st obj)) (COLLECT_BITMAP_BASE (seg_the_layout (obj_seg st obj)))
             (obj_index st obj))"

definition set_mark :: "gc_state \<Rightarrow> nat \<Rightarrow> gc_state" where
  "set_mark st obj =
     (if large st obj
      then st\<lparr>gc_malloc := (gc_malloc st)(OBJ_TO_MALLOC_SEGMENT obj :=
                Some ((malloc_seg_of st obj)\<lparr>ms_collect_bit := 1\<rparr>))\<rparr>
      else st\<lparr>gc_segs := update_segment (gc_segs st) (segment_of obj)
                (\<lambda>seg. seg\<lparr>seg_words := BITPTRW_SET (seg_words seg)
                   (BITPTR (COLLECT_BITMAP_BASE (seg_the_layout seg)) (obj_index st obj))\<rparr>)\<rparr>)"

lemma object_index_block:
  assumes "i < NUM_SUBHEAPS"
  shows "object_index (compute_segment_layout i) (block_addr (compute_segment_layout i) k) = k"
  by (simp add: object_index_def block_addr_def drop_bit_push_bit)

lemma in_block_index:
  "in_block st obj i k \<Longrightarrow> obj_index st obj = k \<and> seg_the_layout (obj_seg st obj) = compute_segment_layout i"
  by (simp add: in_block_def obj_index_def seg_the_layout_def object_index_block)

lemma addr_split: "SEGMENT_SIZE * segment_of a + offset_of a = a"
  by (simp add: segment_of_def offset_of_def)

lemma obj_index_inj:
  assumes "obj_ok st p" "obj_ok st q" "\<not> large st p" "\<not> large st q"
    and "segment_of p = segment_of q" "obj_index st p = obj_index st q"
  shows "p = q"
proof -
  obtain i k i' k' where b: "in_block st p i k" "in_block st q i' k'"
    using assms(1-4) by (auto simp: obj_ok_def)
  have "obj_seg st p = obj_seg st q" by (simp add: obj_seg_def assms(5))
  then have "k = k'" "compute_segment_layout i = compute_segment_layout i'"
    using in_block_index[OF b(1)] in_block_index[OF b(2)] assms(6) by simp_all
  then have "offset_of p = offset_of q" using b by (simp add: in_block_def)
  then show ?thesis using addr_split assms(5) by metis
qed

lemma malloc_inj:
  assumes "obj_ok st p" "obj_ok st q" "large st p" "large st q"
    and "OBJ_TO_MALLOC_SEGMENT p = OBJ_TO_MALLOC_SEGMENT q"
  shows "p = q"
  using assms by (auto simp: obj_ok_def OBJ_TO_MALLOC_SEGMENT_def)

lemma slot_eq:
  "obj_ok st obj \<Longrightarrow> object_stack_slot st obj = Some
     (if large st obj then MallocSlot (OBJ_TO_MALLOC_SEGMENT obj) else SegSlot (segment_of obj) (obj_index st obj))"
  by (simp add: object_stack_slot_def obj_ok_def large_def)

lemma slot_inj:
  assumes "obj_ok st p" "obj_ok st q" "object_stack_slot st p = object_stack_slot st q"
  shows "p = q"
  using assms(3) obj_index_inj[OF assms(1,2)] malloc_inj[OF assms(1,2)]
  unfolding slot_eq[OF assms(1)] slot_eq[OF assms(2)] by (simp split: if_splits)

text \<open>The effect of \<open>visit\<close>.\<close>

lemma visit_skip: "obj = 0 \<or> skipped (gc_mem st) obj \<Longrightarrow> visit st obj = (None, st)"
  by (simp add: visit_def)

lemma visit_eq:
  assumes "obj_ok st obj"
  shows "visit st obj =
    (if target st obj \<and> \<not> marked st obj then (object_stack_slot st obj, set_mark st obj) else (None, st))"
proof (cases "large st obj")
  case True
  then have c: "ms_collect_bit (malloc_seg_of st obj) = 0 \<or> ms_collect_bit (malloc_seg_of st obj) = 1"
    using assms by (auto simp: obj_ok_def)
  have t: "target st obj \<longleftrightarrow> ms_bit (malloc_seg_of st obj)"
    using assms True by (simp add: target_def obj_ok_def)
  have v: "visit st obj = (if \<not> ms_bit (malloc_seg_of st obj) then (None, st)
      else case BITPTRA_TEST_AND_SET (\<lambda>_. ms_collect_bit (malloc_seg_of st obj)) (BITPTR 0 0) of
             (True, _) \<Rightarrow> (None, st)
           | (False, w) \<Rightarrow> (Some (MallocSlot (OBJ_TO_MALLOC_SEGMENT obj)),
               st\<lparr>gc_malloc := (gc_malloc st)(OBJ_TO_MALLOC_SEGMENT obj :=
                    Some ((malloc_seg_of st obj)\<lparr>ms_collect_bit := w 0\<rparr>))\<rparr>))"
    using assms True by (simp add: visit_def obj_ok_def large_def Let_def)
  show ?thesis
    unfolding v t slot_eq[OF assms] using c True
    by (auto simp: marked_def set_mark_def BITPTRA_TEST_AND_SET_def)
next
  case False
  then show ?thesis
    using assms
    by (auto simp: visit_def slot_eq obj_ok_def large_def target_def marked_def set_mark_def Let_def
        TEST_AND_SET_BITPTR BITPTR_TEST_BITPTR update_segment_def obj_seg_def)
qed

lemma set_mark_sel [simp]:
  "gc_mem (set_mark st obj) = gc_mem st" "gc_next (set_mark st obj) = gc_next st"
  "seg_layout (gc_segs (set_mark st obj) s) = seg_layout (gc_segs st s)"
  "allocptr_snapshot (gc_segs (set_mark st obj) s) = allocptr_snapshot (gc_segs st s)"
  by (simp_all add: set_mark_def update_segment_def)

lemma set_mark_inert [simp]:
  "large (set_mark st obj) p = large st p"
  "obj_index (set_mark st obj) p = obj_index st p"
  "object_stack_slot (set_mark st obj) p = object_stack_slot st p"
  "seg_the_layout (obj_seg (set_mark st obj) p) = seg_the_layout (obj_seg st p)"
  "in_block (set_mark st obj) p = in_block st p"
  by (auto simp: large_def obj_index_def seg_the_layout_def obj_seg_def object_stack_slot_def in_block_def
      fun_eq_iff)

lemma set_mark_malloc:
  "gc_malloc (set_mark st obj) m = (if large st obj \<and> m = OBJ_TO_MALLOC_SEGMENT obj
     then Some ((malloc_seg_of st obj)\<lparr>ms_collect_bit := 1\<rparr>) else gc_malloc st m)"
  by (simp add: set_mark_def)

lemma set_mark_ok:
  assumes "obj_ok st obj" "obj_ok st p"
  shows "obj_ok (set_mark st obj) p"
  using assms by (auto simp: obj_ok_def malloc_seg_of_def set_mark_malloc)

lemma set_mark_marked:
  assumes "obj_ok st obj" "obj_ok st p"
  shows "marked (set_mark st obj) p \<longleftrightarrow> p = obj \<or> marked st p"
proof (cases "large st p")
  case True
  then show ?thesis
    using malloc_inj[OF assms(2,1)] True
    by (auto simp: marked_def malloc_seg_of_def set_mark_malloc)
next
  case False
  show ?thesis
  proof (cases "\<not> large st obj \<and> segment_of p = segment_of obj")
    case True
    then have "seg_words (obj_seg (set_mark st obj) p) = BITPTRW_SET (seg_words (obj_seg st p))
        (BITPTR (COLLECT_BITMAP_BASE (seg_the_layout (obj_seg st p))) (obj_index st obj))"
      by (simp add: set_mark_def obj_seg_def update_segment_def)
    moreover have "p = obj \<longleftrightarrow> obj_index st p = obj_index st obj"
      using obj_index_inj[OF assms(2,1)] False True by auto
    ultimately show ?thesis using False by (simp add: marked_def bit_at_BITPTRW_SET)
  next
    case o: False
    then have "seg_words (obj_seg (set_mark st obj) p) = seg_words (obj_seg st p)"
      by (auto simp: set_mark_def obj_seg_def update_segment_def)
    then show ?thesis using False o by (auto simp: marked_def)
  qed
qed

lemma collect_bits_above:
  assumes "layout_ok l" "k < num_blocks l"
  shows "bit_at (BITPTRW_SET w (BITPTR (COLLECT_BITMAP_BASE l) n)) BITMAP0_BASE k = bit_at w BITMAP0_BASE k"
proof (rule bit_at_cong[where c = "COLLECT_BITMAP_BASE l"])
  show "BITPTRW_SET w (BITPTR (COLLECT_BITMAP_BASE l) n) x = w x" if "x < COLLECT_BITMAP_BASE l" for x
    using that by (simp add: BITPTRW_SET_def)
  have "k div 32 < len1_of (num_blocks l)"
    using assms(2) layout_bits(5)[OF assms(1)] by (simp add: less_mult_imp_div_less mult.commute)
  then show "BITMAP0_BASE + k div 32 < COLLECT_BITMAP_BASE l"
    using collect_base_ge[OF assms(1)] by simp
qed

lemma set_mark_target:
  assumes "obj_ok st obj" "obj_ok st p"
  shows "target (set_mark st obj) p = target st p"
proof (cases "large st p")
  case True
  then show ?thesis
    using malloc_inj[OF assms(2,1)]
    by (auto simp: target_def malloc_seg_of_def set_mark_malloc)
next
  case False
  then obtain i k where b: "in_block st p i k" using assms(2) by (auto simp: obj_ok_def)
  then have l: "obj_index st p = k" "seg_the_layout (obj_seg st p) = compute_segment_layout i"
    "layout_ok (compute_segment_layout i)" "k < num_blocks (compute_segment_layout i)"
    using in_block_index[OF b] compute_segment_layout_ok(1)[of i] by (auto simp: in_block_def)
  have "bit_at (seg_words (obj_seg (set_mark st obj) p)) BITMAP0_BASE k
      = bit_at (seg_words (obj_seg st p)) BITMAP0_BASE k"
    using collect_bits_above[OF l(3,4)] l(2)
    by (auto simp: set_mark_def obj_seg_def update_segment_def simp del: BITMAP0_BASE_eq)
  then show ?thesis using False l(1) by (simp add: target_def obj_seg_def)
qed

lemma is_alive_iff:
  assumes "obj_ok st obj"
  shows "is_alive st obj \<longleftrightarrow> \<not> target st obj \<or> marked st obj"
  using assms
  by (auto simp: is_alive_def obj_ok_def large_def target_def marked_def Let_def BITPTR_TEST_BITPTR not_less)


section \<open>Heaps, children and stacks\<close>

text \<open>
  \<open>D\<close> is the set of the objects that exist, including those with the skip flag.  The children of an
  object are the contents of its pointer fields.
\<close>

definition children :: "gc_state \<Rightarrow> nat \<Rightarrow> nat list" where
  "children st obj = (case sml_obj_enum_ptr (gc_mem st) obj of
     Inl _ \<Rightarrow> [] | Inr slots \<Rightarrow> map (load64 (gc_mem st)) slots)"

definition heap_ok :: "gc_state \<Rightarrow> nat set \<Rightarrow> bool" where
  "heap_ok st D \<longleftrightarrow> finite D \<and>
     (\<forall>obj \<in> D. skipped (gc_mem st) obj
        \<or> obj_ok st obj \<and> (\<exists>slots. sml_obj_enum_ptr (gc_mem st) obj = Inr slots)
          \<and> set (children st obj) \<subseteq> insert 0 D)"

definition white :: "gc_state \<Rightarrow> nat set \<Rightarrow> nat set" where
  "white st D = {obj \<in> D. target st obj \<and> \<not> marked st obj}"

definition edge :: "gc_state \<Rightarrow> nat set \<Rightarrow> nat \<Rightarrow> nat \<Rightarrow> bool" where
  "edge st D obj c \<longleftrightarrow> obj \<in> D \<and> \<not> skipped (gc_mem st) obj \<and> c \<in> set (children st obj) \<and> c \<in> D"

fun stack_of :: "gc_state \<Rightarrow> nat \<Rightarrow> nat list \<Rightarrow> bool" where
  "stack_of st stack_top [] \<longleftrightarrow> stack_top = 0"
| "stack_of st stack_top (x # xs) \<longleftrightarrow>
     stack_top = x \<and> stack_of st (gc_next st (the (object_stack_slot st x))) xs"

text \<open>
  All the stacks together: \<open>tops\<close> gives the top of each, \<open>stk\<close> the objects on each.  No object is on
  a stack twice, and every object on a stack is marked.
\<close>

definition mark_inv :: "nat set \<Rightarrow> gc_state \<Rightarrow> (nat \<Rightarrow> nat) \<Rightarrow> (nat \<Rightarrow> nat list) \<Rightarrow> bool" where
  "mark_inv D st tops stk \<longleftrightarrow> heap_ok st D
     \<and> (\<forall>i. stack_of st (tops i) (stk i) \<and> distinct (stk i)
          \<and> set (stk i) \<subseteq> {obj \<in> D. target st obj \<and> marked st obj})
     \<and> (\<forall>i j. i \<noteq> j \<longrightarrow> set (stk i) \<inter> set (stk j) = {})"

lemma heap_okD: "heap_ok st D \<Longrightarrow> obj \<in> D \<Longrightarrow> \<not> skipped (gc_mem st) obj \<Longrightarrow> obj_ok st obj"
  by (auto simp: heap_ok_def)

lemma targetD: "target st obj \<Longrightarrow> obj \<noteq> 0 \<and> \<not> skipped (gc_mem st) obj"
  by (simp add: target_def)

lemma stack_of_cong:
  "(\<And>x. x \<in> set xs \<Longrightarrow> object_stack_slot st' x = object_stack_slot st x
      \<and> gc_next st' (the (object_stack_slot st x)) = gc_next st (the (object_stack_slot st x))) \<Longrightarrow>
   stack_of st' t xs = stack_of st t xs"
  by (induction xs arbitrary: t) auto

text \<open>Marking a white object and linking it leaves everything else as it was.\<close>

definition same_heap :: "nat set \<Rightarrow> gc_state \<Rightarrow> gc_state \<Rightarrow> bool" where
  "same_heap D st st' \<longleftrightarrow> gc_mem st' = gc_mem st
     \<and> (\<forall>obj \<in> D. \<not> skipped (gc_mem st) obj \<longrightarrow> obj_ok st obj \<longrightarrow> obj_ok st' obj)
     \<and> (\<forall>obj \<in> D. \<not> skipped (gc_mem st) obj \<longrightarrow> obj_ok st obj \<longrightarrow> target st' obj = target st obj)
     \<and> object_stack_slot st' = object_stack_slot st"

lemma same_heap_refl: "same_heap D st st"
  by (simp add: same_heap_def)

lemma same_heap_children: "same_heap D st st' \<Longrightarrow> children st' = children st"
proof
  fix x assume "same_heap D st st'"
  then have "gc_mem st' = gc_mem st" by (simp add: same_heap_def)
  then show "children st' x = children st x" unfolding children_def by (rule arg_cong)
qed

lemma same_heap_ok: "same_heap D st st' \<Longrightarrow> heap_ok st D \<Longrightarrow> heap_ok st' D"
  using same_heap_children[of D st st'] by (simp add: same_heap_def heap_ok_def) blast

lemma same_heap_trans:
  "same_heap D st st' \<Longrightarrow> same_heap D st' st'' \<Longrightarrow> same_heap D st st''"
  by (simp add: same_heap_def)

lemma same_heap_target:
  "same_heap D st st' \<Longrightarrow> heap_ok st D \<Longrightarrow> obj \<in> D \<Longrightarrow> target st' obj = target st obj"
  using heap_okD[of st D obj] targetD[of st obj] targetD[of st' obj] by (auto simp: same_heap_def)

lemma next_inert:
  "target (st\<lparr>gc_next := f\<rparr>) = target st" "marked (st\<lparr>gc_next := f\<rparr>) = marked st"
  "obj_ok (st\<lparr>gc_next := f\<rparr>) = obj_ok st" "object_stack_slot (st\<lparr>gc_next := f\<rparr>) = object_stack_slot st"
proof -
  have b: "in_block (st\<lparr>gc_next := f\<rparr>) = in_block st" "large (st\<lparr>gc_next := f\<rparr>) = large st"
    "obj_index (st\<lparr>gc_next := f\<rparr>) = obj_index st" "malloc_seg_of (st\<lparr>gc_next := f\<rparr>) = malloc_seg_of st"
    "obj_seg (st\<lparr>gc_next := f\<rparr>) = obj_seg st"
    by (simp_all add: fun_eq_iff in_block_def obj_seg_def large_def obj_index_def malloc_seg_of_def)
  show "target (st\<lparr>gc_next := f\<rparr>) = target st" "marked (st\<lparr>gc_next := f\<rparr>) = marked st"
    "obj_ok (st\<lparr>gc_next := f\<rparr>) = obj_ok st" "object_stack_slot (st\<lparr>gc_next := f\<rparr>) = object_stack_slot st"
    by (simp_all add: fun_eq_iff target_def marked_def obj_ok_def object_stack_slot_def b)
qed

lemma push_effect:
  assumes inv: "mark_inv D st tops stk" and v: "v \<in> insert 0 D"
    and push: "push st (tops i) v = (st', t')"
  defines "stk' \<equiv> (if v \<in> white st D then stk(i := v # stk i) else stk)"
  shows "mark_inv D st' (tops(i := t')) stk'" "same_heap D st st'"
    and "\<forall>obj \<in> D. \<not> skipped (gc_mem st) obj \<longrightarrow>
      marked st' obj \<longleftrightarrow> marked st obj \<or> obj = v \<and> target st v"
proof -
  have ok: "heap_ok st D" using inv by (simp add: mark_inv_def)
  show "mark_inv D st' (tops(i := t')) stk'" "same_heap D st st'"
    "\<forall>obj \<in> D. \<not> skipped (gc_mem st) obj \<longrightarrow> marked st' obj \<longleftrightarrow> marked st obj \<or> obj = v \<and> target st v"
  proof (atomize (full), cases "v \<in> white st D")
    case False
    have "visit st v = (None, st)"
    proof (cases "v = 0 \<or> skipped (gc_mem st) v")
      case True then show ?thesis by (rule visit_skip)
    next
      case nz: False
      then have "obj_ok st v" using heap_okD[OF ok] v by auto
      then show ?thesis using False nz v by (auto simp: visit_eq white_def)
    qed
    then have "st' = st" "t' = tops i" using push by (auto simp: push_def)
    moreover have "target st v \<longrightarrow> marked st v" using False v targetD[of st v] by (auto simp: white_def)
    ultimately show "mark_inv D st' (tops(i := t')) stk' \<and> same_heap D st st' \<and> (\<forall>obj \<in> D.
        \<not> skipped (gc_mem st) obj \<longrightarrow> marked st' obj \<longleftrightarrow> marked st obj \<or> obj = v \<and> target st v)"
      using inv False by (auto simp: stk'_def same_heap_refl)
  next
    case True
    then have w: "v \<in> D" "target st v" "\<not> marked st v" by (auto simp: white_def)
    then have okv: "obj_ok st v" using heap_okD[OF ok] targetD by blast
    define slot where "slot = the (object_stack_slot st v)"
    have vis: "visit st v = (Some slot, set_mark st v)"
      using w okv by (simp add: visit_eq slot_eq slot_def)
    have st': "st' = (set_mark st v)\<lparr>gc_next := (gc_next st)(slot := tops i)\<rparr>" "t' = v"
      using push by (auto simp: push_def vis)
    have tm: "target st' = target (set_mark st v)" "marked st' = marked (set_mark st v)"
      "obj_ok st' = obj_ok (set_mark st v)" "object_stack_slot st' = object_stack_slot st"
      "gc_mem st' = gc_mem st"
      by (simp_all add: st' next_inert) (simp add: fun_eq_iff)
    have same: "same_heap D st st'"
      using heap_okD[OF ok] okv
      by (simp add: same_heap_def tm set_mark_ok set_mark_target)
    have mk: "marked st' obj \<longleftrightarrow> marked st obj \<or> obj = v \<and> target st v"
      if "obj \<in> D" "\<not> skipped (gc_mem st) obj" for obj
      using set_mark_marked[OF okv heap_okD[OF ok that]] w by (auto simp: tm)
    have keep: "stack_of st' (tops j) (stk j)" for j
    proof -
      have "stack_of st' (tops j) (stk j) = stack_of st (tops j) (stk j)"
      proof (rule stack_of_cong)
        fix x assume "x \<in> set (stk j)"
        then have x: "x \<in> D" "target st x" "marked st x" using inv by (auto simp: mark_inv_def)
        then have okx: "obj_ok st x" using heap_okD[OF ok] targetD by blast
        have "x \<noteq> v" using x w by auto
        then have "object_stack_slot st x \<noteq> object_stack_slot st v" using slot_inj[OF okx okv] by blast
        then have "the (object_stack_slot st x) \<noteq> slot"
          using okx okv by (simp add: slot_def slot_eq)
        then show "object_stack_slot st' x = object_stack_slot st x
            \<and> gc_next st' (the (object_stack_slot st x)) = gc_next st (the (object_stack_slot st x))"
          by (simp add: tm(4)) (simp add: st')
      qed
      then show ?thesis using inv by (simp add: mark_inv_def)
    qed
    have top: "stack_of st' v (v # stk i)"
      using keep[of i] by (simp add: tm(4) flip: slot_def) (simp add: st')
    have members: "set (stk j) \<subseteq> {obj \<in> D. target st' obj \<and> marked st' obj}" for j
    proof
      fix x assume "x \<in> set (stk j)"
      then have x: "x \<in> D" "target st x" "marked st x" using inv by (auto simp: mark_inv_def)
      then show "x \<in> {obj \<in> D. target st' obj \<and> marked st' obj}"
        using mk targetD same_heap_target[OF same ok] by blast
    qed
    have vm: "v \<in> {obj \<in> D. target st' obj \<and> marked st' obj}"
      using w mk targetD same_heap_target[OF same ok] by blast
    have vn: "v \<notin> set (stk j)" for j using inv w(3) by (auto simp: mark_inv_def)
    have "mark_inv D st' (tops(i := t')) stk'"
      using same_heap_ok[OF same ok] inv keep top members vm vn True
      by (auto simp: mark_inv_def stk'_def st'(2))
    then show "mark_inv D st' (tops(i := t')) stk' \<and> same_heap D st st' \<and> (\<forall>obj \<in> D.
        \<not> skipped (gc_mem st) obj \<longrightarrow> marked st' obj \<longleftrightarrow> marked st obj \<or> obj = v \<and> target st v)"
      using same mk by blast
  qed
qed


text \<open>
  \<open>shades\<close>: the white objects among \<open>X\<close> are marked and put on stack \<open>i\<close>; the other stacks stay.
\<close>

definition shades :: "nat set \<Rightarrow> nat \<Rightarrow> nat set \<Rightarrow> gc_state \<Rightarrow> (nat \<Rightarrow> nat list) \<Rightarrow> gc_state \<Rightarrow> (nat \<Rightarrow> nat list) \<Rightarrow> bool" where
  "shades D i X st stk st' stk' \<longleftrightarrow> same_heap D st st' \<and> (\<forall>j. j \<noteq> i \<longrightarrow> stk' j = stk j)
     \<and> set (stk' i) = set (stk i) \<union> (X \<inter> white st D)
     \<and> (\<forall>obj \<in> D. \<not> skipped (gc_mem st) obj \<longrightarrow> (marked st' obj \<longleftrightarrow> marked st obj \<or> obj \<in> X \<inter> white st D))
     \<and> length (stk' i) + card (white st' D) = length (stk i) + card (white st D)"

lemma white_shrinks:
  assumes "heap_ok st D" "same_heap D st st'"
    and "\<forall>obj \<in> D. \<not> skipped (gc_mem st) obj \<longrightarrow> (marked st' obj \<longleftrightarrow> marked st obj \<or> obj \<in> X \<inter> white st D)"
  shows "white st' D = white st D - X"
  using assms(3) same_heap_target[OF assms(2,1)] targetD[of st] unfolding white_def by blast

lemma push_shades:
  assumes inv: "mark_inv D st tops stk" and v: "v \<in> insert 0 D"
    and push: "push st (tops i) v = (st', t')"
  shows "\<exists>stk'. mark_inv D st' (tops(i := t')) stk' \<and> shades D i {v} st stk st' stk'"
proof -
  define stk' where "stk' = (if v \<in> white st D then stk(i := v # stk i) else stk)"
  note eff = push_effect[OF inv v push, folded stk'_def]
  have fin: "finite (white st D)" and ok: "heap_ok st D"
    using inv by (auto simp: mark_inv_def heap_ok_def white_def)
  have mk: "marked st' obj \<longleftrightarrow> marked st obj \<or> obj \<in> {v} \<inter> white st D"
    if "obj \<in> D" "\<not> skipped (gc_mem st) obj" for obj
  proof -
    have "marked st' obj \<longleftrightarrow> marked st obj \<or> obj = v \<and> target st v" using eff(3) that by blast
    then show ?thesis using that(1) by (cases "obj = v") (auto simp: white_def)
  qed
  have w: "white st' D = white st D - {v}" by (rule white_shrinks[OF ok eff(2)]) (use mk in blast)
  have "length (stk' i) + card (white st' D) = length (stk i) + card (white st D)"
  proof (cases "v \<in> white st D")
    case True
    then have "card (white st D) = Suc (card (white st' D))" unfolding w using card_Suc_Diff1[OF fin True] by simp
    then show ?thesis using True by (simp add: stk'_def)
  qed (simp add: stk'_def w)
  then show ?thesis using eff(1,2) mk by (intro exI[of _ stk']) (auto simp: shades_def stk'_def)
qed

lemma shades_trans:
  assumes "shades D i X st stk st1 stk1" "shades D i Y st1 stk1 st2 stk2" "heap_ok st D"
  shows "shades D i (X \<union> Y) st stk st2 stk2"
proof -
  have m: "gc_mem st1 = gc_mem st" using assms(1) by (simp add: shades_def same_heap_def)
  have w: "white st1 D = white st D - X"
    by (rule white_shrinks[OF assms(3)]) (use assms(1) in \<open>auto simp: shades_def\<close>)
  have "marked st2 obj \<longleftrightarrow> marked st obj \<or> obj \<in> (X \<union> Y) \<inter> white st D"
    if "obj \<in> D" "\<not> skipped (gc_mem st) obj" for obj
  proof -
    have "marked st1 obj \<longleftrightarrow> marked st obj \<or> obj \<in> X \<inter> white st D"
      using assms(1) that by (simp add: shades_def)
    moreover have "marked st2 obj \<longleftrightarrow> marked st1 obj \<or> obj \<in> Y \<inter> white st1 D"
      using assms(2) that m by (simp add: shades_def)
    ultimately show ?thesis using w by auto
  qed
  moreover have "set (stk2 i) = set (stk i) \<union> ((X \<union> Y) \<inter> white st D)"
    using assms(1,2) w unfolding shades_def by blast
  ultimately show ?thesis
    using assms(1,2) same_heap_trans unfolding shades_def by (metis (no_types))
qed

text \<open>A sequence of pushes on one stack.\<close>

lemma enum_push_shades:
  assumes "mark_inv D st tops stk" "load64 (gc_mem st) ` set slots \<subseteq> insert 0 D"
    and "enum_push slots (st, tops i) = (st', t')"
  shows "\<exists>stk'. mark_inv D st' (tops(i := t')) stk'
    \<and> shades D i (load64 (gc_mem st) ` set slots) st stk st' stk'"
  using assms
proof (induction slots arbitrary: st tops stk)
  case Nil
  then have "st' = st" "t' = tops i" by (auto simp: enum_push_def)
  then show ?case using Nil by (auto simp: same_heap_refl shades_def intro!: exI[of _ stk])
next
  case (Cons p slots)
  define v where "v = load64 (gc_mem st) p"
  obtain st1 t1 where p1: "push st (tops i) v = (st1, t1)" by fastforce
  have v: "v \<in> insert 0 D" using Cons.prems(2) by (simp add: v_def)
  obtain stk1 where eff: "mark_inv D st1 (tops(i := t1)) stk1" "shades D i {v} st stk st1 stk1"
    using push_shades[OF Cons.prems(1) v p1] by blast
  have ok: "heap_ok st D" using Cons.prems(1) by (simp add: mark_inv_def)
  have m1: "gc_mem st1 = gc_mem st" using eff(2) by (simp add: shades_def same_heap_def)
  have run: "enum_push slots (st1, (tops(i := t1)) i) = (st', t')"
    using Cons.prems(3) p1 by (simp add: enum_push_def push_enum_def v_def)
  have "load64 (gc_mem st1) ` set slots \<subseteq> insert 0 D" using Cons.prems(2) by (simp add: m1)
  from Cons.IH[OF eff(1) this run]
  obtain stk' where I: "mark_inv D st' (tops(i := t1, i := t')) stk'"
    "shades D i (load64 (gc_mem st) ` set slots) st1 stk1 st' stk'"
    unfolding m1 by blast
  have "shades D i ({v} \<union> load64 (gc_mem st) ` set slots) st stk st' stk'"
    by (rule shades_trans[OF eff(2) I(2) ok])
  then have "shades D i (load64 (gc_mem st) ` set (p # slots)) st stk st' stk'"
    by (simp add: v_def)
  then show ?case using I(1) by (metis fun_upd_upd)
qed

text \<open>One scan: the top object leaves the stack, its white children enter it.\<close>

lemma pop_inv:
  assumes inv: "mark_inv D st tops stk" and x: "stk i = x # xs"
  shows "mark_inv D st (tops(i := gc_next st (the (object_stack_slot st x)))) (stk(i := xs))"
    and "tops i = x" "x \<in> D" "target st x" "marked st x"
proof -
  have j: "stack_of st (tops j) (stk j)" "distinct (stk j)"
    "set (stk j) \<subseteq> {obj \<in> D. target st obj \<and> marked st obj}" for j
    using inv by (auto simp: mark_inv_def)
  show "tops i = x" "x \<in> D" "target st x" "marked st x" using j[of i] by (auto simp: x)
  let ?t = "gc_next st (the (object_stack_slot st x))"
  have i: "stack_of st ?t xs" "distinct xs" "set xs \<subseteq> set (stk i)" using j[of i] by (auto simp: x)
  have d: "set ((stk(i := xs)) a) \<inter> set ((stk(i := xs)) b) = {}" if "a \<noteq> b" for a b
  proof -
    have "set (stk a) \<inter> set (stk b) = {}" using inv that by (simp add: mark_inv_def)
    then show ?thesis using i(3) that by auto
  qed
  have s: "stack_of st ((tops(i := ?t)) a) ((stk(i := xs)) a) \<and> distinct ((stk(i := xs)) a)
      \<and> set ((stk(i := xs)) a) \<subseteq> {obj \<in> D. target st obj \<and> marked st obj}" for a
    using i j[of a] j(3)[of i] by auto
  show "mark_inv D st (tops(i := ?t)) (stk(i := xs))"
    using inv s d unfolding mark_inv_def by blast
qed

lemma scan_shades:
  assumes inv: "mark_inv D st tops stk" and x: "stk i = x # xs"
  shows "\<exists>st' t' stk'. trace_step st (tops i) = Inr (st', t') \<and> mark_inv D st' (tops(i := t')) stk'
     \<and> shades D i (set (children st x)) st (stk(i := xs)) st' stk'"
proof -
  note pop = pop_inv[OF inv x]
  have "heap_ok st D" using inv by (simp add: mark_inv_def)
  then obtain slots where s: "sml_obj_enum_ptr (gc_mem st) x = Inr slots" "set (children st x) \<subseteq> insert 0 D"
    using pop(3) targetD[OF pop(4)] by (auto simp: heap_ok_def)
  have ch: "set (children st x) = load64 (gc_mem st) ` set slots" by (simp add: children_def s(1))
  define t0 where "t0 = gc_next st (the (object_stack_slot st x))"
  obtain st' t' where run: "enum_push slots (st, (tops(i := t0)) i) = (st', t')" by fastforce
  have "trace_step st (tops i) = Inr (st', t')"
    using run by (simp add: trace_step_def pop(2) s(1) flip: t0_def)
  moreover have "\<exists>stk'. mark_inv D st' (tops(i := t0, i := t')) stk'
      \<and> shades D i (load64 (gc_mem st) ` set slots) st (stk(i := xs)) st' stk'"
    by (rule enum_push_shades[OF pop(1)[folded t0_def] _ run]) (use s(2) ch in simp)
  ultimately show ?thesis unfolding ch by auto
qed

section \<open>Protection of white objects\<close>

text \<open>
  A white object is protected when a path of white objects leads to it from a grey object, that is,
  one that is on a stack.
\<close>

inductive protected :: "('a \<Rightarrow> 'a \<Rightarrow> bool) \<Rightarrow> 'a set \<Rightarrow> 'a set \<Rightarrow> 'a \<Rightarrow> bool" for E W G where
  grey: "g \<in> G \<Longrightarrow> protected E W G g"
| path: "protected E W G x \<Longrightarrow> E x c \<Longrightarrow> c \<in> W \<Longrightarrow> protected E W G c"

inductive_cases protectedE: "protected E W G x"

lemma protected_keep:
  assumes "protected E W G x"
    and "\<And>g. g \<in> G \<Longrightarrow> g \<in> G' \<or> (\<forall>c. E g c \<longrightarrow> c \<in> W \<longrightarrow> c \<in> G')"
    and "\<And>y c. E y c \<Longrightarrow> c \<in> W \<Longrightarrow> E' y c \<or> c \<in> G'"
    and "\<And>c. c \<in> W \<Longrightarrow> c \<in> W' \<or> c \<in> G'"
  shows "protected E' W' G' x \<or> x \<in> G"
  using assms(1)
proof induction
  case (path x c)
  show ?case
  proof (cases "c \<in> G'")
    case True then show ?thesis by (simp add: protected.grey)
  next
    case False
    then have "protected E' W' G' x" using path assms(2) protected.grey by metis
    then show ?thesis using protected.path assms(3,4) path False by metis
  qed
qed simp

text \<open>
  What a marking system promises: every step keeps the invariant; marks stay; an object that
  becomes marked becomes grey; an object stops being grey only when its white children are grey;
  and an edge to a white object disappears only when that object becomes grey.
\<close>

locale tricolour =
  fixes inv :: "'st \<Rightarrow> bool" and step :: "'st \<Rightarrow> 'st \<Rightarrow> bool"
    and edges :: "'st \<Rightarrow> 'a \<Rightarrow> 'a \<Rightarrow> bool" and whites :: "'st \<Rightarrow> 'a set"
    and greys :: "'st \<Rightarrow> 'a set" and marks :: "'st \<Rightarrow> 'a set"
  assumes step_inv: "inv s \<Longrightarrow> step s t \<Longrightarrow> inv t"
    and grey_marked: "inv s \<Longrightarrow> greys s \<subseteq> marks s"
    and marks_mono: "inv s \<Longrightarrow> step s t \<Longrightarrow> marks s \<subseteq> marks t"
    and scanned: "inv s \<Longrightarrow> step s t \<Longrightarrow> g \<in> greys s \<Longrightarrow>
      g \<in> greys t \<or> (\<forall>c. edges s g c \<longrightarrow> c \<in> whites s \<longrightarrow> c \<in> greys t)"
    and edge_kept: "inv s \<Longrightarrow> step s t \<Longrightarrow> edges s x c \<Longrightarrow> c \<in> whites s \<Longrightarrow> edges t x c \<or> c \<in> greys t"
    and shaded: "inv s \<Longrightarrow> step s t \<Longrightarrow> c \<in> whites s \<Longrightarrow> c \<in> whites t \<or> c \<in> greys t"
begin

definition safe :: "'st \<Rightarrow> 'a \<Rightarrow> bool" where
  "safe s x \<longleftrightarrow> x \<in> marks s \<or> protected (edges s) (whites s) (greys s) x"

lemma steps_inv: "step\<^sup>*\<^sup>* s t \<Longrightarrow> inv s \<Longrightarrow> inv t"
  by (induction rule: rtranclp_induct) (auto intro: step_inv)

lemma step_safe:
  assumes "inv s" "step s t" "safe s x"
  shows "safe t x"
  using assms(3) unfolding safe_def
proof
  assume "x \<in> marks s"
  then show "x \<in> marks t \<or> protected (edges t) (whites t) (greys t) x"
    using marks_mono[OF assms(1,2)] by blast
next
  assume p: "protected (edges s) (whites s) (greys s) x"
  have "protected (edges t) (whites t) (greys t) x \<or> x \<in> greys s"
    by (rule protected_keep[OF p scanned[OF assms(1,2)] edge_kept[OF assms(1,2)] shaded[OF assms(1,2)]])
  then show "x \<in> marks t \<or> protected (edges t) (whites t) (greys t) x"
    using grey_marked[OF assms(1)] marks_mono[OF assms(1,2)] by blast
qed

lemma steps_safe: "step\<^sup>*\<^sup>* s t \<Longrightarrow> inv s \<Longrightarrow> safe s x \<Longrightarrow> safe t x"
proof (induction rule: rtranclp_induct)
  case (step t u)
  then show ?case using step_safe steps_inv by blast
qed

lemma no_grey_marked: "safe t x \<Longrightarrow> greys t = {} \<Longrightarrow> x \<in> marks t"
proof -
  have "\<not> protected (edges t) (whites t) {} x" for x
  proof
    assume "protected (edges t) (whites t) {} x"
    then show False by (induction) auto
  qed
  then show "safe t x \<Longrightarrow> greys t = {} \<Longrightarrow> x \<in> marks t" by (auto simp: safe_def)
qed

lemma all_marked: "step\<^sup>*\<^sup>* s t \<Longrightarrow> inv s \<Longrightarrow> safe s x \<Longrightarrow> greys t = {} \<Longrightarrow> x \<in> marks t"
  using steps_safe no_grey_marked by blast

end


section \<open>Tracing marks what is protected\<close>

lemma same_heap_edge: "same_heap D st st' \<Longrightarrow> edge st' D = edge st D"
  using same_heap_children[of D st st'] by (simp add: edge_def[abs_def] same_heap_def)

lemma protected_empty: "\<not> protected E W {} x"
proof
  assume "protected E W {} x"
  then show False by induction auto
qed

lemma whiteD: "x \<in> white st D \<Longrightarrow> x \<in> D \<and> \<not> skipped (gc_mem st) x \<and> \<not> marked st x"
  using targetD by (auto simp: white_def)

lemma trace_marks:
  assumes "mark_inv D st tops stk" "length (stk i) + card (white st D) < n"
  shows "\<exists>st'. trace n st (tops i) = Inr st' \<and> mark_inv D st' (tops(i := 0)) (stk(i := []))
    \<and> same_heap D st st'
    \<and> (\<forall>obj \<in> D. \<not> skipped (gc_mem st) obj \<longrightarrow>
         (marked st' obj \<longleftrightarrow> marked st obj \<or> protected (edge st D) (white st D) (set (stk i)) obj))"
  using assms
proof (induction n arbitrary: st tops stk)
  case (Suc n)
  show ?case
  proof (cases "stk i")
    case Nil
    have "stack_of st (tops i) (stk i)" using Suc.prems(1) by (simp add: mark_inv_def)
    then have t: "tops i = 0" by (simp add: Nil)
    then have "tops(i := 0) = tops" "stk(i := []) = stk" using Nil by (simp_all add: fun_upd_idem)
    then show ?thesis using Suc.prems(1) t by (simp add: same_heap_refl Nil protected_empty)
  next
    case (Cons x xs)
    note pop = pop_inv[OF Suc.prems(1) Cons]
    have ok: "heap_ok st D" using Suc.prems(1) by (simp add: mark_inv_def)
    obtain st1 t1 stk1 where S: "trace_step st (tops i) = Inr (st1, t1)"
      "mark_inv D st1 (tops(i := t1)) stk1" "shades D i (set (children st x)) st (stk(i := xs)) st1 stk1"
      using scan_shades[OF Suc.prems(1) Cons] by blast
    have same: "same_heap D st st1" and len: "length (stk1 i) + card (white st1 D) < n"
      and grey1: "set (stk1 i) = set xs \<union> (set (children st x) \<inter> white st D)"
      and mk1: "\<And>obj. obj \<in> D \<Longrightarrow> \<not> skipped (gc_mem st) obj \<Longrightarrow>
        marked st1 obj \<longleftrightarrow> marked st obj \<or> obj \<in> set (children st x) \<inter> white st D"
      using S(3) Suc.prems(2) by (simp_all add: shades_def Cons)
    have m1: "gc_mem st1 = gc_mem st" using same by (simp add: same_heap_def)
    have w1: "white st1 D = white st D - set (children st x)"
      by (rule white_shrinks[OF ok same]) (use S(3) in \<open>simp add: shades_def\<close>)
    have len': "length (stk1 i) + card (white st1 D) < n" by (rule len)
    obtain st' where I: "trace n st1 t1 = Inr st'" "mark_inv D st' (tops(i := 0)) (stk1(i := []))"
      "same_heap D st1 st'"
      "\<And>obj. obj \<in> D \<Longrightarrow> \<not> skipped (gc_mem st) obj \<Longrightarrow>
         marked st' obj \<longleftrightarrow> marked st1 obj \<or> protected (edge st1 D) (white st1 D) (set (stk1 i)) obj"
        using Suc.IH[OF S(2) len'] unfolding fun_upd_same fun_upd_upd m1 by blast
    have x0: "x \<noteq> 0" "\<not> skipped (gc_mem st) x" using targetD[OF pop(4)] by auto
    have E: "edge st1 D = edge st D" by (rule same_heap_edge[OF same])
    have down: "protected (edge st D) (white st D) (set (stk i)) obj"
      if "protected (edge st D) (white st1 D) (set (stk1 i)) obj" for obj
      using that
    proof induction
      case (grey g)
      show ?case
      proof (cases "g \<in> set xs")
        case True then show ?thesis by (simp add: Cons protected.grey)
      next
        case False
        then have "g \<in> set (children st x)" "g \<in> white st D" using grey grey1 by auto
        moreover from this have "edge st D x g"
          using pop(3) x0 by (simp add: edge_def whiteD)
        ultimately show ?thesis using protected.path protected.grey Cons by (metis list.set_intros(1))
      qed
    next
      case (path y c)
      then show ?case using protected.path w1 by (metis DiffD1)
    qed
    have up: "marked st1 obj \<or> protected (edge st D) (white st1 D) (set (stk1 i)) obj"
      if p: "protected (edge st D) (white st D) (set (stk i)) obj" "obj \<in> D" "\<not> skipped (gc_mem st) obj" for obj
    proof -
      have "protected (edge st D) (white st1 D) (set (stk1 i)) obj \<or> obj \<in> set (stk i)"
        by (rule protected_keep[OF p(1)]) (use grey1 w1 Cons in \<open>auto simp: edge_def\<close>)
      moreover have "set (stk i) \<subseteq> {obj \<in> D. target st obj \<and> marked st obj}"
        using Suc.prems(1) unfolding mark_inv_def by blast
      ultimately show ?thesis using mk1 p by auto
    qed
    have "marked st' obj \<longleftrightarrow> marked st obj \<or> protected (edge st D) (white st D) (set (stk i)) obj"
      if d: "obj \<in> D" "\<not> skipped (gc_mem st) obj" for obj
    proof
      assume "marked st' obj"
      then consider "marked st obj" | "obj \<in> set (children st x) \<inter> white st D"
        | "protected (edge st D) (white st1 D) (set (stk1 i)) obj"
        using I(4)[OF d] mk1[OF d] E by auto
      then show "marked st obj \<or> protected (edge st D) (white st D) (set (stk i)) obj"
      proof cases
        case 2
        then have "obj \<in> set (stk1 i)" using grey1 by simp
        then show ?thesis using down protected.grey by metis
      qed (use down in auto)
    next
      assume "marked st obj \<or> protected (edge st D) (white st D) (set (stk i)) obj"
      then show "marked st' obj" using I(4)[OF d] mk1[OF d] up[OF _ d] E by auto
    qed
    moreover have "stk1(i := []) = stk(i := [])" using S(3) by (auto simp: shades_def fun_eq_iff)
    moreover have "trace (Suc n) st (tops i) = Inr st'"
      using S(1) I(1) pop(2) x0(1) by simp
    ultimately show ?thesis using I(2) same_heap_trans[OF same I(3)] by metis
  qed
qed simp

lemma protected_union:
  assumes "protected E W (X \<union> Y) x" "\<And>c. c \<in> W \<Longrightarrow> c \<in> W' \<or> protected E W X c"
  shows "protected E W X x \<or> protected E W' Y x"
  using assms(1)
proof induction
  case (path y c)
  then show ?case using assms(2) protected.path by metis
qed (auto intro: protected.grey)

lemma protected_mono: "protected E W G x \<Longrightarrow> G \<subseteq> G' \<Longrightarrow> W \<subseteq> W' \<Longrightarrow> protected E W' G' x"
  by (induction rule: protected.induct) (auto intro: protected.intros)

lemma worker_mark_marks:
  assumes ok: "heap_ok st D" and xs: "stack_of st (root_set alloc) xs" and ys: "stack_of st (remembered_set alloc) ys"
    and dist: "distinct (xs @ ys)" and mem: "set (xs @ ys) \<subseteq> {obj \<in> D. target st obj \<and> marked st obj}"
    and n: "length xs + length ys + card (white st D) < n"
  shows "\<exists>st'. sml_heap_worker_mark n st alloc = Inr (st', alloc\<lparr>root_set := 0, remembered_set := 0\<rparr>)
    \<and> same_heap D st st' \<and> heap_ok st' D
    \<and> (\<forall>obj \<in> D. \<not> skipped (gc_mem st) obj \<longrightarrow>
         (marked st' obj \<longleftrightarrow> marked st obj \<or> protected (edge st D) (white st D) (set (xs @ ys)) obj))"
proof -
  define stk where "stk = (\<lambda>i :: nat. if i = 0 then xs else if i = 1 then ys else [])"
  define tops where "tops = (\<lambda>i :: nat. if i = 0 then root_set alloc else if i = 1 then remembered_set alloc else 0)"
  have inv: "mark_inv D st tops stk"
    using ok xs ys dist mem by (auto simp: mark_inv_def stk_def tops_def)
  obtain st1 where A: "trace n st (root_set alloc) = Inr st1" "mark_inv D st1 (tops(0 := 0)) (stk(0 := []))"
    "same_heap D st st1" "\<And>obj. obj \<in> D \<Longrightarrow> \<not> skipped (gc_mem st) obj \<Longrightarrow>
       marked st1 obj \<longleftrightarrow> marked st obj \<or> protected (edge st D) (white st D) (set xs) obj"
    using trace_marks[OF inv, of 0 n] n by (auto simp: stk_def tops_def)
  have w1: "white st1 D \<subseteq> white st D" "\<And>c. c \<in> white st D \<Longrightarrow> c \<in> white st1 D \<or> protected (edge st D) (white st D) (set xs) c"
    using A(4) same_heap_target[OF A(3) ok] by (auto simp: white_def dest: targetD)
  have fin: "finite (white st D)" using ok by (simp add: heap_ok_def white_def)
  have len: "length ((stk(0 := [])) 1) + card (white st1 D) < n"
    using n card_mono[OF fin w1(1)] by (simp add: stk_def)
  have m1: "gc_mem st1 = gc_mem st" using A(3) by (simp add: same_heap_def)
  have i: "(tops(0 := 0)) 1 = remembered_set alloc" "(stk(0 := [])) 1 = ys" by (simp_all add: tops_def stk_def)
  obtain st2 where B: "trace n st1 (remembered_set alloc) = Inr st2"
    "mark_inv D st2 (tops(0 := 0, 1 := 0)) (stk(0 := [], 1 := []))" "same_heap D st1 st2"
    "\<And>obj. obj \<in> D \<Longrightarrow> \<not> skipped (gc_mem st) obj \<Longrightarrow>
       marked st2 obj \<longleftrightarrow> marked st1 obj \<or> protected (edge st D) (white st1 D) (set ys) obj"
    using trace_marks[OF A(2) len] unfolding i m1 same_heap_edge[OF A(3)] by blast
  have run: "sml_heap_worker_mark n st alloc = Inr (st2, alloc\<lparr>root_set := 0, remembered_set := 0\<rparr>)"
    by (simp add: sml_heap_worker_mark_def A(1) B(1))
  have "marked st2 obj \<longleftrightarrow> marked st obj \<or> protected (edge st D) (white st D) (set (xs @ ys)) obj"
    if d: "obj \<in> D" "\<not> skipped (gc_mem st) obj" for obj
  proof -
    have "protected (edge st D) (white st D) (set (xs @ ys)) obj
        \<longleftrightarrow> protected (edge st D) (white st D) (set xs) obj \<or> protected (edge st D) (white st1 D) (set ys) obj"
      using protected_union[of "edge st D" "white st D" "set xs" "set ys" obj "white st1 D"] w1
        protected_mono[of "edge st D" _ _ obj] by (metis Un_upper1 Un_upper2 order_refl set_append)
    then show ?thesis using A(4)[OF d] B(4)[OF d] by auto
  qed
  then show ?thesis
    using run same_heap_trans[OF A(3) B(3)] B(2) by (auto simp: mark_inv_def)
qed

end
