(* ===== verification/Finalizer.thy ===== *)
theory Finalizer
  imports Splay Trace
begin

text \<open>
  Finalizers (finalize.c): the set of finalizers is a splay tree ordered by the address of the
  object.  The collector calls \<open>sml_run_finalizer\<close> when marking has ended, with its state \<open>st\<close>.
  Running a finalizer function is the argument \<open>call\<close>, on a state of the world.
  The mutex around each operation makes it atomic.
\<close>

section \<open>The set\<close>

record 'f finalizer =
  fz_obj :: nat
  fz_finalizer :: "'f option"

definition finalizer_cmp :: "'f finalizer \<Rightarrow> 'f finalizer \<Rightarrow> int" where
  "finalizer_cmp final1 final2 = voidp_cmp (fz_obj final1) (fz_obj final2)"

definition sml_finalize_init :: "'f finalizer sml_tree" where
  "sml_finalize_init = sml_tree_new finalizer_cmp 16"

definition run_finalizer :: "('f \<Rightarrow> nat \<Rightarrow> 'w \<Rightarrow> 'w) \<Rightarrow> 'f finalizer \<Rightarrow> 'w \<Rightarrow> 'w" where
  "run_finalizer call final w = (case fz_finalizer final of Some f \<Rightarrow> call f (fz_obj final) w | None \<Rightarrow> w)"

definition each_destroy :: "('f \<Rightarrow> nat \<Rightarrow> 'w \<Rightarrow> 'w) \<Rightarrow> 'f finalizer \<Rightarrow> 'w \<Rightarrow> 'w" where
  "each_destroy call final w = run_finalizer call final w"

definition sml_finalize_destroy :: "('f \<Rightarrow> nat \<Rightarrow> 'w \<Rightarrow> 'w) \<Rightarrow> 'f finalizer sml_tree \<Rightarrow> 'w \<Rightarrow> 'w" where
  "sml_finalize_destroy call finalizer_set w = sml_tree_each finalizer_set (each_destroy call) w"

text \<open>The finalizer field of the key is not initialised: \<open>junk\<close>.\<close>

definition sml_set_finalizer :: "'f option \<Rightarrow> 'f finalizer sml_tree \<Rightarrow> nat \<Rightarrow> 'f option \<Rightarrow> 'f finalizer sml_tree" where
  "sml_set_finalizer junk finalizer_set obj finalizer =
     (let key = \<lparr>fz_obj = obj, fz_finalizer = junk\<rparr>;
          (item, finalizer_set) = (case sml_tree_find finalizer_set key of
             (None, finalizer_set) \<Rightarrow> sml_tree_insert finalizer_set key
           | (Some item, finalizer_set) \<Rightarrow> (Some item, finalizer_set))
      in case item of
           None \<Rightarrow> finalizer_set
         | Some (a, x) \<Rightarrow> tree_set_item finalizer_set a (x\<lparr>fz_finalizer := finalizer\<rparr>))"

definition sml_heap_check_alive :: "gc_state \<Rightarrow> nat \<Rightarrow> bool" where
  "sml_heap_check_alive st obj = is_alive st obj"

definition each_run :: "gc_state \<Rightarrow> ('f \<Rightarrow> nat \<Rightarrow> 'w \<Rightarrow> 'w) \<Rightarrow> 'f finalizer \<Rightarrow> 'w \<Rightarrow> bool \<times> 'w" where
  "each_run st call final w =
     (if sml_heap_check_alive st (fz_obj final) then (False, w) else (True, run_finalizer call final w))"

definition sml_run_finalizer :: "gc_state \<Rightarrow> ('f \<Rightarrow> nat \<Rightarrow> 'w \<Rightarrow> 'w) \<Rightarrow> 'f finalizer sml_tree \<Rightarrow> 'w
    \<Rightarrow> 'f finalizer sml_tree \<times> 'w" where
  "sml_run_finalizer st call finalizer_set w =
     (case sml_tree_reject finalizer_set (each_run st call) w of
        (finalizer_set, w) \<Rightarrow> (sml_tree_rebuild finalizer_set, w))"

section \<open>The map from objects to finalizers\<close>

interpretation finalizers: item_order finalizer_cmp
  by unfold_locales (auto simp: finalizer_cmp_def)

abbreviation finalizers_ok :: "'f finalizer sml_tree \<Rightarrow> bool" where
  "finalizers_ok \<equiv> tree_of finalizer_cmp"

definition finalizer_of :: "'f finalizer sml_tree \<Rightarrow> nat \<Rightarrow> 'f option option" where
  "finalizer_of t = map_of (map (\<lambda>(a, x). (fz_obj x, fz_finalizer x)) (tree_nodes t))"

lemma sml_finalize_init_ok: "finalizers_ok sml_finalize_init" "finalizer_of sml_finalize_init = Map.empty"
proof -
  show "finalizers_ok sml_finalize_init"
    using tree_inv_new[OF finalizers.item_order_axioms, of 16]
    by (simp add: tree_of_def sml_finalize_init_def SIZEOF_NODE_def NODE_SIZE_def NODE_OFFSET_def CEILING_def CHUNK_SIZE_def)
      (simp add: sml_tree_new_def)
  show "finalizer_of sml_finalize_init = Map.empty"
    by (simp add: finalizer_of_def tree_nodes_def sml_finalize_init_def sml_tree_new_def)
qed

text \<open>The addresses increase along the in-order list.\<close>

lemma finalizers_sorted:
  "finalizers_ok t \<Longrightarrow> sorted_wrt (<) (map fz_obj (map snd (tree_nodes t)))"
  by (auto simp: tree_of_def tree_inv_def bst_def items_def tree_nodes_def sorted_wrt_map finalizer_cmp_def)

lemma finalizer_of_iff:
  assumes "finalizers_ok t"
  shows "finalizer_of t obj = Some f \<longleftrightarrow> (\<exists>a. (a, \<lparr>fz_obj = obj, fz_finalizer = f\<rparr>) \<in> set (tree_nodes t))"
proof -
  have "distinct (map fz_obj (map snd (tree_nodes t)))"
    using finalizers_sorted[OF assms] by (simp only: strict_sorted_iff)
  then have "distinct (map fst (map (\<lambda>(a, x). (fz_obj x, fz_finalizer x)) (tree_nodes t)))"
    by (simp add: comp_def case_prod_unfold)
  then have "finalizer_of t obj = Some f \<longleftrightarrow> (obj, f) \<in> set (map (\<lambda>(a, x). (fz_obj x, fz_finalizer x)) (tree_nodes t))"
    unfolding finalizer_of_def by (rule map_of_eq_Some_iff)
  also have "\<dots> \<longleftrightarrow> (\<exists>a. (a, \<lparr>fz_obj = obj, fz_finalizer = f\<rparr>) \<in> set (tree_nodes t))"
  proof
    assume "(obj, f) \<in> set (map (\<lambda>(a, x). (fz_obj x, fz_finalizer x)) (tree_nodes t))"
    then obtain a x where "(a, x) \<in> set (tree_nodes t)" "fz_obj x = obj" "fz_finalizer x = f" by auto
    then show "\<exists>a. (a, \<lparr>fz_obj = obj, fz_finalizer = f\<rparr>) \<in> set (tree_nodes t)"
      by (intro exI[of _ a]) (cases x, simp)
  next
    assume "\<exists>a. (a, \<lparr>fz_obj = obj, fz_finalizer = f\<rparr>) \<in> set (tree_nodes t)"
    then show "(obj, f) \<in> set (map (\<lambda>(a, x). (fz_obj x, fz_finalizer x)) (tree_nodes t))"
      by (auto simp: image_iff intro: rev_bexI)
  qed
  finally show ?thesis .
qed

lemma finalizer_of_ext:
  assumes "\<And>obj f. m obj = Some f \<longleftrightarrow> finalizer_of t obj = Some f"
  shows "finalizer_of t = m"
proof
  fix obj
  show "finalizer_of t obj = m obj" using assms[of obj] by (metis option.exhaust)
qed

lemma set_finalizer_effect:
  assumes "finalizers_ok t"
  shows "finalizers_ok (sml_set_finalizer junk t obj f)"
    "finalizer_of (sml_set_finalizer junk t obj f) = (finalizer_of t)(obj \<mapsto> f)"
proof -
  let ?key = "\<lparr>fz_obj = obj, fz_finalizer = junk\<rparr>" and ?new = "\<lparr>fz_obj = obj, fz_finalizer = f\<rparr>"
  let ?t = "sml_set_finalizer junk t obj f"
  obtain a z where F: "case sml_tree_find t ?key of
      (Some e, t') \<Rightarrow> e = (a, z) \<and> finalizers_ok t' \<and> set (tree_nodes t') = set (tree_nodes t)
        \<and> (a, z) \<in> set (tree_nodes t) \<and> finalizer_cmp ?key z = 0
    | (None, t') \<Rightarrow> (\<forall>e \<in> set (tree_nodes t). finalizer_cmp ?key (snd e) \<noteq> 0 \<and> fst e \<noteq> a) \<and> z = ?key
        \<and> fst (sml_tree_insert t' ?key) = Some (a, ?key) \<and> finalizers_ok (snd (sml_tree_insert t' ?key))
        \<and> set (tree_nodes (snd (sml_tree_insert t' ?key))) = insert (a, ?key) (set (tree_nodes t))"
    by (rule finalizers.tree.find_or_insert[OF assms])
  obtain r t' where r: "sml_tree_find t ?key = (r, t')" by (metis surj_pair)
  have "\<exists>t2 y. ?t = tree_set_item t2 a ?new \<and> finalizers_ok t2 \<and> (a, y) \<in> set (tree_nodes t2) \<and> fz_obj y = obj
      \<and> set (tree_nodes t2) - {(a, y)} = {e \<in> set (tree_nodes t). fz_obj (snd e) \<noteq> obj}"
  proof (cases r)
    case None
    let ?t2 = "snd (sml_tree_insert t' ?key)"
    have "?t = tree_set_item ?t2 a ?new"
      using F r None by (cases "sml_tree_insert t' ?key") (simp add: sml_set_finalizer_def)
    moreover have t2: "finalizers_ok ?t2" "set (tree_nodes ?t2) = insert (a, ?key) (set (tree_nodes t))"
      "\<forall>e \<in> set (tree_nodes t). fz_obj (snd e) \<noteq> obj" using F r None by (auto simp: finalizer_cmp_def)
    moreover have "set (tree_nodes ?t2) - {(a, ?key)} = {e \<in> set (tree_nodes t). fz_obj (snd e) \<noteq> obj}"
      using t2(2,3) by auto
    ultimately show ?thesis by (intro exI[of _ ?t2] exI[of _ ?key]) simp
  next
    case (Some e)
    then have z: "e = (a, z)" "finalizers_ok t'" "set (tree_nodes t') = set (tree_nodes t)" "(a, z) \<in> set (tree_nodes t)"
      "fz_obj z = obj" using F r by (auto simp: finalizer_cmp_def)
    have t: "?t = tree_set_item t' a ?new" using r Some z(1,5) by (cases z) (simp add: sml_set_finalizer_def)
    have u: "e' = (a, z) \<longleftrightarrow> fz_obj (snd e') = obj" if "e' \<in> set (tree_nodes t)" for e'
    proof
      assume "fz_obj (snd e') = obj"
      then have "finalizer_cmp (snd e') (snd (a, z)) = 0" using z(5) by (simp add: finalizer_cmp_def)
      then show "e' = (a, z)" by (rule finalizers.tree.one_of_a_class[OF assms that z(4)])
    qed (simp add: z(5))
    then have "set (tree_nodes t) - {(a, z)} = {e \<in> set (tree_nodes t). fz_obj (snd e) \<noteq> obj}" by blast
    then show ?thesis using z(2-5) t by (intro exI[of _ t'] exI[of _ z]) simp
  qed
  then obtain t2 y where t2: "?t = tree_set_item t2 a ?new" "finalizers_ok t2" "(a, y) \<in> set (tree_nodes t2)"
    "fz_obj y = obj" "set (tree_nodes t2) - {(a, y)} = {e \<in> set (tree_nodes t). fz_obj (snd e) \<noteq> obj}" by blast
  have "finalizer_cmp ?new y = 0" using t2(4) by (simp add: finalizer_cmp_def)
  note P = finalizers.tree.put_law[OF t2(2,3) this]
  show ok: "finalizers_ok ?t" using P t2(1) by simp
  have n: "set (tree_nodes ?t) = insert (a, ?new) {e \<in> set (tree_nodes t). fz_obj (snd e) \<noteq> obj}"
    using P t2(1,5) by simp
  show "finalizer_of ?t = (finalizer_of t)(obj \<mapsto> f)"
    by (rule finalizer_of_ext) (auto simp: finalizer_of_iff[OF ok] finalizer_of_iff[OF assms] n simp del: split_paired_Ex)
qed

section \<open>Running the finalizers\<close>

lemma reject_run_each:
  "reject_run (each_run st call) xs (w, fl) =
     (filter (\<lambda>e. is_alive st (fz_obj (snd e))) xs,
      fold (run_finalizer call) (filter (\<lambda>x. \<not> is_alive st (fz_obj x)) (map snd xs)) w,
      rev (map fst (filter (\<lambda>e. \<not> is_alive st (fz_obj (snd e))) xs)) @ fl)"
proof (induction xs arbitrary: w fl)
  case (Cons e xs)
  then show ?case by (cases e) (simp add: each_run_def sml_heap_check_alive_def)
qed simp

lemma run_finalizer_effect:
  assumes "finalizers_ok t" "sml_run_finalizer st call t w = (t', w')"
  shows "finalizers_ok t'" "tree_nodes t' = filter (\<lambda>e. is_alive st (fz_obj (snd e))) (tree_nodes t)"
    "w' = fold (run_finalizer call) (filter (\<lambda>x. \<not> is_alive st (fz_obj x)) (map snd (tree_nodes t))) w"
proof -
  have inv: "tree_inv t" "t_cmp t = finalizer_cmp" using assms(1) by (simp_all add: tree_of_def)
  obtain t1 w1 where r: "sml_tree_reject t (each_run st call) w = (t1, w1)" by (metis surj_pair)
  have t': "t' = sml_tree_rebuild t1" "w' = w1" using assms(2) r by (simp_all add: sml_run_finalizer_def)
  note R = reject_effect[OF inv(1) r]
  have m: "item_order (t_cmp t1)" "memory_ok t1" using R(1) by (simp_all add: tree_inv_def)
  note B = rebuild_effect[OF m]
  show "finalizers_ok t'" using B(1,2) R(2) inv(2) by (simp add: tree_of_def t')
  show "tree_nodes t' = filter (\<lambda>e. is_alive st (fz_obj (snd e))) (tree_nodes t)"
    using R(3) B(5)[OF R(1)] by (simp add: reject_run_each t')
  show "w' = fold (run_finalizer call) (filter (\<lambda>x. \<not> is_alive st (fz_obj x)) (map snd (tree_nodes t))) w"
    using R(3) by (simp add: reject_run_each t')
qed

text \<open>C11.  The finalizer table is a map from objects to their last registered finalizer.
  \<open>sml_set_finalizer\<close> updates it at the object, whether or not the object had an entry and whatever the
  uninitialised field of the search key holds.  \<open>sml_run_finalizer\<close> runs the finalizers of the dead
  objects, each once and in the order of the addresses, and leaves exactly the entries of the live
  ones, so that no finalizer runs in a later cycle again.\<close>

theorem finalizer_table:
  assumes "finalizers_ok t" "sml_run_finalizer st call t w = (t', w')"
  shows "finalizers_ok (sml_set_finalizer junk t obj f)
    \<and> finalizer_of (sml_set_finalizer junk t obj f) = (finalizer_of t)(obj \<mapsto> f)
    \<and> finalizers_ok t' \<and> finalizer_of t' = (\<lambda>x. if is_alive st x then finalizer_of t x else None)
    \<and> (\<exists>dead. w' = fold (run_finalizer call) dead w \<and> sorted_wrt (<) (map fz_obj dead)
         \<and> (\<forall>x. x \<in> set dead \<longleftrightarrow> \<not> is_alive st (fz_obj x) \<and> finalizer_of t (fz_obj x) = Some (fz_finalizer x)))"
proof (intro conjI)
  note R = run_finalizer_effect[OF assms]
  show "finalizers_ok (sml_set_finalizer junk t obj f)"
    "finalizer_of (sml_set_finalizer junk t obj f) = (finalizer_of t)(obj \<mapsto> f)"
    by (rule set_finalizer_effect[OF assms(1)])+
  show "finalizers_ok t'" by (rule R(1))
  show "finalizer_of t' = (\<lambda>x. if is_alive st x then finalizer_of t x else None)"
    by (rule finalizer_of_ext) (auto simp: finalizer_of_iff[OF R(1)] finalizer_of_iff[OF assms(1)] R(2))
  let ?dead = "filter (\<lambda>x. \<not> is_alive st (fz_obj x)) (map snd (tree_nodes t))"
  have "sorted_wrt (<) (map fz_obj ?dead)"
    using finalizers_sorted[OF assms(1)] by (simp add: sorted_wrt_map sorted_wrt_filter)
  moreover have "x \<in> set ?dead \<longleftrightarrow> \<not> is_alive st (fz_obj x) \<and> finalizer_of t (fz_obj x) = Some (fz_finalizer x)" for x
    by (cases x) (force simp: finalizer_of_iff[OF assms(1)] image_iff)
  ultimately show "\<exists>dead. w' = fold (run_finalizer call) dead w \<and> sorted_wrt (<) (map fz_obj dead)
      \<and> (\<forall>x. x \<in> set dead \<longleftrightarrow> \<not> is_alive st (fz_obj x) \<and> finalizer_of t (fz_obj x) = Some (fz_finalizer x))"
    using R(3) by blast
qed


text \<open>Two large objects, at 64 (dead) and at 20064 (marked).\<close>

definition sample_dead :: gc_state where
  "sample_dead = \<lparr>gc_mem = (\<lambda>a. if a \<in> {60, 20060} then 0x88 else if a \<in> {61, 20061} then 0x13 else 0),
     gc_segs = zero_segments,
     gc_malloc = (\<lambda>m. if m = 32 then Some \<lparr>ms_size = 5000, ms_bit = True, ms_collect_bit = 0\<rparr>
                      else if m = 20032 then Some \<lparr>ms_size = 5000, ms_bit = True, ms_collect_bit = 1\<rparr> else None),
     gc_next = (\<lambda>_. 0)\<rparr>"

lemma sample_dead_alive: "is_alive sample_dead 64 = False" "is_alive sample_dead 20064"
proof -
  have h: "OBJ_HEADER (gc_mem sample_dead) 64 = 5000" "OBJ_HEADER (gc_mem sample_dead) 20064 = 5000"
    by (simp_all add: OBJ_HEADER_def load32_def load_bytes_4 sample_dead_def obj_simps)
  then have s: "OBJ_TOTAL_SIZE (gc_mem sample_dead) 64 = 5004" "OBJ_TOTAL_SIZE (gc_mem sample_dead) 20064 = 5004"
    by (simp_all add: OBJ_TOTAL_SIZE_def OBJ_SIZE_def OBJ_TYPE_def obj_types obj_simps layout_simps)
  show "is_alive sample_dead 64 = False" "is_alive sample_dead 20064"
    by (simp_all add: is_alive_def s skipped_def h obj_simps layout_simps malloc_seg_of_def OBJ_TO_MALLOC_SEGMENT_def)
      (simp_all add: sample_dead_def)
qed

definition sample_finalizers :: "nat finalizer sml_tree" where
  "sample_finalizers = sml_set_finalizer None (sml_set_finalizer None sml_finalize_init 64 (Some 7)) 20064 (Some 8)"

lemma sample_finalizers_ok: "finalizers_ok sample_finalizers"
  by (simp add: sample_finalizers_def set_finalizer_effect(1) sml_finalize_init_ok(1))

theorem finalizer_table_witness:
  "finalizer_of (sml_set_finalizer None sample_finalizers 64 (Some 9)) 64 = Some (Some 9)
   \<and> (case sml_run_finalizer sample_dead (\<lambda>f obj w. (f, obj) # w) sample_finalizers [] of
        (t', w') \<Rightarrow> finalizer_of t' 64 = None \<and> finalizer_of t' 20064 = Some (Some 8) \<and> set w' = {(7, 64)})"
proof -
  let ?call = "\<lambda>f obj w. (f, obj) # w"
  obtain t' w' where r: "sml_run_finalizer sample_dead ?call sample_finalizers [] = (t', w')" by (metis surj_pair)
  have f: "finalizer_of sample_finalizers = [64 \<mapsto> Some 7, 20064 \<mapsto> Some 8]"
    by (simp add: sample_finalizers_def set_finalizer_effect sml_finalize_init_ok)
  from finalizer_table[OF sample_finalizers_ok r, of None 64 "Some 9"]
  obtain dead where d: "w' = fold (run_finalizer ?call) dead []" "sorted_wrt (<) (map fz_obj dead)"
    "\<forall>x. x \<in> set dead \<longleftrightarrow> \<not> is_alive sample_dead (fz_obj x) \<and> finalizer_of sample_finalizers (fz_obj x) = Some (fz_finalizer x)"
    and t: "finalizer_of (sml_set_finalizer None sample_finalizers 64 (Some 9)) = (finalizer_of sample_finalizers)(64 \<mapsto> Some 9)"
    "finalizer_of t' = (\<lambda>x. if is_alive sample_dead x then finalizer_of sample_finalizers x else None)" by blast
  have "x \<in> set dead \<longleftrightarrow> x = \<lparr>fz_obj = 64, fz_finalizer = Some 7\<rparr>" for x
    using d(3) sample_dead_alive by (cases x) (auto simp: f split: if_splits)
  then have "set dead = set [\<lparr>fz_obj = 64, fz_finalizer = Some 7\<rparr>]" by auto
  moreover have "distinct (map fz_obj dead)" using d(2) by (simp only: strict_sorted_iff)
  ultimately have "dead = [\<lparr>fz_obj = 64, fz_finalizer = Some 7\<rparr>]"
    by (cases dead; cases "tl dead") (auto simp: insert_eq_iff)
  then show ?thesis using t by (simp add: r d(1) f run_finalizer_def sample_dead_alive)
qed

end
