(* ===== verification/Callback.thy ===== *)
theory Callback
  imports Splay Object
begin

text \<open>
  Callback closures (callback.c): the table that gives the same trampoline to two callbacks with the
  same code address and structurally equal environments.  The entries of a code address are nodes of
  a splay tree, numbered from 0 and linked through \<open>next\<close>; a pointer into an entry is its node's
  address.  The environments are compared by \<open>sml_obj_equal\<close> in the memory \<open>m\<close>, with its fuel \<open>n\<close>.  The
  mutex around each operation makes it atomic.  \<open>mmap\<close> is an argument.
\<close>

section \<open>The table\<close>

record callback_item =
  cb_trampoline :: nat
  cb_env :: nat
  cb_codeaddr :: nat
  cb_count :: nat
  cb_next :: "node_addr option"

type_synonym callbacks = "callback_item sml_tree"

definition callback_cmp :: "callback_item \<Rightarrow> callback_item \<Rightarrow> int" where
  "callback_cmp item1 item2 =
     (let ret = voidp_cmp (cb_codeaddr item1) (cb_codeaddr item2)
      in if ret \<noteq> 0 then ret else int (cb_count item1) - int (cb_count item2))"

definition sml_callback_init :: callbacks where
  "sml_callback_init = sml_tree_new callback_cmp 40"

text \<open>Reading and writing an entry through a pointer.\<close>

definition node_at :: "'a sml_tree \<Rightarrow> node_addr \<Rightarrow> 'a option" where
  "node_at t a = map_of (tree_nodes t) a"

definition update_at :: "'a sml_tree \<Rightarrow> node_addr \<Rightarrow> ('a \<Rightarrow> 'a) \<Rightarrow> 'a sml_tree" where
  "update_at t a f = (case node_at t a of None \<Rightarrow> t | Some x \<Rightarrow> tree_set_item t a (f x))"

text \<open>The loop of \<open>sml_find_callback\<close> over the entries of a code address.\<close>

datatype search = Found node_addr | Missing node_addr nat

fun callback_loop :: "(nat \<Rightarrow> obj_error + bool) \<Rightarrow> nat \<Rightarrow> callbacks \<Rightarrow> node_addr \<Rightarrow> nat \<Rightarrow> obj_error + search" where
  "callback_loop eq 0 t found cnt = Inl Out_Of_Fuel"
| "callback_loop eq (Suc k) t found cnt =
     (case node_at t found of
        None \<Rightarrow> Inl Out_Of_Fuel
      | Some x \<Rightarrow>
         (case eq (cb_env x) of
            Inl e \<Rightarrow> Inl e
          | Inr True \<Rightarrow> Inr (Found found)
          | Inr False \<Rightarrow>
              (case cb_next x of
                 None \<Rightarrow> Inr (Missing found (cnt + 1))
               | Some found' \<Rightarrow> callback_loop eq k t found' (cnt + 1))))"

definition new_callback :: "nat \<Rightarrow> nat \<Rightarrow> callback_item \<Rightarrow> callback_item" where
  "new_callback codeaddr env item = item\<lparr>cb_codeaddr := codeaddr, cb_trampoline := 0, cb_env := env, cb_next := None\<rparr>"

text \<open>The result is the address of the entry, whose first word is the trampoline.  \<open>junk\<close> is the
  uninitialised part of the search key.\<close>

definition sml_find_callback :: "callback_item \<Rightarrow> nat \<Rightarrow> (nat \<Rightarrow> nat \<Rightarrow> int) \<Rightarrow> mem \<Rightarrow> callbacks \<Rightarrow> nat \<Rightarrow> nat
    \<Rightarrow> obj_error + node_addr \<times> callbacks" where
  "sml_find_callback junk n intinf_cmp m t codeaddr env =
     (let key = junk\<lparr>cb_codeaddr := codeaddr, cb_count := 0\<rparr> in
      case sml_tree_find t key of
        (Some (found, _), t) \<Rightarrow>
          (case callback_loop (sml_obj_equal n intinf_cmp m env) (length (tree_nodes t)) t found 0 of
             Inl e \<Rightarrow> Inl e
           | Inr (Found found) \<Rightarrow> Inr (found, t)
           | Inr (Missing found cnt) \<Rightarrow>
               (case sml_tree_insert t (key\<lparr>cb_count := cnt\<rparr>) of
                  (None, t) \<Rightarrow> Inr (found, t)
                | (Some (item, _), t) \<Rightarrow>
                    (let t = update_at t found (\<lambda>x. x\<lparr>cb_next := Some item\<rparr>)
                     in Inr (item, update_at t item (new_callback codeaddr env)))))
      | (None, t) \<Rightarrow>
          (case sml_tree_insert t key of
             (None, t) \<Rightarrow> Inl Out_Of_Fuel
           | (Some (item, _), t) \<Rightarrow> Inr (item, update_at t item (new_callback codeaddr env))))"

text \<open>\<open>sml_callback_enum_ptr\<close>: the entries from one on, and the visit of all of them.\<close>

fun chain :: "nat \<Rightarrow> callbacks \<Rightarrow> callback_item \<Rightarrow> callback_item list option" where
  "chain 0 t x = None"
| "chain (Suc k) t x =
     (case cb_next x of
        None \<Rightarrow> Some [x]
      | Some b \<Rightarrow> (case node_at t b of None \<Rightarrow> None | Some y \<Rightarrow> map_option ((#) x) (chain k t y)))"

definition trace_each :: "callbacks \<Rightarrow> (nat \<Rightarrow> 's \<Rightarrow> 's) \<Rightarrow> callback_item \<Rightarrow> 's option \<Rightarrow> 's option" where
  "trace_each t fn item s =
     (case chain (length (tree_nodes t)) t item of
        None \<Rightarrow> None
      | Some xs \<Rightarrow> map_option (fold (\<lambda>cb. fn (cb_env cb)) xs) s)"

definition sml_callback_enum_ptr :: "callbacks \<Rightarrow> (nat \<Rightarrow> 's \<Rightarrow> 's) \<Rightarrow> 's \<Rightarrow> 's option" where
  "sml_callback_enum_ptr t fn s = sml_tree_each t (trace_each t fn) (Some s)"

section \<open>Memory for trampolines\<close>

record trampoline_heap =
  th_base :: nat
  th_end :: nat

definition TRAMPOLINE_SIZE :: nat where "TRAMPOLINE_SIZE = 80"

datatype code_error = Mmap_Failed

definition sml_alloc_code :: "nat \<Rightarrow> nat option \<Rightarrow> trampoline_heap \<Rightarrow> code_error + nat \<times> trampoline_heap" where
  "sml_alloc_code pagesize mmap h =
     (case (if th_end h - th_base h < TRAMPOLINE_SIZE
            then (case mmap of
                    None \<Rightarrow> Inl Mmap_Failed
                  | Some p \<Rightarrow> Inr \<lparr>th_base = p, th_end = p + pagesize\<rparr>)
            else Inr h) of
        Inl e \<Rightarrow> Inl e
      | Inr h \<Rightarrow> Inr (th_base h, h\<lparr>th_base := th_base h + TRAMPOLINE_SIZE\<rparr>))"

text \<open>The blocks handed out so far and the rest of the current page do not overlap.\<close>

definition code_ok :: "nat set \<Rightarrow> trampoline_heap \<Rightarrow> bool" where
  "code_ok given h \<longleftrightarrow> th_base h \<le> th_end h
     \<and> (\<forall>p \<in> given. p + TRAMPOLINE_SIZE \<le> th_base h \<or> th_end h \<le> p)
     \<and> (\<forall>p \<in> given. \<forall>q \<in> given. p < q \<longrightarrow> p + TRAMPOLINE_SIZE \<le> q)"

lemma sml_alloc_code_ok:
  assumes "code_ok given h" "TRAMPOLINE_SIZE \<le> pagesize"
    and "\<And>q. mmap = Some q \<Longrightarrow> \<forall>p \<in> given. p + TRAMPOLINE_SIZE \<le> q \<or> q + pagesize \<le> p"
    and "sml_alloc_code pagesize mmap h = Inr (p, h')"
  shows "code_ok (insert p given) h' \<and> p \<notin> given"
proof -
  have "\<exists>h1. th_base h1 \<le> th_end h1 \<and> TRAMPOLINE_SIZE \<le> th_end h1 - th_base h1
    \<and> (\<forall>p \<in> given. p + TRAMPOLINE_SIZE \<le> th_base h1 \<or> th_end h1 \<le> p)
    \<and> p = th_base h1 \<and> h' = h1\<lparr>th_base := th_base h1 + TRAMPOLINE_SIZE\<rparr>"
  proof (cases "th_end h - th_base h < TRAMPOLINE_SIZE")
    case True
    then obtain q where q: "mmap = Some q" using assms(4) by (cases mmap) (simp_all add: sml_alloc_code_def)
    show ?thesis
      using assms(2,4) assms(3)[OF q] True q
      by (intro exI[of _ "\<lparr>th_base = q, th_end = q + pagesize\<rparr>"]) (auto simp: sml_alloc_code_def)
  next
    case False
    then show ?thesis using assms(1,4) by (intro exI[of _ h]) (auto simp: sml_alloc_code_def code_ok_def)
  qed
  then obtain h1 where h1: "th_base h1 \<le> th_end h1" "TRAMPOLINE_SIZE \<le> th_end h1 - th_base h1"
    "\<forall>p \<in> given. p + TRAMPOLINE_SIZE \<le> th_base h1 \<or> th_end h1 \<le> p"
    "p = th_base h1" "h' = h1\<lparr>th_base := th_base h1 + TRAMPOLINE_SIZE\<rparr>" by blast
  have d: "q + TRAMPOLINE_SIZE \<le> p \<or> p + TRAMPOLINE_SIZE \<le> q" if "q \<in> given" for q
    using h1 that by fastforce
  have "th_base h' \<le> th_end h'" using h1(1,2) by (simp add: h1(5))
  moreover have "q + TRAMPOLINE_SIZE \<le> th_base h' \<or> th_end h' \<le> q" if "q \<in> insert p given" for q
    using that h1(3) by (auto simp: h1(4,5))
  moreover have "q + TRAMPOLINE_SIZE \<le> r" if "q \<in> insert p given" "r \<in> insert p given" "q < r" for q r
    using that assms(1) d[of q] d[of r] by (auto simp: code_ok_def)
  ultimately have "code_ok (insert p given) h'" by (simp add: code_ok_def)
  moreover have "p \<notin> given" using d[of p] by (auto simp: TRAMPOLINE_SIZE_def)
  ultimately show ?thesis by blast
qed

section \<open>Lists of nodes\<close>

lemma callback_cmp_simps:
  "callback_cmp x y < 0 \<longleftrightarrow> cb_codeaddr x < cb_codeaddr y \<or> cb_codeaddr x = cb_codeaddr y \<and> cb_count x < cb_count y"
  "0 < callback_cmp x y \<longleftrightarrow> cb_codeaddr y < cb_codeaddr x \<or> cb_codeaddr x = cb_codeaddr y \<and> cb_count y < cb_count x"
  "callback_cmp x y = 0 \<longleftrightarrow> cb_codeaddr x = cb_codeaddr y \<and> cb_count x = cb_count y"
  by (auto simp: callback_cmp_def voidp_cmp_def Let_def)

interpretation callbacks: item_order callback_cmp
  by unfold_locales (auto simp: callback_cmp_simps)

definition entries :: "callbacks \<Rightarrow> nat \<Rightarrow> (node_addr \<times> callback_item) list" where
  "entries t codeaddr = filter (\<lambda>e. cb_codeaddr (snd e) = codeaddr) (tree_nodes t)"

text \<open>The entries of a code address are numbered in order and linked.\<close>

definition linked :: "(node_addr \<times> callback_item) list \<Rightarrow> bool" where
  "linked xs \<longleftrightarrow> (\<forall>i < length xs. cb_count (snd (xs ! i)) = i
     \<and> cb_next (snd (xs ! i)) = (if Suc i < length xs then Some (fst (xs ! Suc i)) else None))"

definition callbacks_ok :: "callbacks \<Rightarrow> bool" where
  "callbacks_ok t \<longleftrightarrow> tree_of callback_cmp t \<and> (\<forall>codeaddr. linked (entries t codeaddr))"

text \<open>What the table means: for a code address its entries, with environment and trampoline.\<close>

definition table :: "callbacks \<Rightarrow> nat \<Rightarrow> (node_addr \<times> nat \<times> nat) list" where
  "table t codeaddr = map (\<lambda>(a, x). (a, cb_env x, cb_trampoline x)) (entries t codeaddr)"

lemma tree_of_nodes:
  assumes "tree_of callback_cmp t"
  shows "distinct (map fst (tree_nodes t))" "sorted_wrt (\<lambda>e e'. callback_cmp (snd e) (snd e') < 0) (tree_nodes t)"
  using assms
  by (auto simp: tree_of_def tree_inv_def memory_ok_def node_addrs_def tree_nodes_def bst_def items_def sorted_wrt_map)

lemma node_at_iff: "tree_of callback_cmp t \<Longrightarrow> node_at t a = Some x \<longleftrightarrow> (a, x) \<in> set (tree_nodes t)"
  unfolding node_at_def by (rule map_of_eq_Some_iff) (rule tree_of_nodes)

lemma entries_nth: "i < length (entries t c) \<Longrightarrow> entries t c ! i \<in> set (tree_nodes t) \<and> cb_codeaddr (snd (entries t c ! i)) = c"
  unfolding entries_def using nth_mem by fastforce

lemma entries_length: "length (entries t c) \<le> length (tree_nodes t)"
  by (simp add: entries_def)

text \<open>A list with no equivalent item splits around the place of the item.\<close>

lemma absent_parts:
  assumes "tree_inv t" "same_item (t_cmp t) x (tree_nodes t) = None"
  shows "tree_nodes t = smaller (t_cmp t) x (tree_nodes t) @ larger (t_cmp t) x (tree_nodes t)"
proof -
  obtain n root L R where s: "splay_root (t_cmp t) x (t_root t) = (n, root, L, R)" by (metis prod_cases4)
  have inv: "item_order (t_cmp t)" "bst (t_cmp t) (t_root t)" using assms(1) by (simp_all add: tree_inv_def)
  from inv s show ?thesis
  proof (cases rule: splay_root_cases)
    case found then show ?thesis using assms(2) by (simp add: tree_nodes_def)
  next
    case absent show ?thesis unfolding tree_nodes_def by (rule absent(3))
  qed
qed


lemma find_key:
  assumes "callbacks_ok t" "cb_codeaddr key = c" "cb_count key = k" "sml_tree_find t key = (r, t')"
  shows "tree_of callback_cmp t'" "tree_nodes t' = tree_nodes t"
    "r = (if k < length (entries t c) then Some (entries t c ! k) else None)"
proof -
  have t: "tree_inv t" "t_cmp t = callback_cmp" "linked (entries t c)" and to: "tree_of callback_cmp t"
    using assms(1) by (simp_all add: callbacks_ok_def tree_of_def)
  note f = find_effect[OF t(1) assms(4)]
  show "tree_of callback_cmp t'" "tree_nodes t' = tree_nodes t" using f t(2) by (simp_all add: tree_of_def)
  have iff: "r = Some e \<longleftrightarrow> e \<in> set (entries t c) \<and> cb_count (snd e) = k" for e
    using f(4) same_item_iff[OF t(1), of key e] assms(2,3)
    by (auto simp: t(2) callback_cmp_simps entries_def)
  show "r = (if k < length (entries t c) then Some (entries t c ! k) else None)"
  proof (cases "k < length (entries t c)")
    case True then show ?thesis using iff[of "entries t c ! k"] t(3) by (simp add: linked_def)
  next
    case False
    have "r \<noteq> Some e" for e using iff[of e] t(3) False by (auto simp: linked_def in_set_conv_nth)
    then have "r = None" by (metis option.exhaust)
    then show ?thesis using False by simp
  qed
qed

text \<open>A new entry behind the others of its code address.\<close>

lemma insert_key:
  assumes "callbacks_ok t" "cb_codeaddr key = c" "cb_count key = length (entries t c)"
    and "sml_tree_insert t key = (r, t')"
  shows "\<exists>a. r = Some (a, key) \<and> tree_of callback_cmp t' \<and> a \<notin> fst ` set (tree_nodes t)
    \<and> entries t' c = entries t c @ [(a, key)] \<and> (\<forall>c'. c' \<noteq> c \<longrightarrow> entries t' c' = entries t c')"
proof -
  have t: "tree_inv t" "t_cmp t = callback_cmp" and l: "linked (entries t c)"
    using assms(1) by (simp_all add: callbacks_ok_def tree_of_def)
  let ?sm = "smaller callback_cmp key (tree_nodes t)" and ?lg = "larger callback_cmp key (tree_nodes t)"
  have none: "same_item callback_cmp key (tree_nodes t) = None"
  proof -
    have "callback_cmp key (snd e) \<noteq> 0" if "e \<in> set (tree_nodes t)" for e
    proof
      assume "callback_cmp key (snd e) = 0"
      then have "e \<in> set (entries t c)" "cb_count (snd e) = length (entries t c)"
        using that assms(2,3) by (auto simp: callback_cmp_simps entries_def)
      then show False using l by (auto simp: linked_def in_set_conv_nth)
    qed
    then show ?thesis unfolding same_item_def find_None_iff by blast
  qed
  have parts: "tree_nodes t = ?sm @ ?lg" using absent_parts[OF t(1), of key] none by (simp add: t(2))
  obtain a where a: "r = Some (a, key)" "tree_nodes t' = ?sm @ (a, key) # ?lg" "tree_inv t'" "t_cmp t' = callback_cmp"
    "a \<notin> fst ` set (tree_nodes t)"
    using insert_effect[OF t(1) assms(4)] by (auto simp: t(2) none)
  have lg: "filter (\<lambda>e. cb_codeaddr (snd e) = c) ?lg = []"
  proof -
    have "cb_codeaddr (snd e) \<noteq> c" if "e \<in> set ?lg" for e
    proof
      assume c: "cb_codeaddr (snd e) = c"
      have "e \<in> set (tree_nodes t)" "length (entries t c) < cb_count (snd e)"
        using that c assms(2,3) by (auto simp: list_ops callback_cmp_simps)
      moreover have "e \<in> set (entries t c)" using calculation(1) c by (simp add: entries_def)
      ultimately show False using l by (auto simp: linked_def in_set_conv_nth)
    qed
    then show ?thesis by (simp add: filter_empty_conv)
  qed
  have e: "entries t x = filter (\<lambda>e. cb_codeaddr (snd e) = x) ?sm @ filter (\<lambda>e. cb_codeaddr (snd e) = x) ?lg" for x
    unfolding entries_def by (subst parts) simp
  show ?thesis using a lg assms(2) by (auto simp: tree_of_def e) (auto simp: entries_def a(2))
qed

text \<open>Writing through a pointer.\<close>

definition upd :: "node_addr \<Rightarrow> ('a \<Rightarrow> 'a) \<Rightarrow> node_addr \<times> 'a \<Rightarrow> node_addr \<times> 'a" where
  "upd a f e = (if fst e = a then (a, f (snd e)) else e)"

lemma update_entries:
  assumes "tree_of callback_cmp t" "(a, x) \<in> set (tree_nodes t)"
    and f: "\<And>y. cb_codeaddr (f y) = cb_codeaddr y \<and> cb_count (f y) = cb_count y"
  shows "tree_of callback_cmp (update_at t a f)" "entries (update_at t a f) c = map (upd a f) (entries t c)"
    "tree_nodes (update_at t a f) = map (upd a f) (tree_nodes t)"
proof -
  have t: "tree_inv t" "t_cmp t = callback_cmp" using assms(1) by (simp_all add: tree_of_def)
  have u: "update_at t a f = tree_set_item t a (f x)"
    using assms(2) node_at_iff[OF assms(1), of a x] by (simp add: update_at_def)
  have c: "t_cmp t (f x) x = 0" using f by (simp add: t(2) callback_cmp_simps)
  note S = set_item_effect[OF t(1) assms(2) c]
  show "tree_of callback_cmp (update_at t a f)" using S(1) t(2) by (simp add: tree_of_def u tree_set_item_def)
  have only: "y = x" if "(a, y) \<in> set (tree_nodes t)" for y
    using eq_key_imp_eq_value[OF tree_of_nodes(1)[OF assms(1)] that assms(2)] .
  have "tree_nodes (update_at t a f) = map (\<lambda>(b, y). (b, if b = a then f x else y)) (tree_nodes t)"
    by (simp add: u tree_nodes_def tree_set_item_def inorder_set_item)
  also have "\<dots> = map (upd a f) (tree_nodes t)" using only by (auto simp: upd_def)
  finally show n: "tree_nodes (update_at t a f) = map (upd a f) (tree_nodes t)" .
  have "cb_codeaddr (snd (upd a f e)) = cb_codeaddr (snd e)" for e using f by (simp add: upd_def)
  then show "entries (update_at t a f) c = map (upd a f) (entries t c)"
    by (simp add: entries_def n filter_map comp_def)
qed

lemma upd_other: "a \<notin> fst ` set xs \<Longrightarrow> map (upd a f) xs = xs"
  by (rule map_idI) (auto simp: upd_def)


section \<open>Finding a callback\<close>

definition env_is :: "(nat \<Rightarrow> bool) \<Rightarrow> node_addr \<times> callback_item \<Rightarrow> bool" where
  "env_is E e \<longleftrightarrow> E (cb_env (snd e))"

lemma callback_loop_runs:
  assumes "tree_of callback_cmp t" "linked (entries t c)"
    and "\<forall>e \<in> set (entries t c). eq (cb_env (snd e)) = Inr (E (cb_env (snd e)))"
  shows "i < length (entries t c) \<Longrightarrow> length (entries t c) - i \<le> k \<Longrightarrow>
    callback_loop eq k t (fst (entries t c ! i)) i
      = Inr (case find (env_is E) (drop i (entries t c)) of
               Some e \<Rightarrow> Found (fst e)
             | None \<Rightarrow> Missing (fst (last (entries t c))) (length (entries t c)))"
proof (induction k arbitrary: i)
  case (Suc k)
  let ?xs = "entries t c"
  let ?x = "snd (?xs ! i)"
  have node: "node_at t (fst (?xs ! i)) = Some ?x"
    using entries_nth[OF Suc(2)] node_at_iff[OF assms(1)] by simp
  have eq: "eq (cb_env ?x) = Inr (E (cb_env ?x))" using assms(3) Suc(2) by simp
  have dr: "drop i ?xs = (?xs ! i) # drop (Suc i) ?xs" using Suc(2) by (simp add: Cons_nth_drop_Suc)
  show ?case
  proof (cases "E (cb_env ?x)")
    case True
    then have "env_is E (?xs ! i)" by (simp add: env_is_def)
    then show ?thesis using True by (simp add: node eq dr)
  next
    case False
    then have ne: "\<not> env_is E (?xs ! i)" by (simp add: env_is_def)
    have nx: "cb_next ?x = (if Suc i < length ?xs then Some (fst (?xs ! Suc i)) else None)"
      using assms(2) Suc(2) by (simp add: linked_def)
    show ?thesis
    proof (cases "Suc i < length ?xs")
      case True
      then show ?thesis using Suc(1)[of "Suc i"] Suc(3) False ne nx by (simp add: node eq dr)
    next
      case last: False
      then have n: "length ?xs = Suc i" using Suc(2) by linarith
      then have "?xs \<noteq> []" by force
      then have l: "?xs ! i = last ?xs" using last_conv_nth n by force
      show ?thesis using False ne nx last node eq dr by (simp add: l n)
    qed
  qed
qed simp

lemma linked_append:
  assumes "linked (ys @ [(b, x)])" "cb_count y = Suc (length ys)" "cb_next y = None"
  shows "linked (ys @ [(b, x\<lparr>cb_next := Some a\<rparr>), (a, y)])"
  unfolding linked_def
proof (intro allI impI)
  fix i
  let ?xs = "ys @ [(b, x)]" and ?zs = "ys @ [(b, x\<lparr>cb_next := Some a\<rparr>), (a, y)]"
  assume i: "i < length ?zs"
  have old: "cb_count (snd (?xs ! i)) = i \<and> cb_next (snd (?xs ! i)) = (if Suc i < length ?xs then Some (fst (?xs ! Suc i)) else None)"
    if "i < length ?xs" using assms(1) that by (simp add: linked_def)
  consider "i < length ys" | "i = length ys" | "i = Suc (length ys)" using i by force
  then show "cb_count (snd (?zs ! i)) = i \<and> cb_next (snd (?zs ! i)) = (if Suc i < length ?zs then Some (fst (?zs ! Suc i)) else None)"
  proof cases
    case 1
    have "fst (?xs ! Suc i) = fst (?zs ! Suc i)" using 1 by (auto simp: nth_append less_Suc_eq)
    moreover have "?xs ! i = ?zs ! i" using 1 by (simp add: nth_append)
    ultimately show ?thesis using old 1 by simp
  next
    case 2 then show ?thesis using old by (simp add: nth_append)
  next
    case 3 then show ?thesis using assms(2,3) by (simp add: nth_append)
  qed
qed


lemma entries_disjoint:
  assumes "tree_of callback_cmp t" "c' \<noteq> c" "e \<in> set (entries t c)"
  shows "fst e \<notin> fst ` set (entries t c')"
proof
  assume "fst e \<in> fst ` set (entries t c')"
  then obtain e' where e': "e' \<in> set (tree_nodes t)" "fst e' = fst e" "cb_codeaddr (snd e') = c'"
    by (auto simp: entries_def)
  have e: "e \<in> set (tree_nodes t)" "cb_codeaddr (snd e) = c" using assms(3) by (simp_all add: entries_def)
  have "snd e' = snd e"
    using eq_key_imp_eq_value[OF tree_of_nodes(1)[OF assms(1)], of "fst e" "snd e'" "snd e"] e e'
    by (metis prod.collapse)
  then show False using e e' assms(2) by simp
qed

lemma table_addrs: "fst ` set (table t c) \<subseteq> fst ` set (tree_nodes t)"
  by (force simp: table_def entries_def)

text \<open>The three ways \<open>sml_find_callback\<close> goes.\<close>

lemma find_callback_first:
  assumes "callbacks_ok t" "entries t c = []"
  shows "\<exists>a t'. sml_find_callback junk n icmp m t c env = Inr (a, t') \<and> callbacks_ok t'
    \<and> table t' = (table t)(c := [(a, env, 0)]) \<and> (\<forall>c'. a \<notin> fst ` set (table t c'))"
proof -
  let ?key = "junk\<lparr>cb_codeaddr := c, cb_count := 0\<rparr>" and ?new = "new_callback c env"
  obtain r t1 where f: "sml_tree_find t ?key = (r, t1)" by (metis surj_pair)
  note F = find_key[OF assms(1) _ _ f, where c = c and k = 0]
  have r: "r = None" and n1: "tree_nodes t1 = tree_nodes t" "tree_of callback_cmp t1" using F assms(2) by simp_all
  have e1: "entries t1 = entries t" using n1(1) by (simp add: entries_def fun_eq_iff)
  have ok1: "callbacks_ok t1" using assms(1) n1(2) e1 by (simp add: callbacks_ok_def)
  obtain r2 t2 where i: "sml_tree_insert t1 ?key = (r2, t2)" by (metis surj_pair)
  obtain a where a: "r2 = Some (a, ?key)" "tree_of callback_cmp t2" "a \<notin> fst ` set (tree_nodes t)"
    "entries t2 c = [(a, ?key)]" "\<forall>c'. c' \<noteq> c \<longrightarrow> entries t2 c' = entries t c'"
    using insert_key[OF ok1 _ _ i, of c] assms(2) by (auto simp: e1 n1(1))
  have mem: "(a, ?key) \<in> set (tree_nodes t2)" using a(4) by (metis entries_nth length_Cons nth_Cons_0 zero_less_Suc)
  define t3 where "t3 = tree_set_item t2 a (?new ?key)"
  have run: "sml_find_callback junk n icmp m t c env = Inr (a, t3)"
    using f r i a(1) node_at_iff[OF a(2), of a ?key] mem by (simp add: sml_find_callback_def update_at_def t3_def)
  have u3: "t3 = update_at t2 a (\<lambda>y. y\<lparr>cb_trampoline := 0, cb_env := env, cb_next := None\<rparr>)"
    using node_at_iff[OF a(2), of a ?key] mem by (cases junk) (simp add: update_at_def t3_def new_callback_def)
  note U = update_entries[OF a(2) mem, of "\<lambda>y. y\<lparr>cb_trampoline := 0, cb_env := env, cb_next := None\<rparr>", simplified, folded u3]
  have ec: "entries t3 c = [(a, ?key\<lparr>cb_trampoline := 0, cb_env := env, cb_next := None\<rparr>)]"
    by (simp add: U(2) a(4) upd_def)
  have eo: "entries t3 c' = entries t c'" if "c' \<noteq> c" for c'
  proof -
    have "a \<notin> fst ` set (entries t c')" using a(3) by (auto simp: entries_def)
    then show ?thesis using that a(5) by (simp add: U(2) upd_other)
  qed
  have "linked (entries t3 c')" for c'
    using ec eo[of c'] assms(1) by (cases "c' = c") (simp_all add: linked_def callbacks_ok_def)
  then have "callbacks_ok t3" using U(1) by (simp add: callbacks_ok_def)
  moreover have "table t3 = (table t)(c := [(a, env, 0)])"
    using ec eo by (simp add: table_def fun_eq_iff)
  moreover have "\<forall>c'. a \<notin> fst ` set (table t c')" using a(3) table_addrs by blast
  ultimately show ?thesis using run by blast
qed

lemma find_callback_same:
  assumes "callbacks_ok t" "find (env_is E) (entries t c) = Some e"
    and "\<forall>e \<in> set (entries t c). sml_obj_equal n icmp m env (cb_env (snd e)) = Inr (E (cb_env (snd e)))"
  shows "\<exists>t'. sml_find_callback junk n icmp m t c env = Inr (fst e, t') \<and> callbacks_ok t' \<and> table t' = table t"
proof -
  let ?key = "junk\<lparr>cb_codeaddr := c, cb_count := 0\<rparr>"
  obtain r t1 where f: "sml_tree_find t ?key = (r, t1)" by (metis surj_pair)
  note F = find_key[OF assms(1) _ _ f, where c = c and k = 0]
  have ne: "entries t c \<noteq> []" using assms(2) by auto
  then have r: "r = Some (entries t c ! 0)" and n1: "tree_nodes t1 = tree_nodes t" "tree_of callback_cmp t1" using F by simp_all
  have e1: "entries t1 = entries t" using n1(1) by (simp add: entries_def fun_eq_iff)
  have ok1: "callbacks_ok t1" using assms(1) n1(2) e1 by (simp add: callbacks_ok_def)
  have l1: "linked (entries t1 c)" using ok1 by (simp add: callbacks_ok_def)
  have "callback_loop (sml_obj_equal n icmp m env) (length (tree_nodes t1)) t1 (fst (entries t1 c ! 0)) 0 = Inr (Found (fst e))"
    using callback_loop_runs[OF n1(2) l1, of "sml_obj_equal n icmp m env" E 0 "length (tree_nodes t1)"]
      assms(2,3) ne entries_length[of t c] by (simp add: e1 n1(1))
  then have "sml_find_callback junk n icmp m t c env = Inr (fst e, t1)"
    using f r by (cases "entries t c ! 0") (simp add: sml_find_callback_def e1)
  then show ?thesis using ok1 by (simp add: table_def e1 fun_eq_iff)
qed


lemma find_callback_append:
  assumes "callbacks_ok t" "find (env_is E) (entries t c) = None" "entries t c = ys @ [(b, x)]"
    and "\<forall>e \<in> set (entries t c). sml_obj_equal n icmp m env (cb_env (snd e)) = Inr (E (cb_env (snd e)))"
  shows "\<exists>a t'. sml_find_callback junk n icmp m t c env = Inr (a, t') \<and> callbacks_ok t'
    \<and> table t' = (table t)(c := table t c @ [(a, env, 0)]) \<and> (\<forall>c'. a \<notin> fst ` set (table t c'))"
proof -
  let ?xs = "entries t c" and ?k = "Suc (length ys)"
  let ?first = "junk\<lparr>cb_codeaddr := c, cb_count := 0\<rparr>" and ?key = "junk\<lparr>cb_codeaddr := c, cb_count := Suc (length ys)\<rparr>"
  let ?link = "\<lambda>a y. y\<lparr>cb_next := Some a\<rparr>" and ?new = "\<lambda>y. y\<lparr>cb_trampoline := 0, cb_env := env, cb_next := None\<rparr>"
  obtain r t1 where f: "sml_tree_find t ?first = (r, t1)" by (metis surj_pair)
  note F = find_key[OF assms(1) _ _ f, where c = c and k = 0]
  have r: "r = Some (?xs ! 0)" and n1: "tree_nodes t1 = tree_nodes t" "tree_of callback_cmp t1"
    using F assms(3) by simp_all
  have e1: "entries t1 = entries t" using n1(1) by (simp add: entries_def fun_eq_iff)
  have ok1: "callbacks_ok t1" using assms(1) n1(2) e1 by (simp add: callbacks_ok_def)
  have l1: "linked (entries t1 c)" using ok1 by (simp add: callbacks_ok_def)
  have loop: "callback_loop (sml_obj_equal n icmp m env) (length (tree_nodes t1)) t1 (fst (?xs ! 0)) 0 = Inr (Missing b ?k)"
    using callback_loop_runs[OF n1(2) l1, of "sml_obj_equal n icmp m env" E 0 "length (tree_nodes t1)"]
      assms(2,4) entries_length[of t c] by (simp add: e1 n1(1) assms(3))
  obtain r2 t2 where i: "sml_tree_insert t1 ?key = (r2, t2)" by (metis surj_pair)
  obtain a where a: "r2 = Some (a, ?key)" "tree_of callback_cmp t2" "a \<notin> fst ` set (tree_nodes t)"
    "entries t2 c = ?xs @ [(a, ?key)]" "\<forall>c'. c' \<noteq> c \<longrightarrow> entries t2 c' = entries t c'"
    using insert_key[OF ok1 _ _ i, of c] by (auto simp: e1 n1(1) assms(3))
  have "set (entries t2 c) \<subseteq> set (tree_nodes t2)" by (auto simp: entries_def)
  then have memb: "(b, x) \<in> set (tree_nodes t2)" and mema: "(a, ?key) \<in> set (tree_nodes t2)"
    using a(4) assms(3) by simp_all
  define t3 where "t3 = update_at t2 b (?link a)"
  note U = update_entries[OF a(2) memb, of "?link a", simplified, folded t3_def]
  have ab: "a \<noteq> b"
  proof
    assume "a = b"
    moreover have "(b, x) \<in> set (entries t c)" by (simp add: assms(3))
    ultimately show False using a(3) by (force simp: entries_def)
  qed
  have mem3: "(a, ?key) \<in> set (tree_nodes t3)" using mema ab by (force simp: U(3) upd_def image_iff)
  define t4 where "t4 = update_at t3 a (new_callback c env)"
  have u4: "t4 = update_at t3 a ?new"
    using node_at_iff[OF U(1), of a ?key] mem3 by (cases junk) (simp add: update_at_def t4_def new_callback_def)
  note V = update_entries[OF U(1) mem3, of ?new, simplified, folded u4]
  have run: "sml_find_callback junk n icmp m t c env = Inr (a, t4)"
    using f r i a(1) loop by (cases "?xs ! 0") (simp add: sml_find_callback_def t3_def t4_def Let_def)
  have d: "distinct (map fst (ys @ [(b, x)]))"
    using tree_of_nodes(1)[of t] assms(1,3) by (metis callbacks_ok_def distinct_map_filter entries_def)
  have "set (entries t c) \<subseteq> set (tree_nodes t)" by (auto simp: entries_def)
  then have na: "a \<notin> fst ` set ys" "a \<noteq> b" using a(3) by (force simp: assms(3))+
  have ys: "map (upd b f) ys = ys" "map (upd a f) ys = ys" for f
    using d na by (auto intro!: upd_other)
  have ec: "entries t4 c = ys @ [(b, x\<lparr>cb_next := Some a\<rparr>), (a, ?new ?key)]"
    using ab by (simp add: V(2) U(2) a(4) assms(3) ys upd_def)
  have eo: "entries t4 c' = entries t c'" if "c' \<noteq> c" for c'
  proof -
    have "a \<notin> fst ` set (entries t c')" using a(3) by (auto simp: entries_def)
    moreover have "b \<notin> fst ` set (entries t c')"
      using entries_disjoint[of t c' c "(b, x)"] assms(1,3) that by (simp add: callbacks_ok_def)
    ultimately show ?thesis using that a(5) by (simp add: V(2) U(2) upd_other)
  qed
  have "linked (ys @ [(b, x)])" using assms(1,3) by (metis callbacks_ok_def)
  then have "linked (entries t4 c)" unfolding ec by (rule linked_append) simp_all
  then have "linked (entries t4 c')" for c'
    using eo[of c'] assms(1) by (cases "c' = c") (simp_all add: callbacks_ok_def)
  then have "callbacks_ok t4" using V(1) by (simp add: callbacks_ok_def)
  moreover have "table t4 = (table t)(c := table t c @ [(a, env, 0)])"
    using ec eo by (simp add: table_def fun_eq_iff assms(3))
  moreover have "\<forall>c'. a \<notin> fst ` set (table t c')" using a(3) table_addrs by blast
  ultimately show ?thesis using run by blast
qed


lemma sml_callback_init_ok: "callbacks_ok sml_callback_init" "table sml_callback_init c = []"
proof -
  have n: "tree_nodes sml_callback_init = []" by (simp add: sml_callback_init_def tree_nodes_def sml_tree_new_def)
  have "tree_inv sml_callback_init"
    unfolding sml_callback_init_def
    by (rule tree_inv_new[OF callbacks.item_order_axioms])
      (simp_all add: SIZEOF_NODE_def NODE_SIZE_def NODE_OFFSET_def CEILING_def CHUNK_SIZE_def)
  moreover have "t_cmp sml_callback_init = callback_cmp" by (simp add: sml_callback_init_def sml_tree_new_def)
  ultimately show "callbacks_ok sml_callback_init"
    by (simp add: callbacks_ok_def tree_of_def entries_def n linked_def)
  show "table sml_callback_init c = []" by (simp add: table_def entries_def n)
qed

section \<open>Enumerating the environments\<close>

lemma chain_runs:
  assumes "tree_of callback_cmp t" "linked (entries t c)"
  shows "i < length (entries t c) \<Longrightarrow> length (entries t c) - i \<le> k \<Longrightarrow>
    chain k t (snd (entries t c ! i)) = Some (map snd (drop i (entries t c)))"
proof (induction k arbitrary: i)
  case (Suc k)
  let ?xs = "entries t c"
  have nx: "cb_next (snd (?xs ! i)) = (if Suc i < length ?xs then Some (fst (?xs ! Suc i)) else None)"
    using assms(2) Suc(2) by (simp add: linked_def)
  have dr: "drop i ?xs = (?xs ! i) # drop (Suc i) ?xs" using Suc(2) by (simp add: Cons_nth_drop_Suc)
  show ?case
  proof (cases "Suc i < length ?xs")
    case True
    have "node_at t (fst (?xs ! Suc i)) = Some (snd (?xs ! Suc i))"
      using entries_nth[OF True] node_at_iff[OF assms(1)] by simp
    then show ?thesis using Suc(1)[of "Suc i"] Suc(3) True nx by (simp add: dr)
  next
    case False then show ?thesis using nx Suc(2) by (simp add: dr)
  qed
qed simp

lemma trace_each_visits:
  assumes "callbacks_ok t" "e \<in> set (tree_nodes t)"
  shows "\<exists>es. trace_each t fn (snd e) (Some s) = Some (fold fn es s) \<and> cb_env (snd e) \<in> set es
    \<and> set es \<subseteq> cb_env ` snd ` set (tree_nodes t)"
proof -
  let ?c = "cb_codeaddr (snd e)"
  have t: "tree_of callback_cmp t" "linked (entries t ?c)" using assms(1) by (simp_all add: callbacks_ok_def)
  have "e \<in> set (entries t ?c)" using assms(2) by (simp add: entries_def)
  then obtain i where i: "i < length (entries t ?c)" "e = entries t ?c ! i" by (metis in_set_conv_nth)
  let ?es = "map cb_env (map snd (drop i (entries t ?c)))"
  have c: "chain (length (tree_nodes t)) t (snd e) = Some (map snd (drop i (entries t ?c)))"
    using chain_runs[OF t i(1)] entries_length[of t ?c] i(2) by simp
  have "trace_each t fn (snd e) (Some s) = Some (fold fn ?es s)"
    by (simp add: trace_each_def c fold_map comp_def)
  moreover have "e \<in> set (drop i (entries t ?c))" using i by (metis Cons_nth_drop_Suc list.set_intros(1))
  then have "cb_env (snd e) \<in> set ?es" by simp
  moreover have "set (drop i (entries t ?c)) \<subseteq> set (tree_nodes t)" using set_drop_subset by (fastforce simp: entries_def)
  then have "set ?es \<subseteq> cb_env ` snd ` set (tree_nodes t)" by auto
  ultimately show ?thesis by blast
qed

lemma trace_fold:
  assumes "callbacks_ok t" "set es \<subseteq> set (tree_nodes t)"
  shows "\<exists>envs. fold (trace_each t fn) (map snd es) (Some s) = Some (fold fn envs s)
    \<and> cb_env ` snd ` set es \<subseteq> set envs \<and> set envs \<subseteq> cb_env ` snd ` set (tree_nodes t)"
  using assms(2)
proof (induction es arbitrary: s)
  case Nil show ?case by (rule exI[of _ "[]"]) simp
next
  case (Cons e es)
  obtain xs where x: "trace_each t fn (snd e) (Some s) = Some (fold fn xs s)" "cb_env (snd e) \<in> set xs"
    "set xs \<subseteq> cb_env ` snd ` set (tree_nodes t)"
    using trace_each_visits[OF assms(1), of e] Cons(2) by (metis list.set_intros(1) subset_iff)
  obtain ys where y: "fold (trace_each t fn) (map snd es) (Some (fold fn xs s)) = Some (fold fn ys (fold fn xs s))"
    "cb_env ` snd ` set es \<subseteq> set ys" "set ys \<subseteq> cb_env ` snd ` set (tree_nodes t)"
    using Cons(1)[of "fold fn xs s"] Cons(2) by auto
  have "fold (trace_each t fn) (map snd (e # es)) (Some s) = Some (fold fn (xs @ ys) s)" by (simp add: x(1) y(1))
  moreover have "cb_env ` snd ` set (e # es) \<subseteq> set (xs @ ys)" using x(2) y(2) by auto
  moreover have "set (xs @ ys) \<subseteq> cb_env ` snd ` set (tree_nodes t)" using x(3) y(3) by simp
  ultimately show ?case by blast
qed

lemma find_of_map: "find P (map f xs) = map_option f (find (\<lambda>x. P (f x)) xs)"
  by (induction xs) simp_all

lemma table_envs: "cb_env ` snd ` set (tree_nodes t) = (\<Union>c. (\<lambda>(a, e, tr). e) ` set (table t c))"
  by (force simp: table_def entries_def)

section \<open>Properties\<close>

text \<open>C13.  The callback table interns closures: \<open>sml_find_callback\<close> returns, whatever the search key
  holds at first, the entry of the first earlier callback with the same code address whose
  environment stands for the same value, and then changes nothing; if there is none it appends a new
  entry, with no trampoline yet, at an address no entry has.  The links and numbers of the entries
  stay consistent.\<close>

theorem callback_table:
  assumes "callbacks_ok t" "unfold n ival m env = Some v"
    and "\<forall>(a, e, tr) \<in> set (table t c). unfold n ival m e \<noteq> None"
    and "\<forall>x y. intinf_cmp x y = 0 \<longleftrightarrow> ival x = ival y"
  shows "\<exists>a t'. sml_find_callback junk n intinf_cmp m t c env = Inr (a, t') \<and> callbacks_ok t'
    \<and> (case find (\<lambda>(b, e, tr). unfold n ival m e = Some v) (table t c) of
         Some (b, e, tr) \<Rightarrow> a = b \<and> table t' = table t
       | None \<Rightarrow> table t' = (table t)(c := table t c @ [(a, env, 0)]) \<and> (\<forall>c'. a \<notin> fst ` set (table t c')))"
proof -
  define E where "E e \<longleftrightarrow> unfold n ival m e = Some v" for e
  have eq: "\<forall>x \<in> set (entries t c). sml_obj_equal n intinf_cmp m env (cb_env (snd x)) = Inr (E (cb_env (snd x)))"
  proof
    fix x assume x: "x \<in> set (entries t c)"
    then have "(fst x, cb_env (snd x), cb_trampoline (snd x)) \<in> set (table t c)" by (force simp: table_def)
    then obtain w where w: "unfold n ival m (cb_env (snd x)) = Some w" using assms(3) by fastforce
    show "sml_obj_equal n intinf_cmp m env (cb_env (snd x)) = Inr (E (cb_env (snd x)))"
      using equal_decides[OF assms(2) w] assms(4) by (auto simp: E_def w)
  qed
  have tf: "find (\<lambda>(b, e, tr). unfold n ival m e = Some v) (table t c)
      = map_option (\<lambda>(a, x). (a, cb_env x, cb_trampoline x)) (find (env_is E) (entries t c))"
    unfolding table_def find_of_map
    by (rule arg_cong[where f = "\<lambda>P. map_option _ (find P _)"]) (simp add: fun_eq_iff env_is_def E_def)
  show ?thesis
  proof (cases "find (env_is E) (entries t c)")
    case (Some e)
    then have f: "find (\<lambda>(b, e, tr). unfold n ival m e = Some v) (table t c)
        = Some (fst e, cb_env (snd e), cb_trampoline (snd e))"
      unfolding tf Some by (simp add: case_prod_unfold)
    show ?thesis unfolding f option.case prod.case using find_callback_same[OF assms(1) Some eq, of junk] by blast
  next
    case None
    then have n: "find (\<lambda>(b, e, tr). unfold n ival m e = Some v) (table t c) = None" unfolding tf None by simp
    show ?thesis
    proof (cases "entries t c" rule: rev_cases)
      case Nil
      then have "table t c = []" by (simp add: table_def)
      then show ?thesis using find_callback_first[OF assms(1) Nil] n by simp
    next
      case (snoc ys y)
      then show ?thesis using find_callback_append[OF assms(1) None _ eq, of ys "fst y" "snd y"] n by simp
    qed
  qed
qed

text \<open>C35.  The collector's visit of the callbacks returns and passes every environment of the table to
  the tracing function, and nothing else.\<close>

theorem callback_roots:
  assumes "callbacks_ok t"
  shows "\<exists>envs. sml_callback_enum_ptr t fn s = Some (fold fn envs s)
    \<and> set envs = (\<Union>c. (\<lambda>(a, e, tr). e) ` set (table t c))"
proof -
  have "sml_callback_enum_ptr t fn s = fold (trace_each t fn) (map snd (tree_nodes t)) (Some s)"
    by (simp add: sml_callback_enum_ptr_def sml_tree_each_def each_loop_fold items_def tree_nodes_def)
  then show ?thesis using trace_fold[OF assms subset_refl, of fn s] unfolding table_envs[symmetric] by auto
qed

definition sample_key :: callback_item where
  "sample_key = \<lparr>cb_trampoline = 1, cb_env = 1, cb_codeaddr = 1, cb_count = 1, cb_next = None\<rparr>"

lemma sample_callbacks:
  assumes "callbacks_ok t" "\<forall>(a, e, tr) \<in> set (table t 100). e = 24" "env \<in> {24, 40}"
  shows "unfold 2 int sample_objects env = Some (VFields [FObj (VBytes [65, 0])])"
    "\<forall>(a, e, tr) \<in> set (table t 100). unfold 2 int sample_objects e \<noteq> None"
  using sample_unfold[of 0] assms(2,3) by (fastforce simp: numeral_2_eq_2)+

theorem callback_table_witness:
  "\<exists>a t1 t2. sml_find_callback sample_key 2 (\<lambda>x y. int x - int y) sample_objects sml_callback_init 100 24 = Inr (a, t1)
     \<and> sml_find_callback sample_key 2 (\<lambda>x y. int x - int y) sample_objects t1 100 40 = Inr (a, t2)"
proof -
  let ?cmp = "\<lambda>x y. int x - int y"
  note init = sml_callback_init_ok(1) sml_callback_init_ok(2)[of 100]
  have i: "\<forall>(a, e, tr) \<in> set (table sml_callback_init 100). e = 24" by (simp add: init(2))
  obtain a t1 where t1: "sml_find_callback sample_key 2 ?cmp sample_objects sml_callback_init 100 24 = Inr (a, t1)"
    "callbacks_ok t1" "table t1 100 = [(a, 24, 0)]"
    using callback_table[OF init(1) sample_callbacks[OF init(1) i, of 24], of ?cmp sample_key] by (auto simp: init(2))
  have s: "\<forall>(a, e, tr) \<in> set (table t1 100). e = 24" by (simp add: t1(3))
  have v: "unfold 2 int sample_objects 24 = Some (VFields [FObj (VBytes [65, 0])])"
    using sample_callbacks(1)[OF t1(2) s, of 24] by simp
  obtain t2 where "sml_find_callback sample_key 2 ?cmp sample_objects t1 100 40 = Inr (a, t2)"
    using callback_table[OF t1(2) sample_callbacks[OF t1(2) s, of 40], of ?cmp sample_key] by (auto simp: t1(3) v)
  then show ?thesis using t1(1) by blast
qed

theorem callback_roots_witness:
  "\<exists>a t1. sml_find_callback sample_key 2 (\<lambda>x y. int x - int y) sample_objects sml_callback_init 100 24 = Inr (a, t1)
     \<and> (\<exists>envs. sml_callback_enum_ptr t1 (#) [] = Some envs \<and> 24 \<in> set envs)"
proof -
  obtain a t1 where t1: "sml_find_callback sample_key 2 (\<lambda>x y. int x - int y) sample_objects sml_callback_init 100 24 = Inr (a, t1)"
    "callbacks_ok t1" "table t1 100 = [(a, 24, 0)]"
    using find_callback_first[OF sml_callback_init_ok(1), of 100 sample_key 2 _ sample_objects 24]
      sml_callback_init_ok(2)[of 100] by (fastforce simp: table_def)
  obtain envs where e: "sml_callback_enum_ptr t1 (#) [] = Some (fold (#) envs [])"
    "set envs = (\<Union>c. (\<lambda>(a, e, tr). e) ` set (table t1 c))"
    using callback_roots[OF t1(2), of "(#)" "[]"] by blast
  have "24 \<in> (\<lambda>(a, e, tr). e) ` set (table t1 100)" by (simp add: t1(3))
  then have "24 \<in> set envs" unfolding e(2) by blast
  moreover have "set (fold (#) envs []) = set envs" by (simp add: fold_Cons_rev)
  ultimately show ?thesis using t1(1) e(1) by auto
qed

end
