(* ===== verification/Control.thy ===== *)
theory Control
  imports Phase
begin

unbundle bit_operations_syntax

text \<open>
  Workers, users and the handshakes of the collector (control.c).

  A worker context has a state word (phase, lock bit, helper bit) and flags; a user context has
  flags, its worker and the stack of frame ranges.  The contexts live in maps from addresses, 0 is
  NULL.  The global variables are the fields of \<open>control\<close>: the tagged pointers \<open>workers_available\<close> and
  \<open>workers_handshake\<close> are a list and a word each.  The thread local variables of the running thread are
  \<open>thread\<close>.  Calls into the heap (heap_concurrent.c) and the finalizers are recorded in \<open>c_calls\<close>, the
  latest first; what they answer, allocation results and what other threads do meanwhile are the
  fields of \<open>world\<close>.  A function here is one thread's run of the C function; a place where it has
  to wait for another thread ends in \<open>Inl\<close> with the state reached.  The theory of handshakes takes the
  same functions apart into their atomic steps.
\<close>

section \<open>State words and flags\<close>

definition phase_word :: "sml_sync_phase \<Rightarrow> u32" where "phase_word p = of_nat (phase_num p)"

definition PHASE_MASK :: u32 where "PHASE_MASK = 0x07"
definition INACTIVE_STATE :: u32 where "INACTIVE_STATE = 0x10"
definition HELPER_STATE :: u32 where "HELPER_STATE = 0x20"
definition PHASE :: "u32 \<Rightarrow> u32" where "PHASE state = state AND PHASE_MASK"
definition ACTIVE :: "u32 \<Rightarrow> u32" where "ACTIVE phase = phase"
definition INACTIVE :: "u32 \<Rightarrow> u32" where "INACTIVE phase = phase OR INACTIVE_STATE"
definition IS_ACTIVE :: "u32 \<Rightarrow> bool" where "IS_ACTIVE state \<longleftrightarrow> state AND INACTIVE_STATE = 0"
definition BUSY_FLAG :: u32 where "BUSY_FLAG = 0x01"
definition CANCELED_FLAG :: u32 where "CANCELED_FLAG = 0x02"
definition DEAD_FLAG :: u32 where "DEAD_FLAG = 0x04"
definition GLOBALENUM_FLAG :: u32 where "GLOBALENUM_FLAG = 0x08"
definition PTHREAD_FLAG :: u32 where "PTHREAD_FLAG = 0x10"

text \<open>One attempt; the weak compare-and-swap may fail for no reason (\<open>lucky\<close> false).\<close>

definition acquire_bit :: "bool \<Rightarrow> u32 \<Rightarrow> u32 \<Rightarrow> bool \<times> u32" where
  "acquire_bit lucky flags bt =
     (if flags AND bt \<noteq> 0 then (False, flags) else if lucky then (True, flags OR bt) else (False, flags))"

definition acquire_unbit :: "bool \<Rightarrow> u32 \<Rightarrow> u32 \<Rightarrow> bool \<times> u32" where
  "acquire_unbit lucky flags bt =
     (if flags AND bt = 0 then (False, flags) else if lucky then (True, flags AND NOT bt) else (False, flags))"

section \<open>Contexts\<close>

record frame_stack_range =
  r_bottom :: nat
  r_top :: nat

record sml_user =
  u_flags :: u32
  u_worker :: nat
  u_stack :: "frame_stack_range list"
  u_exn_object :: nat

record sml_worker =
  w_state :: u32
  w_flags :: u32
  w_users :: "nat list"
  w_current_user :: nat
  w_allocator :: nat
  w_check_hook :: nat

datatype heap_call =
    User_Sync2 nat nat | Worker_Sync2 nat | Global_Sync2 nat | Worker_Mark nat | Run_Finalizer
  | Before_Async | Worker_Async nat | Global_Async | Worker_Kill nat | Worker_Register nat u32

record control =
  c_worker :: "nat \<Rightarrow> sml_worker"
  c_user :: "nat \<Rightarrow> sml_user"
  c_available :: "nat list"
  c_phase :: u32
  c_handshake :: "nat list"
  c_stamp :: u32
  c_check_flag :: u32
  c_gc_count :: "64 word"
  c_calls :: "heap_call list"

record thread =
  t_worker :: nat
  t_user :: nat
  t_myth :: bool

text \<open>
  The answers of the outside: fuel for loops; what other threads do to the users before the k-th
  attempt to lock one, and whether the attempt has luck; whether marking is finished; memory for a
  worker (allocator, worker, user) and for a user; whether the lock of a migrating user was held at
  first; whether the swap of the handshake list succeeds; the effect of a check hook, with the
  exception it raises; what happens before each poll of a waiting thread.
\<close>

record world =
  o_fuel :: nat
  o_env :: "nat \<Rightarrow> (nat \<Rightarrow> sml_user) \<Rightarrow> nat \<Rightarrow> sml_user"
  o_lucky :: "nat \<Rightarrow> bool"
  o_finish :: "heap_call list \<Rightarrow> bool"
  o_init :: "(nat \<times> nat \<times> nat) option"
  o_new_user :: "nat option"
  o_held :: bool
  o_swap :: bool
  o_hook :: "nat \<Rightarrow> thread \<times> control \<Rightarrow> nat \<times> thread \<times> control"
  o_others :: "nat \<Rightarrow> control \<Rightarrow> control"

datatype stop = Spin | Yield_Retry | Sleep_Forever | Fatal | Out_Of_Fuel

type_synonym 'a run = "stop \<times> control + 'a"

abbreviation upd_worker :: "nat \<Rightarrow> (sml_worker \<Rightarrow> sml_worker) \<Rightarrow> control \<Rightarrow> control" where
  "upd_worker w f c \<equiv> c\<lparr>c_worker := (c_worker c)(w := f (c_worker c w))\<rparr>"

abbreviation upd_user :: "nat \<Rightarrow> (sml_user \<Rightarrow> sml_user) \<Rightarrow> control \<Rightarrow> control" where
  "upd_user u f c \<equiv> c\<lparr>c_user := (c_user c)(u := f (c_user c u))\<rparr>"

abbreviation state_of :: "control \<Rightarrow> nat \<Rightarrow> u32" where "state_of c w \<equiv> w_state (c_worker c w)"
abbreviation flags_of :: "control \<Rightarrow> nat \<Rightarrow> u32" where "flags_of c w \<equiv> w_flags (c_worker c w)"

definition set_state :: "nat \<Rightarrow> u32 \<Rightarrow> control \<Rightarrow> control" where
  "set_state w s c = upd_worker w (\<lambda>x. x\<lparr>w_state := s\<rparr>) c"

definition set_flags :: "nat \<Rightarrow> u32 \<Rightarrow> control \<Rightarrow> control" where
  "set_flags w f c = upd_worker w (\<lambda>x. x\<lparr>w_flags := f\<rparr>) c"

definition heap_call :: "heap_call \<Rightarrow> control \<Rightarrow> control" where
  "heap_call h c = c\<lparr>c_calls := h # c_calls c\<rparr>"

definition IS_PTHREAD :: "control \<Rightarrow> nat \<Rightarrow> bool" where
  "IS_PTHREAD c worker \<longleftrightarrow> flags_of c worker AND PTHREAD_FLAG \<noteq> 0"

definition dead :: "control \<Rightarrow> nat \<Rightarrow> bool" where
  "dead c worker \<longleftrightarrow> flags_of c worker AND DEAD_FLAG \<noteq> 0"

section \<open>The list of workers\<close>

definition sml_next_allocator :: "control \<Rightarrow> nat list \<Rightarrow> nat \<times> nat list" where
  "sml_next_allocator c worker =
     (case dropWhile (dead c) worker of
        [] \<Rightarrow> (0, [])
      | w # next \<Rightarrow> (w_allocator (c_worker c w), next))"

definition sml_get_allocators :: "control \<Rightarrow> nat \<times> nat list" where
  "sml_get_allocators c = sml_next_allocator c (c_available c)"

definition register_worker :: "nat \<Rightarrow> control \<Rightarrow> (u32 \<times> control) run" where
  "register_worker worker c =
     (let phase = c_phase c in
      if phase = 0 then Inl (Sleep_Forever, c)
      else Inr (phase, (set_state worker (ACTIVE phase) c)\<lparr>c_available := worker # dropWhile (dead c) (c_available c)\<rparr>))"

definition global_phase :: "u32 \<Rightarrow> control \<Rightarrow> nat list \<times> control" where
  "global_phase new_phase c =
     (let ret = dropWhile (dead c) (c_available c)
      in (ret, c\<lparr>c_available := ret, c_phase := new_phase\<rparr>))"

text \<open>The loop of \<open>change_phase\<close> for one worker; \<open>first\<close>: the pointer to it is the list head itself.  The
  result says whether the worker stays in the list and whether its phase was changed.\<close>

definition unlink :: "nat \<Rightarrow> control \<Rightarrow> control" where
  "unlink w c = c\<lparr>c_available := filter (\<lambda>v. v \<noteq> w) (c_available c)\<rparr>"

definition change_one :: "bool \<Rightarrow> u32 \<Rightarrow> u32 \<Rightarrow> nat \<Rightarrow> control \<Rightarrow> bool \<times> bool \<times> control" where
  "change_one first old_phase new_phase w c =
     (let flags = flags_of c w in
      if flags AND DEAD_FLAG \<noteq> 0 \<and> \<not> first then (False, False, unlink w c)
      else if old_phase = phase_word ASYNC \<and> flags AND CANCELED_FLAG \<noteq> 0 \<and> w_users (c_worker c w) = [] then
        (let c = heap_call (Worker_Kill (w_allocator (c_worker c w))) c;
             c = set_flags w (flags OR DEAD_FLAG) c
         in if first then (True, False, c) else (False, False, unlink w c))
      else (True, True, set_state w (state_of c w XOR (old_phase XOR new_phase)) c))"

fun change_workers :: "bool \<Rightarrow> nat list \<Rightarrow> u32 \<Rightarrow> u32 \<Rightarrow> control \<Rightarrow> nat list \<times> nat \<times> control" where
  "change_workers first [] old_phase new_phase c = ([], 0, c)"
| "change_workers first (w # ws) old_phase new_phase c =
     (case change_one first old_phase new_phase w c of
        (kept, changed, c1) \<Rightarrow>
          (case change_workers (first \<and> \<not> kept) ws old_phase new_phase c1 of
             (ks, n, c2) \<Rightarrow> (if kept then w # ks else ks, if changed then Suc n else n, c2)))"

definition change_phase :: "nat list \<Rightarrow> u32 \<Rightarrow> u32 \<Rightarrow> control \<Rightarrow> nat \<times> control" where
  "change_phase workers old_phase new_phase c =
     (case change_workers True workers old_phase new_phase c of
        (workers, cnt, c) \<Rightarrow> (cnt, c\<lparr>c_handshake := workers, c_stamp := new_phase\<rparr>))"

definition fetch_add_flag :: "u32 \<Rightarrow> control \<Rightarrow> control" where
  "fetch_add_flag n c = c\<lparr>c_check_flag := c_check_flag c + n\<rparr>"

definition fetch_sub_flag :: "control \<Rightarrow> u32 \<times> control" where
  "fetch_sub_flag c = (c_check_flag c, c\<lparr>c_check_flag := c_check_flag c - 1\<rparr>)"

text \<open>The three statements that follow each other wherever the collector moves to the next phase.\<close>

definition advance :: "sml_sync_phase \<Rightarrow> sml_sync_phase \<Rightarrow> sml_sync_phase \<Rightarrow> control \<Rightarrow> control" where
  "advance old pre new c =
     (case global_phase (phase_word new) c of
        (workers, c) \<Rightarrow>
          (case change_phase workers (phase_word old) (phase_word pre) c of
             (cnt, c) \<Rightarrow> fetch_add_flag (of_nat cnt) c))"

section \<open>The actions of a worker\<close>

definition worker_async :: "nat \<Rightarrow> control \<Rightarrow> control" where
  "worker_async worker c =
     (let c = heap_call (Worker_Async (w_allocator (c_worker c worker))) c in
      case fetch_sub_flag c of
        (old, c) \<Rightarrow>
          (if old = 1 then
             (let c = heap_call Global_Async c in c\<lparr>c_gc_count := c_gc_count c + 1\<rparr>)
           else c))"

fun worker_mark :: "nat \<Rightarrow> world \<Rightarrow> nat \<Rightarrow> bool \<Rightarrow> control \<Rightarrow> control run" where
  "worker_mark 0 wd worker greedy c = Inl (Out_Of_Fuel, c)"
| "worker_mark (Suc n) wd worker greedy c =
     (let c = heap_call (Worker_Mark (w_allocator (c_worker c worker))) c in
      case fetch_sub_flag c of
        (old, c) \<Rightarrow>
          (if old = 1 then
             (if o_finish wd (c_calls c) then
                (let c = heap_call Before_Async (heap_call Run_Finalizer c);
                     c = advance MARK PREASYNC ASYNC c
                 in if greedy then Inr (worker_async worker (set_state worker (phase_word ASYNC) c)) else Inr c)
              else
                (let c = advance MARK PREMARK MARK c
                 in if greedy then worker_mark n wd worker greedy (set_state worker (phase_word MARK) c) else Inr c))
           else Inr c))"

text \<open>One pass over the users of a worker: those kept, those put off, the number of attempts.\<close>

fun sync2_pass :: "world \<Rightarrow> nat \<Rightarrow> nat list \<Rightarrow> nat list \<Rightarrow> nat \<Rightarrow> control \<Rightarrow> nat list \<times> nat list \<times> nat \<times> control" where
  "sync2_pass wd worker [] pending k c = ([], pending, k, c)"
| "sync2_pass wd worker (user # us) pending k c =
     (let c = c\<lparr>c_user := o_env wd k (c_user c)\<rparr> in
      case acquire_bit (o_lucky wd k) (u_flags (c_user c user)) BUSY_FLAG of
        (False, _) \<Rightarrow> sync2_pass wd worker us (user # pending) (Suc k) c
      | (True, flags) \<Rightarrow>
          (let c = upd_user user (\<lambda>x. x\<lparr>u_flags := flags\<rparr>) c in
           if u_worker (c_user c user) \<noteq> worker then sync2_pass wd worker us pending (Suc k) c
           else
             (let c = heap_call (User_Sync2 user (w_allocator (c_worker c worker))) c;
                  c = upd_user user (\<lambda>x. x\<lparr>u_flags := 0\<rparr>) c
              in case sync2_pass wd worker us pending (Suc k) c of
                   (kept, rest) \<Rightarrow> (user # kept, rest))))"

fun sync2_users :: "nat \<Rightarrow> world \<Rightarrow> nat \<Rightarrow> nat list \<Rightarrow> nat \<Rightarrow> control \<Rightarrow> (nat list \<times> nat \<times> control) run" where
  "sync2_users 0 wd worker users k c = Inl (Out_Of_Fuel, c)"
| "sync2_users (Suc n) wd worker users k c =
     (case sync2_pass wd worker users [] k c of
        (kept, pending, k, c) \<Rightarrow>
          (if pending = [] then Inr (kept, k, c)
           else (case sync2_users n wd worker pending k c of
                   Inl e \<Rightarrow> Inl e
                 | Inr (kept', r) \<Rightarrow> Inr (kept @ kept', r))))"

definition worker_sync2 :: "world \<Rightarrow> nat \<Rightarrow> bool \<Rightarrow> control \<Rightarrow> control run" where
  "worker_sync2 wd worker greedy c =
     (case sync2_users (o_fuel wd) wd worker (w_users (c_worker c worker)) 0 c of
        Inl e \<Rightarrow> Inl e
      | Inr (kept, _, c) \<Rightarrow>
          (let c = upd_worker worker (\<lambda>x. x\<lparr>w_users := kept\<rparr>) c;
               alloc = w_allocator (c_worker c worker);
               c = heap_call (Worker_Sync2 alloc) c;
               c = (if flags_of c worker AND GLOBALENUM_FLAG \<noteq> 0
                    then set_flags worker (flags_of c worker AND NOT GLOBALENUM_FLAG) (heap_call (Global_Sync2 alloc) c)
                    else c)
           in case fetch_sub_flag c of
                (old, c) \<Rightarrow>
                  (if old = 1 then
                     (let c = advance SYNC2 PREMARK MARK c
                      in if greedy then worker_mark (o_fuel wd) wd worker greedy (set_state worker (phase_word MARK) c)
                         else Inr c)
                   else Inr c)))"

definition worker_sync1 :: "world \<Rightarrow> nat \<Rightarrow> bool \<Rightarrow> control \<Rightarrow> control run" where
  "worker_sync1 wd worker greedy c =
     (case fetch_sub_flag c of
        (old, c) \<Rightarrow>
          (if old = 1 then
             (let c = set_flags worker (flags_of c worker OR GLOBALENUM_FLAG) c;
                  c = advance SYNC1 PRESYNC2 SYNC2 c
              in if greedy then worker_sync2 wd worker greedy (set_state worker (phase_word SYNC2) c) else Inr c)
           else Inr c))"

text \<open>The switch over the pending phase that \<open>leave_worker\<close> and \<open>help_inactive\<close> share.\<close>

definition pending_action :: "world \<Rightarrow> nat \<Rightarrow> u32 \<Rightarrow> control \<Rightarrow> control run \<Rightarrow> control run" where
  "pending_action wd worker phase c otherwise =
     (if phase = phase_word PREASYNC then Inr (worker_async worker c)
      else if phase = phase_word PRESYNC1 then worker_sync1 wd worker False c
      else if phase = phase_word PRESYNC2 then worker_sync2 wd worker False c
      else if phase = phase_word PREMARK then worker_mark (o_fuel wd) wd worker False c
      else otherwise)"

section \<open>Entering and leaving ML code\<close>

definition leave_worker :: "world \<Rightarrow> nat \<Rightarrow> control \<Rightarrow> control run" where
  "leave_worker wd worker c =
     (let old = state_of c worker;
          c = set_state worker (old OR (INACTIVE_STATE OR 1)) c
      in pending_action wd worker old c (Inr c))"

text \<open>Result: the fresh user context, if the worker is new, and the worker.\<close>

definition enter_worker :: "world \<Rightarrow> thread \<Rightarrow> control \<Rightarrow> (nat \<times> nat \<times> thread \<times> control) run" where
  "enter_worker wd t c =
     (let worker = t_worker t in
      if worker \<noteq> 0 then
        (case acquire_unbit True (state_of c worker) INACTIVE_STATE of
           (False, _) \<Rightarrow> Inl (Spin, c)
         | (True, state) \<Rightarrow> Inr (0, worker, t, set_state worker state c))
      else
        (case o_init wd of
           None \<Rightarrow> Inl (Yield_Retry, c)
         | Some (alloc, worker, new_user) \<Rightarrow>
             (let c = upd_worker worker (\<lambda>x. x\<lparr>w_allocator := alloc, w_users := [], w_check_hook := 0,
                        w_flags := (if t_myth t then 0 else PTHREAD_FLAG),
                        w_current_user := (if t_myth t then w_current_user x else 0)\<rparr>) c
              in case register_worker worker c of
                   Inl e \<Rightarrow> Inl e
                 | Inr (phase, c) \<Rightarrow>
                     Inr (new_user, worker, t\<lparr>t_worker := worker\<rparr>, heap_call (Worker_Register alloc phase) c))))"

text \<open>\<open>user->stack->top = p\<close>, and reading it.\<close>

definition set_top :: "nat \<Rightarrow> sml_user \<Rightarrow> sml_user" where
  "set_top p x = x\<lparr>u_stack := (case u_stack x of [] \<Rightarrow> [] | r # rs \<Rightarrow> r\<lparr>r_top := p\<rparr> # rs)\<rparr>"

definition top_of :: "sml_user \<Rightarrow> nat" where
  "top_of x = (case u_stack x of [] \<Rightarrow> 0 | r # _ \<Rightarrow> r_top r)"

definition sml_leave_internal :: "world \<Rightarrow> nat \<Rightarrow> thread \<Rightarrow> control \<Rightarrow> (thread \<times> control) run" where
  "sml_leave_internal wd frame_pointer t c =
     (let worker = t_worker t;
          user = w_current_user (c_worker c worker);
          c = upd_user user (set_top frame_pointer) c;
          t = (if IS_PTHREAD c worker then t else t\<lparr>t_user := user\<rparr>)
      in case leave_worker wd worker c of Inl e \<Rightarrow> Inl e | Inr c \<Rightarrow> Inr (t, c))"

definition sml_leave :: "world \<Rightarrow> nat \<Rightarrow> thread \<Rightarrow> control \<Rightarrow> (thread \<times> control) run" where
  "sml_leave wd caller_frame t c = sml_leave_internal wd caller_frame t c"

text \<open>The part of \<open>sml_enter_internal\<close> that moves a user to this worker, with the memory \<open>new_user\<close>.\<close>

definition move_user :: "world \<Rightarrow> nat \<Rightarrow> nat \<Rightarrow> nat \<Rightarrow> control \<Rightarrow> control run" where
  "move_user wd worker user new_user c =
     (let phase = PHASE (state_of c worker);
          moved = (if phase_word SYNC1 \<le> phase \<and> phase \<le> phase_word SYNC2 then
             (case acquire_bit True (u_flags (c_user c user)) BUSY_FLAG of
                (False, _) \<Rightarrow> Inl (Spin, c)
              | (True, flags) \<Rightarrow>
                  (let c = upd_user user (\<lambda>x. x\<lparr>u_flags := flags\<rparr>) c;
                       c = (if \<not> o_held wd \<and> phase = phase_word SYNC2
                            then heap_call (User_Sync2 user (w_allocator (c_worker c worker))) c else c)
                   in Inr (upd_user user (\<lambda>x. x\<lparr>u_worker := worker, u_flags := 0\<rparr>) c)))
           else Inr (upd_user user (\<lambda>x. x\<lparr>u_worker := worker\<rparr>) c))
      in case moved of
           Inl e \<Rightarrow> Inl e
         | Inr c \<Rightarrow>
             (let c = upd_user new_user (\<lambda>x. \<lparr>u_flags = 0, u_worker = worker,
                        u_stack = u_stack (c_user c user), u_exn_object = u_exn_object (c_user c user)\<rparr>) c
              in Inr (upd_worker worker (\<lambda>x. x\<lparr>w_users := new_user # w_users x\<rparr>) c)))"

definition sml_enter_internal :: "world \<Rightarrow> thread \<Rightarrow> control \<Rightarrow> (thread \<times> control) run" where
  "sml_enter_internal wd t c =
     (case enter_worker wd t c of
        Inl e \<Rightarrow> Inl e
      | Inr (_, worker, t, c) \<Rightarrow>
          (let user = (if IS_PTHREAD c worker then w_current_user (c_worker c worker) else t_user t);
               entered = (if u_worker (c_user c user) \<noteq> worker then
                  (case o_new_user wd of
                     None \<Rightarrow> (case leave_worker wd worker c of Inl e \<Rightarrow> Inl e | Inr c \<Rightarrow> Inl (Yield_Retry, c))
                   | Some new_user \<Rightarrow> (case move_user wd worker user new_user c of Inl e \<Rightarrow> Inl e | Inr c \<Rightarrow> Inr (new_user, c)))
                else Inr (user, c))
           in case entered of
                Inl e \<Rightarrow> Inl e
              | Inr (user, c) \<Rightarrow>
                  (let (t, c) = (if IS_PTHREAD c worker then (t, c)
                         else (t\<lparr>t_user := 0\<rparr>, upd_worker worker (\<lambda>x. x\<lparr>w_current_user := user\<rparr>) c))
                   in Inr (t, upd_user user (set_top 0) c))))"

definition sml_enter :: "world \<Rightarrow> thread \<Rightarrow> control \<Rightarrow> (thread \<times> control) run" where
  "sml_enter wd t c = sml_enter_internal wd t c"

definition current_user :: "thread \<Rightarrow> control \<Rightarrow> nat" where
  "current_user t c = w_current_user (c_worker c (t_worker t))"

definition sml_save :: "nat \<Rightarrow> thread \<Rightarrow> control \<Rightarrow> control" where
  "sml_save caller_frame t c = upd_user (current_user t c) (set_top caller_frame) c"

definition sml_unsave :: "thread \<Rightarrow> control \<Rightarrow> control" where
  "sml_unsave t c = upd_user (current_user t c) (set_top 0) c"

definition sml_save_exn :: "nat \<Rightarrow> thread \<Rightarrow> control \<Rightarrow> control run" where
  "sml_save_exn obj t c =
     (let user = current_user t c in
      if u_exn_object (c_user c user) \<noteq> 0 then Inl (Fatal, c)
      else Inr (upd_user user (\<lambda>x. x\<lparr>u_exn_object := obj\<rparr>) c))"

definition sml_unsave_exn :: "nat \<Rightarrow> thread \<Rightarrow> control \<Rightarrow> nat \<times> control" where
  "sml_unsave_exn p t c =
     (if p = 0 then (0, c)
      else (let user = current_user t c
            in (u_exn_object (c_user c user), upd_user user (\<lambda>x. x\<lparr>u_exn_object := 0\<rparr>) c)))"

definition sml_current_phase :: "thread \<Rightarrow> control \<Rightarrow> u32" where
  "sml_current_phase t c = PHASE (state_of c (t_worker t))"

section \<open>Starting and ending\<close>

definition sml_start :: "world \<Rightarrow> nat \<Rightarrow> thread \<Rightarrow> control \<Rightarrow> (thread \<times> control) run" where
  "sml_start wd caller_frame t c =
     (let range = \<lparr>r_bottom = caller_frame, r_top = 0\<rparr> in
      case enter_worker wd t c of
        Inl e \<Rightarrow> Inl e
      | Inr (e_user, worker, t, c) \<Rightarrow>
          (let user = (if IS_PTHREAD c worker then w_current_user (c_worker c worker) else t_user t) in
           if user = 0 then
             (case (if e_user \<noteq> 0 then Some e_user else o_new_user wd) of
                None \<Rightarrow> (case leave_worker wd worker c of Inl e \<Rightarrow> Inl e | Inr c \<Rightarrow> Inl (Yield_Retry, c))
              | Some user \<Rightarrow>
                  (let c = upd_user user (\<lambda>x. \<lparr>u_flags = 0, u_worker = worker, u_stack = [range], u_exn_object = 0\<rparr>) c
                   in Inr (t, upd_worker worker (\<lambda>x. x\<lparr>w_users := user # w_users x, w_current_user := user\<rparr>) c)))
           else
             (let c = upd_user user (\<lambda>x. x\<lparr>u_stack := range # u_stack x\<rparr>) c
              in if IS_PTHREAD c worker then Inr (t, c)
                 else Inr (t\<lparr>t_user := 0\<rparr>, upd_worker worker (\<lambda>x. x\<lparr>w_current_user := user\<rparr>) c))))"

definition sml_end :: "world \<Rightarrow> thread \<Rightarrow> control \<Rightarrow> (thread \<times> control) run" where
  "sml_end wd t c =
     (let worker = t_worker t;
          user = w_current_user (c_worker c worker);
          c = upd_user user (\<lambda>x. x\<lparr>u_stack := tl (u_stack x)\<rparr>) c;
          (t, c) = (if u_stack (c_user c user) = [] then
                      (t, upd_worker worker (\<lambda>x. x\<lparr>w_current_user := 0\<rparr>) (upd_user user (\<lambda>x. x\<lparr>u_worker := 0\<rparr>) c))
                    else if IS_PTHREAD c worker then (t, c) else (t\<lparr>t_user := user\<rparr>, c))
      in case leave_worker wd worker c of Inl e \<Rightarrow> Inl e | Inr c \<Rightarrow> Inr (t, c))"

definition cancel_worker :: "nat \<Rightarrow> control \<Rightarrow> control run" where
  "cancel_worker worker c =
     (let state = state_of c worker in
      if IS_ACTIVE state \<and> state AND HELPER_STATE = 0 then Inl (Fatal, c)
      else Inr (set_flags worker (flags_of c worker OR CANCELED_FLAG) c))"

definition cancel_user :: "nat \<Rightarrow> control \<Rightarrow> control run" where
  "cancel_user user c =
     (if user = 0 then Inr c
      else case acquire_bit True (u_flags (c_user c user)) BUSY_FLAG of
             (False, _) \<Rightarrow> Inl (Spin, c)
           | (True, _) \<Rightarrow> Inr (upd_user user (\<lambda>x. x\<lparr>u_worker := 0, u_flags := CANCELED_FLAG\<rparr>) c))"

section \<open>Responding to the collector\<close>

text \<open>The action of a helper, repeated while the worker's phase moves on meanwhile.\<close>

fun help_loop :: "nat \<Rightarrow> world \<Rightarrow> nat \<Rightarrow> u32 \<Rightarrow> u32 \<Rightarrow> control \<Rightarrow> control run" where
  "help_loop 0 wd worker old_state new_state c = Inl (Out_Of_Fuel, c)"
| "help_loop (Suc n) wd worker old_state new_state c =
     (case pending_action wd worker (PHASE old_state) c (Inl (Fatal, c)) of
        Inl e \<Rightarrow> Inl e
      | Inr c \<Rightarrow>
          (if state_of c worker = new_state
           then Inr (set_state worker (new_state XOR (INACTIVE_STATE OR HELPER_STATE)) c)
           else (let old_state = state_of c worker; new_state = old_state OR 1
                 in help_loop n wd worker old_state new_state (set_state worker new_state c))))"

definition needs_help :: "control \<Rightarrow> nat \<Rightarrow> bool" where
  "needs_help c worker \<longleftrightarrow> \<not> dead c worker \<and> state_of c worker = INACTIVE (state_of c worker AND NOT 1)"

definition help_inactive :: "world \<Rightarrow> nat \<Rightarrow> control \<Rightarrow> control run" where
  "help_inactive wd helper c =
     (let workers = c_handshake c in
      case dropWhile (\<lambda>w. \<not> needs_help c w) workers of
        worker # next \<Rightarrow>
          (let old_state = state_of c worker;
               new_state = ACTIVE (PHASE old_state OR 1) OR HELPER_STATE
           in if o_swap wd
              then help_loop (o_fuel wd) wd worker old_state new_state (set_state worker new_state (c\<lparr>c_handshake := next\<rparr>))
              else Inr c)
      | [] \<Rightarrow> Inr (if workers \<noteq> [] \<and> helper \<noteq> 0 \<and> o_swap wd then c\<lparr>c_handshake := []\<rparr> else c))"

definition sml_gc :: "world \<Rightarrow> bool \<Rightarrow> thread \<Rightarrow> control \<Rightarrow> (64 word \<times> control) run" where
  "sml_gc wd greedy t c =
     (let gc = c_gc_count c in
      if gc AND 1 \<noteq> 0 then Inr (gc + 1, c)
      else
        (let c = c\<lparr>c_gc_count := gc OR 1\<rparr>;
             c = advance ASYNC PRESYNC1 SYNC1 c
         in if greedy then
              (case worker_sync1 wd (t_worker t) greedy (set_state (t_worker t) (phase_word SYNC1) c) of
                 Inl e \<Rightarrow> Inl e
               | Inr c \<Rightarrow> Inr (gc + 2, c))
            else Inr (gc + 2, c)))"

text \<open>An action with the stack range closed for its duration, if it was open.\<close>

definition with_closed_stack :: "nat \<Rightarrow> nat \<Rightarrow> (control \<Rightarrow> control run) \<Rightarrow> control \<Rightarrow> control run" where
  "with_closed_stack frame_pointer user action c =
     (let orig = top_of (c_user c user);
          c = (if orig = 0 then upd_user user (set_top frame_pointer) c else c)
      in case action c of
           Inl e \<Rightarrow> Inl e
         | Inr c \<Rightarrow> Inr (if orig = 0 then upd_user user (set_top orig) c else c))"

definition check_hook_cleanup :: "world \<Rightarrow> nat \<Rightarrow> nat \<Rightarrow> thread \<Rightarrow> control \<Rightarrow> (thread \<times> control) run" where
  "check_hook_cleanup wd orig e t c =
     (case sml_enter_internal wd t c of
        Inl err \<Rightarrow> Inl err
      | Inr (t, c) \<Rightarrow>
          (let c = upd_user (current_user t c) (set_top orig) c
           in Inr (t, snd (sml_unsave_exn e t c))))"

definition sml_check_internal :: "world \<Rightarrow> nat \<Rightarrow> thread \<Rightarrow> control \<Rightarrow> (thread \<times> control) run" where
  "sml_check_internal wd frame_pointer t c =
     (let worker = t_worker t;
          state = state_of c worker;
          user = w_current_user (c_worker c worker);
          responded =
            (if state = ACTIVE (phase_word PRESYNC1) then
               with_closed_stack frame_pointer user (worker_sync1 wd worker True) (set_state worker (phase_word SYNC1) c)
             else if state = ACTIVE (phase_word PRESYNC2) then
               with_closed_stack frame_pointer user (worker_sync2 wd worker True) (set_state worker (phase_word SYNC2) c)
             else if state = ACTIVE (phase_word PREMARK) then
               worker_mark (o_fuel wd) wd worker True (set_state worker (phase_word MARK) c)
             else if state = ACTIVE (phase_word PREASYNC) then
               Inr (worker_async worker (set_state worker (phase_word ASYNC) c))
             else help_inactive wd worker c)
      in case responded of
           Inl e \<Rightarrow> Inl e
         | Inr c \<Rightarrow>
             (let hook = w_check_hook (c_worker c worker) in
              if hook = 0 then Inr (t, c)
              else
                (let c = upd_worker worker (\<lambda>x. x\<lparr>w_check_hook := 0\<rparr>) c;
                     user = w_current_user (c_worker c worker);
                     orig = top_of (c_user c user);
                     fp = (if orig \<noteq> 0 then orig else frame_pointer)
                 in case sml_leave_internal wd fp t c of
                      Inl e \<Rightarrow> Inl e
                    | Inr (t, c) \<Rightarrow>
                        (case o_hook wd hook (t, c) of (e, t, c) \<Rightarrow> check_hook_cleanup wd orig e t c))))"

definition sml_check :: "world \<Rightarrow> nat \<Rightarrow> thread \<Rightarrow> control \<Rightarrow> (thread \<times> control) run" where
  "sml_check wd caller_frame t c = sml_check_internal wd caller_frame t c"

definition sml_set_check_hook :: "nat \<Rightarrow> thread \<Rightarrow> control \<Rightarrow> nat \<times> control" where
  "sml_set_check_hook hook t c =
     (w_check_hook (c_worker c (t_worker t)), upd_worker (t_worker t) (\<lambda>x. x\<lparr>w_check_hook := hook\<rparr>) c)"

text \<open>The waiting loop: other threads run before each poll of the count.\<close>

fun wait_loop :: "nat \<Rightarrow> world \<Rightarrow> 64 word \<Rightarrow> nat \<Rightarrow> thread \<Rightarrow> control \<Rightarrow> (thread \<times> control) run" where
  "wait_loop 0 wd gc frame_pointer t c = Inl (Out_Of_Fuel, c)"
| "wait_loop (Suc n) wd gc frame_pointer t c =
     (let c = o_others wd n c in
      if c_gc_count c < gc then
        (case sml_check_internal wd frame_pointer t c of
           Inl e \<Rightarrow> Inl e
         | Inr (t, c) \<Rightarrow> wait_loop n wd gc frame_pointer t c)
      else Inr (t, c))"

definition sml_wait_gc :: "world \<Rightarrow> nat \<Rightarrow> thread \<Rightarrow> control \<Rightarrow> (64 word \<times> thread \<times> control) run" where
  "sml_wait_gc wd frame_pointer t c =
     (let user = w_current_user (c_worker c (t_worker t));
          orig = top_of (c_user c user);
          c = (if orig = 0 then upd_user user (set_top frame_pointer) c else c)
      in case sml_gc wd True t c of
           Inl e \<Rightarrow> Inl e
         | Inr (gc, c) \<Rightarrow>
             (let c = (if orig = 0 then upd_user user (set_top orig) c else c)
              in case wait_loop (o_fuel wd) wd gc frame_pointer t c of
                   Inl e \<Rightarrow> Inl e
                 | Inr (t, c) \<Rightarrow> Inr (gc, t, c)))"

text \<open>\<open>sml_exit\<close>: whether \<open>sml_finish\<close> is reached before the process ends.\<close>

fun take_locks :: "nat \<Rightarrow> nat list \<Rightarrow> control \<Rightarrow> bool \<times> control" where
  "take_locks current [] c = (True, c)"
| "take_locks current (worker # ws) c =
     (if worker = current then take_locks current ws c
      else
        (let old_state = state_of c worker;
             c = set_state worker (old_state AND NOT INACTIVE_STATE) c
         in if IS_ACTIVE old_state then (False, c) else take_locks current ws c))"

definition sml_exit :: "thread \<Rightarrow> control \<Rightarrow> bool \<times> control" where
  "sml_exit t c = (let c = c\<lparr>c_phase := 0\<rparr> in take_locks (t_worker t) (c_available c) c)"

end
