(* ===== verification/Handshake.thy ===== *)
theory Handshake
  imports Control
begin

unbundle bit_operations_syntax

text \<open>
  The handshakes of control.c as interleavings of atomic steps.  An event is one atomic access (or a
  group of accesses to memory no other thread touches) of \<open>enter_worker\<close>, \<open>leave_worker\<close>,
  \<open>sml_check_internal\<close>, \<open>help_inactive\<close>, the four actions, \<open>sml_gc\<close> and the three statements that move to
  the next phase.  A thread is named by its worker.  Besides the control state there are the threads'
  program positions: \<open>hs_owes\<close>, the signals accepted whose action has not decremented \<open>sml_check_flag\<close>
  yet (worker, thread, phase), \<open>hs_helps\<close>, the workers a helper holds (worker, helper), \<open>hs_taken\<close>, the workers
  a thread has taken off the handshake list and not locked yet (worker, helper, state seen), and
  \<open>hs_coord\<close>, what the thread does that moves all workers to the next phase.
\<close>

section \<open>Events\<close>

type_synonym transition = "sml_sync_phase \<times> sml_sync_phase \<times> sml_sync_phase"

datatype coord =
    Idle
  | Begin nat transition
  | Changing nat transition bool "nat list" "nat list" "nat list"
  | Adding nat "nat list"
  | Ending nat

record handshake =
  hs_ctl :: control
  hs_owes :: "(nat \<times> nat \<times> u32) list"
  hs_helps :: "(nat \<times> nat) list"
  hs_taken :: "(nat \<times> nat \<times> u32) list"
  hs_coord :: coord

datatype event =
    Register nat u32 nat | Enter nat | Leave nat | Accept nat | Take nat nat | Help nat | Clear nat | Act nat bool
  | Release nat | Retry nat | Start nat | Begin_Phase | Change_Next | Publish | Add_Count | Finish
  | Cancel nat | Users nat "nat list"

fun runner :: "coord \<Rightarrow> nat option" where
  "runner Idle = None"
| "runner (Begin r _) = Some r"
| "runner (Changing r _ _ _ _ _) = Some r"
| "runner (Adding r _) = Some r"
| "runner (Ending r) = Some r"

fun kept_of :: "coord \<Rightarrow> nat list" where
  "kept_of (Changing _ _ _ ks _ _) = ks"
| "kept_of _ = []"

fun todo_of :: "coord \<Rightarrow> nat list" where
  "todo_of (Changing _ _ _ _ _ todo) = todo"
| "todo_of _ = []"

text \<open>The thread of worker \<open>v\<close> exists and is not in the middle of an action, a help or a phase change.\<close>

definition canceled :: "control \<Rightarrow> nat \<Rightarrow> bool" where
  "canceled c w \<longleftrightarrow> flags_of c w AND CANCELED_FLAG \<noteq> 0"

definition free_thread :: "handshake \<Rightarrow> nat \<Rightarrow> bool" where
  "free_thread s v \<longleftrightarrow> v \<in> set (c_available (hs_ctl s)) \<and> \<not> canceled (hs_ctl s) v
     \<and> v \<notin> (fst \<circ> snd) ` set (hs_owes s) \<and> v \<notin> snd ` set (hs_helps s)
     \<and> v \<notin> (fst \<circ> snd) ` set (hs_taken s) \<and> runner (hs_coord s) \<noteq> Some v"

definition in_ml :: "handshake \<Rightarrow> nat \<Rightarrow> bool" where
  "in_ml s v \<longleftrightarrow> free_thread s v \<and> IS_ACTIVE (state_of (hs_ctl s) v) \<and> state_of (hs_ctl s) v AND HELPER_STATE = 0"

definition is_pre :: "u32 \<Rightarrow> bool" where
  "is_pre p \<longleftrightarrow> p \<in> set (map phase_word [PREASYNC, PRESYNC1, PRESYNC2, PREMARK])"

text \<open>What the action of a phase does before it decrements the flag: the call into the heap and, in SYNC2, the
  enumeration of the global roots by the worker marked for it.\<close>

definition action_call :: "u32 \<Rightarrow> nat \<Rightarrow> control \<Rightarrow> control" where
  "action_call p w c =
     (let alloc = w_allocator (c_worker c w) in
      if p = phase_word SYNC2 then
        (let c = heap_call (Worker_Sync2 alloc) c
         in if flags_of c w AND GLOBALENUM_FLAG \<noteq> 0
            then set_flags w (flags_of c w AND NOT GLOBALENUM_FLAG) (heap_call (Global_Sync2 alloc) c) else c)
      else if p = phase_word MARK then heap_call (Worker_Mark alloc) c
      else if p = phase_word ASYNC then heap_call (Worker_Async alloc) c
      else c)"

text \<open>What the last thread to respond goes on to do.\<close>

definition next_coord :: "u32 \<Rightarrow> bool \<Rightarrow> nat \<Rightarrow> coord" where
  "next_coord p finished v =
     (if p = phase_word SYNC1 then Begin v (SYNC1, PRESYNC2, SYNC2)
      else if p = phase_word SYNC2 then Begin v (SYNC2, PREMARK, MARK)
      else if p = phase_word MARK then
        (if finished then Begin v (MARK, PREASYNC, ASYNC) else Begin v (MARK, PREMARK, MARK))
      else Ending v)"

fun hs_exec :: "event \<Rightarrow> handshake \<Rightarrow> handshake option" where
  "hs_exec (Register w f alloc) s =
     (let c = hs_ctl s in
      if w = 0 \<or> w \<in> set (c_available c) \<or> w \<in> set (c_handshake c) \<or> w \<in> set (todo_of (hs_coord s))
         \<or> w \<in> set (kept_of (hs_coord s)) \<or> w \<in> fst ` set (hs_taken s)
         \<or> w \<in> fst ` set (hs_owes s) \<or> w \<in> fst ` set (hs_helps s)
         \<or> f AND (CANCELED_FLAG OR DEAD_FLAG) \<noteq> 0 \<or> 2 ^ 31 \<le> int (length (c_available c)) then None
      else case register_worker w (upd_worker w (\<lambda>x. x\<lparr>w_flags := f, w_users := [], w_allocator := alloc\<rparr>) c) of
             Inl _ \<Rightarrow> None
           | Inr (p, c) \<Rightarrow> Some (s\<lparr>hs_ctl := c\<rparr>))"
| "hs_exec (Enter w) s =
     (case acquire_unbit True (state_of (hs_ctl s) w) INACTIVE_STATE of
        (True, st) \<Rightarrow> if free_thread s w then Some (s\<lparr>hs_ctl := set_state w st (hs_ctl s)\<rparr>) else None
      | (False, _) \<Rightarrow> None)"
| "hs_exec (Leave w) s =
     (let old = state_of (hs_ctl s) w; c = set_state w (old OR (INACTIVE_STATE OR 1)) (hs_ctl s) in
      if in_ml s w
      then Some (s\<lparr>hs_ctl := c, hs_owes := (if is_pre old then (w, w, old OR 1) # hs_owes s else hs_owes s)\<rparr>)
      else None)"
| "hs_exec (Accept w) s =
     (let old = state_of (hs_ctl s) w in
      if in_ml s w \<and> is_pre old
      then Some (s\<lparr>hs_ctl := set_state w (old OR 1) (hs_ctl s), hs_owes := (w, w, old OR 1) # hs_owes s\<rparr>)
      else None)"
| "hs_exec (Take v w) s =
     (let c = hs_ctl s in
      if in_ml s v then
        (case dropWhile (\<lambda>w. \<not> needs_help c w) (c_handshake c) of
           [] \<Rightarrow> None
         | w' # next \<Rightarrow>
             if w' = w then Some (s\<lparr>hs_ctl := c\<lparr>c_handshake := next\<rparr>, hs_taken := (w, v, state_of c w) # hs_taken s\<rparr>) else None)
      else None)"
| "hs_exec (Help v) s =
     (case find (\<lambda>x. fst (snd x) = v) (hs_taken s) of
        None \<Rightarrow> None
      | Some (w, _, old) \<Rightarrow>
          (let c = hs_ctl s; s = s\<lparr>hs_taken := filter (\<lambda>x. fst (snd x) \<noteq> v) (hs_taken s)\<rparr> in
           if state_of c w = old
           then Some (s\<lparr>hs_ctl := set_state w (ACTIVE (PHASE old OR 1) OR HELPER_STATE) c,
                        hs_owes := (w, v, PHASE old OR 1) # hs_owes s, hs_helps := (w, v) # hs_helps s\<rparr>)
           else Some s))"
| "hs_exec (Clear v) s =
     (let c = hs_ctl s in
      if in_ml s v \<and> list_all (\<lambda>w. \<not> needs_help c w) (c_handshake c) then Some (s\<lparr>hs_ctl := c\<lparr>c_handshake := []\<rparr>\<rparr>) else None)"
| "hs_exec (Act w finished) s =
     (case find (\<lambda>x. fst x = w) (hs_owes s) of
        None \<Rightarrow> None
      | Some (_, v, p) \<Rightarrow>
          (case fetch_sub_flag (action_call p w (hs_ctl s)) of
             (old, c) \<Rightarrow>
               Some (s\<lparr>hs_ctl := (if old = 1 \<and> p = phase_word SYNC1 then set_flags w (flags_of c w OR GLOBALENUM_FLAG) c else c),
                       hs_owes := filter (\<lambda>x. fst x \<noteq> w) (hs_owes s),
                       hs_coord := (if old = 1 then next_coord p finished v else hs_coord s)\<rparr>)))"
| "hs_exec (Release w) s =
     (let st = state_of (hs_ctl s) w in
      case find (\<lambda>x. fst x = w) (hs_helps s) of
        None \<Rightarrow> None
      | Some (_, v) \<Rightarrow>
          if w \<notin> fst ` set (hs_owes s) \<and> runner (hs_coord s) \<noteq> Some v \<and> \<not> is_pre (PHASE st)
          then Some (s\<lparr>hs_ctl := set_state w (st XOR (INACTIVE_STATE OR HELPER_STATE)) (hs_ctl s),
                       hs_helps := filter (\<lambda>x. fst x \<noteq> w) (hs_helps s)\<rparr>)
          else None)"
| "hs_exec (Retry w) s =
     (let st = state_of (hs_ctl s) w in
      case find (\<lambda>x. fst x = w) (hs_helps s) of
        None \<Rightarrow> None
      | Some (_, v) \<Rightarrow>
          if w \<notin> fst ` set (hs_owes s) \<and> runner (hs_coord s) \<noteq> Some v \<and> is_pre (PHASE st)
          then Some (s\<lparr>hs_ctl := set_state w (st OR 1) (hs_ctl s), hs_owes := (w, v, PHASE st OR 1) # hs_owes s\<rparr>)
          else None)"
| "hs_exec (Start v) s =
     (let c = hs_ctl s in
      if free_thread s v \<and> c_gc_count c AND 1 = 0
      then Some (s\<lparr>hs_ctl := c\<lparr>c_gc_count := c_gc_count c OR 1\<rparr>, hs_coord := Begin v (ASYNC, PRESYNC1, SYNC1)\<rparr>)
      else None)"
| "hs_exec Begin_Phase s =
     (case hs_coord s of
        Begin r (old, pre, new) \<Rightarrow>
          (case global_phase (phase_word new) (hs_ctl s) of
             (workers, c) \<Rightarrow> Some (s\<lparr>hs_ctl := c, hs_coord := Changing r (old, pre, new) True [] [] workers\<rparr>))
      | _ \<Rightarrow> None)"
| "hs_exec Change_Next s =
     (case hs_coord s of
        Changing r (old, pre, new) first ks changed (w # todo) \<Rightarrow>
          (case change_one first (phase_word old) (phase_word pre) w (hs_ctl s) of
             (kept, chg, c) \<Rightarrow>
               Some (s\<lparr>hs_ctl := c,
                       hs_coord := Changing r (old, pre, new) (first \<and> \<not> kept) (if kept then ks @ [w] else ks)
                         (if chg then changed @ [w] else changed) todo\<rparr>))
      | _ \<Rightarrow> None)"
| "hs_exec Publish s =
     (case hs_coord s of
        Changing r (old, pre, new) first ks changed [] \<Rightarrow>
          Some (s\<lparr>hs_ctl := (hs_ctl s)\<lparr>c_handshake := ks, c_stamp := phase_word pre\<rparr>, hs_coord := Adding r changed\<rparr>)
      | _ \<Rightarrow> None)"
| "hs_exec Add_Count s =
     (case hs_coord s of
        Adding r changed \<Rightarrow> Some (s\<lparr>hs_ctl := fetch_add_flag (of_nat (length changed)) (hs_ctl s), hs_coord := Idle\<rparr>)
      | _ \<Rightarrow> None)"
| "hs_exec Finish s =
     (case hs_coord s of
        Ending r \<Rightarrow> Some (s\<lparr>hs_ctl := (heap_call Global_Async (hs_ctl s))\<lparr>c_gc_count := c_gc_count (hs_ctl s) + 1\<rparr>, hs_coord := Idle\<rparr>)
      | _ \<Rightarrow> None)"
| "hs_exec (Cancel w) s =
     (if free_thread s w then
        (case cancel_worker w (hs_ctl s) of Inl _ \<Rightarrow> None | Inr c \<Rightarrow> Some (s\<lparr>hs_ctl := c\<rparr>))
      else None)"
| "hs_exec (Users w us) s = Some (s\<lparr>hs_ctl := upd_worker w (\<lambda>x. x\<lparr>w_users := us\<rparr>) (hs_ctl s)\<rparr>)"

inductive hs_step :: "handshake \<Rightarrow> handshake \<Rightarrow> bool" where
  "hs_exec e s = Some t \<Longrightarrow> hs_step s t"

definition no_worker :: sml_worker where
  "no_worker = \<lparr>w_state = 0, w_flags = 0, w_users = [], w_current_user = 0, w_allocator = 0, w_check_hook = 0\<rparr>"

definition no_user :: sml_user where
  "no_user = \<lparr>u_flags = 0, u_worker = 0, u_stack = [], u_exn_object = 0\<rparr>"

definition initial_control :: control where
  "initial_control = \<lparr>c_worker = (\<lambda>_. no_worker), c_user = (\<lambda>_. no_user), c_available = [], c_phase = phase_word ASYNC,
     c_handshake = [], c_stamp = 0, c_check_flag = 0, c_gc_count = 0, c_calls = []\<rparr>"

definition initial_handshake :: handshake where
  "initial_handshake = \<lparr>hs_ctl = initial_control, hs_owes = [], hs_helps = [], hs_taken = [], hs_coord = Idle\<rparr>"

fun hs_run :: "event list \<Rightarrow> handshake \<Rightarrow> handshake option" where
  "hs_run [] s = Some s"
| "hs_run (e # es) s = (case hs_exec e s of None \<Rightarrow> None | Some t \<Rightarrow> hs_run es t)"

lemma hs_run_steps: "hs_run es s = Some t \<Longrightarrow> hs_step\<^sup>*\<^sup>* s t"
  by (induction es s rule: hs_run.induct)
    (auto split: option.splits intro: hs_step.intros converse_rtranclp_into_rtranclp)

section \<open>A run\<close>

definition stall_events :: "event list" where
  "stall_events = [Register 8 0 0, Register 16 0 0, Start 8, Begin_Phase, Change_Next, Change_Next, Publish, Add_Count,
     Accept 8, Act 8 False, Leave 16, Act 16 False, Begin_Phase, Change_Next, Change_Next, Publish,
     Accept 8, Act 8 False, Take 8 16, Help 8, Act 16 False, Release 16, Add_Count]"

section \<open>Words\<close>

lemma phase_words [simp]:
  "phase_word PREASYNC = 0" "phase_word ASYNC = 1" "phase_word PRESYNC1 = 2" "phase_word SYNC1 = 3"
  "phase_word PRESYNC2 = 4" "phase_word SYNC2 = 5" "phase_word PREMARK = 6" "phase_word MARK = 7"
  by (simp_all add: phase_word_def)

lemmas state_bits = PHASE_MASK_def INACTIVE_STATE_def HELPER_STATE_def BUSY_FLAG_def CANCELED_FLAG_def DEAD_FLAG_def
  GLOBALENUM_FLAG_def PTHREAD_FLAG_def ACTIVE_def INACTIVE_def IS_ACTIVE_def

lemma PHASE_ops:
  "PHASE (a OR b) = PHASE a OR PHASE b" "PHASE (a XOR b) = PHASE a XOR PHASE b" "PHASE (a AND b) = PHASE a AND b"
  "PHASE (PHASE a) = PHASE a"
  unfolding PHASE_def bit.conj_disj_distrib2 bit.conj_xor_distrib2 by (simp_all add: ac_simps)

text \<open>The bits a state word may have.\<close>

definition small_state :: "u32 \<Rightarrow> bool" where "small_state s \<longleftrightarrow> s AND NOT 0x37 = 0"

lemma small_ops:
  assumes "small_state a" "small_state b"
  shows "small_state (a OR b)" "small_state (a XOR b)" "small_state (a AND x)"
proof -
  have x: "(a AND x) AND NOT 0x37 = (a AND NOT 0x37) AND x" by (simp only: ac_simps)
  show "small_state (a OR b)" "small_state (a XOR b)" "small_state (a AND x)"
    using assms x by (simp_all add: small_state_def bit.conj_disj_distrib2 bit.conj_xor_distrib2)
qed

lemma plain_state:
  assumes "small_state s" "s AND 0x10 = 0" "s AND 0x20 = 0"
  shows "PHASE s = s"
proof -
  have "s = s AND (0x07 OR 0x10 OR 0x20 OR NOT 0x37)" by simp
  also have "\<dots> = (s AND 0x07) OR (s AND 0x10) OR (s AND 0x20) OR (s AND NOT 0x37)"
    by (simp only: bit.conj_disj_distrib)
  finally show ?thesis using assms by (simp add: small_state_def PHASE_def PHASE_MASK_def)
qed

definition post_phases :: "u32 set" where "post_phases = {1, 3, 5, 7}"
definition pre_of :: "u32 \<Rightarrow> u32" where "pre_of p = p AND NOT 1"

lemma phase_range: "PHASE s \<in> {0, 1, 2, 3, 4, 5, 6, 7}"
proof -
  have "unat (PHASE s) < 8" 
    unfolding PHASE_def PHASE_MASK_def by (rule le_less_trans[OF word_le_nat_alt[THEN iffD1, OF word_and_le1]]) simp
  moreover have "PHASE s = of_nat (unat (PHASE s))" by simp
  ultimately have "PHASE s \<in> of_nat ` set [0..<8]" by (metis atLeastLessThan_iff image_eqI set_upt zero_le)
  also have "\<dots> = {0, 1, 2, 3, 4, 5, 6, 7}" by (simp add: upt_rec)
  finally show ?thesis .
qed

lemma post_cases: "p \<in> post_phases \<Longrightarrow> (p = 1 \<Longrightarrow> Q) \<Longrightarrow> (p = 3 \<Longrightarrow> Q) \<Longrightarrow> (p = 5 \<Longrightarrow> Q) \<Longrightarrow> (p = 7 \<Longrightarrow> Q) \<Longrightarrow> Q"
  by (auto simp: post_phases_def)

lemma is_pre_iff: "is_pre p \<longleftrightarrow> p \<in> {0, 2, 4, 6}"
  by (simp add: is_pre_def)

lemma pre_not_post: "is_pre p \<Longrightarrow> p \<notin> post_phases"
  by (auto simp: is_pre_iff post_phases_def)

lemma pre_or_post: "is_pre (PHASE s) \<or> PHASE s \<in> post_phases"
  using phase_range[of s] by (auto simp: is_pre_iff post_phases_def)

lemma pre_of_pre: "p \<in> post_phases \<Longrightarrow> is_pre (pre_of p)" "p \<in> post_phases \<Longrightarrow> pre_of p OR 1 = p"
  "p \<in> post_phases \<Longrightarrow> p OR 1 = p"
  by (auto elim!: post_cases simp: pre_of_def is_pre_iff)

lemma pre_PHASE: "is_pre p \<Longrightarrow> PHASE p = p" "p \<in> post_phases \<Longrightarrow> PHASE p = p"
  by (auto simp: is_pre_iff PHASE_def PHASE_MASK_def elim!: post_cases)

text \<open>A worker that needs help is in a pending phase.\<close>

lemma needs_help_pre: "needs_help c w \<Longrightarrow> is_pre (PHASE (state_of c w))"
proof -
  assume n: "needs_help c w"
  let ?s = "state_of c w"
  have "?s = (?s AND NOT 1) OR 0x10" using n by (simp add: needs_help_def INACTIVE_def INACTIVE_STATE_def)
  then have "PHASE ?s = PHASE ((?s AND NOT 1) OR 0x10)" by (rule arg_cong)
  also have "\<dots> = PHASE ?s AND NOT 1"
    by (simp add: PHASE_ops) (simp add: PHASE_def PHASE_MASK_def)
  finally have "PHASE ?s = PHASE ?s AND NOT 1" .
  then show ?thesis using phase_range[of ?s] by (auto simp: is_pre_iff)
qed


section \<open>The invariant\<close>

definition live :: "control \<Rightarrow> nat set" where "live c = {w \<in> set (c_available c). \<not> dead c w}"

abbreviation ph :: "control \<Rightarrow> nat \<Rightarrow> u32" where "ph c w \<equiv> PHASE (state_of c w)"

text \<open>The workers outside \<open>T\<close> that have not accepted the current signal.\<close>

definition pending :: "control \<Rightarrow> nat set \<Rightarrow> nat set" where
  "pending c T = {w \<in> live c - T. ph c w = pre_of (c_phase c)}"

definition owing :: "handshake \<Rightarrow> nat set" where "owing s = fst ` set (hs_owes s)"

text \<open>The workers outside \<open>T\<close> have had the signal; the flag counts, but for \<open>k\<close> not added yet, those that
  have not decremented it.\<close>

definition settled :: "control \<Rightarrow> nat set \<Rightarrow> nat \<Rightarrow> nat set \<Rightarrow> bool" where
  "settled c owe k T \<longleftrightarrow> c_phase c \<in> post_phases
     \<and> (\<forall>w \<in> live c - T. ph c w = pre_of (c_phase c) \<or> ph c w = c_phase c)
     \<and> owe \<subseteq> {w \<in> live c - T. ph c w = c_phase c}
     \<and> c_check_flag c + of_nat k = of_nat (card (pending c T) + card owe)"

definition well_formed :: "control \<Rightarrow> bool" where
  "well_formed c \<longleftrightarrow> distinct (c_available c) \<and> length (c_available c) \<le> 2 ^ 31
     \<and> (\<forall>w \<in> set (c_available c). dead c w \<longrightarrow> canceled c w) \<and> (\<forall>w \<in> live c. small_state (state_of c w))"

fun changed_of :: "coord \<Rightarrow> nat list" where
  "changed_of (Changing _ _ _ _ changed _) = changed"
| "changed_of (Adding _ changed) = changed"
| "changed_of _ = []"

fun quiet :: "coord \<Rightarrow> 64 word \<Rightarrow> bool" where
  "quiet Idle gc \<longleftrightarrow> gc AND 1 = 0"
| "quiet (Begin _ _) gc \<longleftrightarrow> True"
| "quiet (Ending _) gc \<longleftrightarrow> True"
| "quiet _ gc \<longleftrightarrow> False"

definition transitions :: "transition set" where
  "transitions = {(ASYNC, PRESYNC1, SYNC1), (SYNC1, PRESYNC2, SYNC2), (SYNC2, PREMARK, MARK), (MARK, PREASYNC, ASYNC),
     (MARK, PREMARK, MARK)}"

fun phase_ok :: "coord \<Rightarrow> control \<Rightarrow> bool" where
  "phase_ok Idle c \<longleftrightarrow> (c_gc_count c AND 1 = 0 \<longrightarrow> c_phase c = phase_word ASYNC)"
| "phase_ok (Begin _ (old, pre, new)) c \<longleftrightarrow> (old, pre, new) \<in> transitions \<and> c_phase c = phase_word old"
| "phase_ok (Changing _ (old, pre, new) first _ changed todo) c \<longleftrightarrow> (old, pre, new) \<in> transitions
     \<and> c_phase c = phase_word new \<and> (\<forall>w \<in> live c \<inter> set todo. ph c w = phase_word old)
     \<and> distinct todo \<and> (\<forall>w \<in> set todo. \<not> dead c w \<longrightarrow> w \<in> set (c_available c))
     \<and> (first \<longrightarrow> todo = [] \<or> \<not> dead c (hd todo))"
| "phase_ok (Adding _ _) c \<longleftrightarrow> True"
| "phase_ok (Ending _) c \<longleftrightarrow> c_phase c = phase_word ASYNC"

text \<open>The workers that helpers know of: held, taken, listed for the handshake or about to be.  One that is not alive
  any more has nothing pending.\<close>

definition known :: "handshake \<Rightarrow> nat set" where
  "known s = fst ` set (hs_helps s) \<union> fst ` set (hs_taken s) \<union> set (c_handshake (hs_ctl s)) \<union> set (kept_of (hs_coord s))"

definition helped_ok :: "control \<Rightarrow> nat set \<Rightarrow> bool" where
  "helped_ok c H \<longleftrightarrow> (\<forall>w \<in> H. w \<notin> live c \<longrightarrow> \<not> is_pre (ph c w))"

definition quiet_ok :: "coord \<Rightarrow> control \<Rightarrow> nat set \<Rightarrow> bool" where
  "quiet_ok k c owe \<longleftrightarrow> (quiet k (c_gc_count c) \<longrightarrow> pending c (set (todo_of k)) = {} \<and> owe = {})"

fun moving :: "coord \<Rightarrow> bool" where
  "moving (Changing _ _ _ _ _ _) \<longleftrightarrow> True"
| "moving (Adding _ _) \<longleftrightarrow> True"
| "moving _ \<longleftrightarrow> False"

definition moving_ok :: "coord \<Rightarrow> control \<Rightarrow> nat set \<Rightarrow> bool" where
  "moving_ok k c owe \<longleftrightarrow> (moving k \<longrightarrow> pending c (set (todo_of k)) \<union> owe \<subseteq> set (changed_of k)
     \<and> set (changed_of k) \<subseteq> live c - set (todo_of k) \<and> distinct (changed_of k))"

definition gc_ok :: "coord \<Rightarrow> control \<Rightarrow> bool" where
  "gc_ok k c \<longleftrightarrow> (k \<noteq> Idle \<longrightarrow> c_gc_count c AND 1 \<noteq> 0)"

definition owes_ok :: "control \<Rightarrow> (nat \<times> nat \<times> u32) set \<Rightarrow> bool" where
  "owes_ok c owes \<longleftrightarrow> (\<forall>(w, v, p) \<in> owes. p = c_phase c)"

definition hs_inv :: "handshake \<Rightarrow> bool" where
  "hs_inv s \<longleftrightarrow> well_formed (hs_ctl s)
     \<and> settled (hs_ctl s) (owing s) (length (changed_of (hs_coord s))) (set (todo_of (hs_coord s)))
     \<and> phase_ok (hs_coord s) (hs_ctl s) \<and> quiet_ok (hs_coord s) (hs_ctl s) (owing s)
     \<and> moving_ok (hs_coord s) (hs_ctl s) (owing s) \<and> gc_ok (hs_coord s) (hs_ctl s)
     \<and> helped_ok (hs_ctl s) (known s) \<and> owes_ok (hs_ctl s) (set (hs_owes s))"

lemma hs_invD:
  assumes "hs_inv s"
  shows "well_formed (hs_ctl s)"
    "settled (hs_ctl s) (owing s) (length (changed_of (hs_coord s))) (set (todo_of (hs_coord s)))"
    "phase_ok (hs_coord s) (hs_ctl s)" "quiet_ok (hs_coord s) (hs_ctl s) (owing s)"
    "moving_ok (hs_coord s) (hs_ctl s) (owing s)" "gc_ok (hs_coord s) (hs_ctl s)"
    "helped_ok (hs_ctl s) (known s)" "owes_ok (hs_ctl s) (set (hs_owes s))"
  using assms by (simp_all add: hs_inv_def)

text \<open>Two control states that the invariant does not tell apart.\<close>

definition same_phases :: "control \<Rightarrow> control \<Rightarrow> bool" where
  "same_phases c c' \<longleftrightarrow> c_available c' = c_available c \<and> c_phase c' = c_phase c \<and> c_check_flag c' = c_check_flag c
     \<and> c_gc_count c' = c_gc_count c \<and> (\<forall>w. dead c' w = dead c w)"

lemma same_phases_live: "same_phases c c' \<Longrightarrow> live c' = live c"
  by (auto simp: same_phases_def live_def)

lemma same_phases_inv:
  assumes "hs_inv s" "same_phases (hs_ctl s) c'" "\<forall>w. ph c' w = ph (hs_ctl s) w"
    and "\<forall>w \<in> set (c_available c'). dead c' w \<longrightarrow> canceled c' w" "\<forall>w \<in> live c'. small_state (state_of c' w)"
    and "set (hs_owes t) = set (hs_owes s)" "known t \<subseteq> known s" "hs_coord t = hs_coord s" "hs_ctl t = c'"
  shows "hs_inv t"
proof -
  let ?c = "hs_ctl s"
  have l: "live c' = live ?c" by (rule same_phases_live[OF assms(2)])
  have p: "pending c' T = pending ?c T" for T using assms(2,3) by (simp add: pending_def l same_phases_def)
  have ow: "owing t = owing s" using assms(6) by (simp add: owing_def)
  have st: "settled c' A k T = settled ?c A k T" for A k T
    using assms(2,3) unfolding settled_def by (simp add: p l same_phases_def)
  have po: "phase_ok (hs_coord s) c' = phase_ok (hs_coord s) ?c"
    using assms(2,3) by (cases "hs_coord s" rule: coord.exhaust) (auto simp: l same_phases_def split: prod.splits)
  have wf: "well_formed c'" using assms(1,2,4,5) by (simp add: well_formed_def hs_inv_def Let_def same_phases_def)
  have gc: "c_gc_count c' = c_gc_count ?c" "c_phase c' = c_phase ?c" using assms(2) by (simp_all add: same_phases_def)
  have h: "helped_ok c' (known t)"
  proof -
    have "\<forall>w \<in> known t. w \<notin> live ?c \<longrightarrow> \<not> is_pre (ph ?c w)"
      using hs_invD(7)[OF assms(1), unfolded helped_ok_def] assms(7) by blast
    then show ?thesis using assms(3) by (simp add: helped_ok_def l)
  qed
  have q: "quiet_ok k c' A = quiet_ok k ?c A" "moving_ok k c' A = moving_ok k ?c A" "gc_ok k c' = gc_ok k ?c"
    "owes_ok c' X = owes_ok ?c X" for k A X
    by (simp_all add: quiet_ok_def moving_ok_def gc_ok_def owes_ok_def gc p l)
  show ?thesis
    using hs_invD[OF assms(1)] wf h by (simp add: hs_inv_def assms(6,8,9) st po ow q)
qed


lemma transition_words:
  "(old, pre, new) \<in> transitions \<Longrightarrow> phase_word old \<in> post_phases \<and> phase_word new \<in> post_phases
    \<and> phase_word pre = pre_of (phase_word new)"
  by (auto simp: transitions_def post_phases_def pre_of_def)

lemma finite_live [simp]: "finite (live c)" "finite (pending c T)"
  by (simp_all add: live_def pending_def)

text \<open>A pending worker is not one whose phase is still to be changed.\<close>

lemma pending_worker:
  assumes "hs_inv s" "w \<in> live (hs_ctl s)" "is_pre (ph (hs_ctl s) w)"
  shows "w \<notin> set (todo_of (hs_coord s))" "w \<in> pending (hs_ctl s) (set (todo_of (hs_coord s)))" "w \<notin> owing s"
    "ph (hs_ctl s) w OR 1 = c_phase (hs_ctl s)" "c_phase (hs_ctl s) \<in> post_phases"
proof -
  let ?c = "hs_ctl s" and ?T = "set (todo_of (hs_coord s))"
  note S = hs_invD(2)[OF assms(1), unfolded settled_def]
  show p: "c_phase ?c \<in> post_phases" using S by blast
  show T: "w \<notin> ?T"
  proof
    assume w: "w \<in> ?T"
    then obtain r old pre new f ks ch todo where k: "hs_coord s = Changing r (old, pre, new) f ks ch todo"
      by (cases "hs_coord s") auto
    have "(old, pre, new) \<in> transitions" "ph ?c w = phase_word old"
      using hs_invD(3)[OF assms(1)] assms(2) w by (auto simp: k)
    then show False using transition_words pre_not_post assms(3) by metis
  qed
  have pw: "ph ?c w = pre_of (c_phase ?c)" using S T assms(2,3) p pre_not_post by (metis DiffI)
  then show "w \<in> pending ?c ?T" using T assms(2) by (simp add: pending_def)
  show "w \<notin> owing s"
  proof
    assume "w \<in> owing s"
    then have "ph ?c w = c_phase ?c" using S by auto
    then show False using assms(3) p pre_not_post by simp
  qed
  show "ph ?c w OR 1 = c_phase ?c" using pw p by (simp add: pre_of_pre)
qed

lemma phase_ok_cong:
  assumes "phase_ok k c" "live c' = live c" "c_phase c' = c_phase c" "c_gc_count c' = c_gc_count c"
    and "\<forall>w \<in> set (todo_of k). ph c' w = ph c w \<and> dead c' w = dead c w \<and> (w \<in> set (c_available c) \<longrightarrow> w \<in> set (c_available c') \<or> dead c w)"
  shows "phase_ok k c'"
proof (cases k)
  case (Changing r tr first ks ch todo)
  then show ?thesis using assms by (cases tr; cases todo) auto
qed (use assms in \<open>auto split: prod.splits\<close>)

text \<open>A worker accepts the signal.\<close>

lemma accept_inv:
  assumes "hs_inv s" "w \<in> live (hs_ctl s)" "is_pre (ph (hs_ctl s) w)" "same_phases (hs_ctl s) c'"
    and "ph c' w = ph (hs_ctl s) w OR 1" "\<forall>x. x \<noteq> w \<longrightarrow> state_of c' x = state_of (hs_ctl s) x" "small_state (state_of c' w)"
    and "\<forall>x. canceled c' x = canceled (hs_ctl s) x"
    and "set (hs_owes t) = insert (w, v, ph (hs_ctl s) w OR 1) (set (hs_owes s))"
    and "known t \<subseteq> insert w (known s)" "hs_coord t = hs_coord s" "hs_ctl t = c'"
  shows "hs_inv t"
proof -
  let ?c = "hs_ctl s" and ?T = "set (todo_of (hs_coord s))" and ?k = "hs_coord s"
  note W = pending_worker[OF assms(1-3)] and S = hs_invD(2)[OF assms(1), unfolded settled_def]
  have l: "live c' = live ?c" by (rule same_phases_live[OF assms(4)])
  have same: "c_phase c' = c_phase ?c" "c_gc_count c' = c_gc_count ?c" "c_check_flag c' = c_check_flag ?c"
    "c_available c' = c_available ?c" "\<forall>x. dead c' x = dead ?c x"
    using assms(4) by (simp_all add: same_phases_def)
  have pw: "ph c' w = c_phase ?c" using assms(5) W(4) by simp
  have np: "pre_of (c_phase ?c) \<noteq> c_phase ?c" using pre_of_pre(1)[OF W(5)] pre_not_post W(5) by metis
  have ps: "\<forall>x. x \<noteq> w \<longrightarrow> ph c' x = ph ?c x" using assms(6) by simp
  have "x \<in> pending c' ?T \<longleftrightarrow> x \<in> pending ?c ?T - {w}" for x
    using ps by (cases "x = w") (simp_all add: pending_def l same pw np[symmetric])
  then have P: "pending c' ?T = pending ?c ?T - {w}" by blast
  have O1: "owing t = insert w (owing s)" using assms(9) by (simp add: owing_def)
  have fin: "finite (owing s)" by (simp add: owing_def)
  have card: "card (pending c' ?T) + card (owing t) = card (pending ?c ?T) + card (owing s)"
    using card_Suc_Diff1[OF _ W(2)] W(3) fin by (simp add: P O1)
  have "well_formed c'"
    using hs_invD(1)[OF assms(1)] assms(6,7,8) by (auto simp: well_formed_def l same)
  moreover have "settled c' (owing t) (length (changed_of ?k)) ?T"
  proof -
    have "\<forall>x \<in> live c' - ?T. ph c' x = pre_of (c_phase c') \<or> ph c' x = c_phase c'"
      using S ps pw by (metis l same(1))
    moreover have "owing t \<subseteq> {x \<in> live c' - ?T. ph c' x = c_phase c'}"
    proof
      fix x assume x: "x \<in> owing t"
      show "x \<in> {x \<in> live c' - ?T. ph c' x = c_phase c'}"
      proof (cases "x = w")
        case True then show ?thesis using W(1) assms(2) pw by (simp add: l same)
      next
        case False
        then have "x \<in> {w \<in> live ?c - ?T. ph ?c w = c_phase ?c}" using x S by (auto simp: O1)
        then show ?thesis using False ps by (simp add: l same)
      qed
    qed
    ultimately show ?thesis using S card by (simp add: settled_def same)
  qed
  moreover have "phase_ok ?k c'"
    by (rule phase_ok_cong[OF hs_invD(3)[OF assms(1)]]) (use ps W(1) in \<open>auto simp: l same\<close>)
  moreover have "quiet_ok ?k c' (owing t)"
    using hs_invD(4)[OF assms(1)] W(2) by (auto simp: quiet_ok_def same)
  moreover have "pending c' ?T \<union> owing t = pending ?c ?T \<union> owing s" using W(2) by (auto simp: P O1)
  then have "moving_ok ?k c' (owing t)"
    using hs_invD(5)[OF assms(1)] by (simp add: moving_ok_def l)
  moreover have "gc_ok ?k c'" using hs_invD(6)[OF assms(1)] by (simp add: gc_ok_def same)
  moreover have "helped_ok c' (known t)"
  proof -
    have "\<not> is_pre (ph c' x)" if "x \<in> known t" "x \<notin> live c'" for x
    proof -
      have "x \<noteq> w" "x \<in> known s" "x \<notin> live ?c" using that assms(2,10) by (auto simp: l)
      then show ?thesis using hs_invD(7)[OF assms(1), unfolded helped_ok_def] ps by metis
    qed
    then show ?thesis by (simp add: helped_ok_def)
  qed
  moreover have "owes_ok c' (set (hs_owes t))"
    using hs_invD(8)[OF assms(1)] W(4) by (simp add: owes_ok_def assms(9) same)
  ultimately show ?thesis by (simp only: hs_inv_def assms(11,12))
qed


text \<open>The counts are far from overflowing.\<close>

lemma count_bound:
  assumes "hs_inv s"
  shows "card (pending (hs_ctl s) (set (todo_of (hs_coord s)))) + card (owing s) \<le> 2 ^ 31"
    "moving (hs_coord s) \<Longrightarrow> card (pending (hs_ctl s) (set (todo_of (hs_coord s)))) + card (owing s) \<le> length (changed_of (hs_coord s))
      \<and> length (changed_of (hs_coord s)) \<le> 2 ^ 31"
proof -
  let ?c = "hs_ctl s" and ?T = "set (todo_of (hs_coord s))"
  note S = hs_invD(2)[OF assms, unfolded settled_def] and W = hs_invD(1)[OF assms, unfolded well_formed_def]
  have p: "pre_of (c_phase ?c) \<noteq> c_phase ?c" using S pre_of_pre(1) pre_not_post by metis
  have fin: "finite (owing s)" by (simp add: owing_def)
  have dis: "pending ?c ?T \<inter> owing s = {}" using S p by (auto simp: pending_def)
  then have c: "card (pending ?c ?T) + card (owing s) = card (pending ?c ?T \<union> owing s)"
    using fin by (simp add: card_Un_disjoint)
  have lv: "card (live ?c) \<le> 2 ^ 31"
  proof -
    have "card (live ?c) \<le> card (set (c_available ?c))" by (rule card_mono) (auto simp: live_def)
    also have "\<dots> \<le> length (c_available ?c)" by (rule card_length)
    finally show ?thesis using W by simp
  qed
  have "pending ?c ?T \<union> owing s \<subseteq> live ?c" using S by (auto simp: pending_def)
  then show "card (pending ?c ?T) + card (owing s) \<le> 2 ^ 31"
    using card_mono[OF finite_live(1)] lv c by (metis order_trans)
  assume m: "moving (hs_coord s)"
  then have M: "pending ?c ?T \<union> owing s \<subseteq> set (changed_of (hs_coord s))" "set (changed_of (hs_coord s)) \<subseteq> live ?c"
    "distinct (changed_of (hs_coord s))" using hs_invD(5)[OF assms] by (auto simp: moving_ok_def)
  have "card (set (changed_of (hs_coord s))) = length (changed_of (hs_coord s))" by (rule distinct_card[OF M(3)])
  then show "card (pending ?c ?T) + card (owing s) \<le> length (changed_of (hs_coord s)) \<and> length (changed_of (hs_coord s)) \<le> 2 ^ 31"
    using card_mono[OF _ M(1)] card_mono[OF finite_live(1) M(2)] lv c by simp
qed

lemma u32_of_nat_eq: "a < 2 ^ 32 \<Longrightarrow> b < 2 ^ 32 \<Longrightarrow> (of_nat a :: u32) = of_nat b \<longleftrightarrow> a = b"
  by (simp add: word_of_nat_eq_iff take_bit_nat_eq_self)

text \<open>The thread that decrements the flag from 1 to 0 is the last: nobody is pending or owes a response,
  and no other thread is changing the phase.\<close>

lemma last_response:
  assumes "hs_inv s" "w \<in> owing s" "c_check_flag (hs_ctl s) = 1"
  shows "hs_coord s = Idle" "c_gc_count (hs_ctl s) AND 1 \<noteq> 0" "pending (hs_ctl s) {} = {}" "owing s = {w}"
proof -
  let ?c = "hs_ctl s" and ?T = "set (todo_of (hs_coord s))" and ?k = "hs_coord s"
  note S = hs_invD(2)[OF assms(1), unfolded settled_def]
  let ?n = "card (pending ?c ?T) + card (owing s)" and ?m = "length (changed_of ?k)"
  have nq: "\<not> quiet ?k (c_gc_count ?c)" using hs_invD(4)[OF assms(1)] assms(2) by (auto simp: quiet_ok_def)
  have eq: "(of_nat (Suc ?m) :: u32) = of_nat ?n" using S assms(3) by simp
  have nm: "\<not> moving ?k"
  proof
    assume m: "moving ?k"
    have "?n \<le> ?m" "?m \<le> 2 ^ 31" using count_bound(2)[OF assms(1) m] by auto
    moreover from this have "Suc ?m = ?n" using eq by (subst (asm) u32_of_nat_eq) simp_all
    ultimately show False by simp
  qed
  show k: "?k = Idle" using nq nm by (cases ?k) auto
  then show "c_gc_count ?c AND 1 \<noteq> 0" using nq by simp
  have "Suc 0 = ?n" using eq k count_bound(1)[OF assms(1)] by (subst (asm) u32_of_nat_eq) simp_all
  moreover have "finite (owing s)" by (simp add: owing_def)
  then have "card (owing s) \<noteq> 0" using assms(2) by auto
  ultimately have c: "card (pending ?c ?T) = 0" "card (owing s) = 1" by linarith+
  then show "pending ?c {} = {}" "owing s = {w}" using k assms(2) by (auto simp: card_1_singleton_iff)
qed

lemma next_coord_simps [simp]: "todo_of (next_coord p f v) = []" "kept_of (next_coord p f v) = []" "changed_of (next_coord p f v) = []"
  "\<not> moving (next_coord p f v)" "next_coord p f v \<noteq> Idle" "runner (next_coord p f v) = Some v"
  by (simp_all add: next_coord_def)

text \<open>A worker finishes its action and decrements the flag.\<close>

lemma act_inv:
  assumes "hs_inv s" "w \<in> owing s" "(w, v, p) \<in> set (hs_owes s)"
    and "c_available c' = c_available (hs_ctl s)" "c_phase c' = c_phase (hs_ctl s)" "c_gc_count c' = c_gc_count (hs_ctl s)"
    and "\<forall>x. state_of c' x = state_of (hs_ctl s) x \<and> dead c' x = dead (hs_ctl s) x \<and> canceled c' x = canceled (hs_ctl s) x"
    and "c_check_flag c' = c_check_flag (hs_ctl s) - 1"
    and "set (hs_owes t) = {x \<in> set (hs_owes s). fst x \<noteq> w}" "known t \<subseteq> known s" "hs_ctl t = c'"
    and "hs_coord t = (if c_check_flag (hs_ctl s) = 1 then next_coord p f v else hs_coord s)"
  shows "hs_inv t"
proof -
  let ?c = "hs_ctl s" and ?k = "hs_coord s"
  let ?T = "set (todo_of ?k)"
  note S = hs_invD(2)[OF assms(1), unfolded settled_def]
  have l: "live c' = live ?c" using assms(4,7) by (simp add: live_def)
  have P: "pending c' T = pending ?c T" for T using assms(5,7) by (simp add: pending_def l)
  have O1: "owing t = owing s - {w}" using assms(9) by (auto simp: owing_def)
  have fin: "finite (owing s)" by (simp add: owing_def)
  have card: "card (owing s) = Suc (card (owing t))" using card_Suc_Diff1[OF fin assms(2)] by (simp add: O1)
  have wf: "well_formed c'" using hs_invD(1)[OF assms(1)] assms(4,7) by (simp add: well_formed_def l)
  have st: "settled c' (owing t) (length (changed_of ?k)) ?T"
  proof -
    have "c_check_flag ?c + of_nat (length (changed_of ?k)) = of_nat (card (pending ?c ?T) + card (owing t)) + 1"
      using S card by simp
    then have "c_check_flag c' + of_nat (length (changed_of ?k)) = of_nat (card (pending c' ?T) + card (owing t))"
      unfolding P assms(8) by (simp add: algebra_simps)
    then show ?thesis using S assms(5,7) by (auto simp: settled_def l O1)
  qed
  have he: "helped_ok c' (known t)"
    using hs_invD(7)[OF assms(1)] assms(7) subsetD[OF assms(10)] by (simp add: helped_ok_def l)
  have ow: "owes_ok c' (set (hs_owes t))"
    using hs_invD(8)[OF assms(1)] assms(5,9) by (auto simp: owes_ok_def)
  show ?thesis
  proof (cases "c_check_flag ?c = 1")
    case True
    note L = last_response[OF assms(1,2) True]
    have k: "hs_coord t = next_coord p f v" using True assms(12) by simp
    have O0: "owing t = {}" using L(4) O1 by simp
    have p: "p = c_phase ?c" using hs_invD(8)[OF assms(1)] assms(3) by (auto simp: owes_ok_def)
    have "settled c' (owing t) 0 {}" using st L(1) by simp
    moreover have "phase_ok (next_coord p f v) c'"
      using S by (auto simp: next_coord_def p assms(5) transitions_def elim!: post_cases)
    moreover have "quiet_ok (next_coord p f v) c' (owing t)" using L(3) O0 by (simp add: quiet_ok_def P)
    moreover have "moving_ok (next_coord p f v) c' (owing t)" by (simp add: moving_ok_def)
    moreover have "gc_ok (next_coord p f v) c'" using L(2) assms(6) by (simp add: gc_ok_def)
    ultimately show ?thesis using wf he ow by (simp add: hs_inv_def k assms(11))
  next
    case False
    then have k: "hs_coord t = ?k" using assms(12) by simp
    have "phase_ok ?k c'"
      by (rule phase_ok_cong[OF hs_invD(3)[OF assms(1)]]) (use assms(4-7) in \<open>simp_all add: l\<close>)
    moreover have "quiet_ok ?k c' (owing t)" using hs_invD(4)[OF assms(1)] assms(6) by (auto simp: quiet_ok_def P O1)
    moreover have "moving_ok ?k c' (owing t)" using hs_invD(5)[OF assms(1)] by (auto simp: moving_ok_def P O1 l)
    moreover have "gc_ok ?k c'" using hs_invD(6)[OF assms(1)] assms(6) by (simp add: gc_ok_def)
    ultimately show ?thesis using st wf he ow by (simp only: hs_inv_def k assms(11))
  qed
qed


section \<open>Every event keeps the invariant\<close>

lemma set_state_simps [simp]:
  "state_of (set_state w st c) x = (if x = w then st else state_of c x)" "flags_of (set_state w st c) x = flags_of c x"
  "c_available (set_state w st c) = c_available c" "c_phase (set_state w st c) = c_phase c"
  "c_check_flag (set_state w st c) = c_check_flag c" "c_gc_count (set_state w st c) = c_gc_count c"
  "dead (set_state w st c) x = dead c x" "canceled (set_state w st c) x = canceled c x"
  "c_handshake (set_state w st c) = c_handshake c"
  by (simp_all add: set_state_def dead_def canceled_def)

lemma set_flags_simps [simp]:
  "state_of (set_flags w f c) x = state_of c x" "flags_of (set_flags w f c) x = (if x = w then f else flags_of c x)"
  "c_available (set_flags w f c) = c_available c" "c_phase (set_flags w f c) = c_phase c"
  "c_handshake (set_flags w f c) = c_handshake c" "c_check_flag (set_flags w f c) = c_check_flag c" "c_gc_count (set_flags w f c) = c_gc_count c"
  by (simp_all add: set_flags_def)

lemma small_live: "hs_inv s \<Longrightarrow> w \<in> live (hs_ctl s) \<Longrightarrow> small_state (state_of (hs_ctl s) w)"
  using hs_invD(1) by (simp add: well_formed_def)

lemma dead_canceled: "hs_inv s \<Longrightarrow> w \<in> set (c_available (hs_ctl s)) \<Longrightarrow> dead (hs_ctl s) w \<Longrightarrow> canceled (hs_ctl s) w"
  using hs_invD(1) by (simp add: well_formed_def)

lemma free_live: "hs_inv s \<Longrightarrow> free_thread s v \<Longrightarrow> v \<in> live (hs_ctl s)"
  using dead_canceled by (auto simp: free_thread_def live_def)

text \<open>Only lock and helper bits change.\<close>

lemma lock_inv:
  assumes "hs_inv s" "PHASE st = ph (hs_ctl s) w" "w \<in> live (hs_ctl s) \<Longrightarrow> small_state st"
    and "known t \<subseteq> known s" "hs_owes t = hs_owes s" "hs_coord t = hs_coord s"
    and "hs_ctl t = set_state w st (hs_ctl s)"
  shows "hs_inv t"
proof (rule same_phases_inv[OF assms(1), of "set_state w st (hs_ctl s)"])
  show sp: "same_phases (hs_ctl s) (set_state w st (hs_ctl s))" by (simp add: same_phases_def)
  show "\<forall>x \<in> live (set_state w st (hs_ctl s)). small_state (state_of (set_state w st (hs_ctl s)) x)"
    using small_live[OF assms(1)] assms(3) by (simp add: same_phases_live[OF sp])
qed (use assms dead_canceled[OF assms(1)] in simp_all)

lemma accept_state_inv:
  assumes "hs_inv s" "w \<in> live (hs_ctl s)" "is_pre (ph (hs_ctl s) w)" "PHASE st = ph (hs_ctl s) w OR 1" "small_state st"
    and "known t \<subseteq> insert w (known s)" "hs_owes t = (w, v, ph (hs_ctl s) w OR 1) # hs_owes s"
    and "hs_coord t = hs_coord s" "hs_ctl t = (set_state w st (hs_ctl s))\<lparr>c_handshake := h\<rparr>"
  shows "hs_inv t"
proof (rule accept_inv[OF assms(1-3), of "(set_state w st (hs_ctl s))\<lparr>c_handshake := h\<rparr>"])
  show "same_phases (hs_ctl s) ((set_state w st (hs_ctl s))\<lparr>c_handshake := h\<rparr>)"
    by (simp add: same_phases_def) (simp add: dead_def)
qed (use assms in \<open>simp_all add: canceled_def\<close>)

lemma ml_state:
  assumes "hs_inv s" "in_ml s w"
  shows "w \<in> live (hs_ctl s)" "PHASE (state_of (hs_ctl s) w) = state_of (hs_ctl s) w" "small_state (state_of (hs_ctl s) w)"
proof -
  show l: "w \<in> live (hs_ctl s)" using assms(2) free_live[OF assms(1)] by (simp add: in_ml_def)
  show sm: "small_state (state_of (hs_ctl s) w)" by (rule small_live[OF assms(1) l])
  show "PHASE (state_of (hs_ctl s) w) = state_of (hs_ctl s) w"
    using assms(2) by (intro plain_state[OF sm]) (simp_all add: in_ml_def state_bits)
qed

lemma small_numerals [simp]: "small_state 1" "small_state 0x10" "small_state 0x20" "small_state 0x11" "small_state 0x30"
  by (simp_all add: small_state_def)

lemma PHASE_numerals [simp]: "PHASE 1 = 1" "PHASE 0x10 = 0" "PHASE 0x20 = 0" "PHASE 0x11 = 1" "PHASE 0x30 = 0"
  by (simp_all add: PHASE_def PHASE_MASK_def)

lemma PHASE_clear_lock: "PHASE (st AND - 17) = PHASE st"
proof -
  have "(st AND - 17) AND 7 = st AND (- 17 AND 7)" by (rule and.assoc)
  then show ?thesis by (simp add: PHASE_def PHASE_MASK_def)
qed

lemma small_PHASE: "small_state (PHASE st)"
  by (simp add: small_state_def PHASE_def PHASE_MASK_def and.assoc)

lemma enter_keeps:
  assumes "hs_inv s" "hs_exec (Enter w) s = Some t"
  shows "hs_inv t"
proof -
  have t: "t = s\<lparr>hs_ctl := set_state w (state_of (hs_ctl s) w AND NOT 0x10) (hs_ctl s)\<rparr>"
    using assms(2) by (auto simp: acquire_unbit_def state_bits split: if_splits)
  show ?thesis
    by (rule lock_inv[OF assms(1), of "state_of (hs_ctl s) w AND NOT 0x10" w])
      (use small_ops(3)[OF small_live[OF assms(1)] small_live[OF assms(1)]] in \<open>simp_all add: t PHASE_clear_lock known_def\<close>)
qed

lemma leave_keeps:
  assumes "hs_inv s" "hs_exec (Leave w) s = Some t"
  shows "hs_inv t"
proof -
  let ?st = "state_of (hs_ctl s) w"
  have ml: "in_ml s w" and t: "t = s\<lparr>hs_ctl := set_state w (?st OR 0x11) (hs_ctl s),
      hs_owes := (if is_pre ?st then (w, w, ?st OR 1) # hs_owes s else hs_owes s)\<rparr>"
    using assms(2) by (auto simp: Let_def state_bits split: if_splits)
  note M = ml_state[OF assms(1) ml]
  have sm: "small_state (?st OR 0x11)" by (rule small_ops(1)[OF M(3)]) simp
  have P: "PHASE (?st OR 0x11) = ?st OR 1" by (simp add: PHASE_ops M(2))
  show ?thesis
  proof (cases "is_pre ?st")
    case True
    show ?thesis
      by (rule accept_state_inv[OF assms(1) M(1), of "?st OR 0x11" _ w "c_handshake (hs_ctl s)"])
        (use True sm P in \<open>auto simp: t M(2) known_def\<close>)
  next
    case False
    then have "?st OR 1 = ?st" using pre_or_post[of ?st] pre_of_pre(3) by (simp add: M(2))
    then show ?thesis
      by (intro lock_inv[OF assms(1), of "?st OR 0x11" w]) (use False sm P in \<open>auto simp: t M(2) known_def\<close>)
  qed
qed

lemma accept_keeps:
  assumes "hs_inv s" "hs_exec (Accept w) s = Some t"
  shows "hs_inv t"
proof -
  let ?st = "state_of (hs_ctl s) w"
  have ml: "in_ml s w" "is_pre ?st" and t: "t = s\<lparr>hs_ctl := set_state w (?st OR 1) (hs_ctl s), hs_owes := (w, w, ?st OR 1) # hs_owes s\<rparr>"
    using assms(2) by (auto simp: Let_def split: if_splits)
  note M = ml_state[OF assms(1) ml(1)]
  have sm: "small_state (?st OR 1)" by (rule small_ops(1)[OF M(3)]) simp
  show ?thesis
    by (rule accept_state_inv[OF assms(1) M(1), of "?st OR 1" _ w "c_handshake (hs_ctl s)"])
      (use ml(2) sm in \<open>auto simp: t M(2) PHASE_ops known_def\<close>)
qed

definition taken_ok :: "handshake \<Rightarrow> bool" where
  "taken_ok s \<longleftrightarrow> (\<forall>(w, v, old) \<in> set (hs_taken s). is_pre (PHASE old))"

lemma take_keeps:
  assumes "hs_inv s" "hs_exec (Take v w) s = Some t"
  shows "hs_inv t" "taken_ok s \<Longrightarrow> taken_ok t"
proof -
  let ?c = "hs_ctl s"
  obtain nx where n: "dropWhile (\<lambda>w. \<not> needs_help ?c w) (c_handshake ?c) = w # nx"
    and t: "t = s\<lparr>hs_ctl := ?c\<lparr>c_handshake := nx\<rparr>, hs_taken := (w, v, state_of ?c w) # hs_taken s\<rparr>"
    using assms(2) by (auto simp: Let_def split: if_splits list.splits)
  have "needs_help ?c w" using n by (metis dropWhile_eq_Cons_conv)
  then show "taken_ok s \<Longrightarrow> taken_ok t" using needs_help_pre by (simp add: taken_ok_def t)
  have sub: "insert w (set nx) \<subseteq> set (c_handshake ?c)" using n by (metis list.simps(15) set_dropWhileD subsetI)
  have d: "dead (?c\<lparr>c_handshake := nx\<rparr>) x = dead ?c x" "canceled (?c\<lparr>c_handshake := nx\<rparr>) x = canceled ?c x" for x
    by (simp_all add: dead_def canceled_def)
  have sp: "same_phases ?c (?c\<lparr>c_handshake := nx\<rparr>)" by (simp add: same_phases_def d)
  show "hs_inv t"
  proof (rule same_phases_inv[OF assms(1) sp])
    show "known t \<subseteq> known s" using sub by (auto simp: known_def t)
    show "\<forall>x \<in> live (?c\<lparr>c_handshake := nx\<rparr>). small_state (state_of (?c\<lparr>c_handshake := nx\<rparr>) x)"
      using small_live[OF assms(1)] by (simp add: same_phases_live[OF sp])
  qed (use dead_canceled[OF assms(1)] in \<open>simp_all add: t d\<close>)
qed

lemma clear_keeps:
  assumes "hs_inv s" "hs_exec (Clear v) s = Some t"
  shows "hs_inv t"
proof -
  let ?c = "hs_ctl s"
  have t: "t = s\<lparr>hs_ctl := ?c\<lparr>c_handshake := []\<rparr>\<rparr>"
    using assms(2) by (auto simp: Let_def split: if_splits)
  have d: "dead (?c\<lparr>c_handshake := []\<rparr>) x = dead ?c x" "canceled (?c\<lparr>c_handshake := []\<rparr>) x = canceled ?c x" for x
    by (simp_all add: dead_def canceled_def)
  have sp: "same_phases ?c (?c\<lparr>c_handshake := []\<rparr>)" by (simp add: same_phases_def d)
  show ?thesis
  proof (rule same_phases_inv[OF assms(1) sp])
    show "known t \<subseteq> known s" by (auto simp: known_def t)
    show "\<forall>x \<in> live (?c\<lparr>c_handshake := []\<rparr>). small_state (state_of (?c\<lparr>c_handshake := []\<rparr>) x)"
      using small_live[OF assms(1)] by (simp add: same_phases_live[OF sp])
  qed (use dead_canceled[OF assms(1)] in \<open>simp_all add: t d\<close>)
qed

text \<open>A worker that a helper knows of and that has an action pending is alive.\<close>

lemma known_live: "hs_inv s \<Longrightarrow> w \<in> known s \<Longrightarrow> is_pre (ph (hs_ctl s) w) \<Longrightarrow> w \<in> live (hs_ctl s)"
  using hs_invD(7) unfolding helped_ok_def by blast

lemma help_keeps:
  assumes "hs_inv s" "taken_ok s" "hs_exec (Help v) s = Some t"
  shows "hs_inv t"
proof -
  let ?c = "hs_ctl s" and ?tk = "filter (\<lambda>x. fst (snd x) \<noteq> v) (hs_taken s)"
  obtain x where x: "find (\<lambda>x. fst (snd x) = v) (hs_taken s) = Some x" using assms(3) by (auto split: option.splits)
  then have xv: "fst (snd x) = v" "x \<in> set (hs_taken s)" by (auto simp: find_Some_iff)
  obtain w old where f: "find (\<lambda>x. fst (snd x) = v) (hs_taken s) = Some (w, v, old)" and m: "(w, v, old) \<in> set (hs_taken s)"
    using x xv by (cases x) auto
  let ?st = "(ph ?c w OR 1) OR 0x20"
  have p: "is_pre (PHASE old)" using assms(2) m by (auto simp: taken_ok_def)
  have k: "w \<in> known s" using m by (force simp: known_def)
  show ?thesis
  proof (cases "state_of ?c w = old")
    case True
    have t: "t = s\<lparr>hs_ctl := set_state w ?st ?c, hs_owes := (w, v, ph ?c w OR 1) # hs_owes s, hs_helps := (w, v) # hs_helps s,
        hs_taken := ?tk\<rparr>"
      using assms(3) f True by (auto simp: Let_def state_bits)
    have w: "w \<in> live ?c" "is_pre (ph ?c w)" using known_live[OF assms(1) k] p True by auto
    have sm: "small_state ?st" by (intro small_ops(1) small_PHASE) simp_all
    have kn: "known t \<subseteq> insert w (known s)" by (auto simp: known_def t set_state_def)
    have ctl: "set_state w ?st ?c = (set_state w ?st ?c)\<lparr>c_handshake := c_handshake ?c\<rparr>" by (simp add: set_state_def)
    show ?thesis
      by (rule accept_state_inv[OF assms(1) w, of ?st _ v "c_handshake ?c"]) (use sm kn ctl in \<open>simp_all add: t PHASE_ops\<close>)
  next
    case False
    have t: "t = s\<lparr>hs_taken := ?tk\<rparr>" using assms(3) f False by (auto simp: Let_def)
    have sp: "same_phases ?c ?c" by (simp add: same_phases_def)
    show ?thesis
    proof (rule same_phases_inv[OF assms(1) sp])
      show "known t \<subseteq> known s" by (auto simp: known_def t)
    qed (use dead_canceled[OF assms(1)] small_live[OF assms(1)] in \<open>simp_all add: t\<close>)
  qed
qed

lemma release_keeps:
  assumes "hs_inv s" "hs_exec (Release w) s = Some t"
  shows "hs_inv t"
proof -
  let ?st = "state_of (hs_ctl s) w"
  have t: "t = s\<lparr>hs_ctl := set_state w (?st XOR 0x30) (hs_ctl s), hs_helps := filter (\<lambda>x. fst x \<noteq> w) (hs_helps s)\<rparr>"
    using assms(2) by (auto simp: Let_def state_bits split: if_splits option.splits)
  show ?thesis
    by (rule lock_inv[OF assms(1), of "?st XOR 0x30" w])
      (use small_ops(2) small_live[OF assms(1)] in \<open>auto simp: t PHASE_ops known_def\<close>)
qed

lemma retry_keeps:
  assumes "hs_inv s" "hs_exec (Retry w) s = Some t"
  shows "hs_inv t"
proof -
  let ?st = "state_of (hs_ctl s) w"
  obtain v where f: "find (\<lambda>x. fst x = w) (hs_helps s) = Some (w, v)" and p: "is_pre (PHASE ?st)"
    and t: "t = s\<lparr>hs_ctl := set_state w (?st OR 1) (hs_ctl s), hs_owes := (w, v, PHASE ?st OR 1) # hs_owes s\<rparr>"
  proof -
    obtain x where x: "find (\<lambda>x. fst x = w) (hs_helps s) = Some x" using assms(2) by (auto simp: Let_def split: option.splits)
    then have "fst x = w" by (auto simp: find_Some_iff)
    then show thesis using that[of "snd x"] x assms(2) by (cases x) (auto simp: Let_def split: if_splits)
  qed
  have "(w, v) \<in> set (hs_helps s)" using f by (auto simp: find_Some_iff)
  then have "w \<in> known s" by (force simp: known_def)
  then have "w \<in> live (hs_ctl s)" by (rule known_live[OF assms(1) _ p])
  moreover from this have "small_state (?st OR 1)" by (intro small_ops(1) small_live[OF assms(1)]) simp_all
  ultimately show ?thesis
    by (intro accept_state_inv[OF assms(1), of w "?st OR 1" _ v "c_handshake (hs_ctl s)"]) (use p in \<open>auto simp: t PHASE_ops known_def\<close>)
qed


lemma heap_call_simps [simp]:
  "c_worker (heap_call h c) = c_worker c" "c_available (heap_call h c) = c_available c" "c_phase (heap_call h c) = c_phase c"
  "c_check_flag (heap_call h c) = c_check_flag c" "c_gc_count (heap_call h c) = c_gc_count c"
  "c_handshake (heap_call h c) = c_handshake c" "c_user (heap_call h c) = c_user c"
  "dead (heap_call h c) x = dead c x" "canceled (heap_call h c) x = canceled c x"
  by (simp_all add: heap_call_def dead_def canceled_def)

text \<open>Setting another flag leaves the dead and canceled flags alone.\<close>

lemma or_and_flag:
  fixes f :: u32
  shows "(f OR 8) AND 4 = f AND 4" "(f OR 8) AND 2 = f AND 2" "(f OR 2) AND 4 = f AND 4" "(f OR 2) AND 2 = 2"
    "(f OR 4) AND 4 = 4" "(f OR 4) AND 2 = f AND 2" "(f AND - 9) AND 4 = f AND 4" "(f AND - 9) AND 2 = f AND 2"
proof -
  have c: "(f AND - 9) AND b = f AND (- 9 AND b)" for b :: u32 by (rule and.assoc)
  show "(f AND - 9) AND 4 = f AND 4" "(f AND - 9) AND 2 = f AND 2" by (simp_all add: c)
  have d: "(f OR a) AND b = (f AND b) OR (a AND b)" for a b :: u32 by (rule bit.conj_disj_distrib2)
  show "(f OR 8) AND 4 = f AND 4" "(f OR 8) AND 2 = f AND 2" "(f OR 2) AND 4 = f AND 4" "(f OR 4) AND 2 = f AND 2"
    by (simp_all add: d)
  have e: "(f AND b) OR b = b" for b :: u32 by (rule bit_eqI) (auto simp: bit_simps)
  show "(f OR 2) AND 2 = 2" "(f OR 4) AND 4 = 4" using e by (simp_all add: d)
qed

lemma action_call_simps [simp]:
  "state_of (action_call p w c) x = state_of c x" "dead (action_call p w c) x = dead c x"
  "canceled (action_call p w c) x = canceled c x" "c_available (action_call p w c) = c_available c"
  "c_phase (action_call p w c) = c_phase c" "c_check_flag (action_call p w c) = c_check_flag c"
  "c_gc_count (action_call p w c) = c_gc_count c" "c_handshake (action_call p w c) = c_handshake c"
  by (simp_all add: action_call_def Let_def) (simp_all add: dead_def canceled_def state_bits or_and_flag)

lemma globalenum_flag:
  "dead (set_flags w (flags_of c w OR GLOBALENUM_FLAG) c) x = dead c x"
  "canceled (set_flags w (flags_of c w OR GLOBALENUM_FLAG) c) x = canceled c x"
  by (simp_all add: dead_def canceled_def state_bits or_and_flag)

lemma fetch_sub_simps:
  "state_of (snd (fetch_sub_flag c)) x = state_of c x"
  "dead (snd (fetch_sub_flag c)) x = dead c x" "canceled (snd (fetch_sub_flag c)) x = canceled c x"
  by (simp_all add: fetch_sub_flag_def dead_def canceled_def)

lemma act_keeps:
  assumes "hs_inv s" "hs_exec (Act w f) s = Some t"
  shows "hs_inv t"
proof -
  let ?c = "\<lambda>p. snd (fetch_sub_flag (action_call p w (hs_ctl s)))" and ?b = "c_check_flag (hs_ctl s) = 1"
  obtain v p where f: "find (\<lambda>x. fst x = w) (hs_owes s) = Some (w, v, p)"
  proof -
    obtain x where x: "find (\<lambda>x. fst x = w) (hs_owes s) = Some x" using assms(2) by (auto split: option.splits)
    then have "fst x = w" by (auto simp: find_Some_iff)
    then show thesis using that[of "fst (snd x)" "snd (snd x)"] x by (cases x) auto
  qed
  then have m: "(w, v, p) \<in> set (hs_owes s)" by (auto simp: find_Some_iff)
  then have ow: "w \<in> owing s" by (force simp: owing_def)
  let ?c' = "if ?b \<and> p = phase_word SYNC1 then set_flags w (flags_of (?c p) w OR GLOBALENUM_FLAG) (?c p) else ?c p"
  have t: "t = s\<lparr>hs_ctl := ?c', hs_owes := filter (\<lambda>x. fst x \<noteq> w) (hs_owes s),
      hs_coord := (if ?b then next_coord p f v else hs_coord s)\<rparr>"
    using assms(2) f by (auto simp: fetch_sub_flag_def)
  have fl: "\<forall>x. state_of ?c' x = state_of (hs_ctl s) x \<and> dead ?c' x = dead (hs_ctl s) x \<and> canceled ?c' x = canceled (hs_ctl s) x"
    by (simp add: globalenum_flag fetch_sub_simps)
  show ?thesis
    by (rule act_inv[OF assms(1) ow m _ _ _ fl]) (auto simp: t fetch_sub_flag_def known_def)
qed

lemma cancel_keeps:
  assumes "hs_inv s" "hs_exec (Cancel w) s = Some t"
  shows "hs_inv t"
proof -
  let ?c = "set_flags w (flags_of (hs_ctl s) w OR 2) (hs_ctl s)"
  have t: "t = s\<lparr>hs_ctl := ?c\<rparr>"
    using assms(2) by (auto simp: cancel_worker_def Let_def state_bits split: if_splits)
  have sp: "same_phases (hs_ctl s) ?c" by (simp add: same_phases_def) (simp add: dead_def state_bits or_and_flag)
  have ca: "canceled (hs_ctl s) x \<Longrightarrow> canceled ?c x" for x by (simp add: canceled_def state_bits or_and_flag)
  show ?thesis
  proof (rule same_phases_inv[OF assms(1) sp])
    show "\<forall>x \<in> set (c_available ?c). dead ?c x \<longrightarrow> canceled ?c x"
      using dead_canceled[OF assms(1)] ca sp by (simp add: same_phases_def)
    show "\<forall>x \<in> live ?c. small_state (state_of ?c x)"
      using small_live[OF assms(1)] by (simp add: same_phases_live[OF sp])
  qed (simp_all add: t known_def)
qed

lemma users_keeps:
  assumes "hs_inv s" "hs_exec (Users w us) s = Some t"
  shows "hs_inv t"
proof -
  let ?c = "upd_worker w (\<lambda>x. x\<lparr>w_users := us\<rparr>) (hs_ctl s)"
  have t: "t = s\<lparr>hs_ctl := ?c\<rparr>" using assms(2) by simp
  have sp: "same_phases (hs_ctl s) ?c" by (simp add: same_phases_def dead_def)
  show ?thesis
  proof (rule same_phases_inv[OF assms(1) sp])
    show "\<forall>x \<in> set (c_available ?c). dead ?c x \<longrightarrow> canceled ?c x"
      using dead_canceled[OF assms(1)] by (simp add: dead_def canceled_def)
    show "\<forall>x \<in> live ?c. small_state (state_of ?c x)"
      using small_live[OF assms(1)] by (simp add: same_phases_live[OF sp])
  qed (simp_all add: t known_def)
qed


lemma dropWhile_live: "x \<in> set (dropWhile (dead c) xs) \<and> \<not> dead c x \<longleftrightarrow> x \<in> set xs \<and> \<not> dead c x"
  by (induction xs) auto

lemma register_keeps:
  assumes "hs_inv s" "hs_exec (Register w f a) s = Some t"
  shows "hs_inv t"
proof -
  let ?c = "hs_ctl s" and ?k = "hs_coord s" and ?T = "set (todo_of (hs_coord s))"
  let ?c1 = "upd_worker w (\<lambda>x. x\<lparr>w_flags := f, w_users := [], w_allocator := a\<rparr>) ?c"
  let ?c' = "(set_state w (c_phase ?c) ?c1)\<lparr>c_available := w # dropWhile (dead ?c1) (c_available ?c)\<rparr>"
  have g: "w \<notin> set (c_available ?c)" "w \<notin> ?T" "w \<notin> owing s" "w \<notin> known s" "f AND (2 OR 4) = 0"
    "length (c_available ?c) < 2 ^ 31" and t: "t = s\<lparr>hs_ctl := ?c'\<rparr>"
    using assms(2) by (auto simp: register_worker_def Let_def owing_def known_def state_bits split: if_splits)
  note S = hs_invD(2)[OF assms(1), unfolded settled_def] and W = hs_invD(1)[OF assms(1), unfolded well_formed_def]
  have "(f AND (2 OR 4)) AND 4 = 0" using g(5) by simp
  then have fd: "f AND 4 = 0" by (simp add: and.assoc)
  have D: "\<forall>x. x \<noteq> w \<longrightarrow> dead ?c' x = dead ?c x \<and> dead ?c1 x = dead ?c x \<and> canceled ?c' x = canceled ?c x \<and> state_of ?c' x = state_of ?c x"
    by (simp add: dead_def canceled_def set_state_def)
  have dw: "\<not> dead ?c' w" "state_of ?c' w = c_phase ?c" using fd by (simp_all add: dead_def set_state_def state_bits)
  have dr: "dropWhile (dead ?c1) (c_available ?c) = dropWhile (dead ?c) (c_available ?c)"
    by (rule dropWhile_cong) (use D g(1) in auto)
  have same: "c_phase ?c' = c_phase ?c" "c_check_flag ?c' = c_check_flag ?c" "c_gc_count ?c' = c_gc_count ?c"
    "c_available ?c' = w # dropWhile (dead ?c) (c_available ?c)" using dr by (simp_all add: set_state_def)
  have l: "live ?c' = insert w (live ?c)"
  proof (intro set_eqI)
    fix x show "x \<in> live ?c' \<longleftrightarrow> x \<in> insert w (live ?c)"
      using D dw(1) dropWhile_live[of x ?c "c_available ?c"] by (cases "x = w") (simp_all add: live_def same(4))
  qed
  have p: "c_phase ?c \<in> post_phases" "pre_of (c_phase ?c) \<noteq> c_phase ?c" using S pre_of_pre(1) pre_not_post by metis+
  have pw: "ph ?c' w = c_phase ?c" using dw(2) pre_PHASE(2)[OF p(1)] by simp
  have wl: "w \<notin> live ?c" using g(1) by (simp add: live_def)
  have P: "pending ?c' ?T = pending ?c ?T"
  proof (intro set_eqI)
    fix x show "x \<in> pending ?c' ?T \<longleftrightarrow> x \<in> pending ?c ?T"
      using D pw p(2) wl by (cases "x = w") (simp_all add: pending_def l same(1))
  qed
  have mem: "x \<in> set (c_available ?c')" if "x \<in> set (c_available ?c)" "\<not> dead ?c x" for x
    using that dropWhile_live[of x ?c "c_available ?c"] by (simp add: same(4))
  have "well_formed ?c'"
  proof -
    have sub: "set (dropWhile (dead ?c) (c_available ?c)) \<subseteq> set (c_available ?c)" by (auto dest: set_dropWhileD)
    have "distinct (c_available ?c')" using W g(1) sub by (auto simp: same(4))
    moreover have "length (c_available ?c') \<le> 2 ^ 31"
      using g(6) length_dropWhile_le[of "dead ?c" "c_available ?c"] by (simp add: same(4))
    moreover have "dead ?c' x \<longrightarrow> canceled ?c' x" if "x \<in> set (c_available ?c')" for x
      using that W D dw(1) sub by (cases "x = w") (auto simp: same(4))
    moreover have "small_state (state_of ?c' x)" if "x \<in> live ?c'" for x
      using that W D dw(2) p(1) by (cases "x = w") (auto simp: l small_state_def elim!: post_cases)
    ultimately show ?thesis by (simp only: well_formed_def) blast
  qed
  moreover have "settled ?c' (owing s) (length (changed_of ?k)) ?T"
  proof -
    have "ph ?c' x = pre_of (c_phase ?c) \<or> ph ?c' x = c_phase ?c" if "x \<in> live ?c' - ?T" for x
      using that S D pw by (cases "x = w") (auto simp: l)
    moreover have "x \<in> live ?c' - ?T \<and> ph ?c' x = c_phase ?c" if "x \<in> owing s" for x
    proof -
      have "x \<noteq> w" "x \<in> live ?c - ?T" "ph ?c x = c_phase ?c" using that g(3) S by auto
      then show ?thesis using D by (simp add: l)
    qed
    ultimately show ?thesis using S unfolding settled_def P same by blast
  qed
  moreover have "phase_ok ?k ?c'"
  proof (cases ?k)
    case (Changing r tr first ks ch todo)
    obtain old pre new where tr: "tr = (old, pre, new)" by (cases tr)
    have ph: "(old, pre, new) \<in> transitions" "c_phase ?c = phase_word new" "\<forall>x \<in> live ?c \<inter> set todo. ph ?c x = phase_word old"
      "distinct todo" "\<forall>x \<in> set todo. \<not> dead ?c x \<longrightarrow> x \<in> set (c_available ?c)" "first \<longrightarrow> todo = [] \<or> \<not> dead ?c (hd todo)"
      using hs_invD(3)[OF assms(1)] by (simp_all add: Changing tr)
    have T: "w \<notin> set todo" using g(2) by (simp add: Changing)
    have "ph ?c' x = phase_word old" if "x \<in> live ?c' \<inter> set todo" for x
      using that ph(3) D T by (cases "x = w") (simp_all add: l)
    moreover have "x \<in> set (c_available ?c')" if "x \<in> set todo" "\<not> dead ?c' x" for x
    proof -
      have "x \<noteq> w" using that T by auto
      then show ?thesis using that ph(5) D by (intro mem) simp_all
    qed
    moreover have "first \<longrightarrow> todo = [] \<or> \<not> dead ?c' (hd todo)"
    proof (cases todo)
      case (Cons y ys) then show ?thesis using ph(6) D T by (cases "y = w") simp_all
    qed simp
    ultimately show ?thesis using ph(1,2,4) unfolding Changing tr phase_ok.simps same by blast
  qed (use hs_invD(3)[OF assms(1)] in \<open>auto simp: same split: prod.splits\<close>)
  moreover have "quiet_ok ?k ?c' (owing s)" using hs_invD(4)[OF assms(1)] by (simp only: quiet_ok_def P same)
  moreover have "moving_ok ?k ?c' (owing s)" using hs_invD(5)[OF assms(1)] g(2) unfolding moving_ok_def P l by blast
  moreover have "gc_ok ?k ?c'" using hs_invD(6)[OF assms(1)] by (simp only: gc_ok_def same)
  moreover have "known t = known s" by (simp add: known_def t set_state_def)
  moreover have "helped_ok ?c' (known s)"
  proof -
    have "\<not> is_pre (ph ?c' x)" if x: "x \<in> known s" "x \<notin> live ?c'" for x
    proof -
      have "x \<noteq> w" "x \<notin> live ?c" using x g(4) by (auto simp: l)
      then have "\<not> is_pre (ph ?c x)" "state_of ?c' x = state_of ?c x"
        using x(1) hs_invD(7)[OF assms(1), unfolded helped_ok_def] D by blast+
      then show ?thesis by (simp only:) simp
    qed
    then show ?thesis by (simp only: helped_ok_def) blast
  qed
  moreover have "owes_ok ?c' (set (hs_owes s))" using hs_invD(8)[OF assms(1)] by (simp only: owes_ok_def same)
  ultimately show ?thesis by (simp only: hs_inv_def t handshake.simps owing_def) simp
qed

lemma start_keeps:
  assumes "hs_inv s" "hs_exec (Start v) s = Some t"
  shows "hs_inv t"
proof -
  let ?c = "hs_ctl s"
  let ?c' = "?c\<lparr>c_gc_count := c_gc_count ?c OR 1\<rparr>"
  have g: "c_gc_count ?c AND 1 = 0" and t: "t = s\<lparr>hs_ctl := ?c', hs_coord := Begin v (ASYNC, PRESYNC1, SYNC1)\<rparr>"
    using assms(2) by (auto simp: Let_def split: if_splits)
  note I = hs_invD[OF assms(1)]
  have k: "hs_coord s = Idle" using I(6) g by (auto simp: gc_ok_def)
  have d: "dead ?c' x = dead ?c x" "canceled ?c' x = canceled ?c x" for x by (simp_all add: dead_def canceled_def)
  have l: "live ?c' = live ?c" by (simp add: live_def d)
  have P: "pending ?c' T = pending ?c T" for T by (simp add: pending_def l)
  have oo: "(1::64 word) AND (x OR 1) = 1" for x by (rule bit_eqI) (auto simp: bit_simps)
  have kn: "known t \<subseteq> known s" by (auto simp: known_def t k fetch_add_flag_def heap_call_def)
  have he: "helped_ok ?c' (known t)"
    using hs_invD(7)[OF assms(1)] subsetD[OF kn] by (simp add: helped_ok_def l)
  show ?thesis
    using I k g by (simp add: hs_inv_def t owing_def well_formed_def settled_def quiet_ok_def moving_ok_def gc_ok_def
        owes_ok_def he[unfolded t] transitions_def l d P oo and.commute[of _ 1])
qed

lemma begin_keeps:
  assumes "hs_inv s" "hs_exec Begin_Phase s = Some t"
  shows "hs_inv t"
proof -
  let ?c = "hs_ctl s"
  obtain r old pre new where k: "hs_coord s = Begin r (old, pre, new)"
    using assms(2) by (auto split: coord.splits)
  let ?ws = "dropWhile (dead ?c) (c_available ?c)"
  let ?c' = "?c\<lparr>c_available := ?ws, c_phase := phase_word new\<rparr>"
  have t: "t = s\<lparr>hs_ctl := ?c', hs_coord := Changing r (old, pre, new) True [] [] ?ws\<rparr>"
    using assms(2) by (auto simp: k global_phase_def Let_def)
  note I = hs_invD[OF assms(1)]
  have d: "dead ?c' x = dead ?c x" "canceled ?c' x = canceled ?c x" for x by (simp_all add: dead_def canceled_def)
  have sub: "set ?ws \<subseteq> set (c_available ?c)" by (auto dest: set_dropWhileD)
  have l: "live ?c' = live ?c" using dropWhile_live[of _ ?c "c_available ?c"] by (auto simp: live_def d)
  have lw: "live ?c \<subseteq> set ?ws" using dropWhile_live[of _ ?c "c_available ?c"] by (auto simp: live_def)
  have tr: "(old, pre, new) \<in> transitions" "c_phase ?c = phase_word old" using I(3) by (simp_all add: k)
  have q: "pending ?c {} = {}" "owing s = {}" using I(4) by (simp_all add: k quiet_ok_def)
  have P: "pending ?c' (set ?ws) = {}" using lw by (auto simp: pending_def l)
  have ph: "ph ?c x = phase_word old" if "x \<in> live ?c" for x
    using that I(2) q(1) tr(2) by (auto simp: settled_def pending_def k)
  have f: "c_check_flag ?c = 0" using I(2) q by (simp add: settled_def k)
  have wf: "well_formed ?c'"
    using I(1) length_dropWhile_le[of "dead ?c" "c_available ?c"] sub by (auto simp: well_formed_def l d)
  have hd: "?ws = [] \<or> \<not> dead ?c (hd ?ws)" by (metis hd_dropWhile)
  have es: "hs_owes s = []" using q(2) by (simp add: owing_def)
  have ow: "owing t = {}" using q(2) by (simp add: owing_def t)
  have "settled ?c' {} 0 (set ?ws)" using transition_words[OF tr(1)] lw f P by (auto simp: settled_def l)
  moreover have "phase_ok (Changing r (old, pre, new) True [] [] ?ws) ?c'"
    using tr(1) ph hd I(1) by (auto simp: l d well_formed_def)
  moreover have "known t = known s" by (simp add: known_def t k)
  moreover have "helped_ok ?c' (known s)" using I(7) by (simp add: helped_ok_def l)
  ultimately show ?thesis
    using wf I(6) by (simp add: hs_inv_def t ow[unfolded t] quiet_ok_def moving_ok_def gc_ok_def owes_ok_def P es k)
qed

lemma publish_keeps:
  assumes "hs_inv s" "hs_exec Publish s = Some t"
  shows "hs_inv t"
proof -
  let ?c = "hs_ctl s"
  obtain r tr first ks changed where k: "hs_coord s = Changing r tr first ks changed []"
    using assms(2) by (auto split: coord.splits list.splits)
  obtain old pre new where tr: "tr = (old, pre, new)" by (cases tr)
  let ?c' = "?c\<lparr>c_handshake := ks, c_stamp := phase_word pre\<rparr>"
  have t: "t = s\<lparr>hs_ctl := ?c', hs_coord := Adding r changed\<rparr>" using assms(2) by (auto simp: k tr)
  have d: "dead ?c' x = dead ?c x" "canceled ?c' x = canceled ?c x" for x by (simp_all add: dead_def canceled_def)
  have l: "live ?c' = live ?c" by (simp add: live_def d)
  have P: "pending ?c' T = pending ?c T" for T by (simp add: pending_def l)
  have kn: "known t \<subseteq> known s" by (auto simp: known_def t k fetch_add_flag_def heap_call_def)
  have he: "helped_ok ?c' (known t)"
    using hs_invD(7)[OF assms(1)] subsetD[OF kn] by (simp add: helped_ok_def l)
  show ?thesis
    using hs_invD[OF assms(1)] by (simp add: hs_inv_def t k owing_def well_formed_def settled_def quiet_ok_def moving_ok_def gc_ok_def
        owes_ok_def he[unfolded t] l d P)
qed

lemma add_keeps:
  assumes "hs_inv s" "hs_exec Add_Count s = Some t"
  shows "hs_inv t"
proof -
  let ?c = "hs_ctl s"
  obtain r changed where k: "hs_coord s = Adding r changed" using assms(2) by (auto split: coord.splits)
  let ?c' = "fetch_add_flag (of_nat (length changed)) ?c"
  have t: "t = s\<lparr>hs_ctl := ?c', hs_coord := Idle\<rparr>" using assms(2) by (auto simp: k)
  have d: "dead ?c' x = dead ?c x" "canceled ?c' x = canceled ?c x" "c_phase ?c' = c_phase ?c" "state_of ?c' x = state_of ?c x"
    "c_gc_count ?c' = c_gc_count ?c" "c_available ?c' = c_available ?c" for x
    by (simp_all add: dead_def canceled_def fetch_add_flag_def)
  have f: "c_check_flag ?c' = c_check_flag ?c + of_nat (length changed)" by (simp add: fetch_add_flag_def)
  have l: "live ?c' = live ?c" by (simp add: live_def d)
  have P: "pending ?c' T = pending ?c T" for T by (simp add: pending_def l d)
  have kn: "known t \<subseteq> known s" by (auto simp: known_def t k fetch_add_flag_def heap_call_def)
  have he: "helped_ok ?c' (known t)"
    using hs_invD(7)[OF assms(1)] subsetD[OF kn] by (simp add: helped_ok_def l d)
  show ?thesis
    using hs_invD[OF assms(1)] by (simp add: hs_inv_def t k owing_def well_formed_def settled_def quiet_ok_def moving_ok_def gc_ok_def
        owes_ok_def he[unfolded t] l d P f)
qed

lemma finish_keeps:
  assumes "hs_inv s" "hs_exec Finish s = Some t"
  shows "hs_inv t"
proof -
  let ?c = "hs_ctl s"
  obtain r where k: "hs_coord s = Ending r" using assms(2) by (auto split: coord.splits)
  let ?c' = "(heap_call Global_Async ?c)\<lparr>c_gc_count := c_gc_count ?c + 1\<rparr>"
  have t: "t = s\<lparr>hs_ctl := ?c', hs_coord := Idle\<rparr>" using assms(2) by (auto simp: k)
  have d: "dead ?c' x = dead ?c x" "canceled ?c' x = canceled ?c x" "c_phase ?c' = c_phase ?c" "state_of ?c' x = state_of ?c x"
    "c_check_flag ?c' = c_check_flag ?c" "c_available ?c' = c_available ?c" for x
    by (simp_all add: dead_def canceled_def heap_call_def)
  have l: "live ?c' = live ?c" by (simp add: live_def d)
  have P: "pending ?c' T = pending ?c T" for T by (simp add: pending_def l d)
  have kn: "known t \<subseteq> known s" by (auto simp: known_def t k fetch_add_flag_def heap_call_def)
  have he: "helped_ok ?c' (known t)"
    using hs_invD(7)[OF assms(1)] subsetD[OF kn] by (simp add: helped_ok_def l d)
  show ?thesis
    using hs_invD[OF assms(1)] by (simp add: hs_inv_def t k owing_def well_formed_def settled_def quiet_ok_def moving_ok_def gc_ok_def
        owes_ok_def he[unfolded t] l d P)
qed


text \<open>The loop of \<open>change_phase\<close>: a dead worker is unlinked, a canceled one killed, any other one signalled.\<close>

lemma change_one_cases [consumes 1, case_names unlinked killed signalled]:
  assumes "change_one first old pre w c = (kept, chg, c')"
  obtains (unlinked) "dead c w" "\<not> first" "\<not> kept" "\<not> chg" "c' = unlink w c"
  | (killed) d where "old = 1" "canceled c w" "d = set_flags w (flags_of c w OR 4) (heap_call (Worker_Kill (w_allocator (c_worker c w))) c)"
      "kept = first" "\<not> chg" "c' = (if first then d else unlink w d)" "dead c w \<longrightarrow> first"
  | (signalled) "kept" "chg" "c' = set_state w (state_of c w XOR (old XOR pre)) c" "dead c w \<longrightarrow> first"
  using assms unfolding change_one_def Let_def
  by (auto simp: dead_def canceled_def state_bits split: if_splits)

lemma unlink_simps [simp]:
  "state_of (unlink w c) x = state_of c x" "dead (unlink w c) x = dead c x" "canceled (unlink w c) x = canceled c x"
  "c_handshake (unlink w c) = c_handshake c" "c_available (unlink w c) = filter (\<lambda>v. v \<noteq> w) (c_available c)" "c_phase (unlink w c) = c_phase c"
  "c_check_flag (unlink w c) = c_check_flag c" "c_gc_count (unlink w c) = c_gc_count c"
  by (simp_all add: unlink_def dead_def canceled_def)

text \<open>A worker that leaves the list or dies, and is no longer pending, does not disturb the rest.\<close>

lemma drop_inv:
  assumes "hs_inv s" "hs_coord s = Changing r (old, pre, new) first ks ch (w # todo)"
    and "live c' = live (hs_ctl s) - {w}" "c_phase c' = c_phase (hs_ctl s)" "c_check_flag c' = c_check_flag (hs_ctl s)"
    and "c_gc_count c' = c_gc_count (hs_ctl s)" "\<forall>x. state_of c' x = state_of (hs_ctl s) x"
    and "\<forall>x. x \<noteq> w \<longrightarrow> dead c' x = dead (hs_ctl s) x \<and> canceled c' x = canceled (hs_ctl s) x"
    and "w \<in> set (c_available c') \<longrightarrow> dead c' w \<longrightarrow> canceled c' w" "distinct (c_available c')" "set (c_available c') \<subseteq> set (c_available (hs_ctl s))"
    and "\<forall>x \<in> set (c_available (hs_ctl s)). x \<noteq> w \<longrightarrow> x \<in> set (c_available c')"
    and "length (c_available c') \<le> length (c_available (hs_ctl s))"
    and "t = s\<lparr>hs_ctl := c', hs_coord := Changing r (old, pre, new) False ks' ch todo\<rparr>"
    and "known t \<subseteq> known s \<union> (live (hs_ctl s) \<inter> {w})"
  shows "hs_inv t"
proof -
  let ?c = "hs_ctl s"
  note I = hs_invD[OF assms(1)]
  have ph: "(old, pre, new) \<in> transitions" "c_phase ?c = phase_word new" "\<forall>x \<in> live ?c \<inter> set (w # todo). ph ?c x = phase_word old"
    "w \<notin> set todo" "distinct todo" "\<forall>x \<in> set (w # todo). \<not> dead ?c x \<longrightarrow> x \<in> set (c_available ?c)"
    using I(3) by (auto simp: assms(2))
  have L: "live c' - set todo = live ?c - set (w # todo)" using assms(3) by auto
  have P: "pending c' (set todo) = pending ?c (set (w # todo))"
    unfolding pending_def L assms(4) using assms(7) by simp
  have "dead c' x \<longrightarrow> canceled c' x" if "x \<in> set (c_available c')" for x
    using that assms(8,9,11) dead_canceled[OF assms(1)] by (cases "x = w") auto
  moreover have "small_state (state_of c' x)" if "x \<in> live c'" for x
    using that small_live[OF assms(1)] assms(3,7) by simp
  moreover have "length (c_available c') \<le> 2 ^ 31" using I(1) assms(13) by (simp add: well_formed_def)
  ultimately have wf: "well_formed c'" using assms(10) by (simp add: well_formed_def)
  have st: "settled c' (owing s) (length ch) (set todo)"
    using I(2) assms(4,5,7) unfolding settled_def P L by (simp add: assms(2))
  have pk: "phase_ok (Changing r (old, pre, new) False ks' ch todo) c'"
  proof -
    have "ph c' x = phase_word old" if "x \<in> live c' \<inter> set todo" for x using that ph(3) assms(3,7) by auto
    moreover have "x \<in> set (c_available c')" if "x \<in> set todo" "\<not> dead c' x" for x
    proof -
      have "x \<noteq> w" using that ph(4) by auto
      then show ?thesis using that ph(6) assms(8,12) by auto
    qed
    ultimately show ?thesis using ph(1,2,5) assms(4) by simp
  qed
  have mv: "moving_ok (Changing r (old, pre, new) False ks' ch todo) c' (owing s)"
    using I(5) by (simp add: moving_ok_def assms(2) P L)
  have he: "helped_ok c' (known t)"
  proof -
    have "\<not> is_pre (ph c' x)" if x: "x \<in> known t" "x \<notin> live c'" for x
    proof (cases "x \<in> live ?c")
      case True
      then have "x = w" using x(2) assms(3) by simp
      then have "ph ?c x = phase_word old" using True ph(3) by simp
      then show ?thesis using transition_words[OF ph(1)] pre_not_post assms(7) by auto
    next
      case False
      then have "x \<in> known s" using x(1) assms(15) by blast
      then show ?thesis using False I(7)[unfolded helped_ok_def] assms(7) by metis
    qed
    then show ?thesis by (simp add: helped_ok_def)
  qed
  show ?thesis
    using wf st pk mv he I(6,8) by (simp add: hs_inv_def assms(4,6,14) owing_def known_def quiet_ok_def gc_ok_def owes_ok_def assms(2))
qed

lemma signal_inv:
  assumes "hs_inv s" "hs_coord s = Changing r (old, pre, new) first ks ch (w # todo)" "w \<in> live (hs_ctl s)"
    and "t = s\<lparr>hs_ctl := set_state w (state_of (hs_ctl s) w XOR (phase_word old XOR phase_word pre)) (hs_ctl s),
      hs_coord := Changing r (old, pre, new) False ks' (ch @ [w]) todo\<rparr>"
    and "known t \<subseteq> insert w (known s)"
  shows "hs_inv t"
proof -
  let ?c = "hs_ctl s"
  let ?c' = "set_state w (state_of ?c w XOR (phase_word old XOR phase_word pre)) ?c"
  note I = hs_invD[OF assms(1)]
  have ph: "(old, pre, new) \<in> transitions" "c_phase ?c = phase_word new" "\<forall>x \<in> live ?c \<inter> set (w # todo). ph ?c x = phase_word old"
    "w \<notin> set todo" "distinct todo" "\<forall>x \<in> set (w # todo). \<not> dead ?c x \<longrightarrow> x \<in> set (c_available ?c)"
    using I(3) by (auto simp: assms(2))
  have l: "live ?c' = live ?c" by (simp add: live_def)
  have small: "small_state (phase_word old XOR phase_word pre)" "PHASE (phase_word old XOR phase_word pre) = phase_word old XOR phase_word pre"
    using ph(1) by (auto simp: transitions_def small_state_def PHASE_def PHASE_MASK_def)
  have pw: "ph ?c' w = pre_of (c_phase ?c)"
  proof -
    have "ph ?c w = phase_word old" using ph(3) assms(3) by simp
    then have "ph ?c' w = phase_word old XOR (phase_word old XOR phase_word pre)" by (simp only: set_state_simps simp_thms if_True PHASE_ops(2)[of "state_of ?c w"] small(2))
    then show ?thesis using transition_words[OF ph(1)] ph(2) by simp
  qed
  have np: "pre_of (c_phase ?c) \<noteq> c_phase ?c" using transition_words[OF ph(1)] ph(2) pre_of_pre(1) pre_not_post by metis
  have L: "live ?c - set todo = insert w (live ?c - set (w # todo))" using assms(3) ph(4) by auto
  have P: "pending ?c' (set todo) = insert w (pending ?c (set (w # todo)))"
  proof (intro set_eqI)
    fix x show "x \<in> pending ?c' (set todo) \<longleftrightarrow> x \<in> insert w (pending ?c (set (w # todo)))"
      using pw assms(3) ph(4) by (cases "x = w") (simp_all add: pending_def l)
  qed
  have wp: "w \<notin> pending ?c (set (w # todo))" by (simp add: pending_def)
  have "small_state (state_of ?c' x)" if "x \<in> live ?c" for x
    using that small_live[OF assms(1)] small_ops(2)[OF small_live[OF assms(1,3)] small(1)] by (simp only: set_state_simps simp_thms split: if_split)
  then have wf: "well_formed ?c'" using I(1) by (simp only: well_formed_def l) simp
  have own: "w \<notin> owing s" using I(2) by (auto simp: settled_def assms(2))
  have st: "settled ?c' (owing s) (length (ch @ [w])) (set todo)"
  proof -
    note S = I(2)[unfolded settled_def assms(2) todo_of.simps changed_of.simps]
    have "ph ?c' x = pre_of (c_phase ?c) \<or> ph ?c' x = c_phase ?c" if "x \<in> live ?c - set todo" for x
      using that S pw by (cases "x = w") simp_all
    moreover have "x \<in> live ?c - set todo \<and> ph ?c' x = c_phase ?c" if "x \<in> owing s" for x
    proof -
      have "x \<noteq> w" "x \<in> live ?c - set (w # todo)" "ph ?c x = c_phase ?c" using that own S by auto
      then show ?thesis by simp
    qed
    moreover have "c_check_flag ?c + of_nat (length (ch @ [w])) = of_nat (card (pending ?c' (set todo)) + card (owing s))"
    proof -
      have "c_check_flag ?c + of_nat (length (ch @ [w])) = of_nat (card (pending ?c (set (w # todo))) + card (owing s)) + 1"
        using S by (simp add: algebra_simps)
      then show ?thesis using wp by (simp add: P)
    qed
    ultimately show ?thesis using S by (auto simp: settled_def l)
  qed
  have pk: "phase_ok (Changing r (old, pre, new) False ks' (ch @ [w]) todo) ?c'"
    using ph by (auto simp: l)
  have mv: "moving_ok (Changing r (old, pre, new) False ks' (ch @ [w]) todo) ?c' (owing s)"
  proof -
    have "pending ?c (set (w # todo)) \<union> owing s \<subseteq> set ch" "set ch \<subseteq> live ?c - set (w # todo)" "distinct ch"
      using I(5) by (simp_all add: moving_ok_def assms(2))
    then show ?thesis unfolding moving_ok_def todo_of.simps changed_of.simps P l using L by auto
  qed
  have he: "helped_ok ?c' (known t)"
  proof -
    have "\<not> is_pre (ph ?c' x)" if x: "x \<in> known t" "x \<notin> live ?c" for x
    proof -
      have "x \<noteq> w" using x(2) assms(3) by auto
      moreover have "\<not> is_pre (ph ?c x)" using x I(7)[unfolded helped_ok_def] assms(3,5) by blast
      ultimately show ?thesis by simp
    qed
    then show ?thesis by (simp only: helped_ok_def l) blast
  qed
  show ?thesis
    using wf st pk mv he I(6,8) by (simp add: hs_inv_def assms(4) owing_def known_def quiet_ok_def gc_ok_def owes_ok_def assms(2))
qed

lemma change_next_keeps:
  assumes "hs_inv s" "hs_exec Change_Next s = Some t"
  shows "hs_inv t"
proof -
  let ?c = "hs_ctl s"
  obtain r tr first ks ch w todo where k0: "hs_coord s = Changing r tr first ks ch (w # todo)"
    using assms(2) by (auto split: coord.splits list.splits)
  obtain old pre new where tr: "tr = (old, pre, new)" by (cases tr)
  note k = k0[unfolded tr]
  obtain kept chg c' where e: "change_one first (phase_word old) (phase_word pre) w ?c = (kept, chg, c')"
    by (cases "change_one first (phase_word old) (phase_word pre) w ?c")
  have t: "t = s\<lparr>hs_ctl := c', hs_coord := Changing r (old, pre, new) (first \<and> \<not> kept) (if kept then ks @ [w] else ks)
      (if chg then ch @ [w] else ch) todo\<rparr>" using assms(2) by (simp add: k e)
  note I = hs_invD[OF assms(1)]
  have dis: "distinct (c_available ?c)" using I(1) by (simp add: well_formed_def)
  have nd: "\<not> dead ?c w" if "first" using that I(3) by (simp add: k)
  have lw: "w \<in> live ?c" if "\<not> dead ?c w" using that I(3) by (simp add: k live_def)
  from e show ?thesis
  proof (cases rule: change_one_cases)
    case unlinked
    show ?thesis
      by (rule drop_inv[OF assms(1) k, of c' t ks]) (use unlinked dis in \<open>auto simp: t live_def known_def k dest: dead_canceled[OF assms(1)]\<close>)
  next
    case (killed d)
    have D: "state_of d x = state_of ?c x" "canceled d x = canceled ?c x" "dead d x \<longleftrightarrow> x = w \<or> dead ?c x"
      "c_handshake d = c_handshake ?c" "c_available d = c_available ?c" "c_phase d = c_phase ?c" "c_check_flag d = c_check_flag ?c" "c_gc_count d = c_gc_count ?c" for x
      unfolding killed(3) by (simp_all add: canceled_def dead_def state_bits or_and_flag)
    show ?thesis
      by (rule drop_inv[OF assms(1) k, of c' t "if kept then ks @ [w] else ks"])
        (use killed(2,4-6) dis nd lw[unfolded live_def] in \<open>auto simp: t D live_def known_def k split: if_splits\<close>)
  next
    case signalled
    have "w \<in> live ?c" using signalled(4) nd lw by blast
    then show ?thesis
      by (rule signal_inv[OF assms(1) k]) (use signalled in \<open>auto simp: t known_def k\<close>)
  qed
qed

lemma initial_hs_inv: "hs_inv initial_handshake"
  by (simp add: hs_inv_def initial_handshake_def initial_control_def no_worker_def well_formed_def settled_def live_def pending_def
      owing_def known_def quiet_ok_def moving_ok_def gc_ok_def known_def helped_ok_def owes_ok_def post_phases_def)

lemma taken_keeps:
  assumes "hs_inv s" "taken_ok s" "hs_exec e s = Some t"
  shows "taken_ok t"
proof (cases e)
  case (Take v w) then show ?thesis using take_keeps(2) assms by blast
next
  case (Help v)
  then have "set (hs_taken t) \<subseteq> set (hs_taken s)" using assms(3) by (auto simp: Let_def split: option.splits if_splits)
  then show ?thesis using assms(2) by (auto simp: taken_ok_def)
qed (use assms(2,3) in \<open>auto simp: taken_ok_def fetch_sub_flag_def Let_def split: if_splits option.splits sum.splits bool.splits
    prod.splits coord.splits list.splits\<close>)

lemma exec_keeps:
  assumes "hs_inv s" "taken_ok s" "hs_exec e s = Some t"
  shows "hs_inv t"
proof (cases e)
  case Take then show ?thesis using assms(1,3) take_keeps(1) by blast
next
  case Help then show ?thesis using assms help_keeps by blast
next
  case Register then show ?thesis using assms(1,3) register_keeps by blast
next
  case Enter then show ?thesis using assms(1,3) enter_keeps by blast
next
  case Leave then show ?thesis using assms(1,3) leave_keeps by blast
next
  case Accept then show ?thesis using assms(1,3) accept_keeps by blast
next
  case Clear then show ?thesis using assms(1,3) clear_keeps by blast
next
  case Act then show ?thesis using assms(1,3) act_keeps by blast
next
  case Release then show ?thesis using assms(1,3) release_keeps by blast
next
  case Retry then show ?thesis using assms(1,3) retry_keeps by blast
next
  case Start then show ?thesis using assms(1,3) start_keeps by blast
next
  case Cancel then show ?thesis using assms(1,3) cancel_keeps by blast
next
  case Users then show ?thesis using assms(1,3) users_keeps by blast
qed (use assms(1,3) begin_keeps change_next_keeps publish_keeps add_keeps finish_keeps in blast)+

interpretation handshakes: invariant_system hs_step "\<lambda>s. hs_inv s \<and> taken_ok s"
proof
  fix s t assume i: "hs_inv s \<and> taken_ok s" and "hs_step s t"
  then obtain e where e: "hs_exec e s = Some t" by (auto simp: hs_step.simps)
  show "hs_inv t \<and> taken_ok t"
    using i exec_keeps[OF _ _ e] taken_keeps[OF _ _ e] by simp
qed

lemma reachable_both: "hs_step\<^sup>*\<^sup>* initial_handshake s \<Longrightarrow> hs_inv s \<and> taken_ok s"
proof (rule handshakes.steps_keep)
  show "hs_inv initial_handshake \<and> taken_ok initial_handshake"
    using initial_hs_inv by (simp add: taken_ok_def) (simp add: initial_handshake_def)
qed

lemma reachable_inv: "hs_step\<^sup>*\<^sup>* initial_handshake s \<Longrightarrow> hs_inv s"
  using reachable_both by blast

end
