(* ===== verification/Workers.thy ===== *)
theory Workers
  imports Handshake "HOL-Library.Multiset"
begin

unbundle bit_operations_syntax

text \<open>
  Properties of the functions of control.c that run in one thread: the encoding of the signal, leaving and
  entering ML code, the saved exception, the termination of the second synchronisation, and a whole
  collection with a single worker.
\<close>

section \<open>The signal\<close>

text \<open>C37.  The signal. Whatever lock and helper bits a worker's state word has, one exclusive-or by \<open>change_phase\<close> takes its phase
  from \<open>old\<close> to the pending phase \<open>pre\<close>, from which \<open>OR 1\<close> (accepting it) leads to \<open>new\<close>; the lock bit, the helper bit, the
  flags and all other workers stay as they are. This holds for each of the five transitions the collector makes.\<close>

theorem change_one_signal:
  assumes "change_one first (phase_word old) (phase_word pre) w c = (kept, True, c')"
    and "(old, pre, new) \<in> transitions" "ph c w = phase_word old"
  shows "kept \<and> ph c' w = phase_word pre \<and> PHASE (state_of c' w OR 1) = phase_word new
    \<and> IS_ACTIVE (state_of c' w) = IS_ACTIVE (state_of c w) \<and> state_of c' w AND HELPER_STATE = state_of c w AND HELPER_STATE
    \<and> flags_of c' w = flags_of c w \<and> (\<forall>x. x \<noteq> w \<longrightarrow> c_worker c' x = c_worker c x)"
proof -
  let ?s = "state_of c w" and ?d = "phase_word old XOR phase_word pre"
  have k: "kept" and c': "c' = set_state w (?s XOR ?d) c"
    using assms(1) unfolding change_one_def Let_def by (auto split: if_splits)
  have d: "PHASE ?d = ?d" "?d AND 0x10 = 0" "?d AND 0x20 = 0" using assms(2) by (auto simp: transitions_def PHASE_def PHASE_MASK_def)
  have p: "ph c' w = phase_word pre"
  proof -
    have "ph c' w = phase_word old XOR ?d" unfolding c' by (simp only: set_state_simps simp_thms if_True PHASE_ops(2)[of ?s] d(1) assms(3))
    then show ?thesis by simp
  qed
  moreover have "PHASE (state_of c' w OR 1) = phase_word new"
    using p assms(2) by (auto simp: PHASE_ops transitions_def)
  moreover have "(?s XOR ?d) AND b = ?s AND b" if "?d AND b = 0" for b using that by (simp add: bit.conj_xor_distrib2)
  ultimately show ?thesis using k d(2,3) by (simp add: c' IS_ACTIVE_def state_bits(2,3)) (simp add: set_state_def)
qed

lemma change_one_signal_witness:
  "\<exists>c'. change_one True (phase_word ASYNC) (phase_word PRESYNC1) 8 (set_state 8 0x11 initial_control) = (True, True, c')
    \<and> ph c' 8 = phase_word PRESYNC1"
proof -
  let ?c = "set_state 8 0x11 initial_control"
  let ?c' = "set_state 8 0x12 ?c"
  have e: "change_one True (phase_word ASYNC) (phase_word PRESYNC1) 8 ?c = (True, True, ?c')"
    by (simp add: change_one_def initial_control_def no_worker_def state_bits set_state_def)
  show ?thesis
    using change_one_signal[OF e, of SYNC1] e by (simp add: transitions_def)
qed

section \<open>Leaving and entering\<close>

text \<open>A world without other threads, with memory for everything; the heap finishes after one round of marking.\<close>

definition plain_world :: world where
  "plain_world = \<lparr>o_fuel = 4, o_env = (\<lambda>_ us. us), o_lucky = (\<lambda>_. True), o_finish = (\<lambda>cs. Worker_Mark 24 \<in> set cs),
     o_init = Some (24, 8, 48), o_new_user = Some 56, o_held = False, o_swap = True, o_hook = (\<lambda>_ (t, c). (0, t, c)), o_others = (\<lambda>_ c. c)\<rparr>"

text \<open>Worker 8 runs ML code of user 32.\<close>

definition plain_thread :: thread where "plain_thread = \<lparr>t_worker = 8, t_user = 0, t_myth = True\<rparr>"

definition plain_control :: control where
  "plain_control = initial_control\<lparr>
     c_worker := (\<lambda>_. no_worker)(8 := \<lparr>w_state = phase_word ASYNC, w_flags = 0, w_users = [32], w_current_user = 32, w_allocator = 24, w_check_hook = 0\<rparr>),
     c_user := (\<lambda>_. no_user)(32 := \<lparr>u_flags = 0, u_worker = 8, u_stack = [\<lparr>r_bottom = 4096, r_top = 0\<rparr>], u_exn_object = 0\<rparr>),
     c_available := [8]\<rparr>"

lemma set_top_simps [simp]: "u_worker (set_top p x) = u_worker x" "u_flags (set_top p x) = u_flags x"
  "u_exn_object (set_top p x) = u_exn_object x"
  by (simp_all add: set_top_def)

text \<open>C39.  Leaving ML code and entering it again. A thread that leaves with no signal pending publishes its stack top and
  releases the lock on its worker, without touching the phase or the counter; entering again gives exactly the thread
  and control state it started from. This holds for user threads and for pthreads.\<close>

theorem leave_enter_roundtrip:
  assumes "t_worker t = w" "w \<noteq> 0" "state_of c w \<in> post_phases" "w_current_user (c_worker c w) = user"
    and "u_worker (c_user c user) = w" "u_stack (c_user c user) = \<lparr>r_bottom = b, r_top = 0\<rparr> # rs"
    and "IS_PTHREAD c w \<or> t_user t = 0"
  shows "\<exists>t1 c1. sml_leave wd frame t c = Inr (t1, c1) \<and> state_of c1 w = state_of c w OR INACTIVE_STATE
    \<and> top_of (c_user c1 user) = frame \<and> c_phase c1 = c_phase c \<and> c_check_flag c1 = c_check_flag c
    \<and> sml_enter wd' t1 c1 = Inr (t, c)"
proof -
  let ?s = "state_of c w"
  have s: "?s = 1 \<or> ?s = 3 \<or> ?s = 5 \<or> ?s = 7" using assms(3) by (auto simp: post_phases_def)
  let ?c1 = "set_state w (?s OR 0x10) (upd_user user (set_top frame) c)"
  let ?t1 = "if IS_PTHREAD c w then t else t\<lparr>t_user := user\<rparr>"
  have p: "IS_PTHREAD (set_state x st d) y = IS_PTHREAD d y" "IS_PTHREAD (upd_user u f d) y = IS_PTHREAD d y" for x st d y u f
    by (simp_all add: IS_PTHREAD_def)
  have "sml_leave wd frame t c = Inr (?t1, ?c1)"
    using s assms(1,4) by (auto simp: sml_leave_def sml_leave_internal_def leave_worker_def pending_action_def Let_def state_bits p)
  moreover have "top_of (c_user ?c1 user) = frame" "c_phase ?c1 = c_phase c" "c_check_flag ?c1 = c_check_flag c"
    "state_of ?c1 w = ?s OR INACTIVE_STATE"
    using assms(6) by (simp_all add: top_of_def set_top_def set_state_def state_bits)
  moreover have "sml_enter wd' ?t1 ?c1 = Inr (t, c)"
  proof -
    have cs: "?s OR 0x10 AND - 17 = ?s" "(?s OR 0x10) AND 0x10 \<noteq> 0" using s by auto
    have bk: "set_state w ?s ?c1 = upd_user user (set_top frame) c"
      by (simp add: set_state_def)
    have "set_top 0 (set_top frame (c_user c user)) = c_user c user"
      using assms(6) by (cases "c_user c user") (simp add: set_top_def)
    then have res: "upd_user user (set_top 0) (upd_user user (set_top frame) c) = c" by simp
    have en: "enter_worker wd' ?t1 ?c1 = Inr (0, w, ?t1, upd_user user (set_top frame) c)"
    proof -
      have a: "acquire_unbit True (state_of ?c1 w) INACTIVE_STATE = (True, ?s)"
        using s by (auto simp: acquire_unbit_def state_bits)
      have tw: "t_worker ?t1 = w" using assms(1) by simp
      show ?thesis using assms(2) by (simp only: enter_worker_def Let_def tw a bk prod.case bool.case if_True if_False simp_thms)
    qed
    show ?thesis
    proof (cases "IS_PTHREAD c w")
      case True
      have "enter_worker wd' t ?c1 = Inr (0, w, t, upd_user user (set_top frame) c)" using en True by simp
      then show ?thesis
        using assms(4,5) res True by (simp add: sml_enter_def sml_enter_internal_def p)
    next
      case False
      have cu: "(c_worker c)(w := c_worker c w\<lparr>w_current_user := user\<rparr>) = c_worker c"
        using assms(4) by (intro ext) simp
      have t0: "t\<lparr>t_user := 0\<rparr> = t" using assms(7) False by simp
      have "enter_worker wd' (t\<lparr>t_user := user\<rparr>) ?c1 = Inr (0, w, t\<lparr>t_user := user\<rparr>, upd_user user (set_top frame) c)"
        using en False by simp
      then show ?thesis
        using assms(5) False res by (simp add: sml_enter_def sml_enter_internal_def p cu t0)
    qed
  qed
  ultimately show ?thesis by blast
qed

lemma leave_enter_roundtrip_witness:
  "\<exists>t1 c1. sml_leave plain_world 1024 plain_thread plain_control = Inr (t1, c1) \<and> sml_enter plain_world t1 c1 = Inr (plain_thread, plain_control)"
proof -
  have s: "state_of plain_control 8 \<in> post_phases" by (simp add: plain_control_def post_phases_def)
  show ?thesis
    using leave_enter_roundtrip[of plain_thread 8 plain_control 32 4096 "[]" plain_world 1024 plain_world, OF _ _ s]
    by (auto simp: plain_thread_def plain_control_def)
qed

text \<open>Exceptions that cross C code. \<open>sml_save_exn\<close> stores an exception object only when none is stored and is a fatal error
  otherwise, changing nothing; \<open>sml_unsave_exn\<close> with a non-null argument gives it back and restores the state; saving again
  before that is fatal.\<close>

theorem save_exn_once:
  "case sml_save_exn obj t c of
     Inl (e, c') \<Rightarrow> e = Fatal \<and> c' = c \<and> u_exn_object (c_user c (current_user t c)) \<noteq> 0
   | Inr c' \<Rightarrow> u_exn_object (c_user c (current_user t c)) = 0 \<and> u_exn_object (c_user c' (current_user t c)) = obj
       \<and> sml_unsave_exn p t c' = (if p = 0 then (0, c') else (obj, c))
       \<and> sml_save_exn obj' t c' = (if obj = 0 then sml_save_exn obj' t c else Inl (Fatal, c'))"
proof -
  have r: "x\<lparr>u_exn_object := obj, u_exn_object := 0\<rparr> = x" if "u_exn_object x = 0" for x :: sml_user
    using that by (cases x) simp
  have r2: "x\<lparr>u_exn_object := 0\<rparr> = x" if "u_exn_object x = 0" for x :: sml_user
    using that by (cases x) simp
  show ?thesis
    by (auto simp: sml_save_exn_def sml_unsave_exn_def current_user_def Let_def r r2 split: sum.splits if_splits)
qed


section \<open>The second synchronisation\<close>

text \<open>
  What the attempts to lock the users of the list come to, told without the program's list surgery: the
  log has the user and the outcome of each attempt, in order, and the users' contexts are passed from the
  environment (before an attempt) through the attempt to the environment again.  An attempt is refused
  when another thread has the lock or the weak compare-and-swap has no luck; a user that belongs to
  another worker by then is dropped, its lock is kept (the migrated thread has a new context); any other user is
  visited and unlocked.  Users that were refused have their turn again in the next pass.
\<close>

datatype outcome = Refused | Dropped | Visited

definition outcome_of :: "world \<Rightarrow> nat \<Rightarrow> nat \<Rightarrow> nat \<Rightarrow> (nat \<Rightarrow> sml_user) \<Rightarrow> outcome" where
  "outcome_of wd w u k us =
     (if u_flags (us u) AND BUSY_FLAG \<noteq> 0 \<or> \<not> o_lucky wd k then Refused
      else if u_worker (us u) = w then Visited else Dropped)"

definition lock_after :: "outcome \<Rightarrow> sml_user \<Rightarrow> sml_user" where
  "lock_after r x = (case r of Refused \<Rightarrow> x | Dropped \<Rightarrow> x\<lparr>u_flags := u_flags x OR BUSY_FLAG\<rparr> | Visited \<Rightarrow> x\<lparr>u_flags := 0\<rparr>)"

fun pass_log :: "world \<Rightarrow> nat \<Rightarrow> nat list \<Rightarrow> nat \<Rightarrow> (nat \<Rightarrow> sml_user) \<Rightarrow> (nat \<times> outcome) list \<times> (nat \<Rightarrow> sml_user)" where
  "pass_log wd w [] k us = ([], us)"
| "pass_log wd w (u # xs) k us =
     (let us = o_env wd k us;
          r = outcome_of wd w u k us;
          (l, us') = pass_log wd w xs (Suc k) (us(u := lock_after r (us u)))
      in ((u, r) # l, us'))"

definition with_outcome :: "outcome \<Rightarrow> (nat \<times> outcome) list \<Rightarrow> nat list" where
  "with_outcome r l = map fst (filter (\<lambda>(u, r'). r' = r) l)"

fun lock_log :: "nat \<Rightarrow> world \<Rightarrow> nat \<Rightarrow> nat list \<Rightarrow> nat \<Rightarrow> (nat \<Rightarrow> sml_user) \<Rightarrow> (nat \<times> outcome) list \<times> (nat \<Rightarrow> sml_user)" where
  "lock_log 0 wd w xs k us = ([], us)"
| "lock_log (Suc n) wd w xs k us =
     (let (l, us1) = pass_log wd w xs k us
      in if with_outcome Refused l = [] then (l, us1)
         else (let (l', us2) = lock_log n wd w (rev (with_outcome Refused l)) (k + length xs) us1 in (l @ l', us2)))"

lemma with_outcome_simps [simp]:
  "with_outcome r [] = []" "with_outcome r ((u, q) # l) = (if q = r then u # with_outcome r l else with_outcome r l)"
  "with_outcome r (l @ l') = with_outcome r l @ with_outcome r l'"
  by (simp_all add: with_outcome_def)

lemma pass_log_length: "pass_log wd w xs k us = (l, us') \<Longrightarrow> length l = length xs \<and> map fst l = xs"
  by (induction xs arbitrary: k us l us') (auto simp: Let_def split: prod.splits)

lemma outcomes_partition:
  "mset (with_outcome Visited l) + mset (with_outcome Dropped l) + mset (with_outcome Refused l) = mset (map fst l)"
proof (induction l)
  case (Cons x l) then show ?case by (cases x; cases "snd x") auto
qed simp

lemma sync2_pass_log:
  "pass_log wd w xs k (c_user c) = (l, us') \<Longrightarrow>
    sync2_pass wd w xs pd k c = (with_outcome Visited l, rev (with_outcome Refused l) @ pd, k + length xs,
      c\<lparr>c_user := us', c_calls := rev (map (\<lambda>u. User_Sync2 u (w_allocator (c_worker c w))) (with_outcome Visited l)) @ c_calls c\<rparr>)"
proof (induction xs arbitrary: pd k c l us')
  case (Cons u xs)
  let ?us = "o_env wd k (c_user c)"
  let ?r = "outcome_of wd w u k ?us"
  obtain l1 us1 where l1: "pass_log wd w xs (Suc k) (?us(u := lock_after ?r (?us u))) = (l1, us1)"
    by (cases "pass_log wd w xs (Suc k) (?us(u := lock_after ?r (?us u)))")
  have l: "l = (u, ?r) # l1" "us' = us1" using Cons.prems l1 by (auto simp: Let_def)
  show ?case
  proof (cases ?r)
    case Refused
    have n: "?us(u := ?us u) = ?us" by simp
    have "\<exists>fl. acquire_bit (o_lucky wd k) (u_flags (?us u)) BUSY_FLAG = (False, fl)"
      using Refused by (auto simp: outcome_of_def acquire_bit_def split: if_splits)
    moreover have "pass_log wd w xs (Suc k) (c_user (c\<lparr>c_user := ?us\<rparr>)) = (l1, us1)" using l1 Refused by (simp add: lock_after_def)
    note Cons.IH[OF this, of "u # pd"]
    ultimately show ?thesis by (auto simp: l Refused Let_def)
  next
    case Dropped
    let ?c = "c\<lparr>c_user := ?us(u := (?us u)\<lparr>u_flags := u_flags (?us u) OR BUSY_FLAG\<rparr>)\<rparr>"
    have a: "acquire_bit (o_lucky wd k) (u_flags (?us u)) BUSY_FLAG = (True, u_flags (?us u) OR BUSY_FLAG)" "u_worker (?us u) \<noteq> w"
      using Dropped by (auto simp: outcome_of_def acquire_bit_def split: if_splits)
    have "pass_log wd w xs (Suc k) (c_user ?c) = (l1, us1)" using l1 Dropped by (simp add: lock_after_def)
    note Cons.IH[OF this, of pd]
    then show ?thesis by (simp add: l Dropped a Let_def)
  next
    case Visited
    let ?c = "c\<lparr>c_calls := User_Sync2 u (w_allocator (c_worker c w)) # c_calls c, c_user := ?us(u := (?us u)\<lparr>u_flags := 0\<rparr>)\<rparr>"
    have a: "acquire_bit (o_lucky wd k) (u_flags (?us u)) BUSY_FLAG = (True, u_flags (?us u) OR BUSY_FLAG)" "u_worker (?us u) = w"
      using Visited by (auto simp: outcome_of_def acquire_bit_def split: if_splits)
    have "pass_log wd w xs (Suc k) (c_user ?c) = (l1, us1)" using l1 Visited by (simp add: lock_after_def)
    note Cons.IH[OF this, of pd]
    then show ?thesis by (simp add: l Visited a Let_def heap_call_def)
  qed
qed simp

lemma refused_enough:
  assumes "\<forall>u \<in> set xs. count_list (with_outcome Refused (fst (lock_log n wd w xs k (c_user c)))) u < n" "0 < n"
  shows "\<exists>k'. sync2_users n wd w xs k c = Inr (with_outcome Visited (fst (lock_log n wd w xs k (c_user c))), k',
      c\<lparr>c_user := snd (lock_log n wd w xs k (c_user c)), c_calls := rev (map (\<lambda>u. User_Sync2 u (w_allocator (c_worker c w)))
        (with_outcome Visited (fst (lock_log n wd w xs k (c_user c))))) @ c_calls c\<rparr>)
    \<and> mset (with_outcome Visited (fst (lock_log n wd w xs k (c_user c)))) + mset (with_outcome Dropped (fst (lock_log n wd w xs k (c_user c)))) = mset xs"
  using assms
proof (induction n arbitrary: xs k c)
  case (Suc n)
  obtain l us1 where p: "pass_log wd w xs k (c_user c) = (l, us1)" by (cases "pass_log wd w xs k (c_user c)")
  note P = sync2_pass_log[OF p, of "[]"] and F = outcomes_partition[of l] pass_log_length[OF p]
  let ?p = "rev (with_outcome Refused l)"
  show ?case
  proof (cases "with_outcome Refused l = []")
    case True then show ?thesis using F by (simp add: p P)
  next
    case False
    let ?c = "c\<lparr>c_user := us1, c_calls := rev (map (\<lambda>u. User_Sync2 u (w_allocator (c_worker c w))) (with_outcome Visited l)) @ c_calls c\<rparr>"
    have sub: "set ?p \<subseteq> set xs" using F(2) by (force simp: with_outcome_def)
    have le: "\<forall>u \<in> set ?p. count_list (with_outcome Refused (fst (lock_log n wd w ?p (k + length xs) (c_user ?c)))) u < n"
    proof
      fix u assume u: "u \<in> set ?p"
      then have "0 < count_list (with_outcome Refused l) u" by (metis count_list_0_iff gr0I set_rev)
      moreover have "count_list (with_outcome Refused (fst (lock_log (Suc n) wd w xs k (c_user c)))) u < Suc n" using Suc.prems(1) u sub by blast
      ultimately show "count_list (with_outcome Refused (fst (lock_log n wd w ?p (k + length xs) (c_user ?c)))) u < n"
        by (simp add: p False split: prod.splits)
    qed
    have "0 < n" using le False by (cases n) (auto simp: neq_Nil_conv)
    then obtain k' where r: "sync2_users n wd w ?p (k + length xs) ?c = Inr (with_outcome Visited (fst (lock_log n wd w ?p (k + length xs) (c_user ?c))), k',
      ?c\<lparr>c_user := snd (lock_log n wd w ?p (k + length xs) (c_user ?c)), c_calls := rev (map (\<lambda>u. User_Sync2 u (w_allocator (c_worker ?c w)))
        (with_outcome Visited (fst (lock_log n wd w ?p (k + length xs) (c_user ?c))))) @ c_calls ?c\<rparr>)"
      and m: "mset (with_outcome Visited (fst (lock_log n wd w ?p (k + length xs) (c_user ?c))))
        + mset (with_outcome Dropped (fst (lock_log n wd w ?p (k + length xs) (c_user ?c)))) = mset ?p"
      using Suc.IH[OF le] by blast
    obtain l2 us2 where l2: "lock_log n wd w ?p (k + length xs) us1 = (l2, us2)" by (cases "lock_log n wd w ?p (k + length xs) us1")
    have all: "lock_log (Suc n) wd w xs k (c_user c) = (l @ l2, us2)" by (simp add: p False l2)
    have "sync2_users (Suc n) wd w xs k c = Inr (with_outcome Visited l @ with_outcome Visited l2, k', c\<lparr>c_user := us2, c_calls :=
        rev (map (\<lambda>u. User_Sync2 u (w_allocator (c_worker c w))) (with_outcome Visited l @ with_outcome Visited l2)) @ c_calls c\<rparr>)"
      using r False by (simp add: P l2)
    moreover have "mset (with_outcome Visited (l @ l2)) + mset (with_outcome Dropped (l @ l2)) = mset xs"
      using m F by (simp add: l2 ac_simps) (metis add.assoc add.commute)
    ultimately show ?thesis unfolding all by auto
  qed
qed simp

lemma change_one_keeps:
  assumes "change_one first a b w c = (k, g, c')"
  shows "set (c_calls c) \<subseteq> set (c_calls c') \<and> (\<forall>x. w_users (c_worker c' x) = w_users (c_worker c x) \<and> w_allocator (c_worker c' x) = w_allocator (c_worker c x))"
  using assms by (auto simp: change_one_def Let_def unlink_def heap_call_def set_flags_def set_state_def split: if_splits)

lemma change_workers_keeps:
  "change_workers first ws a b c = (ks, n, c') \<Longrightarrow>
    set (c_calls c) \<subseteq> set (c_calls c') \<and> (\<forall>x. w_users (c_worker c' x) = w_users (c_worker c x) \<and> w_allocator (c_worker c' x) = w_allocator (c_worker c x))"
proof (induction ws arbitrary: first c ks n c')
  case (Cons w ws)
  obtain k g c1 where e: "change_one first a b w c = (k, g, c1)" by (cases "change_one first a b w c")
  obtain ks2 n2 c2 where e2: "change_workers (first \<and> \<not> k) ws a b c1 = (ks2, n2, c2)" by (cases "change_workers (first \<and> \<not> k) ws a b c1")
  have "c' = c2" using Cons.prems by (simp add: e e2)
  then show ?case using change_one_keeps[OF e] Cons.IH[OF e2] by auto
qed simp

lemma advance_keeps:
  "set (c_calls c) \<subseteq> set (c_calls (advance a b n c)) \<and> w_users (c_worker (advance a b n c) x) = w_users (c_worker c x)"
proof -
  obtain ws c1 where g: "global_phase (phase_word n) c = (ws, c1)" by (cases "global_phase (phase_word n) c")
  obtain ks m c2 where e: "change_workers True ws (phase_word a) (phase_word b) c1 = (ks, m, c2)"
    by (cases "change_workers True ws (phase_word a) (phase_word b) c1")
  have "c_calls c1 = c_calls c" "c_worker c1 = c_worker c" using g by (auto simp: global_phase_def Let_def)
  then show ?thesis using change_workers_keeps[OF e] by (auto simp: advance_def g change_phase_def e fetch_add_flag_def)
qed

lemma change_workers_users:
  "change_workers first ws a b c = (ks, n, c') \<Longrightarrow> a \<noteq> phase_word ASYNC \<Longrightarrow> c_calls c' = c_calls c \<and> c_user c' = c_user c"
proof (induction ws arbitrary: first c ks n c')
  case (Cons w ws)
  obtain k g c1 where e: "change_one first a b w c = (k, g, c1)" by (cases "change_one first a b w c")
  obtain ks2 n2 c2 where e2: "change_workers (first \<and> \<not> k) ws a b c1 = (ks2, n2, c2)" by (cases "change_workers (first \<and> \<not> k) ws a b c1")
  have "c' = c2" using Cons.prems by (simp add: e e2)
  moreover have "c_calls c1 = c_calls c \<and> c_user c1 = c_user c" using e Cons.prems(2) by (auto simp: change_one_def Let_def unlink_def set_state_def split: if_splits)
  ultimately show ?case using Cons.IH[OF e2 Cons.prems(2)] by simp
qed simp

lemma advance_users_calls:
  assumes "phase_word a \<noteq> phase_word ASYNC"
  shows "c_calls (advance a b n c) = c_calls c \<and> c_user (advance a b n c) = c_user c"
proof -
  obtain ws c1 where g: "global_phase (phase_word n) c = (ws, c1)" by (cases "global_phase (phase_word n) c")
  obtain ks m c2 where e: "change_workers True ws (phase_word a) (phase_word b) c1 = (ks, m, c2)"
    by (cases "change_workers True ws (phase_word a) (phase_word b) c1")
  have "c_calls c1 = c_calls c" "c_user c1 = c_user c" using g by (auto simp: global_phase_def Let_def)
  then show ?thesis using change_workers_users[OF e assms] by (auto simp: advance_def g change_phase_def e fetch_add_flag_def)
qed

lemma and_not_clear: "a AND b = 0 \<Longrightarrow> a AND NOT b = a" for a b :: u32
  by (auto simp: bit_eq_iff bit_and_iff bit_not_iff)

text \<open>C38.  The second synchronisation of a worker. If no user's lock is refused in as many attempts as there is fuel, then
  the busy loop of \<open>worker_sync2\<close> ends; every user of the worker's list has exactly one successful attempt, in which
  it is either visited or, if it belongs to another worker by then, dropped: none that was put off is lost.  The users visited are the new list, in
  the order of the visits, their enumerations are the calls made, once each and in that order, before those of the worker and, if it has the
  flag, of the global roots, which it loses; each visited user is unlocked when its attempt ends (the users' contexts are
  those of the log).  The worker then answers the signal: the flag goes down by one, and on the last answer the
  collector moves on to PREMARK, otherwise nothing shared changes.\<close>

theorem worker_sync2_terminates:
  assumes "lock_log (o_fuel wd) wd w (w_users (c_worker c w)) 0 (c_user c) = (attempts, contexts)"
    and "\<forall>u \<in> set (w_users (c_worker c w)). count_list (with_outcome Refused attempts) u < o_fuel wd" "0 < o_fuel wd"
  shows "\<exists>c1 c'. worker_sync2 wd w False c = Inr c'
    \<and> mset (with_outcome Visited attempts) + mset (with_outcome Dropped attempts) = mset (w_users (c_worker c w))
    \<and> w_users (c_worker c' w) = with_outcome Visited attempts
    \<and> c_user c' = contexts
    \<and> c_calls c' = (if flags_of c w AND GLOBALENUM_FLAG \<noteq> 0 then [Global_Sync2 (w_allocator (c_worker c w))] else [])
        @ Worker_Sync2 (w_allocator (c_worker c w))
        # rev (map (\<lambda>u. User_Sync2 u (w_allocator (c_worker c w))) (with_outcome Visited attempts)) @ c_calls c
    \<and> c_check_flag c1 = c_check_flag c - 1
    \<and> c_worker c1 = (c_worker c)(w := (c_worker c w)\<lparr>w_users := with_outcome Visited attempts, w_flags := flags_of c w AND NOT GLOBALENUM_FLAG\<rparr>)
    \<and> (c_available c1, c_phase c1, c_handshake c1, c_stamp c1, c_gc_count c1) = (c_available c, c_phase c, c_handshake c, c_stamp c, c_gc_count c)
    \<and> c' = (if c_check_flag c = 1 then advance SYNC2 PREMARK MARK c1 else c1)"
proof -
  let ?a = "w_allocator (c_worker c w)" and ?U = "w_users (c_worker c w)"
  let ?v = "with_outcome Visited attempts"
  let ?c1 = "c\<lparr>c_user := contexts, c_calls := rev (map (\<lambda>u. User_Sync2 u ?a) ?v) @ c_calls c\<rparr>"
  obtain k where u: "sync2_users (o_fuel wd) wd w ?U 0 c = Inr (?v, k, ?c1)"
    and m: "mset ?v + mset (with_outcome Dropped attempts) = mset ?U"
    using refused_enough[of ?U "o_fuel wd" wd w 0 c] assms by auto
  let ?c2 = "upd_worker w (\<lambda>x. x\<lparr>w_users := ?v\<rparr>) ?c1"
  let ?c3 = "heap_call (Worker_Sync2 ?a) ?c2"
  let ?c4 = "if flags_of c w AND GLOBALENUM_FLAG \<noteq> 0
             then set_flags w (flags_of c w AND NOT GLOBALENUM_FLAG) (heap_call (Global_Sync2 ?a) ?c3) else ?c3"
  let ?c5 = "snd (fetch_sub_flag ?c4)"
  have res: "worker_sync2 wd w False c = Inr (if c_check_flag ?c4 = 1 then advance SYNC2 PREMARK MARK ?c5 else ?c5)"
    by (simp add: worker_sync2_def u Let_def fetch_sub_flag_def)
  have f: "c_check_flag ?c4 = c_check_flag c" by (simp add: set_flags_def heap_call_def)
  obtain d where d: "d = ?c5" by blast
  have w5: "c_worker d = (c_worker c)(w := (c_worker c w)\<lparr>w_users := ?v, w_flags := flags_of c w AND NOT GLOBALENUM_FLAG\<rparr>)"
    using and_not_clear[of "flags_of c w" GLOBALENUM_FLAG] by (auto simp: d fetch_sub_flag_def set_flags_def heap_call_def fun_upd_def)
  have k5: "c_user d = contexts" "w_users (c_worker d w) = ?v" by (auto simp: d fetch_sub_flag_def set_flags_def heap_call_def)
  have l5: "c_calls d = (if flags_of c w AND GLOBALENUM_FLAG \<noteq> 0 then [Global_Sync2 ?a] else [])
        @ Worker_Sync2 ?a # rev (map (\<lambda>u. User_Sync2 u ?a) ?v) @ c_calls c"
    by (simp add: d fetch_sub_flag_def set_flags_def heap_call_def)
  have s5: "(c_available d, c_phase d, c_handshake d, c_stamp d, c_gc_count d) = (c_available c, c_phase c, c_handshake c, c_stamp c, c_gc_count c)"
    "c_check_flag d = c_check_flag c - 1"
    by (simp_all add: d fetch_sub_flag_def set_flags_def heap_call_def)
  have adv: "c_calls (advance SYNC2 PREMARK MARK d) = c_calls d" "c_user (advance SYNC2 PREMARK MARK d) = c_user d"
    "w_users (c_worker (advance SYNC2 PREMARK MARK d) w) = w_users (c_worker d w)"
    using advance_users_calls[of SYNC2 PREMARK MARK d] advance_keeps[of d SYNC2 PREMARK MARK w] by (auto simp: phase_word_def)
  have out: "worker_sync2 wd w False c = Inr (if c_check_flag c = 1 then advance SYNC2 PREMARK MARK d else d)"
    unfolding res f d ..
  show ?thesis
    by (rule exI[of _ d], rule exI[of _ "if c_check_flag c = 1 then advance SYNC2 PREMARK MARK d else d"])
      (use out m w5 k5 l5 s5 adv in simp)
qed

text \<open>A worker with three users: the first one's lock is held at the first attempt and free at the second, the second one
  has moved to another worker, the third one is free.\<close>

definition crowded_world :: world where
  "crowded_world = plain_world\<lparr>o_fuel := 2, o_lucky := (\<lambda>_. True),
     o_env := (\<lambda>k us u. if u = 1 then (us u)\<lparr>u_flags := (if k = 0 then BUSY_FLAG else 0)\<rparr> else us u)\<rparr>"

definition crowded_control :: control where
  "crowded_control = plain_control\<lparr>
     c_worker := (\<lambda>w. (c_worker plain_control w)\<lparr>w_users := (if w = 8 then [1, 2, 3] else []), w_allocator := 100\<rparr>),
     c_user := (\<lambda>u. (c_user plain_control u)\<lparr>u_flags := 0, u_worker := (if u = 2 then 16 else 8)\<rparr>), c_calls := []\<rparr>"

lemma worker_sync2_terminates_witness:
  "\<exists>c'. worker_sync2 crowded_world 8 False crowded_control = Inr c' \<and> w_users (c_worker c' 8) = [3, 1]
    \<and> filter (\<lambda>h. case h of User_Sync2 _ _ \<Rightarrow> True | _ \<Rightarrow> False) (c_calls c') = [User_Sync2 1 100, User_Sync2 3 100]"
proof -
  let ?U = "w_users (c_worker crowded_control 8)"
  have U: "?U = [1, 2, 3]" by (simp add: crowded_control_def)
  have F: "o_fuel crowded_world = 2" by (simp add: crowded_world_def)
  have a: "w_allocator (c_worker crowded_control 8) = 100" "c_calls crowded_control = []" by (simp_all add: crowded_control_def)
  have log: "fst (lock_log 2 crowded_world 8 [1, 2, 3] 0 (c_user crowded_control)) = [(1, Refused), (2, Dropped), (3, Visited), (1, Visited)]"
    by (simp add: numeral_2_eq_2 outcome_of_def lock_after_def crowded_world_def crowded_control_def plain_world_def BUSY_FLAG_def Let_def split: prod.splits)
  obtain ctx where l: "lock_log (o_fuel crowded_world) crowded_world 8 ?U 0 (c_user crowded_control) = ([(1, Refused), (2, Dropped), (3, Visited), (1, Visited)], ctx)"
    using log unfolding U F by (metis prod.collapse)
  show ?thesis using worker_sync2_terminates[OF l] by (auto simp: U F a)
qed

section \<open>A collection with a single worker\<close>

definition lone :: "nat \<Rightarrow> u32 \<Rightarrow> u32 \<Rightarrow> u32 \<Rightarrow> u32 \<Rightarrow> 64 word \<Rightarrow> nat list \<Rightarrow> nat \<Rightarrow> heap_call list \<Rightarrow> control \<Rightarrow> bool" where
  "lone w p st fl n gc us a cs c \<longleftrightarrow> c_available c = [w] \<and> c_phase c = p \<and> state_of c w = st \<and> flags_of c w = fl
     \<and> c_check_flag c = n \<and> c_gc_count c = gc \<and> w_users (c_worker c w) = us \<and> w_allocator (c_worker c w) = a \<and> c_calls c = cs"

lemma lone_ops:
  assumes "lone w p st fl n gc us a cs c"
  shows "lone w p st' fl n gc us a cs (set_state w st' c)" "lone w p st fl' n gc us a cs (set_flags w fl' c)"
    "lone w p st fl n gc us a (h # cs) (heap_call h c)" "lone w p st fl (n - 1) gc us a cs (snd (fetch_sub_flag c))"
    "lone w p st fl n gc us' a cs (upd_worker w (\<lambda>x. x\<lparr>w_users := us'\<rparr>) c)" "lone w p st fl n gc' us a cs (c\<lparr>c_gc_count := gc'\<rparr>)"
  using assms by (simp_all add: lone_def set_state_def set_flags_def heap_call_def fetch_sub_flag_def)

lemma loneD:
  assumes "lone w p st fl n gc us a cs c"
  shows "c_available c = [w]" "c_phase c = p" "state_of c w = st" "flags_of c w = fl" "c_check_flag c = n" "c_gc_count c = gc"
    "w_users (c_worker c w) = us" "w_allocator (c_worker c w) = a" "c_calls c = cs" "fst (fetch_sub_flag c) = n"
  using assms by (simp_all add: lone_def fetch_sub_flag_def)

lemma lone_advance:
  assumes "lone w p st fl n gc us a cs c" "fl AND DEAD_FLAG = 0" "fl AND CANCELED_FLAG = 0"
  shows "lone w (phase_word new) (st XOR (phase_word old XOR phase_word pre)) fl (n + 1) gc us a cs (advance old pre new c)"
proof -
  have d: "\<not> dead c w" using assms by (simp add: dead_def loneD(4)[OF assms(1)])
  show ?thesis
    using assms d by (simp add: lone_def advance_def global_phase_def change_phase_def change_one_def Let_def fetch_add_flag_def set_state_def)
qed

definition quiet_world :: "world \<Rightarrow> bool" where
  "quiet_world wd \<longleftrightarrow> (\<forall>k. o_lucky wd k \<and> o_env wd k = (\<lambda>us. us))"

definition attached :: "nat \<Rightarrow> control \<Rightarrow> nat list \<Rightarrow> bool" where
  "attached w c users \<longleftrightarrow> (\<forall>u \<in> set users. u_worker (c_user c u) = w \<and> u_flags (c_user c u) AND BUSY_FLAG = 0)"

lemma lone_pass:
  "lone w p st fl n gc vs a cs c \<Longrightarrow> quiet_world wd \<Longrightarrow> attached w c us \<Longrightarrow>
    \<exists>c'. sync2_pass wd w us [] k c = (us, [], k + length us, c') \<and> lone w p st fl n gc vs a (rev (map (\<lambda>u. User_Sync2 u a) us) @ cs) c'"
proof (induction us arbitrary: k c cs)
  case (Cons u us)
  let ?c = "upd_user u (\<lambda>x. x\<lparr>u_flags := 0\<rparr>) (heap_call (User_Sync2 u a) (upd_user u (\<lambda>x. x\<lparr>u_flags := u_flags x OR BUSY_FLAG\<rparr>) c))"
  have u: "u_worker (c_user c u) = w" "u_flags (c_user c u) AND BUSY_FLAG = 0" using Cons.prems(3) by (simp_all add: attached_def)
  have q: "o_lucky wd k" "o_env wd k = (\<lambda>us. us)" using Cons.prems(2) by (simp_all add: quiet_world_def)
  have b: "acquire_bit True (u_flags (c_user c u)) BUSY_FLAG = (True, u_flags (c_user c u) OR BUSY_FLAG)"
    using u(2) by (simp add: acquire_bit_def)
  have l: "lone w p st fl n gc vs a (User_Sync2 u a # cs) ?c" using Cons.prems(1) by (simp add: lone_def heap_call_def)
  have at: "attached w ?c us" using Cons.prems(3) by (auto simp: attached_def)
  obtain c' where r: "sync2_pass wd w us [] (Suc k) ?c = (us, [], Suc k + length us, c')"
    and l': "lone w p st fl n gc vs a (rev (map (\<lambda>u. User_Sync2 u a) us) @ User_Sync2 u a # cs) c'"
    using Cons.IH[OF l Cons.prems(2) at] by blast
  have "sync2_pass wd w (u # us) [] k c = (u # us, [], k + length (u # us), c')"
    using r u q b loneD(8)[OF Cons.prems(1)] by (simp add: Let_def)
  then show ?case using l' by auto
qed auto

lemma worker_mark_lone:
  assumes "\<forall>cs. o_finish wd cs \<longleftrightarrow> m < length (filter (\<lambda>h. h = Worker_Mark a) cs)"
    and "fl AND DEAD_FLAG = 0" "fl AND CANCELED_FLAG = 0"
  shows "lone w 7 7 fl 1 gc us a cs c \<Longrightarrow> length (filter (\<lambda>h. h = Worker_Mark a) cs) + j = m \<Longrightarrow> j < fuel \<Longrightarrow>
    \<exists>c'. worker_mark fuel wd w True c = Inr c' \<and> lone w 1 1 fl 0 (gc + 1) us a
      (Global_Async # Worker_Async a # Before_Async # Run_Finalizer # replicate (Suc j) (Worker_Mark a) @ cs) c'"
proof (induction fuel arbitrary: c cs j)
  case (Suc fuel)
  obtain d where fs: "fetch_sub_flag (heap_call (Worker_Mark a) c) = (1, d)"
    using loneD(5)[OF Suc.prems(1)] by (simp add: fetch_sub_flag_def)
  have d: "lone w 7 7 fl 0 gc us a (Worker_Mark a # cs) d"
    using lone_ops(4)[OF lone_ops(3)[OF Suc.prems(1)], of "Worker_Mark a"] by (simp add: fs)
  show ?case
  proof (cases j)
    case 0
    let ?e = "set_state w 1 (advance MARK PREASYNC ASYNC (heap_call Before_Async (heap_call Run_Finalizer d)))"
    have e: "lone w 1 1 fl 1 gc us a (Before_Async # Run_Finalizer # Worker_Mark a # cs) ?e"
      using lone_ops(1)[OF lone_advance[OF lone_ops(3)[OF lone_ops(3)[OF d]] assms(2,3), of ASYNC MARK PREASYNC], of 1] by simp
    let ?f = "snd (fetch_sub_flag (heap_call (Worker_Async a) ?e))"
    have "worker_mark (Suc fuel) wd w True c = Inr (worker_async w ?e)"
      using Suc.prems(2) 0 assms(1) fs loneD(8)[OF Suc.prems(1)] loneD(9)[OF d] by simp
    moreover have "worker_async w ?e = (heap_call Global_Async ?f)\<lparr>c_gc_count := gc + 1\<rparr>"
      using loneD(5,6,8)[OF e] by (simp add: worker_async_def Let_def fetch_sub_flag_def)
    moreover have "lone w 1 1 fl 0 (gc + 1) us a (Global_Async # Worker_Async a # Before_Async # Run_Finalizer # Worker_Mark a # cs)
        ((heap_call Global_Async ?f)\<lparr>c_gc_count := gc + 1\<rparr>)"
      using lone_ops(6)[OF lone_ops(3)[OF lone_ops(4)[OF lone_ops(3)[OF e]]]] by simp
    ultimately show ?thesis by (simp add: 0)
  next
    case (Suc i)
    let ?e = "set_state w 7 (advance MARK PREMARK MARK d)"
    have e: "lone w 7 7 fl 1 gc us a (Worker_Mark a # cs) ?e"
      using lone_ops(1)[OF lone_advance[OF d assms(2,3), of MARK MARK PREMARK], of 7] by simp
    have "worker_mark (Suc fuel) wd w True c = worker_mark fuel wd w True ?e"
      using Suc.prems(2) Suc assms(1) fs loneD(8)[OF Suc.prems(1)] loneD(9)[OF d] by simp
    moreover obtain c' where "worker_mark fuel wd w True ?e = Inr c'" "lone w 1 1 fl 0 (gc + 1) us a
      (Global_Async # Worker_Async a # Before_Async # Run_Finalizer # replicate (Suc i) (Worker_Mark a) @ Worker_Mark a # cs) c'"
      using Suc.IH[OF e, of i] Suc.prems(2,3) Suc by auto
    ultimately show ?thesis by (simp add: Suc replicate_app_Cons_same)
  qed
qed simp


lemma flag_bits:
  fixes f :: u32
  shows "f AND 4 = 0 \<Longrightarrow> (f OR 8) AND 4 = 0" "f AND 2 = 0 \<Longrightarrow> (f OR 8) AND 2 = 0" "(f OR 8) AND 8 \<noteq> 0"
    "f AND 8 = 0 \<Longrightarrow> (f OR 8) AND - 9 = f"
proof -
  show "f AND 4 = 0 \<Longrightarrow> (f OR 8) AND 4 = 0" "f AND 2 = 0 \<Longrightarrow> (f OR 8) AND 2 = 0" by (simp_all add: or_and_flag)
  have e: "(f AND 8) OR 8 = 8" by (rule bit_eqI) (auto simp: bit_simps)
  show "(f OR 8) AND 8 \<noteq> 0" using e by (simp add: bit.conj_disj_distrib2)
  assume z: "f AND 8 = 0"
  have "(f OR 8) AND - 9 = f AND NOT 8" by (simp add: bit.conj_disj_distrib2)
  also have "\<dots> = (f AND NOT 8) OR (f AND 8)" using z by simp
  also have "\<dots> = f" by (rule bit_eqI) (auto simp: bit_simps)
  finally show "(f OR 8) AND - 9 = f" .
qed

lemma worker_sync2_lone:
  assumes "lone w 5 5 fl 1 gc us a cs c" "fl AND DEAD_FLAG = 0" "fl AND CANCELED_FLAG = 0" "fl AND GLOBALENUM_FLAG = 0"
    and "lone w 5 5 (fl OR GLOBALENUM_FLAG) 1 gc us a cs c'" "quiet_world wd" "attached w c' us" "0 < o_fuel wd"
  shows "\<exists>c2. worker_sync2 wd w True c' = worker_mark (o_fuel wd) wd w True c2
    \<and> lone w 7 7 fl 1 gc us a (Global_Sync2 a # Worker_Sync2 a # rev (map (\<lambda>u. User_Sync2 u a) us) @ cs) c2"
proof -
  let ?g = "fl OR GLOBALENUM_FLAG"
  obtain c1 where p: "sync2_pass wd w us [] 0 c' = (us, [], 0 + length us, c1)"
    and l1: "lone w 5 5 ?g 1 gc us a (rev (map (\<lambda>u. User_Sync2 u a) us) @ cs) c1"
    using lone_pass[OF assms(5-7)] by blast
  obtain n where n: "o_fuel wd = Suc n" using assms(8) by (cases "o_fuel wd") simp_all
  let ?u = "upd_worker w (\<lambda>x. x\<lparr>w_users := us\<rparr>) c1"
  let ?h = "heap_call (Global_Sync2 a) (heap_call (Worker_Sync2 a) ?u)"
  let ?f = "set_flags w fl ?h"
  let ?cs = "Global_Sync2 a # Worker_Sync2 a # rev (map (\<lambda>u. User_Sync2 u a) us) @ cs"
  have f: "lone w 5 5 fl 1 gc us a ?cs ?f"
    by (rule lone_ops(2)[OF lone_ops(3)[OF lone_ops(3)[OF lone_ops(5)[OF l1]]]])
  obtain d where fd: "fetch_sub_flag ?f = (1, d)" using loneD(5)[OF f] by (simp add: fetch_sub_flag_def)
  have d: "lone w 5 5 fl 0 gc us a ?cs d" using lone_ops(4)[OF f] by (simp add: fd)
  have e: "lone w 7 7 fl 1 gc us a ?cs (set_state w 7 (advance SYNC2 PREMARK MARK d))"
    using lone_ops(1)[OF lone_advance[OF d assms(2,3), of MARK SYNC2 PREMARK], of 7] by simp
  have g: "?g AND GLOBALENUM_FLAG \<noteq> 0" "?g AND NOT GLOBALENUM_FLAG = fl"
    using flag_bits(3)[of fl] flag_bits(4)[of fl] assms(4) by (simp_all add: state_bits)
  have users: "sync2_users (o_fuel wd) wd w (w_users (c_worker c' w)) 0 c' = Inr (us, length us, c1)"
    using p loneD(7)[OF assms(5)] by (simp add: n)
  have fl: "flags_of (heap_call (Worker_Sync2 a) ?u) w = ?g" "w_allocator (c_worker ?u w) = a"
    using loneD(4,8)[OF l1] by simp_all
  have "worker_sync2 wd w True c' = worker_mark (o_fuel wd) wd w True (set_state w 7 (advance SYNC2 PREMARK MARK d))"
    unfolding worker_sync2_def users Let_def sum.case prod.case fl(2) fl(1)
    by (simp only: g(1) g(2) not_False_eq_True if_True simp_thms fd prod.case phase_words)
  then show ?thesis using e by blast
qed

lemma single_worker_cycle:
  assumes "lone w (phase_word ASYNC) (phase_word ASYNC) fl 0 gc us a cs c" "t_worker t = w" "gc AND 1 = 0"
    and "fl AND (DEAD_FLAG OR CANCELED_FLAG OR GLOBALENUM_FLAG) = 0"
    and "quiet_world wd" "attached w c us" "m < o_fuel wd"
    and "\<forall>calls. o_finish wd calls \<longleftrightarrow> length (filter (\<lambda>h. h = Worker_Mark a) cs) + m < length (filter (\<lambda>h. h = Worker_Mark a) calls)"
  shows "\<exists>c'. sml_gc wd True t c = Inr (gc + 2, c')
    \<and> lone w (phase_word ASYNC) (phase_word ASYNC) fl 0 (gc + 2) us a
        (rev (map (\<lambda>u. User_Sync2 u a) us @ [Worker_Sync2 a, Global_Sync2 a] @ replicate (Suc m) (Worker_Mark a)
          @ [Run_Finalizer, Before_Async, Worker_Async a, Global_Async]) @ cs) c'"
proof -
  have "fl AND b = (fl AND (DEAD_FLAG OR CANCELED_FLAG OR GLOBALENUM_FLAG)) AND b"
    if "(DEAD_FLAG OR CANCELED_FLAG OR GLOBALENUM_FLAG) AND b = b" for b
    using that by (simp add: and.assoc)
  then have fl: "fl AND DEAD_FLAG = 0" "fl AND CANCELED_FLAG = 0" "fl AND GLOBALENUM_FLAG = 0"
    unfolding assms(4) by (simp_all add: state_bits)
  let ?g = "fl OR GLOBALENUM_FLAG"
  have flg: "?g AND DEAD_FLAG = 0" "?g AND CANCELED_FLAG = 0" using flag_bits(1,2) fl by (simp_all add: state_bits)
  have "gc OR 1 = gc + 1" using disjunctive_add_eq_or[of gc 1] assms(3) by simp
  then have gc1: "(gc OR 1) + 1 = gc + 2" by (simp only:) simp
  let ?a = "c\<lparr>c_gc_count := gc OR 1\<rparr>"
  let ?b = "set_state w 3 (advance ASYNC PRESYNC1 SYNC1 ?a)"
  have b: "lone w 3 3 fl 1 (gc OR 1) us a cs ?b"
    using lone_ops(1)[OF lone_advance[OF lone_ops(6)[OF assms(1)] fl(1,2), of SYNC1 ASYNC PRESYNC1], of 3] by simp
  obtain d where d: "fetch_sub_flag ?b = (1, d)" and du: "c_user d = c_user ?b"
    using loneD(5)[OF b] by (simp add: fetch_sub_flag_def)
  let ?e = "set_flags w ?g d"
  have d0: "lone w 3 3 fl 0 (gc OR 1) us a cs d" using lone_ops(4)[OF b] by (simp add: d)
  have e0: "lone w 3 3 ?g 0 (gc OR 1) us a cs ?e" by (rule lone_ops(2)[OF d0])
  let ?x = "set_state w 5 (advance SYNC1 PRESYNC2 SYNC2 ?e)"
  have x: "lone w 5 5 ?g 1 (gc OR 1) us a cs ?x"
    using lone_ops(1)[OF lone_advance[OF e0 flg, of SYNC2 SYNC1 PRESYNC2], of 5] by simp
  have users: "c_user (advance p q n y) = c_user y" if "lone w ph st f k g us a cs y" "f AND DEAD_FLAG = 0" "f AND CANCELED_FLAG = 0"
    for p q n y ph st f k g
    using that by (simp add: lone_def advance_def global_phase_def change_phase_def change_one_def Let_def fetch_add_flag_def set_state_def dead_def)
  have "c_user ?x = c_user c"
    using users[OF e0 flg] users[OF lone_ops(6)[OF assms(1)] fl(1,2)] by (simp add: set_state_def set_flags_def du)
  then have at: "attached w ?x us" using assms(6) by (simp add: attached_def)
  have dummy: "lone w 5 5 fl 1 (gc OR 1) us a cs (set_flags w fl ?x)" by (rule lone_ops(2)[OF x])
  obtain y where y: "worker_sync2 wd w True ?x = worker_mark (o_fuel wd) wd w True y"
    and ly: "lone w 7 7 fl 1 (gc OR 1) us a (Global_Sync2 a # Worker_Sync2 a # rev (map (\<lambda>u. User_Sync2 u a) us) @ cs) y"
    using worker_sync2_lone[OF dummy fl x assms(5) at] assms(7) by auto
  obtain z where z: "worker_mark (o_fuel wd) wd w True y = Inr z"
    and lz: "lone w 1 1 fl 0 ((gc OR 1) + 1) us a (Global_Async # Worker_Async a # Before_Async # Run_Finalizer
      # replicate (Suc m) (Worker_Mark a) @ Global_Sync2 a # Worker_Sync2 a # rev (map (\<lambda>u. User_Sync2 u a) us) @ cs) z"
    using worker_mark_lone[OF assms(8) fl(1,2) ly, of m "o_fuel wd"] assms(7) by (auto simp: filter_empty_conv)
  have "worker_sync1 wd w True ?b = Inr z"
    using loneD(4)[OF d0] by (simp add: worker_sync1_def d y z)
  then have "sml_gc wd True t c = Inr (gc + 2, z)"
    using assms(2,3) loneD(6)[OF assms(1)] by (simp add: sml_gc_def Let_def)
  then show ?thesis using lz unfolding gc1 by (simp add: replicate_append_same)
qed

text \<open>C20.  A whole collection. With a single idle worker whose users are all attached to it and unlocked, \<open>sml_gc\<close> runs a complete
  cycle: it returns the count at which the collection is finished, the counter has reached it, the worker is back in phase
  ASYNC with the flag at 0, and the heap has been called in the right order: roots of each user, of the worker and the
  globals, rounds of marking until the heap is satisfied after \<open>m + 1\<close> of them, finalizers, reclamation.\<close>

theorem single_worker_collection:
  assumes "lone w (phase_word ASYNC) (phase_word ASYNC) fl 0 gc us a cs c" "t_worker t = w" "gc AND 1 = 0"
    and "fl AND (DEAD_FLAG OR CANCELED_FLAG OR GLOBALENUM_FLAG) = 0"
    and "quiet_world wd" "attached w c us" "m < o_fuel wd"
    and "\<forall>calls. o_finish wd calls \<longleftrightarrow> length (filter (\<lambda>h. h = Worker_Mark a) cs) + m < length (filter (\<lambda>h. h = Worker_Mark a) calls)"
  shows "\<exists>c'. sml_gc wd True t c = Inr (gc + 2, c')
    \<and> lone w (phase_word ASYNC) (phase_word ASYNC) fl 0 (gc + 2) us a
        (rev (map (\<lambda>u. User_Sync2 u a) us @ [Worker_Sync2 a, Global_Sync2 a] @ replicate (Suc m) (Worker_Mark a)
          @ [Run_Finalizer, Before_Async, Worker_Async a, Global_Async]) @ cs) c'"
  using assms by (rule single_worker_cycle)

lemma single_worker_collection_witness:
  "\<exists>c'. sml_gc plain_world True plain_thread plain_control = Inr (2, c') \<and> c_gc_count c' = 2
    \<and> rev (c_calls c') = [User_Sync2 32 24, Worker_Sync2 24, Global_Sync2 24, Worker_Mark 24, Run_Finalizer, Before_Async,
        Worker_Async 24, Global_Async]"
proof -
  have l: "lone 8 (phase_word ASYNC) (phase_word ASYNC) 0 0 0 [32] 24 [] plain_control"
    by (simp add: lone_def plain_control_def initial_control_def)
  have a: "attached 8 plain_control [32]" by (simp add: attached_def plain_control_def)
  have f: "\<forall>calls. o_finish plain_world calls \<longleftrightarrow>
      length (filter (\<lambda>h. h = Worker_Mark 24) []) + 0 < length (filter (\<lambda>h. h = Worker_Mark 24) calls)"
    by (auto simp: plain_world_def filter_empty_conv)
  have q: "quiet_world plain_world" by (simp add: quiet_world_def plain_world_def)
  show ?thesis
    using single_worker_collection[OF l _ _ _ q a _ f, of plain_thread] by (auto simp: plain_thread_def plain_world_def lone_def)
qed

end
