(* ===== verification/Agreement.thy ===== *)
theory Agreement
  imports Workers
begin

unbundle bit_operations_syntax

text \<open>
  What the invariant of the handshakes gives: the meaning of the counter, the agreement of the workers on the
  phase, the lost collection, and two functions of control.c, \<open>leave_worker\<close> and \<open>sml_gc\<close>, as runs of events.
\<close>

section \<open>What the handshakes guarantee\<close>

text \<open>C19.  What \<open>sml_check_flag\<close> counts, in every reachable state of any number of threads. The flag plus the number of workers
  signalled but not added to it yet is, modulo \<open>2 ^ 32\<close>, the number of live workers that have the signal pending or have
  accepted it and not finished its action; and an action under way is always the one of the current phase, on a live
  worker in that phase.\<close>

theorem handshake_count:
  assumes "hs_step\<^sup>*\<^sup>* initial_handshake s"
  shows "c_check_flag (hs_ctl s) + of_nat (length (changed_of (hs_coord s)))
      = of_nat (card (pending (hs_ctl s) (set (todo_of (hs_coord s)))) + card (owing s))
    \<and> (\<forall>w v p. (w, v, p) \<in> set (hs_owes s) \<longrightarrow> p = c_phase (hs_ctl s) \<and> ph (hs_ctl s) w = p \<and> w \<in> live (hs_ctl s))"
proof -
  note I = hs_invD[OF reachable_inv[OF assms]]
  have "p = c_phase (hs_ctl s) \<and> ph (hs_ctl s) w = p \<and> w \<in> live (hs_ctl s)" if m: "(w, v, p) \<in> set (hs_owes s)" for w v p
  proof -
    have "w \<in> owing s" using m by (force simp: owing_def)
    then have "w \<in> live (hs_ctl s)" "ph (hs_ctl s) w = c_phase (hs_ctl s)" using I(2) by (auto simp: settled_def)
    then show ?thesis using m I(8) by (auto simp: owes_ok_def)
  qed
  then show ?thesis using I(2) by (simp add: settled_def)
qed

lemma handshake_count_witness: "card (owing initial_handshake) = 0 \<and> c_check_flag initial_control = 0"
  using handshake_count[of initial_handshake]
  by (simp add: initial_handshake_def initial_control_def owing_def pending_def live_def)

text \<open>C3.  All workers move together. Whenever a thread is about to move the workers to the next phase, no action of the current
  phase is under way, the flag is 0 and every live worker is in the current phase; when no collection is in progress,
  every live worker is in phase ASYNC.\<close>

theorem handshake_agreement:
  assumes "hs_step\<^sup>*\<^sup>* initial_handshake s"
  shows "(\<forall>r old pre new. hs_coord s = Begin r (old, pre, new) \<longrightarrow> hs_owes s = [] \<and> c_check_flag (hs_ctl s) = 0
        \<and> (\<forall>w \<in> live (hs_ctl s). ph (hs_ctl s) w = phase_word old))
    \<and> (c_gc_count (hs_ctl s) AND 1 = 0 \<longrightarrow> hs_owes s = [] \<and> (\<forall>w \<in> live (hs_ctl s). ph (hs_ctl s) w = phase_word ASYNC))"
proof -
  let ?c = "hs_ctl s"
  note I = hs_invD[OF reachable_inv[OF assms]]
  have all: "hs_owes s = [] \<and> c_check_flag ?c = 0 \<and> (\<forall>w \<in> live ?c. ph ?c w = c_phase ?c)"
    if k: "quiet (hs_coord s) (c_gc_count ?c)"
  proof -
    have t: "todo_of (hs_coord s) = []" "changed_of (hs_coord s) = []" using k by (cases "hs_coord s"; simp)+
    have q: "pending ?c {} = {}" "owing s = {}" using I(4) k by (simp_all add: quiet_ok_def t)
    then have "\<forall>w \<in> live ?c. ph ?c w = c_phase ?c" using I(2) by (auto simp: settled_def pending_def t)
    moreover have "c_check_flag ?c = 0" using I(2) q by (simp add: settled_def t)
    ultimately show ?thesis using q(2) by (simp add: owing_def)
  qed
  have "hs_owes s = [] \<and> c_check_flag ?c = 0 \<and> (\<forall>w \<in> live ?c. ph ?c w = phase_word old)"
    if k: "hs_coord s = Begin r (old, pre, new)" for r old pre new
  proof -
    have "c_phase ?c = phase_word old" using I(3) by (simp add: k)
    then show ?thesis using all by (simp add: k)
  qed
  moreover have "hs_owes s = [] \<and> (\<forall>w \<in> live ?c. ph ?c w = phase_word ASYNC)" if g: "c_gc_count ?c AND 1 = 0"
  proof -
    have k: "hs_coord s = Idle" using I(6) g by (auto simp: gc_ok_def)
    then have "c_phase ?c = phase_word ASYNC" using I(3) g by simp
    then show ?thesis using all g by (simp add: k)
  qed
  ultimately show ?thesis by blast
qed

definition started :: handshake where
  "started = the (hs_run [Register 8 0 0, Register 16 0 0, Start 8] initial_handshake)"

lemma started_run: "hs_run [Register 8 0 0, Register 16 0 0, Start 8] initial_handshake = Some started"
proof -
  have "hs_run [Register 8 0 0, Register 16 0 0, Start 8] initial_handshake \<noteq> None" by code_simp
  then show ?thesis by (auto simp: started_def)
qed

lemma started_state: "hs_coord started = Begin 8 (ASYNC, PRESYNC1, SYNC1) \<and> c_available (hs_ctl started) = [16, 8]
    \<and> flags_of (hs_ctl started) 8 = 0"
  by code_simp

lemma handshake_agreement_witness: "hs_coord started = Begin 8 (ASYNC, PRESYNC1, SYNC1) \<and> hs_owes started = []
    \<and> ph (hs_ctl started) 8 = phase_word ASYNC"
  using handshake_agreement[OF hs_run_steps[OF started_run]] started_state by (simp add: live_def dead_def)

text \<open>A state with a collection in progress where nobody has anything to do.\<close>

definition stalled :: "handshake \<Rightarrow> bool" where
  "stalled s \<longleftrightarrow> hs_coord s = Idle \<and> c_gc_count (hs_ctl s) = 1 \<and> c_check_flag (hs_ctl s) = 0"

lemma stalled_nothing:
  assumes "hs_inv s" "stalled s"
  shows "hs_owes s = []" "pending (hs_ctl s) {} = {}"
proof -
  have "0 = (of_nat (card (pending (hs_ctl s) {}) + card (owing s)) :: u32)"
    using hs_invD(2)[OF assms(1)] assms(2) by (simp add: settled_def stalled_def)
  moreover have "card (pending (hs_ctl s) {}) + card (owing s) \<le> 2 ^ 31"
    using count_bound(1)[OF assms(1)] assms(2) by (simp add: stalled_def)
  ultimately have "0 = card (pending (hs_ctl s) {}) + card (owing s)"
    using u32_of_nat_eq[of 0 "card (pending (hs_ctl s) {}) + card (owing s)"] by simp
  moreover have "finite (owing s)" by (simp add: owing_def)
  ultimately show "hs_owes s = []" "pending (hs_ctl s) {} = {}" by (auto simp: owing_def)
qed

lemma stalled_step:
  assumes "hs_inv s" "stalled s" "hs_exec e s = Some t"
  shows "stalled t"
proof -
  have o: "hs_owes s = []" by (rule stalled_nothing[OF assms(1,2)])
  show ?thesis
    using assms(2,3) o
    by (cases e)
      (auto simp: stalled_def register_worker_def acquire_unbit_def cancel_worker_def Let_def set_state_def set_flags_def
        split: if_splits option.splits list.splits)
qed

interpretation stalls: invariant_system hs_step "\<lambda>s. (hs_inv s \<and> taken_ok s) \<and> stalled s"
proof
  fix s t assume i: "(hs_inv s \<and> taken_ok s) \<and> stalled s" and st: "hs_step s t"
  obtain e where e: "hs_exec e s = Some t" using st by (auto simp: hs_step.simps)
  show "(hs_inv t \<and> taken_ok t) \<and> stalled t"
    using i handshakes.keeps[OF _ st] stalled_step[OF _ _ e] by simp
qed

lemma stall_run:
  "case hs_run stall_events initial_handshake of None \<Rightarrow> False
   | Some s \<Rightarrow> hs_coord s = Idle \<and> c_gc_count (hs_ctl s) = 1 \<and> c_check_flag (hs_ctl s) = 0"
  by code_simp

text \<open>C36.  A collection can be lost. There is a reachable state with a collection in progress from which no further step of any
  thread ends it: the count stays odd, all workers have responded and no action is left. It arises when the last thread
  to respond is leaving ML code (\<open>greedy\<close> is 0) and another thread helps its worker, already signalled for the next
  phase, before \<open>sml_check_flag\<close> is incremented: the flag then returns to 0 by the addition, and no thread sees its
  decrement from 1 to 0.\<close>

theorem handshake_stall:
  "\<exists>s. hs_step\<^sup>*\<^sup>* initial_handshake s \<and> c_gc_count (hs_ctl s) = 1
     \<and> (\<forall>t. hs_step\<^sup>*\<^sup>* s t \<longrightarrow> c_gc_count (hs_ctl t) = 1 \<and> hs_owes t = [] \<and> (\<forall>w \<in> live (hs_ctl t). ph (hs_ctl t) w = c_phase (hs_ctl t)))"
proof -
  obtain s where r: "hs_run stall_events initial_handshake = Some s" and st: "stalled s"
    using stall_run by (auto simp: stalled_def split: option.splits)
  have reach: "hs_step\<^sup>*\<^sup>* initial_handshake s" by (rule hs_run_steps[OF r])
  have "c_gc_count (hs_ctl t) = 1 \<and> hs_owes t = [] \<and> (\<forall>w \<in> live (hs_ctl t). ph (hs_ctl t) w = c_phase (hs_ctl t))"
    if "hs_step\<^sup>*\<^sup>* s t" for t
  proof -
    have t: "hs_inv t" "stalled t" using stalls.steps_keep[OF that] reachable_both[OF reach] st by simp_all
    then have "\<forall>w \<in> live (hs_ctl t). ph (hs_ctl t) w = c_phase (hs_ctl t)"
      using hs_invD(2)[OF t(1)] stalled_nothing(2)[OF t] by (auto simp: settled_def stalled_def pending_def)
    then show ?thesis using t stalled_nothing(1)[OF t] by (simp add: stalled_def)
  qed
  then show ?thesis using reach st by (auto simp: stalled_def)
qed

lemma handshake_stall_witness:
  "\<exists>s. hs_step\<^sup>*\<^sup>* initial_handshake s \<and> c_gc_count (hs_ctl s) = 1 \<and> hs_owes s = []"
  using handshake_stall by blast

section \<open>The functions as runs of events\<close>

lemma hs_run_append: "hs_run (xs @ ys) s = (case hs_run xs s of None \<Rightarrow> None | Some t \<Rightarrow> hs_run ys t)"
  by (induction xs s rule: hs_run.induct) (auto split: option.splits)

lemma change_events:
  "hs_coord s = Changing r (old, pre, new) first ks ch ws \<Longrightarrow>
    change_workers first ws (phase_word old) (phase_word pre) (hs_ctl s) = (ks', n, c') \<Longrightarrow>
    \<exists>ch' first'. length ch' = n \<and> hs_run (replicate (length ws) Change_Next) s
      = Some (s\<lparr>hs_ctl := c', hs_coord := Changing r (old, pre, new) first' (ks @ ks') (ch @ ch') []\<rparr>)"
proof (induction ws arbitrary: s first ks ch ks' n c')
  case Nil then show ?case by (cases s) auto
next
  case (Cons w ws)
  obtain kept chg c1 where e: "change_one first (phase_word old) (phase_word pre) w (hs_ctl s) = (kept, chg, c1)"
    by (cases "change_one first (phase_word old) (phase_word pre) w (hs_ctl s)")
  obtain ks2 n2 c2 where e2: "change_workers (first \<and> \<not> kept) ws (phase_word old) (phase_word pre) c1 = (ks2, n2, c2)"
    by (cases "change_workers (first \<and> \<not> kept) ws (phase_word old) (phase_word pre) c1")
  have res: "ks' = (if kept then w # ks2 else ks2)" "n = (if chg then Suc n2 else n2)" "c' = c2"
    using Cons.prems(2) by (simp_all add: e e2)
  let ?s = "s\<lparr>hs_ctl := c1, hs_coord := Changing r (old, pre, new) (first \<and> \<not> kept) (if kept then ks @ [w] else ks)
                         (if chg then ch @ [w] else ch) ws\<rparr>"
  have run: "hs_run (replicate (length (w # ws)) Change_Next) s = hs_run (replicate (length ws) Change_Next) ?s"
    by (simp add: Cons.prems(1) e)
  obtain ch' first' where "length ch' = n2" and "hs_run (replicate (length ws) Change_Next) ?s
      = Some (?s\<lparr>hs_ctl := c2, hs_coord := Changing r (old, pre, new) first' ((if kept then ks @ [w] else ks) @ ks2)
          ((if chg then ch @ [w] else ch) @ ch') []\<rparr>)"
    using Cons.IH[of ?s "first \<and> \<not> kept" "if kept then ks @ [w] else ks" "if chg then ch @ [w] else ch" ks2 n2 c2] e2 by auto
  then show ?case
    unfolding run res by (intro exI[of _ "(if chg then [w] else []) @ ch'"] exI[of _ first']) (cases s; simp)
qed

definition advance_run :: "control \<Rightarrow> event list" where
  "advance_run c = Begin_Phase # replicate (length (dropWhile (dead c) (c_available c))) Change_Next @ [Publish, Add_Count]"

lemma advance_events:
  assumes "hs_coord s = Begin r (old, pre, new)"
  shows "hs_run (advance_run (hs_ctl s)) s = Some (s\<lparr>hs_ctl := advance old pre new (hs_ctl s), hs_coord := Idle\<rparr>)"
proof -
  let ?c = "hs_ctl s"
  let ?ws = "dropWhile (dead ?c) (c_available ?c)"
  let ?c1 = "?c\<lparr>c_available := ?ws, c_phase := phase_word new\<rparr>"
  let ?s1 = "s\<lparr>hs_ctl := ?c1, hs_coord := Changing r (old, pre, new) True [] [] ?ws\<rparr>"
  obtain ks n c2 where e: "change_workers True ?ws (phase_word old) (phase_word pre) ?c1 = (ks, n, c2)"
    by (cases "change_workers True ?ws (phase_word old) (phase_word pre) ?c1")
  obtain ch first where l: "length ch = n" and run: "hs_run (replicate (length ?ws) Change_Next) ?s1
      = Some (?s1\<lparr>hs_ctl := c2, hs_coord := Changing r (old, pre, new) first ks ch []\<rparr>)"
    using change_events[of ?s1 r old pre new True "[]" "[]" ?ws ks n c2] e by auto
  have "hs_run (advance_run ?c) s = hs_run (replicate (length ?ws) Change_Next @ [Publish, Add_Count]) ?s1"
    by (simp add: advance_run_def assms global_phase_def Let_def)
  also have "\<dots> = Some (s\<lparr>hs_ctl := fetch_add_flag (of_nat n) (c2\<lparr>c_handshake := ks, c_stamp := phase_word pre\<rparr>), hs_coord := Idle\<rparr>)"
    unfolding hs_run_append run by (simp add: l)
  also have "fetch_add_flag (of_nat n) (c2\<lparr>c_handshake := ks, c_stamp := phase_word pre\<rparr>) = advance old pre new ?c"
    using e by (simp add: advance_def global_phase_def change_phase_def Let_def)
  finally show ?thesis .
qed


text \<open>The state the handshakes use, without the users' contexts, and the heap calls the events know: all but those for the roots
  of a user and the two that come with the end of marking.\<close>

fun event_call :: "heap_call \<Rightarrow> bool" where
  "event_call (User_Sync2 _ _) = False"
| "event_call Run_Finalizer = False"
| "event_call Before_Async = False"
| "event_call _ = True"

definition shared :: "control \<Rightarrow> control" where
  "shared c = c\<lparr>c_user := (\<lambda>_. no_user), c_calls := filter event_call (c_calls c)\<rparr>"

lemma shared_simps:
  "shared (upd_user u f c) = shared c" "shared (c\<lparr>c_user := us\<rparr>) = shared c"
  "\<not> event_call h \<Longrightarrow> shared (heap_call h c) = shared c"
  by (simp_all add: shared_def heap_call_def)

lemma shared_eqD:
  assumes "shared c = shared d"
  shows "c_worker d = c_worker c" "c_available d = c_available c" "c_phase d = c_phase c" "c_handshake d = c_handshake c"
    "c_stamp d = c_stamp c" "c_check_flag d = c_check_flag c" "c_gc_count d = c_gc_count c" "dead d = dead c"
proof -
  show "c_worker d = c_worker c" "c_available d = c_available c" "c_phase d = c_phase c" "c_handshake d = c_handshake c"
    "c_stamp d = c_stamp c" "c_check_flag d = c_check_flag c" "c_gc_count d = c_gc_count c"
    using assms by (cases c; cases d; simp add: shared_def)+
  then show "dead d = dead c" by (intro ext) (simp add: dead_def)
qed

lemma shared_setters:
  "shared c = shared d \<Longrightarrow> shared (set_state w st c) = shared (set_state w st d)"
  "shared c = shared d \<Longrightarrow> shared (set_flags w fl c) = shared (set_flags w fl d)"
  "shared c = shared d \<Longrightarrow> shared (unlink w c) = shared (unlink w d)"
  "shared c = shared d \<Longrightarrow> shared (c\<lparr>c_handshake := h, c_stamp := p\<rparr>) = shared (d\<lparr>c_handshake := h, c_stamp := p\<rparr>)"
  "shared c = shared d \<Longrightarrow> shared (c\<lparr>c_available := h, c_phase := p\<rparr>) = shared (d\<lparr>c_available := h, c_phase := p\<rparr>)"
  "shared c = shared d \<Longrightarrow> shared (fetch_add_flag n c) = shared (fetch_add_flag n d)"
  "shared c = shared d \<Longrightarrow> shared (snd (fetch_sub_flag c)) = shared (snd (fetch_sub_flag d))"
  "shared c = shared d \<Longrightarrow> shared (c\<lparr>c_gc_count := g\<rparr>) = shared (d\<lparr>c_gc_count := g\<rparr>)"
  "shared c = shared d \<Longrightarrow> shared (heap_call x c) = shared (heap_call x d)"
  by (cases c; cases d; simp add: shared_def set_state_def set_flags_def unlink_def fetch_add_flag_def fetch_sub_flag_def heap_call_def)+

lemma change_one_shared:
  assumes "shared c = shared d" "change_one f a b w c = (k, g, c')"
  shows "\<exists>d'. change_one f a b w d = (k, g, d') \<and> shared c' = shared d'"
  using assms(2)
  by (auto simp: change_one_def Let_def shared_eqD[OF assms(1)] simp del: split_paired_Ex split: if_splits
      intro!: shared_setters(1-3,9) assms(1))

lemma change_workers_shared:
  "shared c = shared d \<Longrightarrow> change_workers f ws a b c = (ks, n, c') \<Longrightarrow> \<exists>d'. change_workers f ws a b d = (ks, n, d') \<and> shared c' = shared d'"
proof (induction ws arbitrary: f c d ks n c')
  case (Cons w ws)
  obtain k g c1 where e: "change_one f a b w c = (k, g, c1)" by (cases "change_one f a b w c")
  obtain d1 where d: "change_one f a b w d = (k, g, d1)" "shared c1 = shared d1"
    using change_one_shared[OF Cons.prems(1) e] by blast
  obtain ks2 n2 c2 where e2: "change_workers (f \<and> \<not> k) ws a b c1 = (ks2, n2, c2)" by (cases "change_workers (f \<and> \<not> k) ws a b c1")
  obtain d2 where d2: "change_workers (f \<and> \<not> k) ws a b d1 = (ks2, n2, d2)" "shared c2 = shared d2"
    using Cons.IH[OF d(2) e2] by blast
  show ?case using Cons.prems(2) d2(2) by (auto simp: e e2 d(1) d2(1))
qed simp

lemma advance_shared: 
  assumes "shared c = shared d"
  shows "shared (advance a b n c) = shared (advance a b n d)"
proof -
  let ?ws = "dropWhile (dead c) (c_available c)"
  let ?c = "c\<lparr>c_available := ?ws, c_phase := phase_word n\<rparr>" and ?d = "d\<lparr>c_available := ?ws, c_phase := phase_word n\<rparr>"
  obtain ks m c' where e: "change_workers True ?ws (phase_word a) (phase_word b) ?c = (ks, m, c')"
    by (cases "change_workers True ?ws (phase_word a) (phase_word b) ?c")
  obtain d' where d: "change_workers True ?ws (phase_word a) (phase_word b) ?d = (ks, m, d')" "shared c' = shared d'"
    using change_workers_shared[OF shared_setters(5)[OF assms] e] by blast
  have "shared (advance a b n c) = shared (fetch_add_flag (of_nat m) (c'\<lparr>c_handshake := ks, c_stamp := phase_word b\<rparr>))"
    using e by (simp add: advance_def global_phase_def change_phase_def Let_def)
  also have "\<dots> = shared (fetch_add_flag (of_nat m) (d'\<lparr>c_handshake := ks, c_stamp := phase_word b\<rparr>))"
    by (intro shared_setters(4,6) d(2))
  also have "\<dots> = shared (advance a b n d)"
    using d by (simp add: advance_def global_phase_def change_phase_def Let_def shared_eqD(1-8)[OF assms])
  finally show ?thesis .
qed

lemma sync2_pass_shared: "sync2_pass wd w us pd k c = (kept, rest, k', c') \<Longrightarrow> shared c' = shared c"
proof (induction us arbitrary: pd k c kept w)
  case (Cons u us)
  obtain b fl where a: "acquire_bit (o_lucky wd k) (u_flags (o_env wd k (c_user c) u)) BUSY_FLAG = (b, fl)"
    by (cases "acquire_bit (o_lucky wd k) (u_flags (o_env wd k (c_user c) u)) BUSY_FLAG")
  show ?case
    using Cons.prems by (auto simp: a Let_def shared_simps dest!: Cons.IH split: bool.splits if_splits prod.splits)
qed simp

lemma sync2_users_shared: "sync2_users n wd w us k c = Inr (kept, k', c') \<Longrightarrow> shared c' = shared c"
proof (induction n arbitrary: us k c kept k')
  case (Suc n)
  obtain kp pd k1 c1 where p: "sync2_pass wd w us [] k c = (kp, pd, k1, c1)" by (cases "sync2_pass wd w us [] k c")
  show ?case
    using Suc.prems sync2_pass_shared[OF p] by (auto simp: p dest!: Suc.IH split: if_splits sum.splits)
qed simp


text \<open>An action and what follows it, as events.\<close>

lemma act_exec:
  assumes "hs_owes s = (w, v, p) # xs"
  shows "hs_exec (Act w f) s = Some (s\<lparr>
    hs_ctl := (let c = snd (fetch_sub_flag (action_call p w (hs_ctl s))) in
        if c_check_flag (hs_ctl s) = 1 \<and> p = phase_word SYNC1 then set_flags w (flags_of c w OR GLOBALENUM_FLAG) c else c),
    hs_owes := filter (\<lambda>x. fst x \<noteq> w) xs,
    hs_coord := (if c_check_flag (hs_ctl s) = 1 then next_coord p f v else hs_coord s)\<rparr>)"
  using assms by (simp add: fetch_sub_flag_def Let_def)

text \<open>The events of a response: the users kept in the second synchronisation, the action, and what the last worker to respond does.\<close>

definition response_events :: "bool \<Rightarrow> nat list \<Rightarrow> nat \<Rightarrow> u32 \<Rightarrow> control \<Rightarrow> event list" where
  "response_events finished kept w pre c =
     (if pre = phase_word PRESYNC2 then [Users w kept] else [])
     @ Act w finished # (if c_check_flag c \<noteq> 1 then [] else if pre = phase_word PREASYNC then [Finish] else advance_run c)"

definition responded :: "handshake \<Rightarrow> nat \<Rightarrow> handshake \<Rightarrow> control \<Rightarrow> bool" where
  "responded s w t c \<longleftrightarrow> shared (hs_ctl t) = shared c \<and> hs_owes t = filter (\<lambda>x. fst x \<noteq> w) (hs_owes s) \<and> hs_helps t = hs_helps s
     \<and> hs_taken t = hs_taken s \<and> hs_coord t = (if c_check_flag (hs_ctl s) = 1 then Idle else hs_coord s)"

lemma act_only:
  assumes "hs_owes s = (w, v, p) # xs" "c_check_flag (hs_ctl s) \<noteq> 1" "shared (snd (fetch_sub_flag (action_call p w (hs_ctl s)))) = shared c"
  shows "\<exists>t. hs_run [Act w f] s = Some t \<and> responded s w t c"
  using assms(2,3) by (simp add: act_exec[OF assms(1)] responded_def assms(1) Let_def del: hs_exec.simps)

lemma advance_run_cong: "c_available d = c_available c \<Longrightarrow> (\<And>x. dead d x = dead c x) \<Longrightarrow> advance_run d = advance_run c"
proof -
  assume "c_available d = c_available c" "\<And>x. dead d x = dead c x"
  moreover from this(2) have "dead d = dead c" by (rule ext)
  ultimately show "advance_run d = advance_run c" by (simp add: advance_run_def)
qed

lemma act_advance:
  assumes "hs_owes s = (w, v, p) # xs" "c_check_flag (hs_ctl s) = 1" "next_coord p f v = Begin v (a, b, n)"
    and "d = (let c = snd (fetch_sub_flag (action_call p w (hs_ctl s))) in
        if p = phase_word SYNC1 then set_flags w (flags_of c w OR GLOBALENUM_FLAG) c else c)"
    and "shared c = shared (advance a b n d)"
  shows "\<exists>t. hs_run (Act w f # advance_run (hs_ctl s)) s = Some t \<and> responded s w t c"
proof -
  let ?t = "s\<lparr>hs_ctl := d, hs_owes := filter (\<lambda>x. fst x \<noteq> w) xs, hs_coord := Begin v (a, b, n)\<rparr>"
  have e: "hs_exec (Act w f) s = Some ?t"
    by (simp add: act_exec[OF assms(1)] assms(2-4) Let_def del: hs_exec.simps)
  have "advance_run d = advance_run (hs_ctl s)"
    by (rule advance_run_cong) (simp_all add: assms(4) Let_def globalenum_flag fetch_sub_simps(2), simp_all add: fetch_sub_flag_def set_flags_def)
  then have "hs_run (Act w f # advance_run (hs_ctl s)) s = Some (?t\<lparr>hs_ctl := advance a b n d, hs_coord := Idle\<rparr>)"
    using advance_events[of ?t v a b n] by (simp add: e del: hs_exec.simps)
  moreover have "responded s w (?t\<lparr>hs_ctl := advance a b n d, hs_coord := Idle\<rparr>) c"
    by (simp add: responded_def assms(1,2,5))
  ultimately show ?thesis by blast
qed

text \<open>One lemma for each action.\<close>

lemma respond_async:
  assumes ow: "hs_owes s = (w, v, 1) # xs"
  shows "\<exists>t. hs_run (response_events fin kept w 0 (hs_ctl s)) s = Some t \<and> responded s w t (worker_async w (hs_ctl s))"
proof -
  let ?c = "hs_ctl s" and ?n = "heap_call (Worker_Async (w_allocator (c_worker (hs_ctl s) w))) (hs_ctl s)"
  have n: "action_call 1 w ?c = ?n" by (simp add: action_call_def)
  show ?thesis
  proof (cases "c_check_flag ?c = 1")
    case True
    have e: "hs_exec (Act w fin) s = Some (s\<lparr>hs_ctl := snd (fetch_sub_flag ?n), hs_owes := filter (\<lambda>x. fst x \<noteq> w) xs, hs_coord := Ending v\<rparr>)"
      using True by (simp add: act_exec[OF ow] n next_coord_def Let_def del: hs_exec.simps)
    then show ?thesis
      using True ow by (simp add: response_events_def e del: hs_exec.simps(8))
        (simp add: responded_def worker_async_def Let_def fetch_sub_flag_def shared_def heap_call_def)
  next
    case False
    then show ?thesis
      using act_only[OF ow False, of "worker_async w ?c" fin]
      by (simp add: response_events_def n worker_async_def fetch_sub_flag_def Let_def)
  qed
qed

lemma respond_sync1:
  assumes ow: "hs_owes s = (w, v, 3) # xs" and w1: "worker_sync1 wd w False (hs_ctl s) = Inr c"
  shows "\<exists>t. hs_run (response_events fin kept w 2 (hs_ctl s)) s = Some t \<and> responded s w t c"
proof -
  have n: "action_call 3 w (hs_ctl s) = hs_ctl s" by (simp add: action_call_def)
  show ?thesis
  proof (cases "c_check_flag (hs_ctl s) = 1")
    case True
    have "\<exists>t. hs_run (Act w fin # advance_run (hs_ctl s)) s = Some t \<and> responded s w t c"
      by (rule act_advance[OF ow True, of fin SYNC1 PRESYNC2 SYNC2])
        (use w1 True in \<open>auto simp: worker_sync1_def next_coord_def action_call_def fetch_sub_flag_def Let_def\<close>)
    then show ?thesis using True by (simp add: response_events_def)
  next
    case False
    then show ?thesis
      using act_only[OF ow False, of c fin] w1 by (simp add: response_events_def n worker_sync1_def fetch_sub_flag_def)
  qed
qed

lemma respond_mark:
  assumes ow: "hs_owes s = (w, v, 7) # xs" and w1: "worker_mark (o_fuel wd) wd w False (hs_ctl s) = Inr c"
    and fin: "fin = o_finish wd (Worker_Mark (w_allocator (c_worker (hs_ctl s) w)) # c_calls (hs_ctl s))"
  shows "\<exists>t. hs_run (response_events fin kept w 6 (hs_ctl s)) s = Some t \<and> responded s w t c"
proof -
  let ?c = "hs_ctl s" and ?n = "heap_call (Worker_Mark (w_allocator (c_worker (hs_ctl s) w))) (hs_ctl s)"
  let ?d = "snd (fetch_sub_flag ?n)"
  have n: "action_call 7 w ?c = ?n" by (simp add: action_call_def)
  obtain k where k: "o_fuel wd = Suc k" using w1 by (cases "o_fuel wd") simp_all
  have f: "o_finish wd (c_calls ?d) = fin" by (simp add: fin fetch_sub_flag_def heap_call_def)
  show ?thesis
  proof (cases "c_check_flag ?c = 1")
    case True
    let ?a = "if fin then PREASYNC else PREMARK" and ?b = "if fin then ASYNC else MARK"
    have "c = (if fin then advance MARK PREASYNC ASYNC (heap_call Before_Async (heap_call Run_Finalizer ?d)) else advance MARK PREMARK MARK ?d)"
      using w1 True f by (simp add: k fetch_sub_flag_def Let_def split: if_splits)
    then have "shared c = shared (advance MARK ?a ?b ?d)"
      using advance_shared[of "heap_call Before_Async (heap_call Run_Finalizer ?d)" ?d] by (simp add: shared_simps)
    then have "\<exists>t. hs_run (Act w fin # advance_run ?c) s = Some t \<and> responded s w t c"
      by (intro act_advance[OF ow True]) (simp_all add: next_coord_def n)
    then show ?thesis using True by (simp add: response_events_def)
  next
    case False
    then show ?thesis
      using act_only[OF ow False, of c fin] w1 by (simp add: response_events_def n k fetch_sub_flag_def Let_def)
  qed
qed

lemma respond_sync2:
  assumes ow: "hs_owes s = (w, v, 5) # xs" and w1: "worker_sync2 wd w False (hs_ctl s) = Inr c"
  shows "\<exists>t. hs_run (response_events fin (w_users (c_worker c w)) w 4 (hs_ctl s)) s = Some t \<and> responded s w t c"
proof -
  let ?c = "hs_ctl s"
  obtain kept k c1 where u: "sync2_users (o_fuel wd) wd w (w_users (c_worker ?c w)) 0 ?c = Inr (kept, k, c1)"
    using w1 by (auto simp: worker_sync2_def split: sum.splits)
  have s1: "shared c1 = shared ?c" by (rule sync2_users_shared[OF u])
  let ?u = "\<lambda>c. upd_worker w (\<lambda>x. x\<lparr>w_users := kept\<rparr>) c"
  let ?s = "s\<lparr>hs_ctl := ?u ?c\<rparr>"
  let ?d = "snd (fetch_sub_flag (action_call 5 w (?u ?c)))" and ?d1 = "snd (fetch_sub_flag (action_call 5 w (?u c1)))"
  have su: "shared (?u c1) = shared (?u ?c)" using s1 shared_eqD(1)[OF s1] by (cases c1; cases "?c"; simp add: shared_def)
  have ac: "shared (action_call 5 w x) = shared (action_call 5 w y)" if e: "shared x = shared y" for x y
    using shared_eqD(1)[OF e] e by (auto simp: action_call_def Let_def intro!: shared_setters)
  have sd: "shared ?d1 = shared ?d" by (intro shared_setters ac su)
  have fl: "c_check_flag (action_call 5 w (?u c1)) = c_check_flag ?c" using shared_eqD(6)[OF s1] by simp
  have body: "c = (if c_check_flag ?c = 1 then advance SYNC2 PREMARK MARK ?d1 else ?d1)"
    using w1 fl by (simp add: worker_sync2_def u action_call_def fetch_sub_flag_def Let_def split: if_splits)
  have "w_users (c_worker ?d1 w) = kept" by (simp add: fetch_sub_flag_def action_call_def Let_def set_flags_def heap_call_def)
  then have kept: "w_users (c_worker c w) = kept" using advance_keeps by (simp add: body)
  have os: "hs_owes ?s = (w, v, 5) # xs" using ow by simp
  have same: "advance_run (?u ?c) = advance_run ?c" by (rule advance_run_cong) (simp_all add: dead_def)
  define es where "es = Act w fin # (if c_check_flag ?c \<noteq> 1 then [] else advance_run ?c)"
  have "\<exists>t. hs_run es ?s = Some t \<and> responded ?s w t c"
  proof (cases "c_check_flag ?c = 1")
    case True
    then have "\<exists>t. hs_run (Act w fin # advance_run (hs_ctl ?s)) ?s = Some t \<and> responded ?s w t c"
      using advance_shared[OF sd] by (intro act_advance[OF os, of fin SYNC2 PREMARK MARK]) (simp_all add: next_coord_def body)
    then show ?thesis using True same by (simp add: es_def del: hs_run.simps)
  next
    case False
    then show ?thesis using act_only[OF os, of c fin] sd by (simp add: body es_def del: hs_run.simps)
  qed
  then obtain t where "hs_run es ?s = Some t" "responded ?s w t c" by blast
  moreover have "hs_run (response_events fin (w_users (c_worker c w)) w 4 ?c) s = hs_run es ?s"
    by (simp add: response_events_def kept es_def)
  ultimately show ?thesis by (intro exI[of _ t]) (simp add: responded_def)
qed

lemma respond_any:
  assumes "hs_owes s = (w, v, pre OR 1) # xs" "is_pre pre" "pending_action wd w pre (hs_ctl s) other = Inr c"
  shows "\<exists>t. hs_run (response_events (o_finish wd (Worker_Mark (w_allocator (c_worker (hs_ctl s) w)) # c_calls (hs_ctl s)))
      (w_users (c_worker c w)) w pre (hs_ctl s)) s = Some t \<and> responded s w t c"
proof -
  from assms(2) consider "pre = 0" | "pre = 2" | "pre = 4" | "pre = 6" by (auto simp: is_pre_iff)
  then show ?thesis
  proof cases
    case 1 then show ?thesis using respond_async[of s w v xs] assms(1,3) by (simp add: pending_action_def)
  next
    case 2 then show ?thesis using respond_sync1[of s w v xs] assms(1,3) by (simp add: pending_action_def)
  next
    case 3 then show ?thesis using respond_sync2[of s w v xs] assms(1,3) by (simp add: pending_action_def)
  next
    case 4 then show ?thesis using respond_mark[of s w v xs] assms(1,3) by (simp add: pending_action_def)
  qed
qed

text \<open>C18.  \<open>leave_worker\<close> is a run of the events. Whenever the function returns, in any phase and for any answer of the heap, it has done
  exactly this: the lock is released and a pending signal accepted in one step; if there was one, the action of the worker follows, with its
  heap calls; and if the worker was the last to respond, all the steps that move every worker to the next phase, or that end
  the collection. The state and the heap calls agree with those of this run (user contexts and the calls that no event has
  apart), the run leaves no action of this worker behind, and nobody is in the middle of a change of the phase because of it.\<close>

theorem leave_events:
  assumes "in_ml s w" "leave_worker wd w (hs_ctl s) = Inr c"
  shows "let old = state_of (hs_ctl s) w;
      finished = o_finish wd (Worker_Mark (w_allocator (c_worker (hs_ctl s) w)) # c_calls (hs_ctl s));
      response = (if is_pre old then response_events finished (w_users (c_worker c w)) w old (hs_ctl s) else [])
    in \<exists>t. hs_run (Leave w # response) s = Some t \<and> shared (hs_ctl t) = shared c
      \<and> hs_owes t = (if is_pre old then filter (\<lambda>x. fst x \<noteq> w) (hs_owes s) else hs_owes s)
      \<and> hs_helps t = hs_helps s \<and> hs_taken t = hs_taken s
      \<and> hs_coord t = (if is_pre old \<and> c_check_flag (hs_ctl s) = 1 then Idle else hs_coord s)"
proof -
  let ?old = "state_of (hs_ctl s) w"
  let ?c1 = "set_state w (?old OR (INACTIVE_STATE OR 1)) (hs_ctl s)"
  let ?fin = "o_finish wd (Worker_Mark (w_allocator (c_worker (hs_ctl s) w)) # c_calls (hs_ctl s))"
  have a: "pending_action wd w ?old ?c1 (Inr ?c1) = Inr c" using assms(2) by (simp add: leave_worker_def Let_def)
  show ?thesis
  proof (cases "is_pre ?old")
    case True
    let ?s = "s\<lparr>hs_ctl := ?c1, hs_owes := (w, w, ?old OR 1) # hs_owes s\<rparr>"
    have e: "hs_exec (Leave w) s = Some ?s" using assms(1) True by (simp add: Let_def)
    have same: "c_calls ?c1 = c_calls (hs_ctl s)" "w_allocator (c_worker ?c1 w) = w_allocator (c_worker (hs_ctl s) w)"
      by (simp_all add: set_state_def)
    have "\<exists>t. hs_run (response_events ?fin (w_users (c_worker c w)) w ?old ?c1) ?s = Some t \<and> responded ?s w t c"
      using respond_any[of ?s w w ?old "hs_owes s" wd "Inr ?c1" c] True a
      by (simp add: same)
    moreover have "response_events ?fin (w_users (c_worker c w)) w ?old ?c1 = response_events ?fin (w_users (c_worker c w)) w ?old (hs_ctl s)"
    proof -
      have "advance_run ?c1 = advance_run (hs_ctl s)" by (rule advance_run_cong) (simp_all add: dead_def set_state_def)
      then show ?thesis by (simp add: response_events_def)
    qed
    ultimately show ?thesis
      using True e by (auto simp: Let_def responded_def simp del: hs_exec.simps)
  next
    case False
    then have "c = ?c1" using a by (simp add: pending_action_def is_pre_iff split: if_splits)
    moreover have "hs_exec (Leave w) s = Some (s\<lparr>hs_ctl := ?c1\<rparr>)" using assms(1) False by (simp add: Let_def)
    ultimately show ?thesis using False by (simp add: Let_def del: hs_exec.simps)
  qed
qed

definition signalled :: handshake where
  "signalled = the (hs_run [Register 8 0 24, Start 8, Begin_Phase, Change_Next, Publish, Add_Count] initial_handshake)"

lemma signalled_leave:
  "in_ml signalled 8 \<and> (case leave_worker plain_world 8 (hs_ctl signalled) of Inl _ \<Rightarrow> False | Inr c \<Rightarrow> c_phase c = phase_word SYNC2)"
  by code_simp

lemma leave_events_witness:
  "\<exists>t c. leave_worker plain_world 8 (hs_ctl signalled) = Inr c \<and> c_phase c = phase_word SYNC2
     \<and> hs_run [Leave 8, Act 8 True, Begin_Phase, Change_Next, Publish, Add_Count] signalled = Some t
     \<and> shared (hs_ctl t) = shared c \<and> hs_owes t = [] \<and> hs_coord t = Idle"
proof -
  obtain c where c: "leave_worker plain_world 8 (hs_ctl signalled) = Inr c" "c_phase c = phase_word SYNC2"
    using signalled_leave by (auto split: sum.splits)
  have v: "state_of (hs_ctl signalled) 8 = 2" "c_check_flag (hs_ctl signalled) = 1" "hs_owes signalled = []"
    "c_available (hs_ctl signalled) = [8]" "\<not> dead (hs_ctl signalled) 8"
    "o_finish plain_world (Worker_Mark (w_allocator (c_worker (hs_ctl signalled) 8)) # c_calls (hs_ctl signalled)) = True"
    by code_simp+
  show ?thesis
    using leave_events[OF conjunct1[OF signalled_leave] c(1)] c
    unfolding Let_def v by (simp add: is_pre_iff response_events_def advance_run_def v del: hs_run.simps) blast
qed

theorem gc_events:
  assumes "free_thread s (t_worker t)" "sml_gc wd False t (hs_ctl s) = Inr (gc, c)"
  shows "if c_gc_count (hs_ctl s) AND 1 = 0
    then gc = c_gc_count (hs_ctl s) + 2 \<and> (\<exists>es. hs_run es s = Some (s\<lparr>hs_ctl := c, hs_coord := Idle\<rparr>))
    else gc = c_gc_count (hs_ctl s) + 1 \<and> c = hs_ctl s"
proof (cases "c_gc_count (hs_ctl s) AND 1 = 0")
  case True
  let ?c = "(hs_ctl s)\<lparr>c_gc_count := c_gc_count (hs_ctl s) OR 1\<rparr>"
  let ?s = "s\<lparr>hs_ctl := ?c, hs_coord := Begin (t_worker t) (ASYNC, PRESYNC1, SYNC1)\<rparr>"
  have "hs_exec (Start (t_worker t)) s = Some ?s" using assms(1) True by (simp add: Let_def)
  then have "hs_run (Start (t_worker t) # advance_run ?c) s = Some (?s\<lparr>hs_ctl := advance ASYNC PRESYNC1 SYNC1 ?c, hs_coord := Idle\<rparr>)"
    using advance_events[of ?s "t_worker t" ASYNC PRESYNC1 SYNC1] by (simp del: hs_exec.simps)
  moreover have "c = advance ASYNC PRESYNC1 SYNC1 ?c" "gc = c_gc_count (hs_ctl s) + 2"
    using assms(2) True by (simp_all add: sml_gc_def Let_def)
  ultimately show ?thesis using True by (auto intro!: exI[of _ "Start (t_worker t) # advance_run ?c"])
qed (use assms(2) in \<open>auto simp: sml_gc_def Let_def\<close>)


lemma gc_events_witness:
  "\<exists>c es. sml_gc plain_world False plain_thread (hs_ctl (the (hs_run [Register 8 0 24] initial_handshake))) = Inr (2, c)
     \<and> hs_run es (the (hs_run [Register 8 0 24] initial_handshake))
         = Some ((the (hs_run [Register 8 0 24] initial_handshake))\<lparr>hs_ctl := c, hs_coord := Idle\<rparr>)"
proof -
  let ?s = "the (hs_run [Register 8 0 24] initial_handshake)"
  have "free_thread ?s (t_worker plain_thread) \<and> c_gc_count (hs_ctl ?s) = 0
      \<and> (case sml_gc plain_world False plain_thread (hs_ctl ?s) of Inl _ \<Rightarrow> False | Inr (gc, c) \<Rightarrow> gc = 2)" by code_simp
  then obtain c where c: "free_thread ?s (t_worker plain_thread)" "sml_gc plain_world False plain_thread (hs_ctl ?s) = Inr (2, c)"
    "c_gc_count (hs_ctl ?s) = 0" by (auto split: sum.splits)
  show ?thesis using gc_events[OF c(1,2)] c(2,3) by auto
qed

end
