(* ===== verification/Exn.thy ===== *)
theory Exn
  imports Object
begin

unbundle bit_operations_syntax

text \<open>
  Exceptions (exn.c): the search for a landing pad in the exception table of a function, the personality
  routine and the message of an exception.

  The exception table is read from byte memory; addresses of code are 64-bit words, as the additions may
  wrap.  The unwinder (libunwind, Itanium C++ ABI) calls the personality routine frame by frame: a frame
  is what the routine asks the unwinder for (table, start of the function, instruction pointer).  Fatal
  errors and a table whose bytes never end are values.
\<close>

type_synonym u64 = "64 word"

section \<open>Variable-length numbers\<close>

partial_function (option) read_uleb128_loop :: "mem \<Rightarrow> nat \<Rightarrow> u64 \<Rightarrow> nat \<Rightarrow> (u64 \<times> nat) option" where
  "read_uleb128_loop m src result shift =
     (let c = m src; src = src + 1;
          result = result OR push_bit shift (ucast (c AND 0x7f)); shift = shift + 7
      in if c AND 0x80 \<noteq> 0 then read_uleb128_loop m src result shift else Some (result, src))"

definition read_uleb128 :: "mem \<Rightarrow> nat \<Rightarrow> (u64 \<times> nat) option" where
  "read_uleb128 m src = read_uleb128_loop m src 0 0"

definition read_udata4 :: "mem \<Rightarrow> nat \<Rightarrow> u64 \<times> nat" where
  "read_udata4 m src = (of_nat (load_bytes m src 4), src + 4)"

section \<open>Landing pads\<close>

definition DW_EH_PE_omit :: u8 where "DW_EH_PE_omit = 0xff"
definition DW_EH_PE_uleb128 :: u8 where "DW_EH_PE_uleb128 = 0x01"
definition DW_EH_PE_udata4 :: u8 where "DW_EH_PE_udata4 = 0x03"

definition CATCH :: u32 where "CATCH = 0x1"
definition CLEANUP :: u32 where "CLEANUP = 0x2"

record landing_pad =
  lp_type :: u32
  lp_addr :: u64

text \<open>What the unwinder tells about a frame.\<close>

record unwind_context =
  uc_lsda :: nat
  uc_region_start :: u64
  uc_ip :: u64

datatype exn_error = LPStart_Present | Unknown_Encoding | Action_Too_Large

text \<open>One entry of the call-site table: start, length, landing pad, action.\<close>

definition read_field_of :: "u8 \<Rightarrow> mem \<Rightarrow> nat \<Rightarrow> (u64 \<times> nat) option" where
  "read_field_of encoding m src = (if encoding = DW_EH_PE_uleb128 then read_uleb128 m src else Some (read_udata4 m src))"

definition read_call_site :: "u8 \<Rightarrow> mem \<Rightarrow> nat \<Rightarrow> (u64 \<times> u64 \<times> u64 \<times> u8 \<times> nat) option" where
  "read_call_site encoding m src =
     (case read_field_of encoding m src of None \<Rightarrow> None | Some (start, src) \<Rightarrow>
      (case read_field_of encoding m src of None \<Rightarrow> None | Some (len, src) \<Rightarrow>
       (case read_field_of encoding m src of None \<Rightarrow> None | Some (lpad, src) \<Rightarrow>
          Some (start, len, lpad, m src, src + 1))))"

definition lpad_type :: "mem \<Rightarrow> nat \<Rightarrow> u64 \<Rightarrow> u8 \<Rightarrow> u32" where
  "lpad_type m actiontab lpad action =
     (if lpad = 0 then 0
      else if action = 0 then CLEANUP
      else if m (actiontab + unat action) = 0 then CATCH
      else CLEANUP OR CATCH)"

definition not_found :: landing_pad where "not_found = \<lparr>lp_type = CATCH, lp_addr = 0\<rparr>"

partial_function (option) search_call_sites ::
  "u8 \<Rightarrow> mem \<Rightarrow> u64 \<Rightarrow> u64 \<Rightarrow> nat \<Rightarrow> nat \<Rightarrow> (exn_error + landing_pad) option" where
  "search_call_sites encoding m lpstart ip actiontab src =
     (if actiontab \<le> src then Some (Inr not_found)
      else Option.bind (read_call_site encoding m src)
        (\<lambda>(start, len, lpad, action, src).
           let start = start + lpstart in
           if 0x80 \<le> action then Some (Inl Action_Too_Large)
           else if ip < start then Some (Inr not_found)
           else if ip < start + len
             then Some (Inr \<lparr>lp_type = lpad_type m actiontab lpad action, lp_addr = lpad + lpstart\<rparr>)
           else search_call_sites encoding m lpstart ip actiontab src))"

text \<open>The address of a pad of type 0 is not set; it is 0 here.\<close>

definition no_pad :: landing_pad where "no_pad = \<lparr>lp_type = 0, lp_addr = 0\<rparr>"

definition search_lpad :: "mem \<Rightarrow> unwind_context \<Rightarrow> (exn_error + landing_pad) option" where
  "search_lpad m context =
     (let src = uc_lsda context in
      if src = 0 then Some (Inr no_pad)
      else if m src \<noteq> DW_EH_PE_omit then Some (Inl LPStart_Present)
      else
        (let lpstart = uc_region_start context in
         case (if m (src + 1) \<noteq> DW_EH_PE_omit then read_uleb128 m (src + 2) else Some (0, src + 2)) of
           None \<Rightarrow> None
         | Some (_, src) \<Rightarrow>
             (let encoding = m src in
              if encoding \<noteq> DW_EH_PE_udata4 \<and> encoding \<noteq> DW_EH_PE_uleb128 then Some (Inl Unknown_Encoding)
              else case read_uleb128 m (src + 1) of
                     None \<Rightarrow> None
                   | Some (tablen, src) \<Rightarrow>
                       (if tablen = 0 then Some (Inr no_pad)
                        else search_call_sites encoding m lpstart (uc_ip context - 1) (src + unat tablen) src))))"

section \<open>The personality routine\<close>

record unwind_exception =
  e_exn_obj :: nat
  e_handler_addr :: u64
  e_num_cleanup :: u32

datatype action_flag = UA_SEARCH_PHASE | UA_CLEANUP_PHASE | UA_HANDLER_FRAME

datatype reason_code =
    URC_FATAL_PHASE1_ERROR | URC_FATAL_PHASE2_ERROR | URC_HANDLER_FOUND | URC_CONTINUE_UNWIND
  | URC_INSTALL_CONTEXT u64 nat nat
  | Terminate | Exn_Error exn_error | Loops

definition EXNCLASS_SMLSHARP :: u64 where
  "EXNCLASS_SMLSHARP = (push_bit 32 0x534d4c23) OR 0x534d4c23"

text \<open>\<open>e\<close> is the exception as the runtime keeps it (meaningful for its own class only), \<open>ue\<close> and \<open>ex\<close> the addresses of
  the unwinder's part and of the whole.  An installed context is the address and the two values passed.
  The assertion that a frame without clean-up has no handler either, and the unwinder's freeing of a caught foreign
  exception, have no counterpart in the result.\<close>

definition install :: "u64 \<Rightarrow> nat \<Rightarrow> nat \<Rightarrow> reason_code" where
  "install addr ret1 ret2 = (if addr = 0 then Terminate else URC_INSTALL_CONTEXT addr ret1 ret2)"

definition sml_personality :: "mem \<Rightarrow> int \<Rightarrow> action_flag set \<Rightarrow> u64 \<Rightarrow> nat \<Rightarrow> nat \<Rightarrow> unwind_context \<Rightarrow> unwind_exception
    \<Rightarrow> reason_code \<times> unwind_exception" where
  "sml_personality m version actions exnclass ue ex context e =
     (let own = (exnclass = EXNCLASS_SMLSHARP) in
      if version \<noteq> 1 then (URC_FATAL_PHASE1_ERROR, e)
      else if UA_SEARCH_PHASE \<in> actions then
        (case search_lpad m context of
           None \<Rightarrow> (Loops, e)
         | Some (Inl err) \<Rightarrow> (Exn_Error err, e)
         | Some (Inr lpad) \<Rightarrow>
             (if lp_type lpad AND CATCH \<noteq> 0 then
                (URC_HANDLER_FOUND, if own then e\<lparr>e_handler_addr := lp_addr lpad\<rparr> else e)
              else
                (URC_CONTINUE_UNWIND,
                 if lp_type lpad AND CLEANUP \<noteq> 0 \<and> own then e\<lparr>e_num_cleanup := e_num_cleanup e + 1\<rparr> else e)))
      else if UA_CLEANUP_PHASE \<notin> actions then (URC_FATAL_PHASE2_ERROR, e)
      else if UA_HANDLER_FRAME \<in> actions then
        (if own then (install (e_handler_addr e) 0 ex, e)
         else (case search_lpad m context of
                 None \<Rightarrow> (Loops, e)
               | Some (Inl err) \<Rightarrow> (Exn_Error err, e)
               | Some (Inr lpad) \<Rightarrow> (install (lp_addr lpad) 0 0, e)))
      else if own \<and> e_num_cleanup e = 0 then (URC_CONTINUE_UNWIND, e)
      else
        (case search_lpad m context of
           None \<Rightarrow> (Loops, e)
         | Some (Inl err) \<Rightarrow> (Exn_Error err, e)
         | Some (Inr lpad) \<Rightarrow>
             (if lp_type lpad AND CLEANUP = 0 then (URC_CONTINUE_UNWIND, e)
              else if own then (install (lp_addr lpad) ue ex, e\<lparr>e_num_cleanup := e_num_cleanup e - 1\<rparr>)
              else (install (lp_addr lpad) ue 0, e))))"

section \<open>Raising and reporting\<close>

text \<open>
  The unwinder is not part of the repository; it is a parameter.  It is given the personality routine of the
  frames, the frames that have one, innermost first, and the exception, and yields the calls of the personality routine
  it makes, each with the actions, the frame and the answer; the exception as these calls leave it; and what
  \<open>_Unwind_RaiseException\<close> returns, or \<open>None\<close> when control goes to a handler instead.
\<close>

type_synonym personality = "action_flag set \<Rightarrow> unwind_context \<Rightarrow> unwind_exception \<Rightarrow> reason_code \<times> unwind_exception"
type_synonym unwind_call = "action_flag set \<times> unwind_context \<times> reason_code"

datatype unwind_return = URC_END_OF_STACK | URC_Other

record unwinding =
  uw_calls :: "unwind_call list"
  uw_exception :: unwind_exception
  uw_return :: "unwind_return option"

type_synonym unwinder = "personality \<Rightarrow> unwind_context list \<Rightarrow> unwind_exception \<Rightarrow> unwinding"

datatype raise_result = Handled | Uncaught_Exception nat | Unwinding_Failed

definition sml_raise :: "unwinder \<Rightarrow> mem \<Rightarrow> nat \<Rightarrow> nat \<Rightarrow> unwind_context list \<Rightarrow> nat \<Rightarrow> unwinding \<times> raise_result" where
  "sml_raise unwind m ue ex frames exn_obj =
     (let e = \<lparr>e_exn_obj = exn_obj, e_handler_addr = 0, e_num_cleanup = 0\<rparr>;
          u = unwind (\<lambda>actions context. sml_personality m 1 actions EXNCLASS_SMLSHARP ue ex context) frames e
      in (u, case uw_return u of
               None \<Rightarrow> Handled
             | Some URC_END_OF_STACK \<Rightarrow> Uncaught_Exception (e_exn_obj (uw_exception u))
             | Some URC_Other \<Rightarrow> Unwinding_Failed))"

definition FLAG_MSG_IN_ARG :: u32 where "FLAG_MSG_IN_ARG = 0x1"
definition MASK_MSG_INDEX :: u32 where "MASK_MSG_INDEX = NOT 0x1"

text \<open>The message of an exception: \<open>e\<close> has tag, location and argument, \<open>*tag\<close> points to name and message index.\<close>

definition exn_msg :: "mem \<Rightarrow> nat \<Rightarrow> nat option" where
  "exn_msg m e =
     (let index = load32 m (load64 m (load64 m e) + 8) in
      if index = 0 then None
      else (let base = (if index AND FLAG_MSG_IN_ARG \<noteq> 0 then load64 m (e + 16) else e)
            in Some (load64 m (base + unat (index AND MASK_MSG_INDEX)))))"


section \<open>What LLVM emits\<close>

fun uleb128 :: "nat \<Rightarrow> nat list" where
  "uleb128 n = (if n < 128 then [n] else (n mod 128 + 128) # uleb128 (n div 128))"

declare uleb128.simps [simp del]

fun le_bytes :: "nat \<Rightarrow> nat \<Rightarrow> nat list" where
  "le_bytes 0 n = []"
| "le_bytes (Suc k) n = (n mod 256) # le_bytes k (n div 256)"

fun bytes_at :: "mem \<Rightarrow> nat \<Rightarrow> nat list \<Rightarrow> bool" where
  "bytes_at m a [] \<longleftrightarrow> True"
| "bytes_at m a (b # bs) \<longleftrightarrow> m a = of_nat b \<and> bytes_at m (Suc a) bs"

lemma bytes_at_append: "bytes_at m a (xs @ ys) \<longleftrightarrow> bytes_at m a xs \<and> bytes_at m (a + length xs) ys"
  by (induction xs arbitrary: a) simp_all

record call_site =
  cs_start :: nat
  cs_len :: nat
  cs_lpad :: nat
  cs_action :: nat

definition encode_field :: "u8 \<Rightarrow> nat \<Rightarrow> nat list" where
  "encode_field enc n = (if enc = DW_EH_PE_uleb128 then uleb128 n else le_bytes 4 n)"

definition encode_site :: "u8 \<Rightarrow> call_site \<Rightarrow> nat list" where
  "encode_site enc cs = encode_field enc (cs_start cs) @ encode_field enc (cs_len cs) @ encode_field enc (cs_lpad cs) @ [cs_action cs]"

definition encode_sites :: "u8 \<Rightarrow> call_site list \<Rightarrow> nat list" where
  "encode_sites enc sites = concat (map (encode_site enc) sites)"

text \<open>The header: no start of landing pads, an optional type table, the encoding, the length of the call-site table.\<close>

definition encode_header :: "nat option \<Rightarrow> u8 \<Rightarrow> nat \<Rightarrow> nat list" where
  "encode_header ttype enc tablen = [255] @ (case ttype of None \<Rightarrow> [255] | Some off \<Rightarrow> 0 # uleb128 off) @ [unat enc] @ uleb128 tablen"

definition lsda_at :: "mem \<Rightarrow> nat \<Rightarrow> nat option \<Rightarrow> u8 \<Rightarrow> call_site list \<Rightarrow> nat \<Rightarrow> bool" where
  "lsda_at m lsda ttype enc sites actiontab \<longleftrightarrow> lsda \<noteq> 0 \<and> enc \<in> {DW_EH_PE_uleb128, DW_EH_PE_udata4}
     \<and> (let header = encode_header ttype enc (length (encode_sites enc sites)); table = encode_sites enc sites
        in bytes_at m lsda (header @ table) \<and> actiontab = lsda + length (header @ table) \<and> length table < 2 ^ 64)"

text \<open>The call sites are sorted, their ranges do not wrap, and their numbers fit the encoding.\<close>

definition sites_ok :: "u64 \<Rightarrow> u8 \<Rightarrow> call_site list \<Rightarrow> bool" where
  "sites_ok lpstart enc sites \<longleftrightarrow> sorted (map cs_start sites)
     \<and> (\<forall>cs \<in> set sites. unat lpstart + cs_start cs + cs_len cs < 2 ^ 64 \<and> cs_lpad cs < 2 ^ 64 \<and> cs_action cs < 128
          \<and> (enc = DW_EH_PE_udata4 \<longrightarrow> cs_start cs < 2 ^ 32 \<and> cs_len cs < 2 ^ 32 \<and> cs_lpad cs < 2 ^ 32))"

definition covers :: "u64 \<Rightarrow> u64 \<Rightarrow> call_site \<Rightarrow> bool" where
  "covers lpstart ip cs \<longleftrightarrow> unat lpstart + cs_start cs \<le> unat ip \<and> unat ip < unat lpstart + cs_start cs + cs_len cs"

definition pad_of :: "mem \<Rightarrow> nat \<Rightarrow> u64 \<Rightarrow> call_site \<Rightarrow> landing_pad" where
  "pad_of m actiontab lpstart cs =
     \<lparr>lp_type = lpad_type m actiontab (of_nat (cs_lpad cs)) (of_nat (cs_action cs)), lp_addr = of_nat (cs_lpad cs) + lpstart\<rparr>"

section \<open>Reading numbers back\<close>

definition uleb_byte_ok :: "nat \<Rightarrow> bool" where
  "uleb_byte_ok n \<longleftrightarrow> (of_nat n :: u8) AND 0x80 = 0 \<and> ucast ((of_nat n :: u8) AND 0x7f) = (of_nat n :: u64)
     \<and> (of_nat (n + 128) :: u8) AND 0x80 \<noteq> 0 \<and> ucast ((of_nat (n + 128) :: u8) AND 0x7f) = (of_nat n :: u64)"

lemma uleb_bytes_ok: "list_all uleb_byte_ok [0..<128]"
  by code_simp

lemma uleb_byte:
  "n < 128 \<Longrightarrow> (of_nat n :: u8) AND 0x80 = 0" "n < 128 \<Longrightarrow> ucast ((of_nat n :: u8) AND 0x7f) = (of_nat n :: u64)"
  "(of_nat (n mod 128 + 128) :: u8) AND 0x80 \<noteq> 0" "ucast ((of_nat (n mod 128 + 128) :: u8) AND 0x7f) = (of_nat (n mod 128) :: u64)"
proof -
  have ok: "uleb_byte_ok k" if "k < 128" for k using uleb_bytes_ok that unfolding list_all_iff by simp
  show "n < 128 \<Longrightarrow> (of_nat n :: u8) AND 0x80 = 0" "n < 128 \<Longrightarrow> ucast ((of_nat n :: u8) AND 0x7f) = (of_nat n :: u64)"
    using ok[of n] unfolding uleb_byte_ok_def by blast+
  have "n mod 128 < 128" by simp
  then show "(of_nat (n mod 128 + 128) :: u8) AND 0x80 \<noteq> 0" "ucast ((of_nat (n mod 128 + 128) :: u8) AND 0x7f) = (of_nat (n mod 128) :: u64)"
    using ok[of "n mod 128"] unfolding uleb_byte_ok_def by blast+
qed

lemma uleb_split: "push_bit s (of_nat (n mod 128) :: u64) OR push_bit (s + 7) (of_nat (n div 128)) = push_bit s (of_nat n)"
proof (rule bit_eqI)
  fix i assume "possible_bit TYPE(64 word) i"
  then have i: "i < 64" by simp
  have a: "n mod 128 = take_bit 7 n" "n div 128 = drop_bit 7 n" by (simp_all add: take_bit_eq_mod drop_bit_eq_div)
  have e: "7 + (i - (s + 7)) = i - s" if "s + 7 \<le> i" using that by simp
  show "bit (push_bit s (of_nat (n mod 128) :: u64) OR push_bit (s + 7) (of_nat (n div 128))) i = bit (push_bit s (of_nat n :: u64)) i"
    unfolding a using i e by (cases "s + 7 \<le> i") (auto simp add: bit_or_iff bit_push_bit_iff bit_take_bit_iff bit_drop_bit_eq bit_of_nat_iff possible_bit_word)
qed

lemma read_uleb128_loop_encoded:
  "bytes_at m src (uleb128 n) \<Longrightarrow>
    read_uleb128_loop m src r shift = Some (r OR push_bit shift (of_nat n), src + length (uleb128 n))"
proof (induction n arbitrary: src r shift rule: uleb128.induct)
  case (1 n)
  show ?case
  proof (cases "n < 128")
    case True
    then have "m src = of_nat n" using "1.prems" by (simp add: uleb128.simps[of n])
    then show ?thesis using True uleb_byte(1,2)[OF True]
      by (subst read_uleb128_loop.simps) (simp add: uleb128.simps[of n] Let_def)
  next
    case False
    then have b: "m src = of_nat (n mod 128 + 128)" "bytes_at m (Suc src) (uleb128 (n div 128))"
      using "1.prems" by (simp_all add: uleb128.simps[of n])
    have "read_uleb128_loop m src r shift
        = read_uleb128_loop m (Suc src) (r OR push_bit shift (of_nat (n mod 128))) (shift + 7)"
      unfolding read_uleb128_loop.simps[of m src] b(1) Let_def uleb_byte(4) using uleb_byte(3)[of n] by (simp only: if_True simp_thms Suc_eq_plus1)
    also have "\<dots> = Some ((r OR push_bit shift (of_nat (n mod 128))) OR push_bit (shift + 7) (of_nat (n div 128)), Suc src + length (uleb128 (n div 128)))"
      by (rule "1.IH"[OF False b(2)])
    finally show ?thesis using False uleb_split[of shift n] by (simp add: uleb128.simps[of n] or.assoc)
  qed
qed


lemma read_uleb128_encoded [simp]:
  "bytes_at m src (uleb128 n) \<Longrightarrow> read_uleb128 m src = Some (of_nat n, src + length (uleb128 n))"
  unfolding read_uleb128_def using read_uleb128_loop_encoded[of m src n 0 0] by simp

lemma load_bytes_encoded: "bytes_at m a (le_bytes k n) \<Longrightarrow> load_bytes m a k = n mod 256 ^ k"
proof (induction k arbitrary: a n)
  case (Suc k)
  have "m a = of_nat (n mod 256)" "load_bytes m (Suc a) k = n div 256 mod 256 ^ k"
    using Suc.prems Suc.IH[of "Suc a" "n div 256"] by simp_all
  moreover have "unat (of_nat (n mod 256) :: u8) = n mod 256" by (simp add: unat_of_nat)
  ultimately show ?case by (simp only: load_bytes.simps power_Suc mod_mult2_eq[of n] add.commute)
qed simp

lemma length_le_bytes [simp]: "length (le_bytes k n) = k"
  by (induction k arbitrary: n) simp_all

definition fits :: "u8 \<Rightarrow> nat \<Rightarrow> bool" where
  "fits enc n \<longleftrightarrow> enc = DW_EH_PE_uleb128 \<or> n < 2 ^ 32"

lemma read_field_encoded:
  assumes "bytes_at m src (encode_field enc n)" "fits enc n"
  shows "read_field_of enc m src = Some (of_nat n, src + length (encode_field enc n))"
proof (cases "enc = DW_EH_PE_uleb128")
  case True
  then show ?thesis using assms(1) by (simp add: read_field_of_def encode_field_def)
next
  case False
  then have "bytes_at m src (le_bytes 4 n)" "n < 2 ^ 32" using assms by (simp_all add: encode_field_def fits_def)
  then show ?thesis using load_bytes_encoded[of m src 4 n] False by (simp add: read_field_of_def encode_field_def read_udata4_def)
qed

lemma read_call_site_encoded:
  assumes "bytes_at m src (encode_site enc cs)" "fits enc (cs_start cs)" "fits enc (cs_len cs)" "fits enc (cs_lpad cs)"
  shows "read_call_site enc m src = Some (of_nat (cs_start cs), of_nat (cs_len cs), of_nat (cs_lpad cs),
           of_nat (cs_action cs), src + length (encode_site enc cs))"
proof -
  define a where "a = src + length (encode_field enc (cs_start cs))"
  define b where "b = a + length (encode_field enc (cs_len cs))"
  define c where "c = b + length (encode_field enc (cs_lpad cs))"
  have "bytes_at m src (encode_field enc (cs_start cs))" "bytes_at m a (encode_field enc (cs_len cs))"
    "bytes_at m b (encode_field enc (cs_lpad cs))" "m c = of_nat (cs_action cs)"
    using assms(1) by (simp_all add: encode_site_def bytes_at_append a_def b_def c_def add.assoc)
  then have "read_call_site enc m src
      = Some (of_nat (cs_start cs), of_nat (cs_len cs), of_nat (cs_lpad cs), of_nat (cs_action cs), c + 1)"
    using assms(2-4) by (simp add: read_call_site_def read_field_encoded flip: a_def b_def c_def)
  then show ?thesis by (simp add: encode_site_def a_def b_def c_def)
qed

lemma lsda_site_bounds:
  assumes "sites_ok lpstart enc (cs # sites)" "enc \<in> {DW_EH_PE_uleb128, DW_EH_PE_udata4}"
  shows "fits enc (cs_start cs)" "fits enc (cs_len cs)" "fits enc (cs_lpad cs)" "\<not> 0x80 \<le> (of_nat (cs_action cs) :: u8)"
    "unat (of_nat (cs_start cs) + lpstart) = unat lpstart + cs_start cs"
    "unat (of_nat (cs_start cs) + lpstart + of_nat (cs_len cs)) = unat lpstart + cs_start cs + cs_len cs"
    "sites_ok lpstart enc sites" "\<And>cs'. cs' \<in> set sites \<Longrightarrow> cs_start cs \<le> cs_start cs'"
proof -
  have b: "unat lpstart + cs_start cs + cs_len cs < 2 ^ 64" "cs_action cs < 128"
    using assms(1) by (simp_all add: sites_ok_def)
  show "fits enc (cs_start cs)" "fits enc (cs_len cs)" "fits enc (cs_lpad cs)"
    using assms by (auto simp: sites_ok_def fits_def)
  have "unat (of_nat (cs_action cs) :: u8) = cs_action cs" using b(2) by (simp add: unat_of_nat)
  then show "\<not> 0x80 \<le> (of_nat (cs_action cs) :: u8)" using b(2) by (simp add: word_le_nat_alt)
  have e: "of_nat (cs_start cs) + lpstart = (of_nat (unat lpstart + cs_start cs) :: u64)" by simp
  show "unat (of_nat (cs_start cs) + lpstart) = unat lpstart + cs_start cs"
    unfolding e using b(1) by (simp only: unat_of_nat) simp
  have e': "of_nat (cs_start cs) + lpstart + of_nat (cs_len cs) = (of_nat (unat lpstart + cs_start cs + cs_len cs) :: u64)" by simp
  show "unat (of_nat (cs_start cs) + lpstart + of_nat (cs_len cs)) = unat lpstart + cs_start cs + cs_len cs"
    unfolding e' using b(1) by (simp only: unat_of_nat) simp
  show "sites_ok lpstart enc sites" "\<And>cs'. cs' \<in> set sites \<Longrightarrow> cs_start cs \<le> cs_start cs'"
    using assms(1) by (auto simp: sites_ok_def)
qed

definition lpad_at :: "mem \<Rightarrow> nat \<Rightarrow> u64 \<Rightarrow> u64 \<Rightarrow> call_site list \<Rightarrow> landing_pad" where
  "lpad_at m actiontab lpstart ip sites =
     (case find (covers lpstart ip) sites of Some cs \<Rightarrow> pad_of m actiontab lpstart cs | None \<Rightarrow> not_found)"

lemma search_call_sites_encoded:
  assumes "bytes_at m src (encode_sites enc sites)" "sites_ok lpstart enc sites" "enc \<in> {DW_EH_PE_uleb128, DW_EH_PE_udata4}"
  shows "search_call_sites enc m lpstart ip (src + length (encode_sites enc sites)) src
    = Some (Inr (lpad_at m (src + length (encode_sites enc sites)) lpstart ip sites))"
  using assms(1,2)
proof (induction sites arbitrary: src)
  case Nil
  then show ?case by (simp add: search_call_sites.simps[of _ _ _ _ _ src] encode_sites_def lpad_at_def)
next
  case (Cons cs sites)
  define src' where "src' = src + length (encode_site enc cs)"
  define fin where "fin = src' + length (encode_sites enc sites)"
  have e: "src + length (encode_sites enc (cs # sites)) = fin" and ne: "\<not> fin \<le> src"
    by (simp_all add: fin_def src'_def encode_sites_def encode_site_def)
  have here: "bytes_at m src (encode_site enc cs)" "bytes_at m src' (encode_sites enc sites)"
    using Cons.prems(1) by (simp_all add: encode_sites_def bytes_at_append src'_def)
  note b = lsda_site_bounds[OF Cons.prems(2) assms(3)]
  have step: "search_call_sites enc m lpstart ip fin src
    = (if ip < of_nat (cs_start cs) + lpstart then Some (Inr not_found)
       else if ip < of_nat (cs_start cs) + lpstart + of_nat (cs_len cs) then Some (Inr (pad_of m fin lpstart cs))
       else search_call_sites enc m lpstart ip fin src')"
    using read_call_site_encoded[OF here(1) b(1-3)] b(4) ne
    by (subst search_call_sites.simps) (simp add: pad_of_def flip: src'_def)
  have IH: "search_call_sites enc m lpstart ip fin src' = Some (Inr (lpad_at m fin lpstart ip sites))"
    unfolding fin_def by (rule Cons.IH[OF here(2) b(7)])
  have before: "find (covers lpstart ip) sites = None" if "ip < of_nat (cs_start cs) + lpstart"
    using that b(8) unfolding word_less_nat_alt b(5) find_None_iff covers_def by fastforce
  show ?case unfolding e step IH lpad_at_def using before
    by (auto simp: covers_def word_less_nat_alt b(5,6) not_less)
qed

lemma encode_sites_empty [simp]: "encode_sites enc sites = [] \<longleftrightarrow> sites = []"
  by (cases sites) (simp_all add: encode_sites_def encode_site_def)

lemma encode_sites_Nil [simp]: "encode_sites enc [] = []"
  by simp

section \<open>The landing pad of a frame\<close>

lemma search_lpad_encoded:
  assumes "lsda_at m (uc_lsda context) ttype enc sites actiontab" "sites_ok (uc_region_start context) enc sites"
  shows "search_lpad m context
    = Some (Inr (if sites = [] then no_pad else lpad_at m actiontab (uc_region_start context) (uc_ip context - 1) sites))"
proof -
  define table where "table = encode_sites enc sites"
  define start where "start = (case ttype of None \<Rightarrow> uc_lsda context + 2 | Some off \<Rightarrow> uc_lsda context + 2 + length (uleb128 off))"
  define first where "first = start + 1 + length (uleb128 (length table))"
  have enc: "enc \<in> {DW_EH_PE_uleb128, DW_EH_PE_udata4}" and len: "length table < 2 ^ 64"
    and pos: "uc_lsda context \<noteq> 0"
    using assms(1) by (simp_all add: lsda_at_def Let_def table_def)
  have all: "bytes_at m (uc_lsda context) (encode_header ttype enc (length table) @ table)"
    and tabend: "actiontab = uc_lsda context + length (encode_header ttype enc (length table) @ table)"
    using assms(1) by (simp_all add: lsda_at_def Let_def table_def)
  have tail: "bytes_at m start ([unat enc] @ uleb128 (length table) @ table)"
    using all unfolding encode_header_def start_def by (cases ttype) (simp_all add: bytes_at_append add.assoc)
  then have bytes: "m start = enc" "bytes_at m (start + 1) (uleb128 (length table))" "bytes_at m first table"
    by (simp_all add: bytes_at_append first_def)
  have omit: "m (uc_lsda context) = DW_EH_PE_omit"
    using all by (simp add: encode_header_def DW_EH_PE_omit_def)
  have fin: "actiontab = first + length table"
    unfolding tabend encode_header_def first_def start_def by (cases ttype) simp_all
  have tt: "\<exists>x. (if m (uc_lsda context + 1) \<noteq> DW_EH_PE_omit then read_uleb128 m (uc_lsda context + 2)
              else Some (0, uc_lsda context + 2)) = Some (x, start)"
  proof (cases ttype)
    case None
    then show ?thesis using all by (simp add: encode_header_def start_def bytes_at_append DW_EH_PE_omit_def)
  next
    case (Some off)
    then have "m (uc_lsda context + 1) = 0" "bytes_at m (uc_lsda context + 2) (uleb128 off)"
      using all by (simp_all add: encode_header_def bytes_at_append)
    then show ?thesis using Some by (simp add: start_def DW_EH_PE_omit_def)
  qed
  then obtain x where tt': "(if m (uc_lsda context + 1) \<noteq> DW_EH_PE_omit then read_uleb128 m (uc_lsda context + 2)
              else Some (0, uc_lsda context + 2)) = Some (x, start)" by blast
  have tab: "unat (of_nat (length table) :: u64) = length table" using len by (simp only: unat_of_nat) simp
  have "search_lpad m context
    = (if (of_nat (length table) :: u64) = 0 then Some (Inr no_pad)
       else search_call_sites enc m (uc_region_start context) (uc_ip context - 1) (first + length table) first)"
    using bytes(1,2) omit enc pos tab unfolding search_lpad_def tt' Let_def
    by (auto simp: first_def)
  moreover have "(of_nat (length table) :: u64) = 0 \<longleftrightarrow> sites = []"
    using tab by (auto simp: table_def unat_eq_0)
  ultimately show ?thesis
    using search_call_sites_encoded[OF _ assms(2) enc, of m first "uc_ip context - 1"] bytes(3) fin by (simp add: table_def)
qed

text \<open>C17.  The exception tables that LLVM emits are read back: when a function's table is the encoding (in ULEB128 or in
  four-byte numbers, with or without a type table) of a sorted list of call sites that fit it, \<open>search_lpad\<close> ends
  without an error and yields the landing pad of the first site whose range holds the instruction before the return address;
  \<open>CATCH\<close> at address 0 (that is, terminate) where no site covers it; and no pad at all for an empty list.\<close>

theorem search_lpad_correct:
  assumes "lsda_at m (uc_lsda context) ttype enc sites actiontab" "sites_ok (uc_region_start context) enc sites"
  shows "search_lpad m context
    = Some (Inr (if sites = [] then no_pad else lpad_at m actiontab (uc_region_start context) (uc_ip context - 1) sites))"
  using assms by (rule search_lpad_encoded)

section \<open>Two-phase unwinding\<close>

text \<open>
  What the Itanium C++ ABI documents of \<open>_Unwind_RaiseException\<close>.  It gets its answers and the exception object from the
  personality routine alone (\<open>calls_personality\<close>).  It first asks frame after frame for a handler
  while the answer is to continue (\<open>searches_first\<close>).  If a frame has one, it then calls the routine of each
  frame below it to clean up and at last that of the frame itself, marked as the handler's; a landing pad that is installed
  before the last ends by resuming the walk (\<open>cleans_up_then\<close>).  It returns only when no handler
  is entered, with a code of its own when the end of the stack was reached (\<open>reports_end\<close>).
\<close>

fun replay :: "personality \<Rightarrow> unwind_exception \<Rightarrow> unwind_call list \<Rightarrow> unwind_exception option" where
  "replay P e [] = Some e"
| "replay P e ((actions, context, answer) # calls) =
     (case P actions context e of (r, e') \<Rightarrow> if r = answer then replay P e' calls else None)"

text \<open>The calls follow a plan as long as the answers let them go on.\<close>

fun follows :: "(reason_code \<Rightarrow> bool) \<Rightarrow> (action_flag set \<times> unwind_context) list \<Rightarrow> unwind_call list \<Rightarrow> bool" where
  "follows go [] calls \<longleftrightarrow> calls = []"
| "follows go (q # plan) [] \<longleftrightarrow> False"
| "follows go (q # plan) ((actions, context, answer) # calls) \<longleftrightarrow>
     (actions, context) = q \<and> (if go answer then follows go plan calls else calls = [])"

definition answer_of :: "unwind_call \<Rightarrow> reason_code" where "answer_of x = snd (snd x)"

definition search_calls :: "unwind_call list \<Rightarrow> unwind_call list" where
  "search_calls calls = takeWhile (\<lambda>x. UA_SEARCH_PHASE \<in> fst x) calls"

definition cleanup_calls :: "unwind_call list \<Rightarrow> unwind_call list" where
  "cleanup_calls calls = dropWhile (\<lambda>x. UA_SEARCH_PHASE \<in> fst x) calls"

definition found_handler :: "unwind_call list \<Rightarrow> bool" where
  "found_handler calls \<longleftrightarrow> search_calls calls \<noteq> [] \<and> answer_of (last (search_calls calls)) = URC_HANDLER_FOUND"

definition is_install :: "reason_code \<Rightarrow> bool" where
  "is_install r \<longleftrightarrow> (case r of URC_INSTALL_CONTEXT _ _ _ \<Rightarrow> True | _ \<Rightarrow> False)"

lemma is_install_simps [simp]: "is_install (URC_INSTALL_CONTEXT a x y)" "\<not> is_install URC_CONTINUE_UNWIND"
  "\<not> is_install URC_HANDLER_FOUND"
  by (simp_all add: is_install_def)

definition resumes :: "reason_code \<Rightarrow> bool" where "resumes r \<longleftrightarrow> r = URC_CONTINUE_UNWIND \<or> is_install r"

definition cleanup_plan :: "unwind_context list \<Rightarrow> nat \<Rightarrow> (action_flag set \<times> unwind_context) list" where
  "cleanup_plan frames k = map (Pair {UA_CLEANUP_PHASE}) (take k frames) @ [({UA_CLEANUP_PHASE, UA_HANDLER_FRAME}, frames ! k)]"

definition calls_personality :: "unwinder \<Rightarrow> bool" where
  "calls_personality unwind \<longleftrightarrow> (\<forall>P frames e.
     replay P e (uw_calls (unwind P frames e)) = Some (uw_exception (unwind P frames e)))"

definition searches_first :: "unwinder \<Rightarrow> bool" where
  "searches_first unwind \<longleftrightarrow> (\<forall>P frames e.
     follows (\<lambda>r. r = URC_CONTINUE_UNWIND) (map (Pair {UA_SEARCH_PHASE}) frames) (search_calls (uw_calls (unwind P frames e))))"

definition cleans_up_then :: "unwinder \<Rightarrow> bool" where
  "cleans_up_then unwind \<longleftrightarrow> (\<forall>P frames e. let calls = uw_calls (unwind P frames e) in
     if found_handler calls then follows resumes (cleanup_plan frames (length (search_calls calls) - 1)) (cleanup_calls calls)
     else cleanup_calls calls = [])"

definition reports_end :: "unwinder \<Rightarrow> bool" where
  "reports_end unwind \<longleftrightarrow> (\<forall>P frames e. let calls = uw_calls (unwind P frames e) in
     uw_return (unwind P frames e) =
       (if found_handler calls \<and> is_install (answer_of (last calls)) then None
        else if \<forall>x \<in> set (search_calls calls). answer_of x = URC_CONTINUE_UNWIND then Some URC_END_OF_STACK
        else Some URC_Other))"

definition catches :: "landing_pad \<Rightarrow> bool" where "catches p \<longleftrightarrow> lp_type p AND CATCH \<noteq> 0"
definition cleans :: "landing_pad \<Rightarrow> bool" where "cleans p \<longleftrightarrow> lp_type p AND CLEANUP \<noteq> 0"

lemma search_step:
  assumes "search_lpad m c = Some (Inr p)"
  shows "catches p \<Longrightarrow> sml_personality m 1 {UA_SEARCH_PHASE} EXNCLASS_SMLSHARP ue ex c e
      = (URC_HANDLER_FOUND, e\<lparr>e_handler_addr := lp_addr p\<rparr>)"
    and "\<not> catches p \<Longrightarrow> sml_personality m 1 {UA_SEARCH_PHASE} EXNCLASS_SMLSHARP ue ex c e
      = (URC_CONTINUE_UNWIND, if cleans p then e\<lparr>e_num_cleanup := e_num_cleanup e + 1\<rparr> else e)"
  using assms by (simp_all add: sml_personality_def catches_def cleans_def)

lemma cleanup_step:
  assumes "search_lpad m c = Some (Inr p)" "cleans p \<longrightarrow> lp_addr p \<noteq> 0"
  shows "sml_personality m 1 {UA_CLEANUP_PHASE} EXNCLASS_SMLSHARP ue ex c e
    = (if e_num_cleanup e \<noteq> 0 \<and> cleans p
       then (URC_INSTALL_CONTEXT (lp_addr p) ue ex, e\<lparr>e_num_cleanup := e_num_cleanup e - 1\<rparr>) else (URC_CONTINUE_UNWIND, e))"
  using assms by (simp add: sml_personality_def cleans_def install_def)

lemma replay_append:
  "replay P e (xs @ ys) = (case replay P e xs of None \<Rightarrow> None | Some e' \<Rightarrow> replay P e' ys)"
  by (induction P e xs rule: replay.induct) (simp_all split: prod.splits)

lemma calls_split: "search_calls calls @ cleanup_calls calls = calls"
  by (simp add: search_calls_def cleanup_calls_def)

text \<open>The search over the frames without handlers, then over the rest.\<close>

lemma search_counts:
  assumes "list_all2 (\<lambda>c p. search_lpad m c = Some (Inr p) \<and> \<not> catches p) cs ps"
    and "replay (\<lambda>a c. sml_personality m 1 a EXNCLASS_SMLSHARP ue ex c) e (calls @ later) = Some e'"
    and "follows (\<lambda>r. r = URC_CONTINUE_UNWIND) (map (Pair {UA_SEARCH_PHASE}) (cs @ fs)) calls"
  shows "\<exists>calls'. map answer_of calls = replicate (length cs) URC_CONTINUE_UNWIND @ map answer_of calls'
    \<and> replay (\<lambda>a c. sml_personality m 1 a EXNCLASS_SMLSHARP ue ex c)
        (e\<lparr>e_num_cleanup := e_num_cleanup e + of_nat (length (filter cleans ps))\<rparr>) (calls' @ later) = Some e'
    \<and> follows (\<lambda>r. r = URC_CONTINUE_UNWIND) (map (Pair {UA_SEARCH_PHASE}) fs) calls'"
  using assms
proof (induction cs ps arbitrary: e calls rule: list_all2_induct)
  case Nil
  then show ?case by (intro exI[of _ calls]) simp
next
  case (Cons c cs p ps)
  let ?e = "if cleans p then e\<lparr>e_num_cleanup := e_num_cleanup e + 1\<rparr> else e"
  have p: "search_lpad m c = Some (Inr p)" "\<not> catches p" using Cons.hyps by simp_all
  obtain a c' r rest where calls: "calls = (a, c', r) # rest" using Cons.prems(2) by (cases calls) auto
  then have r: "r = URC_CONTINUE_UNWIND" "a = {UA_SEARCH_PHASE}" "c' = c"
    using Cons.prems search_step(2)[OF p(1,2)] by (auto split: if_splits)
  then have rest: "replay (\<lambda>a c. sml_personality m 1 a EXNCLASS_SMLSHARP ue ex c) ?e (rest @ later) = Some e'"
    "follows (\<lambda>r. r = URC_CONTINUE_UNWIND) (map (Pair {UA_SEARCH_PHASE}) (cs @ fs)) rest"
    using Cons.prems search_step(2)[OF p(1,2)] calls by (simp_all split: if_splits)
  have e: "?e\<lparr>e_num_cleanup := e_num_cleanup ?e + of_nat (length (filter cleans ps))\<rparr>
      = e\<lparr>e_num_cleanup := e_num_cleanup e + of_nat (length (filter cleans (p # ps)))\<rparr>"
    by (simp add: add.assoc)
  from Cons.IH[OF rest] show ?case unfolding e by (auto simp: calls r(1) answer_of_def)
qed

text \<open>The clean-up of the frames below the handler's.\<close>

lemma cleanup_runs:
  assumes "list_all2 (\<lambda>c p. search_lpad m c = Some (Inr p) \<and> (cleans p \<longrightarrow> lp_addr p \<noteq> 0)) cs ps"
    and "e_handler_addr e \<noteq> 0" "e_num_cleanup e = of_nat (length (filter cleans ps))" "length (filter cleans ps) < 2 ^ 32"
    and "replay (\<lambda>a c. sml_personality m 1 a EXNCLASS_SMLSHARP ue ex c) e calls = Some e'"
    and "follows resumes (map (Pair {UA_CLEANUP_PHASE}) cs @ [({UA_CLEANUP_PHASE, UA_HANDLER_FRAME}, h)]) calls"
  shows "filter is_install (map answer_of calls)
      = map (\<lambda>p. URC_INSTALL_CONTEXT (lp_addr p) ue ex) (filter cleans ps) @ [URC_INSTALL_CONTEXT (e_handler_addr e) 0 ex]
    \<and> e' = e\<lparr>e_num_cleanup := 0\<rparr> \<and> calls \<noteq> [] \<and> is_install (answer_of (last calls))"
  using assms
proof (induction cs ps arbitrary: e calls rule: list_all2_induct)
  case Nil
  obtain a c r rest where calls: "calls = (a, c, r) # rest" using Nil.prems(5) by (cases calls) auto
  then show ?case
    using Nil.prems by (auto simp: sml_personality_def install_def resumes_def answer_of_def split: if_splits)
next
  case (Cons c cs p ps)
  let ?e = "if cleans p then e\<lparr>e_num_cleanup := e_num_cleanup e - 1\<rparr> else e"
  let ?r = "if cleans p then URC_INSTALL_CONTEXT (lp_addr p) ue ex else URC_CONTINUE_UNWIND"
  have "e_num_cleanup e \<noteq> 0" if "cleans p"
  proof -
    have "unat (e_num_cleanup e) = Suc (length (filter cleans ps))"
      using Cons.prems(2,3) that by (simp only: unat_of_nat) simp
    then show ?thesis by auto
  qed
  then have step: "sml_personality m 1 {UA_CLEANUP_PHASE} EXNCLASS_SMLSHARP ue ex c e = (?r, ?e)"
    using cleanup_step[of m c p ue ex e] Cons.hyps by simp
  have res: "resumes ?r" "is_install ?r \<longleftrightarrow> cleans p" by (simp_all add: resumes_def is_install_def)
  obtain a c' r rest where calls: "calls = (a, c', r) # rest" using Cons.prems(5) by (cases calls) auto
  then have r: "a = {UA_CLEANUP_PHASE}" "c' = c" "r = ?r" and
    rest: "replay (\<lambda>a c. sml_personality m 1 a EXNCLASS_SMLSHARP ue ex c) ?e rest = Some e'"
      "follows resumes (map (Pair {UA_CLEANUP_PHASE}) cs @ [({UA_CLEANUP_PHASE, UA_HANDLER_FRAME}, h)]) rest"
    using Cons.prems(4,5) step res(1) by (auto split: if_splits)
  have e: "e_handler_addr ?e = e_handler_addr e" "e_num_cleanup ?e = of_nat (length (filter cleans ps))"
    "length (filter cleans ps) < 2 ^ 32" "?e\<lparr>e_num_cleanup := 0\<rparr> = e\<lparr>e_num_cleanup := 0\<rparr>"
    using Cons.prems(2,3) by (auto split: if_splits)
  from Cons.IH[OF _ e(2,3) rest] Cons.prems(1) show ?case
    unfolding e(1,4) using res(2) by (auto simp: calls r(3) answer_of_def)
qed

lemma raise_handled:
  assumes "calls_personality unwind" "searches_first unwind" "cleans_up_then unwind" "reports_end unwind"
    and "list_all2 (\<lambda>c p. search_lpad m c = Some (Inr p) \<and> \<not> catches p \<and> (cleans p \<longrightarrow> lp_addr p \<noteq> 0)) cs ps"
    and "search_lpad m h = Some (Inr q)" "catches q" "lp_addr q \<noteq> 0" "length cs < 2 ^ 32"
  shows "case sml_raise unwind m ue ex (cs @ h # rest) x of (u, result) \<Rightarrow> result = Handled
      \<and> filter is_install (map answer_of (uw_calls u))
          = map (\<lambda>p. URC_INSTALL_CONTEXT (lp_addr p) ue ex) (filter cleans ps) @ [URC_INSTALL_CONTEXT (lp_addr q) 0 ex]
      \<and> e_num_cleanup (uw_exception u) = 0 \<and> e_exn_obj (uw_exception u) = x"
proof -
  let ?P = "\<lambda>a c. sml_personality m 1 a EXNCLASS_SMLSHARP ue ex c" and ?e = "\<lparr>e_exn_obj = x, e_handler_addr = 0, e_num_cleanup = 0\<rparr>"
  have len: "length (filter cleans ps) < 2 ^ 32"
    using assms(5,9) by (simp add: list_all2_lengthD le_less_trans[OF length_filter_le])
  have s: "list_all2 (\<lambda>c p. search_lpad m c = Some (Inr p) \<and> \<not> catches p) cs ps"
    and c: "list_all2 (\<lambda>c p. search_lpad m c = Some (Inr p) \<and> (cleans p \<longrightarrow> lp_addr p \<noteq> 0)) cs ps"
    using assms(5) by (auto elim: list_all2_mono)
  note contract = assms(1-4)[unfolded calls_personality_def searches_first_def cleans_up_then_def reports_end_def Let_def, rule_format]
  define u where "u = unwind ?P (cs @ h # rest) ?e"
  define search where "search = search_calls (uw_calls u)"
  define clean where "clean = cleanup_calls (uw_calls u)"
  have r: "replay ?P ?e (search @ clean) = Some (uw_exception u)"
    using contract(1)[of ?P ?e "cs @ h # rest"] by (simp add: u_def search_def clean_def calls_split)
  have f: "follows (\<lambda>r. r = URC_CONTINUE_UNWIND) (map (Pair {UA_SEARCH_PHASE}) (cs @ h # rest)) search"
    unfolding search_def u_def by (rule contract(2))
  obtain last_call where L: "map answer_of search = replicate (length cs) URC_CONTINUE_UNWIND @ map answer_of last_call"
    "replay ?P (?e\<lparr>e_num_cleanup := e_num_cleanup ?e + of_nat (length (filter cleans ps))\<rparr>) (last_call @ clean) = Some (uw_exception u)"
    "follows (\<lambda>r. r = URC_CONTINUE_UNWIND) (map (Pair {UA_SEARCH_PHASE}) (h # rest)) last_call"
    using search_counts[OF s r f] by blast
  let ?e1 = "?e\<lparr>e_num_cleanup := of_nat (length (filter cleans ps)), e_handler_addr := lp_addr q\<rparr>"
  obtain a c' b more where lc: "last_call = (a, c', b) # more" using L(3) by (cases last_call) auto
  then have lc: "last_call = [({UA_SEARCH_PHASE}, h, URC_HANDLER_FOUND)]" and rc: "replay ?P ?e1 clean = Some (uw_exception u)"
    using L(2,3) search_step(1)[OF assms(6,7)] by (auto split: if_splits)
  have ans: "map answer_of search = replicate (length cs) URC_CONTINUE_UNWIND @ [URC_HANDLER_FOUND]"
    using L(1) lc by (simp add: answer_of_def)
  then have n: "length search = Suc (length cs)" "search \<noteq> []" by (metis length_map length_append length_replicate list.size(3,4) One_nat_def Suc_eq_plus1, force)
  have found: "found_handler (uw_calls u)"
    using arg_cong[OF ans, of last] n(2) by (simp add: found_handler_def last_map flip: search_def)
  have "follows resumes (cleanup_plan (cs @ h # rest) (length cs)) clean"
    using contract(3)[of ?P "cs @ h # rest" ?e] found n by (simp add: u_def search_def clean_def)
  then have fc: "follows resumes (map (Pair {UA_CLEANUP_PHASE}) cs @ [({UA_CLEANUP_PHASE, UA_HANDLER_FRAME}, h)]) clean"
    by (simp add: cleanup_plan_def)
  have C: "filter is_install (map answer_of clean)
      = map (\<lambda>p. URC_INSTALL_CONTEXT (lp_addr p) ue ex) (filter cleans ps) @ [URC_INSTALL_CONTEXT (lp_addr q) 0 ex]"
    "uw_exception u = ?e1\<lparr>e_num_cleanup := 0\<rparr>" "clean \<noteq> []" "is_install (answer_of (last clean))"
    using cleanup_runs[OF c _ _ len rc fc] assms(8) by simp_all
  have calls: "uw_calls u = search @ clean" by (simp add: search_def clean_def calls_split)
  have "filter is_install (map answer_of search) = []" unfolding ans by (simp add: is_install_def)
  then have "filter is_install (map answer_of (uw_calls u)) = filter is_install (map answer_of clean)" by (simp add: calls)
  moreover have "uw_return u = None"
    using contract(4)[of ?P "cs @ h # rest" ?e] found C(3,4) calls by (simp flip: u_def)
  ultimately show ?thesis
    using C(1,2) by (simp add: sml_raise_def Let_def flip: u_def)
qed

lemma raise_uncaught:
  assumes "calls_personality unwind" "searches_first unwind" "cleans_up_then unwind" "reports_end unwind"
    and "list_all2 (\<lambda>c p. search_lpad m c = Some (Inr p) \<and> \<not> catches p \<and> (cleans p \<longrightarrow> lp_addr p \<noteq> 0)) cs ps"
  shows "case sml_raise unwind m ue ex cs x of (u, result) \<Rightarrow> result = Uncaught_Exception x
      \<and> filter is_install (map answer_of (uw_calls u)) = []"
proof -
  let ?P = "\<lambda>a c. sml_personality m 1 a EXNCLASS_SMLSHARP ue ex c" and ?e = "\<lparr>e_exn_obj = x, e_handler_addr = 0, e_num_cleanup = 0\<rparr>"
  have s: "list_all2 (\<lambda>c p. search_lpad m c = Some (Inr p) \<and> \<not> catches p) cs ps"
    using assms(5) by (auto elim: list_all2_mono)
  note contract = assms(1-4)[unfolded calls_personality_def searches_first_def cleans_up_then_def reports_end_def Let_def, rule_format]
  define u where "u = unwind ?P cs ?e"
  define search where "search = search_calls (uw_calls u)"
  have r: "replay ?P ?e (search @ cleanup_calls (uw_calls u)) = Some (uw_exception u)"
    using contract(1)[of ?P ?e cs] by (simp add: u_def search_def calls_split)
  have f: "follows (\<lambda>r. r = URC_CONTINUE_UNWIND) (map (Pair {UA_SEARCH_PHASE}) (cs @ [])) search"
    unfolding search_def u_def using contract(2)[of cs ?P ?e] by simp
  have ans: "map answer_of search = replicate (length cs) URC_CONTINUE_UNWIND" and
    r2: "replay ?P (?e\<lparr>e_num_cleanup := e_num_cleanup ?e + of_nat (length (filter cleans ps))\<rparr>) (cleanup_calls (uw_calls u)) = Some (uw_exception u)"
    using search_counts[OF s r f] by auto
  then have all: "\<forall>y \<in> set search. answer_of y = URC_CONTINUE_UNWIND" by (metis in_set_replicate image_eqI set_map)
  then have nf: "\<not> found_handler (uw_calls u)" by (auto simp: found_handler_def simp flip: search_def)
  then have none: "cleanup_calls (uw_calls u) = []" using contract(3)[of ?P cs ?e] by (simp add: u_def)
  then have calls: "uw_calls u = search" using calls_split[of "uw_calls u"] by (simp add: search_def)
  have "uw_return u = Some URC_END_OF_STACK" "e_exn_obj (uw_exception u) = x"
    using contract(4)[of ?P cs ?e] nf all r2[unfolded none, simplified, symmetric] by (simp_all add: search_def flip: u_def)
  moreover have "filter is_install (map answer_of (uw_calls u)) = []" by (simp add: calls ans is_install_def)
  ultimately show ?thesis
    by (simp add: sml_raise_def Let_def flip: u_def)
qed

text \<open>C16.  An exception that the runtime raises runs exactly the handlers it should, with any unwinder that keeps the documented protocol.
  When none of the frames \<open>cs\<close> next to the raise has a handler and the frame \<open>h\<close> after them has one, then \<open>sml_raise\<close> ends in that handler:
  the contexts that the personality routine installs are, innermost first, the landing pad of each frame of \<open>cs\<close> that has a
  clean-up (passing the unwinder's object and the exception), none of any other frame, and last the handler (passing the exception);
  the count that lets the second phase skip the table of a frame once no clean-up is left ends at 0 and never hides one.  When
  the stack ends after \<open>cs\<close>, the exception is reported as uncaught and no landing pad has been entered.\<close>

theorem unwinding:
  assumes "calls_personality unwind" "searches_first unwind" "cleans_up_then unwind" "reports_end unwind"
    and "list_all2 (\<lambda>c p. search_lpad m c = Some (Inr p) \<and> \<not> catches p \<and> (cleans p \<longrightarrow> lp_addr p \<noteq> 0)) cs ps"
    and "search_lpad m h = Some (Inr q)" "catches q" "lp_addr q \<noteq> 0" "length cs < 2 ^ 32"
  shows "(case sml_raise unwind m ue ex (cs @ h # rest) x of (u, result) \<Rightarrow> result = Handled
      \<and> filter is_install (map answer_of (uw_calls u))
          = map (\<lambda>p. URC_INSTALL_CONTEXT (lp_addr p) ue ex) (filter cleans ps) @ [URC_INSTALL_CONTEXT (lp_addr q) 0 ex]
      \<and> e_num_cleanup (uw_exception u) = 0 \<and> e_exn_obj (uw_exception u) = x)
    \<and> (case sml_raise unwind m ue ex cs x of (u, result) \<Rightarrow> result = Uncaught_Exception x
      \<and> filter is_install (map answer_of (uw_calls u)) = [])"
  using raise_handled[OF assms] raise_uncaught[OF assms(1-5)] by (rule conjI)

text \<open>A table of two call sites: ten bytes with a clean-up pad, then ten with a handler.\<close>

definition example_table :: mem where
  "example_table a = (if 8 \<le> a \<and> a < 22 then [255, 255, 1, 8, 0, 10, 20, 0, 10, 10, 40, 1, 0, 0] ! (a - 8) else 0)"

definition example_sites :: "call_site list" where
  "example_sites = [\<lparr>cs_start = 0, cs_len = 10, cs_lpad = 20, cs_action = 0\<rparr>, \<lparr>cs_start = 10, cs_len = 10, cs_lpad = 40, cs_action = 1\<rparr>]"

definition example_frame :: "u64 \<Rightarrow> unwind_context" where
  "example_frame ip = \<lparr>uc_lsda = 8, uc_region_start = 4096, uc_ip = ip\<rparr>"

lemma example_lsda: "lsda_at example_table 8 None DW_EH_PE_uleb128 example_sites 20" "sites_ok 4096 DW_EH_PE_uleb128 example_sites"
  by (simp_all add: lsda_at_def encode_header_def encode_sites_def encode_site_def encode_field_def example_sites_def
      example_table_def DW_EH_PE_uleb128_def DW_EH_PE_udata4_def uleb128.simps sites_ok_def)

lemma example_pads:
  "lpad_at example_table 20 4096 4100 example_sites = \<lparr>lp_type = CLEANUP, lp_addr = 4116\<rparr>"
  "lpad_at example_table 20 4096 4110 example_sites = \<lparr>lp_type = CATCH, lp_addr = 4136\<rparr>"
  by (simp_all add: lpad_at_def example_sites_def covers_def pad_of_def lpad_type_def example_table_def)

lemma search_lpad_correct_witness:
  "search_lpad example_table (example_frame 4111) = Some (Inr \<lparr>lp_type = CATCH, lp_addr = 4136\<rparr>)"
  using search_lpad_correct[of example_table "example_frame 4111"] example_lsda example_pads(2)
  by (simp add: example_frame_def example_sites_def)

text \<open>An unwinder that keeps the protocol: it asks the personality routine along the plan while the answers let it.\<close>

fun ask_along :: "personality \<Rightarrow> (reason_code \<Rightarrow> bool) \<Rightarrow> (action_flag set \<times> unwind_context) list \<Rightarrow> unwind_exception
    \<Rightarrow> unwind_call list \<times> unwind_exception" where
  "ask_along P go [] e = ([], e)"
| "ask_along P go ((a, c) # plan) e =
     (case P a c e of (r, e') \<Rightarrow>
        if go r then (case ask_along P go plan e' of (calls, e'') \<Rightarrow> ((a, c, r) # calls, e'')) else ([(a, c, r)], e'))"

definition plain_unwinder :: unwinder where
  "plain_unwinder P frames e =
     (case ask_along P (\<lambda>r. r = URC_CONTINUE_UNWIND) (map (Pair {UA_SEARCH_PHASE}) frames) e of
        (search, e1) \<Rightarrow>
          (let (clean, e2) = (if found_handler search then ask_along P resumes (cleanup_plan frames (length search - 1)) e1 else ([], e1));
               calls = search @ clean
           in \<lparr>uw_calls = calls, uw_exception = e2,
               uw_return = (if found_handler search \<and> is_install (answer_of (last calls)) then None
                 else if \<forall>x \<in> set search. answer_of x = URC_CONTINUE_UNWIND then Some URC_END_OF_STACK else Some URC_Other)\<rparr>))"

lemma ask_along_follows:
  "ask_along P go plan e = (calls, e') \<Longrightarrow> replay P e calls = Some e' \<and> follows go plan calls
     \<and> map (\<lambda>x. (fst x, fst (snd x))) calls = take (length calls) plan"
proof (induction P go plan e arbitrary: calls e' rule: ask_along.induct)
  case (2 P go a c plan e)
  obtain r e1 where r: "P a c e = (r, e1)" by (cases "P a c e")
  obtain cl e2 where i: "ask_along P go plan e1 = (cl, e2)" by (cases "ask_along P go plan e1")
  then show ?case using 2(1)[OF r[symmetric] _ i] 2(2) by (auto simp: r split: if_splits)
qed auto

lemma plain_unwinder_parts:
  assumes "ask_along P (\<lambda>r. r = URC_CONTINUE_UNWIND) (map (Pair {UA_SEARCH_PHASE}) frames) e = (search, e1)"
    and "(if found_handler search then ask_along P resumes (cleanup_plan frames (length search - 1)) e1 else ([], e1)) = (clean, e2)"
  shows "search_calls (search @ clean) = search" "cleanup_calls (search @ clean) = clean"
    "search_calls search = search" "found_handler (search @ clean) = found_handler search"
proof -
  have "fst ` set search \<subseteq> {{UA_SEARCH_PHASE}}"
  proof -
    have "set (map (\<lambda>x. (fst x, fst (snd x))) search) \<subseteq> set (map (Pair {UA_SEARCH_PHASE}) frames)"
      unfolding ask_along_follows[OF assms(1), THEN conjunct2, THEN conjunct2] by (rule set_take_subset)
    then show ?thesis by auto
  qed
  then have s: "\<forall>x \<in> set search. UA_SEARCH_PHASE \<in> fst x" by auto
  have "set (map (\<lambda>x. (fst x, fst (snd x))) clean) \<subseteq> set (cleanup_plan frames (length search - 1))" if "found_handler search"
    using ask_along_follows[of P resumes "cleanup_plan frames (length search - 1)" e1 clean e2] assms(2) that
    by (metis set_take_subset)
  then have c: "\<forall>x \<in> set clean. UA_SEARCH_PHASE \<notin> fst x"
    using assms(2) by (cases "found_handler search") (force simp: cleanup_plan_def)+
  have cc: "takeWhile (\<lambda>x. UA_SEARCH_PHASE \<in> fst x) clean = []" "dropWhile (\<lambda>x. UA_SEARCH_PHASE \<in> fst x) clean = clean"
    using c by (cases clean; simp)+
  show "search_calls (search @ clean) = search" "cleanup_calls (search @ clean) = clean" "search_calls search = search"
    using s cc by (simp_all add: search_calls_def cleanup_calls_def)
  then show "found_handler (search @ clean) = found_handler search" by (simp add: found_handler_def)
qed

lemma plain_unwinder_contract:
  "calls_personality plain_unwinder" "searches_first plain_unwinder" "cleans_up_then plain_unwinder" "reports_end plain_unwinder"
proof -
  have all: "replay P e (uw_calls (plain_unwinder P frames e)) = Some (uw_exception (plain_unwinder P frames e))
    \<and> follows (\<lambda>r. r = URC_CONTINUE_UNWIND) (map (Pair {UA_SEARCH_PHASE}) frames) (search_calls (uw_calls (plain_unwinder P frames e)))
    \<and> (let calls = uw_calls (plain_unwinder P frames e) in
        (if found_handler calls then follows resumes (cleanup_plan frames (length (search_calls calls) - 1)) (cleanup_calls calls)
         else cleanup_calls calls = [])
        \<and> uw_return (plain_unwinder P frames e) =
         (if found_handler calls \<and> is_install (answer_of (last calls)) then None
          else if \<forall>x \<in> set (search_calls calls). answer_of x = URC_CONTINUE_UNWIND then Some URC_END_OF_STACK
          else Some URC_Other))" for P frames e
  proof -
    obtain search e1 where s: "ask_along P (\<lambda>r. r = URC_CONTINUE_UNWIND) (map (Pair {UA_SEARCH_PHASE}) frames) e = (search, e1)"
      by fastforce
    obtain clean e2 where c: "(if found_handler search then ask_along P resumes (cleanup_plan frames (length search - 1)) e1 else ([], e1)) = (clean, e2)"
      by fastforce
    note parts = plain_unwinder_parts[OF s c] and sf = ask_along_follows[OF s]
    have u: "uw_calls (plain_unwinder P frames e) = search @ clean" "uw_exception (plain_unwinder P frames e) = e2"
      "uw_return (plain_unwinder P frames e) = (if found_handler search \<and> is_install (answer_of (last (search @ clean))) then None
         else if \<forall>x \<in> set search. answer_of x = URC_CONTINUE_UNWIND then Some URC_END_OF_STACK else Some URC_Other)"
      by (simp_all only: plain_unwinder_def s c prod.case Let_def unwinding.simps)
    have cf: "replay P e1 clean = Some e2" "found_handler search \<Longrightarrow> follows resumes (cleanup_plan frames (length search - 1)) clean"
      "\<not> found_handler search \<Longrightarrow> clean = []"
      using c ask_along_follows[of P resumes "cleanup_plan frames (length search - 1)" e1 clean e2] by (auto split: if_splits)
    show ?thesis unfolding u parts Let_def using sf cf by (simp add: replay_append)
  qed
  then show "calls_personality plain_unwinder" "searches_first plain_unwinder" "cleans_up_then plain_unwinder" "reports_end plain_unwinder"
    unfolding calls_personality_def searches_first_def cleans_up_then_def reports_end_def Let_def by blast+
qed

lemma unwinding_witness:
  "(case sml_raise plain_unwinder example_table 5 6 [example_frame 4101, example_frame 4111] 7 of (u, result) \<Rightarrow> result = Handled
     \<and> filter is_install (map answer_of (uw_calls u)) = [URC_INSTALL_CONTEXT 4116 5 6, URC_INSTALL_CONTEXT 4136 0 6]
     \<and> e_num_cleanup (uw_exception u) = 0 \<and> e_exn_obj (uw_exception u) = 7)
   \<and> (case sml_raise plain_unwinder example_table 5 6 [example_frame 4101] 7 of (u, result) \<Rightarrow> result = Uncaught_Exception 7)"
proof -
  have p: "search_lpad example_table (example_frame 4101) = Some (Inr \<lparr>lp_type = CLEANUP, lp_addr = 4116\<rparr>)"
    "search_lpad example_table (example_frame 4111) = Some (Inr \<lparr>lp_type = CATCH, lp_addr = 4136\<rparr>)"
    using search_lpad_encoded[of example_table "example_frame 4101"] search_lpad_encoded[of example_table "example_frame 4111"]
      example_lsda example_pads by (simp_all add: example_frame_def example_sites_def)
  show ?thesis
    using unwinding[OF plain_unwinder_contract, where m = example_table and cs = "[example_frame 4101]" and ps = "[\<lparr>lp_type = CLEANUP, lp_addr = 4116\<rparr>]"
        and h = "example_frame 4111" and q = "\<lparr>lp_type = CATCH, lp_addr = 4136\<rparr>" and ue = 5 and ex = 6 and rest = "[]" and x = 7]
    by (auto simp: p catches_def cleans_def CATCH_def CLEANUP_def)
qed

end
