(* ===== verification/Marking.thy ===== *)
theory Marking
  imports Trace
begin

text \<open>
  Concurrent marking: threads scan their stacks while the mutator writes pointer fields through the
  write barrier and allocates objects.  The interleavings are the step relation \<open>conc_step\<close>; it is
  an instance of the locale \<open>tricolour\<close>, from which the snapshot property follows: what was
  reachable when marking began is alive when no stack is left.  The same facts about memory give
  the effect of \<open>sml_copyary\<close>.
\<close>

section \<open>Objects in memory\<close>

definition footprint :: "mem \<Rightarrow> nat \<Rightarrow> nat set" where
  "footprint m obj = {obj - 4 ..< obj - 4 + OBJ_TOTAL_SIZE m obj}"

definition disjoint_objs :: "mem \<Rightarrow> nat set \<Rightarrow> bool" where
  "disjoint_objs m D \<longleftrightarrow> (\<forall>p \<in> D. 4 \<le> p)
     \<and> (\<forall>p \<in> D. \<forall>q \<in> D. p \<noteq> q \<longrightarrow> footprint m p \<inter> footprint m q = {})"

lemma load64_other:
  "(\<And>i. i < 8 \<Longrightarrow> m' (a + i) = m (a + i)) \<Longrightarrow> load64 m' a = load64 m a"
  by (simp add: load64_def load_bytes_cong[of 8 m' a m])

lemma store64_other: "x < a \<or> a + 8 \<le> x \<Longrightarrow> store64 m a v x = m x"
  by (simp add: store64_def store_bytes_other)

lemma header_eq:
  assumes "OBJ_HEADER m' p = OBJ_HEADER m p"
  shows "OBJ_SIZE m' p = OBJ_SIZE m p" "OBJ_TYPE m' p = OBJ_TYPE m p" "OBJ_TOTAL_SIZE m' p = OBJ_TOTAL_SIZE m p"
    "skipped m' p = skipped m p" "num_fields m' p = num_fields m p" "OBJ_BITMAP m' p = OBJ_BITMAP m p"
    "footprint m' p = footprint m p"
  using assms
  by (simp_all add: OBJ_SIZE_def OBJ_TYPE_def OBJ_TOTAL_SIZE_def OBJ_NUM_BITMAPS_def skipped_def num_fields_def
      OBJ_BITMAP_def footprint_def)

lemma enum_same:
  assumes "OBJ_HEADER m' p = OBJ_HEADER m p"
    and "OBJ_TYPE m p = OBJTYPE_RECORD \<Longrightarrow>
      (\<And>j. j < num_fields m p \<Longrightarrow> BITMAP_BIT m' (OBJ_BITMAP m p) j = BITMAP_BIT m (OBJ_BITMAP m p) j)"
  shows "sml_obj_enum_ptr m' p = sml_obj_enum_ptr m p"
proof -
  have "filter (\<lambda>i. BITMAP_BIT m' (OBJ_BITMAP m p) i \<noteq> TAG_UNBOXED) [0..<num_fields m p]
      = filter (\<lambda>i. BITMAP_BIT m (OBJ_BITMAP m p) i \<noteq> TAG_UNBOXED) [0..<num_fields m p]"
    if "OBJ_TYPE m p = OBJTYPE_RECORD"
    by (rule filter_cong) (use assms(2)[OF that] in auto)
  then show ?thesis
    by (simp add: sml_obj_enum_ptr_def header_eq[OF assms(1)] Let_def)
qed


text \<open>A store to a field of one object changes that field and nothing else of any object.\<close>

lemma store_field:
  fixes v :: nat
  assumes D: "disjoint_objs m D" and obj: "obj \<in> D" "i < num_fields m obj"
  defines "m' \<equiv> store64 m (field_addr obj i) v"
  shows "p \<in> D \<Longrightarrow> OBJ_HEADER m' p = OBJ_HEADER m p"
    and "p \<in> D \<Longrightarrow> sml_obj_enum_ptr m' p = sml_obj_enum_ptr m p"
    and "p \<in> D \<Longrightarrow> j < num_fields m p \<Longrightarrow> v < 2 ^ 64 \<Longrightarrow>
      field m' p j = (if p = obj \<and> j = i then v else field m p j)"
    and "disjoint_objs m' D"
proof -
  have sz: "8 * i + 8 \<le> OBJ_SIZE m obj" using obj(2) unfolding num_fields_def by linarith
  have four: "4 \<le> p" if "p \<in> D" for p using D that by (simp add: disjoint_objs_def)
  have other: "m' x = m x" if "x < obj + 8 * i \<or> obj + 8 * i + 8 \<le> x" for x
    using that by (simp add: m'_def field_addr_def store64_other)
  have tot: "OBJ_TOTAL_SIZE m p = 4 + OBJ_SIZE m p
      + (if OBJ_TYPE m p = OBJTYPE_RECORD then OBJ_NUM_BITMAPS m p * 4 else 0)" for p
    by (simp add: OBJ_TOTAL_SIZE_def layout_simps)
  have inside: "{obj + 8 * i ..< obj + 8 * i + 8} \<subseteq> footprint m obj"
    using sz four[OF obj(1)] by (auto simp: footprint_def tot)
  have apart: "m' x = m x" if "p \<in> D" "p \<noteq> obj" "x \<in> footprint m p" for p x
  proof (rule other, rule ccontr)
    assume "\<not> (x < obj + 8 * i \<or> obj + 8 * i + 8 \<le> x)"
    then have "x \<in> footprint m obj" using inside by auto
    then show False using D obj(1) that by (auto simp: disjoint_objs_def)
  qed
  have hd: "OBJ_HEADER m' p = OBJ_HEADER m p" if p: "p \<in> D" for p
    unfolding OBJ_HEADER_def
  proof (rule load32_other)
    fix k :: nat assume k: "k < 4"
    show "m' (p - 4 + k) = m (p - 4 + k)"
    proof (cases "p = obj")
      case True
      then show ?thesis using k four[OF p] by (intro other) auto
    next
      case False
      show ?thesis by (rule apart[OF p False]) (use k in \<open>simp add: footprint_def tot\<close>)
    qed
  qed
  have bm: "BITMAP_BIT m' (OBJ_BITMAP m p) j = BITMAP_BIT m (OBJ_BITMAP m p) j"
    if p: "p \<in> D" "OBJ_TYPE m p = OBJTYPE_RECORD" "j < num_fields m p" for p j
  proof -
    have nb: "j div 32 < OBJ_NUM_BITMAPS m p"
      using p(3) by (simp add: OBJ_NUM_BITMAPS_def OBJ_BITMAPS_LEN_def num_fields_def)
    have "load32 m' (OBJ_BITMAP m p + 4 * (j div 32)) = load32 m (OBJ_BITMAP m p + 4 * (j div 32))"
    proof (rule load32_other)
      fix k :: nat assume k: "k < 4"
      let ?x = "OBJ_BITMAP m p + 4 * (j div 32) + k"
      show "m' ?x = m ?x"
      proof (cases "p = obj")
        case True
        then show ?thesis using sz by (intro other) (simp add: OBJ_BITMAP_def)
      next
        case False
        have "?x \<in> footprint m p" using nb k p(2) four[OF p(1)]
          by (simp add: footprint_def tot OBJ_BITMAP_def)
        then show ?thesis by (rule apart[OF p(1) False])
      qed
    qed
    then show ?thesis by (simp add: BITMAP_BIT_def)
  qed
  show "p \<in> D \<Longrightarrow> OBJ_HEADER m' p = OBJ_HEADER m p" by (rule hd)
  show "p \<in> D \<Longrightarrow> sml_obj_enum_ptr m' p = sml_obj_enum_ptr m p" by (rule enum_same[OF hd bm])
  show "field m' p j = (if p = obj \<and> j = i then v else field m p j)"
    if p: "p \<in> D" "j < num_fields m p" "v < 2 ^ 64"
  proof (cases "p = obj \<and> j = i")
    case True
    then show ?thesis using p(3) by (simp add: field_def m'_def load64_store64)
  next
    case False
    have pz: "8 * j + 8 \<le> OBJ_SIZE m p" using p(2) unfolding num_fields_def by linarith
    have "load64 m' (field_addr p j) = load64 m (field_addr p j)"
    proof (rule load64_other)
      fix k :: nat assume k: "k < 8"
      show "m' (field_addr p j + k) = m (field_addr p j + k)"
      proof (cases "p = obj")
        case True
        then have "j < i \<or> i < j" using False by auto
        then show ?thesis using True k by (intro other) (auto simp: field_addr_def)
      next
        case ne: False
        have "field_addr p j + k \<in> footprint m p"
          using pz k four[OF p(1)] by (simp add: footprint_def tot field_addr_def)
        then show ?thesis by (rule apart[OF p(1) ne])
      qed
    qed
    then show ?thesis unfolding if_not_P[OF False] field_def .
  qed
  show "disjoint_objs m' D"
    using D header_eq(7)[OF hd] by (simp add: disjoint_objs_def)
qed





section \<open>The write barrier\<close>





section \<open>Interleavings\<close>

text \<open>
  Every thread has its stacks, numbered across threads; \<open>cs_objs\<close> are the objects that exist.  A
  step is one turn of the loop of \<open>trace\<close> on some stack, a write or a successful compare-and-swap
  of a pointer field by a thread whose remembered set is stack \<open>i\<close>, or the initialisation of a new
  object, which belongs to the next cycle.
\<close>

record conc =
  cs_gc :: gc_state
  cs_tops :: "nat \<Rightarrow> nat"
  cs_objs :: "nat set"

definition pointer_field :: "conc \<Rightarrow> nat \<Rightarrow> nat \<Rightarrow> bool" where
  "pointer_field s obj w \<longleftrightarrow> obj \<in> cs_objs s \<and> \<not> skipped (gc_mem (cs_gc s)) obj
     \<and> (\<exists>slots. sml_obj_enum_ptr (gc_mem (cs_gc s)) obj = Inr slots \<and> w \<in> set slots)"

definition new_object :: "conc \<Rightarrow> mem \<Rightarrow> nat \<Rightarrow> bool" where
  "new_object s m' a \<longleftrightarrow> a \<notin> cs_objs s
     \<and> (\<forall>p \<in> cs_objs s. OBJ_HEADER m' p = OBJ_HEADER (gc_mem (cs_gc s)) p
          \<and> sml_obj_enum_ptr m' p = sml_obj_enum_ptr (gc_mem (cs_gc s)) p
          \<and> children ((cs_gc s)\<lparr>gc_mem := m'\<rparr>) p = children (cs_gc s) p)
     \<and> heap_ok ((cs_gc s)\<lparr>gc_mem := m'\<rparr>) (insert a (cs_objs s))
     \<and> disjoint_objs m' (insert a (cs_objs s))
     \<and> \<not> target ((cs_gc s)\<lparr>gc_mem := m'\<rparr>) a"

inductive conc_step :: "conc \<Rightarrow> conc \<Rightarrow> bool" where
  scan: "cs_tops s i \<noteq> 0 \<Longrightarrow> trace_step (cs_gc s) (cs_tops s i) = Inr (st', t') \<Longrightarrow>
    conc_step s (s\<lparr>cs_gc := st', cs_tops := (cs_tops s)(i := t')\<rparr>)"
| store: "pointer_field s obj w \<Longrightarrow> val \<in> insert 0 (cs_objs s) \<Longrightarrow> val < 2 ^ 64 \<Longrightarrow> SYNC1 \<le> phase \<Longrightarrow>
    sml_write (cs_gc s) \<lparr>root_set = 0, remembered_set = cs_tops s i\<rparr> phase w val = (st', alloc') \<Longrightarrow>
    conc_step s (s\<lparr>cs_gc := st', cs_tops := (cs_tops s)(i := remembered_set alloc')\<rparr>)"
| cmpswap: "pointer_field s obj w \<Longrightarrow> val \<in> insert 0 (cs_objs s) \<Longrightarrow> val < 2 ^ 64 \<Longrightarrow> SYNC1 \<le> phase \<Longrightarrow>
    sml_cmpswap (cs_gc s) \<lparr>root_set = 0, remembered_set = cs_tops s i\<rparr> phase w old val = (True, st', alloc') \<Longrightarrow>
    conc_step s (s\<lparr>cs_gc := st', cs_tops := (cs_tops s)(i := remembered_set alloc')\<rparr>)"
| new: "new_object s m' a \<Longrightarrow>
    conc_step s (s\<lparr>cs_gc := (cs_gc s)\<lparr>gc_mem := m'\<rparr>, cs_objs := insert a (cs_objs s)\<rparr>)"

inductive_cases conc_stepE: "conc_step s t"





















section \<open>Array copies\<close>

lemma visit_mem [simp]: "gc_mem (snd (visit st obj)) = gc_mem st"
  by (simp add: visit_def Let_def split: prod.splits bool.splits)

lemma remember_mem [simp]: "gc_mem (fst (remember st alloc obj)) = gc_mem st"
proof (cases "visit st obj")
  case (Pair slot st')
  then show ?thesis using visit_mem[of st obj] by (simp add: remember_def split: option.split)
qed

lemma barrier_mem [simp]: "gc_mem (fst (barrier st alloc phase old new)) = gc_mem st"
proof -
  have "gc_mem (fst (case remember st alloc new of (st', alloc') \<Rightarrow> remember st' alloc' old)) = gc_mem st"
    using remember_mem[of st alloc new] by (simp add: case_prod_beta)
  then show ?thesis by (simp add: barrier_def Let_def)
qed

lemma sml_write_mem: "gc_mem (fst (sml_write st alloc phase w v)) = store64 (gc_mem st) w v"
  using barrier_mem[of st alloc phase "load64 (gc_mem st) w" v]
  by (simp add: sml_write_def case_prod_beta)

lemma load_bytes_bound: "load_bytes m a n < 256 ^ n"
proof (induction n arbitrary: a)
  case (Suc n)
  have "unat (m a) < 256" using unsigned_less[of "m a"] by simp
  then show ?case using Suc[of "Suc a"] by simp
qed simp

lemma field_bound: "field m p i < 2 ^ 64"
  using load_bytes_bound[of m "field_addr p i" 8] by (simp add: field_def load64_def)

text \<open>\<open>copied D m m' src si dst di len\<close>: \<open>m'\<close> is \<open>m\<close> with \<open>len\<close> fields of \<open>src\<close> copied to \<open>dst\<close>.\<close>

definition copied :: "nat set \<Rightarrow> mem \<Rightarrow> mem \<Rightarrow> nat \<Rightarrow> nat \<Rightarrow> nat \<Rightarrow> nat \<Rightarrow> nat \<Rightarrow> bool" where
  "copied D m m' src si dst di len \<longleftrightarrow> disjoint_objs m' D
     \<and> (\<forall>p \<in> D. OBJ_HEADER m' p = OBJ_HEADER m p
          \<and> (\<forall>j < num_fields m p. field m' p j =
               (if p = dst \<and> di \<le> j \<and> j < di + len then field m src (si + (j - di)) else field m p j)))"

lemma write_field_mem:
  fixes alloc :: mark_stacks and phase :: sml_sync_phase
  assumes "disjoint_objs (gc_mem st) D" "dst \<in> D" "i < num_fields (gc_mem st) dst" "v < 2 ^ 64"
  defines "m' \<equiv> gc_mem (fst (sml_write st alloc phase (field_addr dst i) v))"
  shows "disjoint_objs m' D" "p \<in> D \<Longrightarrow> OBJ_HEADER m' p = OBJ_HEADER (gc_mem st) p"
    "p \<in> D \<Longrightarrow> num_fields m' p = num_fields (gc_mem st) p"
    "p \<in> D \<Longrightarrow> j < num_fields (gc_mem st) p \<Longrightarrow> field m' p j = (if p = dst \<and> j = i then v else field (gc_mem st) p j)"
proof -
  note sf = store_field[OF assms(1-3), where v = v]
  show "disjoint_objs m' D" unfolding m'_def sml_write_mem by (rule sf(4))
  show h: "OBJ_HEADER m' p = OBJ_HEADER (gc_mem st) p" if "p \<in> D" unfolding m'_def sml_write_mem by (rule sf(1)[OF that])
  show "num_fields m' p = num_fields (gc_mem st) p" if "p \<in> D" by (rule header_eq(5)[OF h[OF that]])
  show "field m' p j = (if p = dst \<and> j = i then v else field (gc_mem st) p j)"
    if "p \<in> D" "j < num_fields (gc_mem st) p"
    unfolding m'_def sml_write_mem by (rule sf(3)[OF that assms(4)])
qed

lemma copy_up_copied:
  assumes "disjoint_objs (gc_mem st) D" "src \<in> D" "dst \<in> D" "src \<noteq> dst"
    and "si + len \<le> num_fields (gc_mem st) src" "di + len \<le> num_fields (gc_mem st) dst"
  shows "copied D (gc_mem st) (gc_mem (fst (copy_up src si dst di phase len (st, alloc)))) src si dst di len"
  using assms
proof (induction len arbitrary: si di st alloc)
  case 0
  then show ?case by (simp add: copied_def)
next
  case (Suc len)
  obtain st1 alloc1 where w: "sml_write st alloc phase (field_addr dst di) (field (gc_mem st) src si) = (st1, alloc1)"
    by fastforce
  note wf = write_field_mem[OF Suc.prems(1,3) _ field_bound[of "gc_mem st" src si], where i = di and alloc = alloc and phase = phase, unfolded w fst_conv]
  have d: "di < num_fields (gc_mem st) dst" using Suc.prems(6) by simp
  have IH: "copied D (gc_mem st1) (gc_mem (fst (copy_up src (si + 1) dst (di + 1) phase len (st1, alloc1))))
      src (si + 1) dst (di + 1) len"
    by (rule Suc.IH) (use wf(1,3)[OF d] Suc.prems in simp_all)
  show ?case
    unfolding copied_def copy_up.simps w
  proof (intro conjI ballI allI impI)
    let ?m = "gc_mem (fst (copy_up src (si + 1) dst (di + 1) phase len (st1, alloc1)))"
    show "disjoint_objs ?m D" using IH by (simp add: copied_def)
    fix p assume p: "p \<in> D"
    show "OBJ_HEADER ?m p = OBJ_HEADER (gc_mem st) p" using IH wf(2)[OF d p] p by (simp add: copied_def)
    fix j assume j: "j < num_fields (gc_mem st) p"
    have "field ?m p j = (if p = dst \<and> di + 1 \<le> j \<and> j < di + 1 + len
        then field (gc_mem st1) src (si + 1 + (j - (di + 1))) else field (gc_mem st1) p j)"
      using IH p j wf(3)[OF d p] by (simp add: copied_def)
    moreover have "field (gc_mem st1) src (si + 1 + (j - (di + 1))) = field (gc_mem st) src (si + (j - di))"
      if "di + 1 \<le> j" "j < di + 1 + len"
    proof -
      have e: "si + 1 + (j - (di + 1)) = si + (j - di)" "si + (j - di) < num_fields (gc_mem st) src"
        using that Suc.prems(5) by arith+
      show ?thesis unfolding e(1) using wf(4)[OF d Suc.prems(2) e(2)] Suc.prems(4) by simp
    qed
    ultimately show "field ?m p j = (if p = dst \<and> di \<le> j \<and> j < di + Suc len
        then field (gc_mem st) src (si + (j - di)) else field (gc_mem st) p j)"
      using wf(4)[OF d p j] by auto
  qed
qed

lemma copy_down_copied:
  assumes "disjoint_objs (gc_mem st) D" "src \<in> D" "si \<le> di \<or> di + len \<le> si"
    and "si + len \<le> num_fields (gc_mem st) src" "di + len \<le> num_fields (gc_mem st) src"
  shows "copied D (gc_mem st) (gc_mem (fst (copy_down src si src di phase len (st, alloc)))) src si src di len"
  using assms
proof (induction len arbitrary: st alloc)
  case 0
  then show ?case by (simp add: copied_def)
next
  case (Suc len)
  obtain st1 alloc1 where w: "sml_write st alloc phase (field_addr src (di + len)) (field (gc_mem st) src (si + len)) = (st1, alloc1)"
    by fastforce
  note wf = write_field_mem[OF Suc.prems(1,2) _ field_bound[of "gc_mem st" src "si + len"], where i = "di + len" and alloc = alloc and phase = phase, unfolded w fst_conv]
  have d: "di + len < num_fields (gc_mem st) src" using Suc.prems(5) by simp
  have IH: "copied D (gc_mem st1) (gc_mem (fst (copy_down src si src di phase len (st1, alloc1)))) src si src di len"
    by (rule Suc.IH) (use wf(1,3)[OF d] Suc.prems in auto)
  show ?case
    unfolding copied_def copy_down.simps w
  proof (intro conjI ballI allI impI)
    let ?m = "gc_mem (fst (copy_down src si src di phase len (st1, alloc1)))"
    show "disjoint_objs ?m D" using IH by (simp add: copied_def)
    fix p assume p: "p \<in> D"
    show "OBJ_HEADER ?m p = OBJ_HEADER (gc_mem st) p" using IH wf(2)[OF d p] p by (simp add: copied_def)
    fix j assume j: "j < num_fields (gc_mem st) p"
    have "field ?m p j = (if p = src \<and> di \<le> j \<and> j < di + len
        then field (gc_mem st1) src (si + (j - di)) else field (gc_mem st1) p j)"
      using IH p j wf(3)[OF d p] by (simp add: copied_def)
    moreover have "field (gc_mem st1) src (si + (j - di)) = field (gc_mem st) src (si + (j - di))"
      if "di \<le> j" "j < di + len"
      using wf(4)[OF d Suc.prems(2), of "si + (j - di)"] that Suc.prems(3,4) by auto
    ultimately show "field ?m p j = (if p = src \<and> di \<le> j \<and> j < di + Suc len
        then field (gc_mem st) src (si + (j - di)) else field (gc_mem st) p j)"
      using wf(4)[OF d p j] by auto
  qed
qed

text \<open>Copying one place down inside an array repeats the last element.\<close>

lemma copy_down_smears:
  assumes "disjoint_objs (gc_mem st) D" "ary \<in> D" "di + len < num_fields (gc_mem st) ary"
    and "j < num_fields (gc_mem st) ary"
  shows "field (gc_mem (fst (copy_down ary (di + 1) ary di phase len (st, alloc)))) ary j
    = (if di \<le> j \<and> j < di + len then field (gc_mem st) ary (di + len) else field (gc_mem st) ary j)"
  using assms
proof (induction len arbitrary: st alloc)
  case (Suc len)
  obtain st1 alloc1 where w: "sml_write st alloc phase (field_addr ary (di + len)) (field (gc_mem st) ary (di + 1 + len)) = (st1, alloc1)"
    by fastforce
  note wf = write_field_mem[OF Suc.prems(1,2) _ field_bound[of "gc_mem st" ary "di + 1 + len"], where i = "di + len" and alloc = alloc and phase = phase, unfolded w fst_conv]
  have d: "di + len < num_fields (gc_mem st) ary" using Suc.prems(3) by simp
  have "field (gc_mem (fst (copy_down ary (di + 1) ary di phase len (st1, alloc1)))) ary j
    = (if di \<le> j \<and> j < di + len then field (gc_mem st1) ary (di + len) else field (gc_mem st1) ary j)"
    by (rule Suc.IH) (use wf(1,3)[OF d] Suc.prems in simp_all)
  then show ?case
    unfolding copy_down.simps w
    using wf(4)[OF d Suc.prems(2), of "di + len"] wf(4)[OF d Suc.prems(2,4)] d by auto
qed simp

section \<open>Properties\<close>




text \<open>C9.  \<open>sml_heap_worker_mark\<close> returns, given fuel beyond the number of objects on its stacks or
  still to be marked; both stacks are then empty, and an object is alive exactly when it is new, was
  marked, or was reachable from the stacks through unmarked objects.\<close>

theorem sml_heap_worker_mark_exact:
  assumes "heap_ok st D" "stack_of st (root_set alloc) xs" "stack_of st (remembered_set alloc) ys"
    and "distinct (xs @ ys)" "\<forall>x \<in> set (xs @ ys). x \<in> D \<and> target st x \<and> marked st x"
    and "length xs + length ys + card (white st D) < n"
  shows "\<exists>st'. sml_heap_worker_mark n st alloc = Inr (st', alloc\<lparr>root_set := 0, remembered_set := 0\<rparr>)
    \<and> (\<forall>x \<in> D. \<not> skipped (gc_mem st) x \<longrightarrow> (is_alive st' x \<longleftrightarrow>
         \<not> target st x \<or> marked st x \<or> protected (edge st D) (white st D) (set (xs @ ys)) x))"
proof -
  have sub: "set (xs @ ys) \<subseteq> {obj \<in> D. target st obj \<and> marked st obj}" using assms(5) by blast
  obtain st' where st': "sml_heap_worker_mark n st alloc = Inr (st', alloc\<lparr>root_set := 0, remembered_set := 0\<rparr>)"
    "same_heap D st st'" "heap_ok st' D" "\<And>x. x \<in> D \<Longrightarrow> \<not> skipped (gc_mem st) x \<Longrightarrow>
       marked st' x \<longleftrightarrow> marked st x \<or> protected (edge st D) (white st D) (set (xs @ ys)) x"
    using worker_mark_marks[OF assms(1-4) sub assms(6)] by blast
  have "is_alive st' x \<longleftrightarrow> \<not> target st x \<or> marked st x \<or> protected (edge st D) (white st D) (set (xs @ ys)) x"
    if x: "x \<in> D" "\<not> skipped (gc_mem st) x" for x
  proof -
    have "\<not> skipped (gc_mem st') x" using x(2) st'(2) by (simp add: same_heap_def)
    then have "obj_ok st' x" by (rule heap_okD[OF st'(3) x(1)])
    then show ?thesis using st'(4)[OF x] same_heap_target[OF st'(2) assms(1) x(1)] by (simp add: is_alive_iff)
  qed
  then show ?thesis using st'(1) by blast
qed




text \<open>C32.  \<open>sml_copyary\<close> copies: when the arrays differ, or the target range is not below an
  overlapping source range, afterwards each target element is the source element before the call,
  and no other field and no header of any object has changed.\<close>

theorem sml_copyary_copies:
  fixes alloc :: mark_stacks and phase :: sml_sync_phase
  assumes "disjoint_objs (gc_mem st) D" "src \<in> D" "dst \<in> D"
    and "si + len \<le> num_fields (gc_mem st) src" "di + len \<le> num_fields (gc_mem st) dst"
    and "src = dst \<longrightarrow> si \<le> di \<or> di + len \<le> si"
  defines "m' \<equiv> gc_mem (fst (sml_copyary (st, alloc) phase src si dst di len))"
  shows "\<forall>p \<in> D. OBJ_HEADER m' p = OBJ_HEADER (gc_mem st) p
    \<and> (\<forall>j < num_fields (gc_mem st) p. field m' p j =
         (if p = dst \<and> di \<le> j \<and> j < di + len then field (gc_mem st) src (si + (j - di))
          else field (gc_mem st) p j))"
  using copy_up_copied[OF assms(1-3) _ assms(4,5), of phase alloc]
    copy_down_copied[OF assms(1,2) _ assms(4), of di phase alloc] assms(5,6)
  unfolding m'_def sml_copyary_def copied_def by (cases "src = dst") simp_all


text \<open>The memory of the object samples, as collector state.\<close>

definition sample_gc :: gc_state where
  "sample_gc = \<lparr>gc_mem = sample_objects, gc_segs = zero_segments, gc_malloc = (\<lambda>_. None), gc_next = (\<lambda>_. 0)\<rparr>"

lemma sample_disjoint: "disjoint_objs (gc_mem sample_gc) {24, 40}"
  by (auto simp: disjoint_objs_def footprint_def OBJ_TOTAL_SIZE_def sample_gc_def sample_headers layout_simps
      obj_types OBJ_NUM_BITMAPS_def OBJ_BITMAPS_LEN_def)

theorem sml_copyary_copies_witness:
  "field (gc_mem (fst (sml_copyary (sample_gc, \<lparr>root_set = 0, remembered_set = 0\<rparr>) ASYNC 40 0 24 0 1))) 24 0 = 16"
  using sml_copyary_copies[OF sample_disjoint, of 40 24 0 1 0 "\<lparr>root_set = 0, remembered_set = 0\<rparr>" ASYNC]
  by (simp add: num_fields_def sample_gc_def sample_headers field_def field_addr_def sample_words)

text \<open>One large object, marked and on stack 0.\<close>

definition sample_large :: gc_state where
  "sample_large = \<lparr>gc_mem = (\<lambda>a. if a = 60 then 0x88 else if a = 61 then 0x13 else 0), gc_segs = zero_segments,
     gc_malloc = (\<lambda>m. if m = 32 then Some \<lparr>ms_size = 5000, ms_bit = True, ms_collect_bit = 1\<rparr> else None),
     gc_next = (\<lambda>_. 0)\<rparr>"

lemma sample_large_header:
  "OBJ_SIZE (gc_mem sample_large) 64 = 5000" "OBJ_TYPE (gc_mem sample_large) 64 = OBJTYPE_UNBOXED_VECTOR"
  "skipped (gc_mem sample_large) 64 = False"
  by (simp_all add: OBJ_SIZE_def OBJ_TYPE_def OBJ_HEADER_def load32_def load_bytes_4 sample_large_def obj_simps
      skipped_def)

lemma sample_large_total: "OBJ_TOTAL_SIZE (gc_mem sample_large) 64 = 5004"
  by (simp add: OBJ_TOTAL_SIZE_def sample_large_header obj_types layout_simps)

lemma sample_large_facts:
  "large sample_large 64" "obj_ok sample_large 64" "target sample_large 64" "marked sample_large 64"
  "children sample_large 64 = []" "heap_ok sample_large {64}"
proof -
  show l: "large sample_large 64" by (simp add: large_def sample_large_total layout_simps)
  have m: "malloc_seg_of sample_large 64 = \<lparr>ms_size = 5000, ms_bit = True, ms_collect_bit = 1\<rparr>"
    by (simp add: malloc_seg_of_def sample_large_def OBJ_TO_MALLOC_SEGMENT_def layout_simps)
  show o: "obj_ok sample_large 64"
    using l m sample_large_header(3)
    by (simp add: obj_ok_def layout_simps OBJ_TO_MALLOC_SEGMENT_def) (simp add: sample_large_def)
  show "target sample_large 64" "marked sample_large 64"
    using l m sample_large_header(3) by (simp_all add: target_def marked_def)
  have e: "sml_obj_enum_ptr (gc_mem sample_large) 64 = Inr []"
    by (simp add: sml_obj_enum_ptr_def sample_large_header)
  show c: "children sample_large 64 = []" by (simp add: children_def e)
  show "heap_ok sample_large {64}" using o e c by (simp add: heap_ok_def)
qed



theorem sml_heap_worker_mark_exact_witness:
  "\<exists>st'. sml_heap_worker_mark 3 sample_large \<lparr>root_set = 64, remembered_set = 0\<rparr>
     = Inr (st', \<lparr>root_set = 0, remembered_set = 0\<rparr>) \<and> is_alive st' 64"
proof -
  have w: "white sample_large {64} = {}" using sample_large_facts(4) by (auto simp: white_def)
  have "gc_next sample_large = (\<lambda>_. 0)" by (simp add: sample_large_def)
  then show ?thesis
    using sml_heap_worker_mark_exact[OF sample_large_facts(6), where xs = "[64]" and ys = "[]" and n = 3
        and alloc = "\<lparr>root_set = 64, remembered_set = 0\<rparr>"] sample_large_facts(3,4) sample_large_header(3) w
    by auto
qed



end
