(* ===== verification/FrameTable.thy ===== *)
theory FrameTable
  imports Object Control "HOL-Library.Product_Lexorder"
begin

text \<open>
  Frame tables and the enumeration of the root set (top.c, and the stack walk of control.c).

  The tables that the compiler emits are read from byte memory: descriptors of functions one after the
  other, each with the offsets of its roots and of its safe points.  A program that is loaded gets an
  array of its safe points and top level objects, sorted by address, in which a return address is
  looked up by binary search.  The arrays are functions from indices, with their capacity beside them;
  programs are named by the address of their array.
\<close>

section \<open>Descriptors\<close>

definition load16 :: "mem \<Rightarrow> nat \<Rightarrow> nat" where "load16 m a = load_bytes m a 2"

definition num_safe_points :: "mem \<Rightarrow> nat \<Rightarrow> nat" where "num_safe_points m layout = load16 m layout"
definition frame_size :: "mem \<Rightarrow> nat \<Rightarrow> nat" where "frame_size m layout = load16 m (layout + 2)"
definition num_roots :: "mem \<Rightarrow> nat \<Rightarrow> nat" where "num_roots m layout = load16 m (layout + 4)"
definition root_offsets :: "mem \<Rightarrow> nat \<Rightarrow> nat list" where
  "root_offsets m layout = map (\<lambda>i. load16 m (layout + 6 + 2 * i)) [0..<num_roots m layout]"

definition LAYOUT_SIZE :: "mem \<Rightarrow> nat \<Rightarrow> nat" where "LAYOUT_SIZE m layout = 6 + 2 * num_roots m layout"
definition SAFE_POINTS_OFFSET :: "mem \<Rightarrow> nat \<Rightarrow> nat" where "SAFE_POINTS_OFFSET m layout = CEILING (LAYOUT_SIZE m layout) 8"
definition SAFE_POINTS :: "mem \<Rightarrow> nat \<Rightarrow> nat" where "SAFE_POINTS m layout = layout + SAFE_POINTS_OFFSET m layout"
definition NEXT_LAYOUT :: "mem \<Rightarrow> nat \<Rightarrow> nat" where "NEXT_LAYOUT m layout = SAFE_POINTS m layout + 8 * num_safe_points m layout"

text \<open>The loop over a table; it ends at the descriptor without safe points, if there is one.\<close>

partial_function (option) ftab_layouts :: "mem \<Rightarrow> nat \<Rightarrow> nat list option" where
  "ftab_layouts m t =
     (if num_safe_points m t = 0 then Some []
      else Option.bind (ftab_layouts m (NEXT_LAYOUT m t)) (\<lambda>ts. Some (t # ts)))"

section \<open>The array of a program\<close>

record safe_point =
  sp_addr :: nat
  sp_layout :: nat

record gcroot =
  num_points :: nat
  num_tops :: nat
  allocsize :: nat
  item :: "nat \<Rightarrow> safe_point"

definition sizeof_gcroot :: nat where "sizeof_gcroot = 32"
definition sizeof_safe_point :: nat where "sizeof_safe_point = 16"
definition PAGE_SIZE :: nat where "PAGE_SIZE = CEILING sizeof_gcroot 4096"

definition capacity :: "gcroot \<Rightarrow> nat" where
  "capacity gcroot = (allocsize gcroot - sizeof_gcroot) div sizeof_safe_point"

definition REST_SAFE_POINTS :: "gcroot \<Rightarrow> nat" where
  "REST_SAFE_POINTS gcroot = capacity gcroot - (num_points gcroot + num_tops gcroot)"

definition TOPS :: "gcroot \<Rightarrow> nat \<Rightarrow> safe_point" where
  "TOPS gcroot i = item gcroot (num_points gcroot + i)"

text \<open>What \<open>malloc\<close> leaves in the array is \<open>junk\<close>.\<close>

definition new_gcroot :: "(nat \<Rightarrow> safe_point) \<Rightarrow> gcroot" where
  "new_gcroot junk = \<lparr>num_points = 0, num_tops = 0, allocsize = PAGE_SIZE, item = junk\<rparr>"

definition alloc_safe_points :: "nat \<Rightarrow> gcroot \<Rightarrow> nat \<times> gcroot" where
  "alloc_safe_points inc p =
     (let p = (if REST_SAFE_POINTS p < inc
               then p\<lparr>allocsize := CEILING (sizeof_gcroot + (num_points p + num_tops p + inc) * sizeof_safe_point) PAGE_SIZE\<rparr>
               else p)
      in (num_points p + num_tops p, p\<lparr>num_points := num_points p + inc\<rparr>))"

fun write_points :: "nat \<Rightarrow> safe_point list \<Rightarrow> gcroot \<Rightarrow> gcroot" where
  "write_points dst [] g = g"
| "write_points dst (sp # sps) g = write_points (Suc dst) sps (g\<lparr>item := (item g)(dst := sp)\<rparr>)"

definition layout_points :: "mem \<Rightarrow> nat \<Rightarrow> nat \<Rightarrow> safe_point list" where
  "layout_points m smltabb t =
     map (\<lambda>i. \<lparr>sp_addr = (smltabb + load64 m (SAFE_POINTS m t + 8 * i)) mod 2 ^ 64, sp_layout = t\<rparr>) [0..<num_safe_points m t]"

definition sml_gcroot :: "mem \<Rightarrow> nat \<times> nat \<times> nat \<Rightarrow> gcroot \<Rightarrow> gcroot option" where
  "sml_gcroot m args gcroot =
     (case args of (smltabb, smlftab, smlroot) \<Rightarrow>
        (case (if smlftab \<noteq> 0 then ftab_layouts m smlftab else Some []) of
           None \<Rightarrow> None
         | Some ts \<Rightarrow>
             (let inc = sum_list (map (num_safe_points m) ts) + (if smlroot \<noteq> 0 then 1 else 0);
                  (dst, gcroot) = alloc_safe_points inc gcroot;
                  points = concat (map (layout_points m smltabb) ts);
                  gcroot = write_points dst points gcroot
              in Some (if smlroot \<noteq> 0
                       then (write_points (dst + length points) [\<lparr>sp_addr = smlroot, sp_layout = 0\<rparr>] gcroot)
                              \<lparr>num_tops := num_tops gcroot + 1, num_points := num_points gcroot - 1\<rparr>
                       else gcroot))))"

definition cmp_safe_point :: "safe_point \<Rightarrow> safe_point \<Rightarrow> int" where
  "cmp_safe_point s1 s2 =
     (if sp_layout s1 \<noteq> 0 \<and> sp_layout s2 = 0 then -1
      else if sp_layout s1 = 0 \<and> sp_layout s2 \<noteq> 0 then 1
      else if sp_addr s1 > sp_addr s2 then 1
      else if sp_addr s1 < sp_addr s2 then -1
      else 0)"

text \<open>\<open>qsort\<close>, as an insertion sort.\<close>

fun insert_by :: "('a \<Rightarrow> 'a \<Rightarrow> int) \<Rightarrow> 'a \<Rightarrow> 'a list \<Rightarrow> 'a list" where
  "insert_by cmp x [] = [x]"
| "insert_by cmp x (y # ys) = (if cmp x y \<le> 0 then x # y # ys else y # insert_by cmp x ys)"

definition qsort :: "('a \<Rightarrow> 'a \<Rightarrow> int) \<Rightarrow> 'a list \<Rightarrow> 'a list" where
  "qsort cmp xs = foldr (insert_by cmp) xs []"

definition sort_safe_points :: "gcroot \<Rightarrow> gcroot" where
  "sort_safe_points g =
     (let n = num_points g + num_tops g; xs = qsort cmp_safe_point (map (item g) [0..<n])
      in g\<lparr>item := (\<lambda>i. if i < n then xs ! i else item g i)\<rparr>)"

section \<open>Loaded programs\<close>

record programs =
  gcroot_list :: "nat list"
  gcroot_at :: "nat \<Rightarrow> gcroot"

definition register_gcroot :: "nat \<Rightarrow> programs \<Rightarrow> programs" where
  "register_gcroot gcroot st =
     st\<lparr>gcroot_list := (case gcroot_list st of [] \<Rightarrow> [gcroot] | first # old \<Rightarrow> first # gcroot # old)\<rparr>"

fun load_all :: "mem \<Rightarrow> (nat \<times> nat \<times> nat) list \<Rightarrow> gcroot \<Rightarrow> gcroot option" where
  "load_all m [] g = Some g"
| "load_all m (l # ls) g = (case sml_gcroot m l g of None \<Rightarrow> None | Some g \<Rightarrow> load_all m ls g)"

definition sml_gcroot_load :: "mem \<Rightarrow> nat \<Rightarrow> (nat \<Rightarrow> safe_point) \<Rightarrow> (nat \<times> nat \<times> nat) list \<Rightarrow> programs \<Rightarrow> programs option" where
  "sml_gcroot_load m gcroot junk sml_loads st =
     (case load_all m sml_loads (new_gcroot junk) of
        None \<Rightarrow> None
      | Some g \<Rightarrow> Some (register_gcroot gcroot (st\<lparr>gcroot_at := (gcroot_at st)(gcroot := sort_safe_points g)\<rparr>)))"

definition sml_gcroot_unload :: "nat \<Rightarrow> programs \<Rightarrow> programs" where
  "sml_gcroot_unload gcroot st =
     st\<lparr>gcroot_at := (gcroot_at st)(gcroot := (gcroot_at st gcroot)\<lparr>num_points := 0, num_tops := 0\<rparr>)\<rparr>"

function binary_search :: "nat \<Rightarrow> (nat \<Rightarrow> safe_point) \<Rightarrow> nat \<Rightarrow> nat \<Rightarrow> nat option" where
  "binary_search key begins l r =
     (if l < r then
        (let c = (l + r) div 2; addr = sp_addr (begins c) in
         if addr = key then Some c
         else if addr < key then binary_search key begins (c + 1) r
         else binary_search key begins l c)
      else None)"
  by pat_completeness auto
termination by (relation "measure (\<lambda>(key, begins, l, r). r - l)") auto

declare binary_search.simps [simp del]

fun lookup_in :: "(nat \<Rightarrow> gcroot) \<Rightarrow> nat \<Rightarrow> nat list \<Rightarrow> nat option" where
  "lookup_in gs retaddr [] = None"
| "lookup_in gs retaddr (p # ps) =
     (case binary_search retaddr (item (gs p)) 0 (num_points (gs p)) of
        Some c \<Rightarrow> Some (sp_layout (item (gs p) c))
      | None \<Rightarrow> lookup_in gs retaddr ps)"

text \<open>\<open>None\<close> is the fatal error.\<close>

definition sml_lookup_frametable :: "programs \<Rightarrow> nat \<Rightarrow> nat option" where
  "sml_lookup_frametable st retaddr = lookup_in (gcroot_at st) retaddr (gcroot_list st)"

section \<open>Roots\<close>

text \<open>A C loop that passes on what the enumeration of each element gives.\<close>

fun enum_all :: "('a \<Rightarrow> obj_error + nat list) \<Rightarrow> 'a list \<Rightarrow> obj_error + nat list" where
  "enum_all f [] = Inr []"
| "enum_all f (x # xs) = (case f x of Inl e \<Rightarrow> Inl e
     | Inr slots \<Rightarrow> (case enum_all f xs of Inl e \<Rightarrow> Inl e | Inr rest \<Rightarrow> Inr (slots @ rest)))"

definition top_objects :: "mem \<Rightarrow> nat \<Rightarrow> nat list" where
  "top_objects m tops = map (\<lambda>j. (tops + load64 m (tops + 8 + 8 * j)) mod 2 ^ 64) [0..<load64 m tops]"

definition sml_global_enum_ptr :: "mem \<Rightarrow> programs \<Rightarrow> obj_error + nat list" where
  "sml_global_enum_ptr m st =
     enum_all (\<lambda>p. let g = gcroot_at st p in
         enum_all (\<lambda>i. enum_all (sml_obj_enum_ptr m) (top_objects m (sp_addr (TOPS g i)))) [0..<num_tops g])
       (gcroot_list st)"

definition FRAME_CODE_ADDRESS :: "mem \<Rightarrow> nat \<Rightarrow> nat" where "FRAME_CODE_ADDRESS m frame_end = load64 m (frame_end - 8)"
definition NEXT_FRAME :: "nat \<Rightarrow> nat" where "NEXT_FRAME frame_begin = frame_begin + 8"

text \<open>The roots reported: the slot of the saved exception or a slot of the stack.\<close>

datatype root = Exn_Slot nat | Stack_Slot nat

definition frame_enum_ptr :: "mem \<Rightarrow> programs \<Rightarrow> nat \<Rightarrow> (root list \<times> nat) option" where
  "frame_enum_ptr m st frame_end =
     (case sml_lookup_frametable st (FRAME_CODE_ADDRESS m frame_end) of
        None \<Rightarrow> None
      | Some layout \<Rightarrow>
          (let frame_begin = frame_end + 8 * frame_size m layout;
               slots = map (\<lambda>offset. frame_end + 8 * offset) (root_offsets m layout)
           in Some (map Stack_Slot (filter (\<lambda>slot. load64 m slot \<noteq> 0) slots), NEXT_FRAME frame_begin)))"

text \<open>The frames of a stack range, with fuel; \<open>None\<close> is a failed look-up or no fuel.\<close>

fun range_enum_ptr :: "nat \<Rightarrow> mem \<Rightarrow> programs \<Rightarrow> nat \<Rightarrow> nat \<Rightarrow> root list option" where
  "range_enum_ptr 0 m st fp bottom = None"
| "range_enum_ptr (Suc n) m st fp bottom =
     (case frame_enum_ptr m st fp of
        None \<Rightarrow> None
      | Some (roots, nxt) \<Rightarrow>
          (if fp = bottom then Some roots
           else (case range_enum_ptr n m st nxt bottom of None \<Rightarrow> None | Some rest \<Rightarrow> Some (roots @ rest))))"

fun ranges_enum_ptr :: "nat \<Rightarrow> mem \<Rightarrow> programs \<Rightarrow> frame_stack_range list \<Rightarrow> root list option" where
  "ranges_enum_ptr n m st [] = Some []"
| "ranges_enum_ptr n m st (rg # rs) =
     (case range_enum_ptr n m st (r_top rg) (r_bottom rg) of
        None \<Rightarrow> None
      | Some roots \<Rightarrow> (case ranges_enum_ptr n m st rs of None \<Rightarrow> None | Some rest \<Rightarrow> Some (roots @ rest)))"

definition sml_stack_enum_ptr :: "nat \<Rightarrow> mem \<Rightarrow> programs \<Rightarrow> control \<Rightarrow> nat \<Rightarrow> root list option" where
  "sml_stack_enum_ptr n m st c user =
     (case ranges_enum_ptr n m st (u_stack (c_user c user)) of
        None \<Rightarrow> None
      | Some roots \<Rightarrow> Some ((if u_exn_object (c_user c user) \<noteq> 0 then [Exn_Slot user] else []) @ roots))"


section \<open>What the compiler emits\<close>

record descriptor =
  d_frame :: nat
  d_roots :: "nat list"
  d_points :: "nat list"

text \<open>A table of descriptors in memory, as the comment in top.c lays it out.\<close>

definition descriptor_at :: "mem \<Rightarrow> nat \<Rightarrow> descriptor \<Rightarrow> bool" where
  "descriptor_at m t d \<longleftrightarrow> load16 m t = length (d_points d) \<and> d_points d \<noteq> [] \<and> load16 m (t + 2) = d_frame d
     \<and> load16 m (t + 4) = length (d_roots d) \<and> (\<forall>i < length (d_roots d). load16 m (t + 6 + 2 * i) = d_roots d ! i)
     \<and> (\<forall>i < length (d_points d). load64 m (t + CEILING (6 + 2 * length (d_roots d)) 8 + 8 * i) = d_points d ! i)"

fun table_at :: "mem \<Rightarrow> nat \<Rightarrow> descriptor list \<Rightarrow> bool" where
  "table_at m t [] \<longleftrightarrow> load16 m t = 0"
| "table_at m t (d # ds) \<longleftrightarrow> descriptor_at m t d
     \<and> table_at m (t + CEILING (6 + 2 * length (d_roots d)) 8 + 8 * length (d_points d)) ds"

lemma descriptor_read:
  assumes "descriptor_at m t d"
  shows "num_safe_points m t = length (d_points d)" "frame_size m t = d_frame d" "root_offsets m t = d_roots d"
    "layout_points m b t = map (\<lambda>p. \<lparr>sp_addr = (b + p) mod 2 ^ 64, sp_layout = t\<rparr>) (d_points d)"
    "NEXT_LAYOUT m t = t + CEILING (6 + 2 * length (d_roots d)) 8 + 8 * length (d_points d)"
proof -
  note d = assms[unfolded descriptor_at_def]
  show n: "num_safe_points m t = length (d_points d)" and "frame_size m t = d_frame d"
    using d by (simp_all add: num_safe_points_def frame_size_def)
  have r: "num_roots m t = length (d_roots d)" using d by (simp add: num_roots_def)
  show "root_offsets m t = d_roots d"
    using d by (auto simp: root_offsets_def r intro: nth_equalityI)
  have s: "SAFE_POINTS m t = t + CEILING (6 + 2 * length (d_roots d)) 8"
    by (simp add: SAFE_POINTS_def SAFE_POINTS_OFFSET_def LAYOUT_SIZE_def r)
  then show "NEXT_LAYOUT m t = t + CEILING (6 + 2 * length (d_roots d)) 8 + 8 * length (d_points d)"
    by (simp add: NEXT_LAYOUT_def n)
  show "layout_points m b t = map (\<lambda>p. \<lparr>sp_addr = (b + p) mod 2 ^ 64, sp_layout = t\<rparr>) (d_points d)"
    using d by (auto simp: layout_points_def n s intro: nth_equalityI)
qed

lemma ftab_layouts_table:
  "table_at m t ds \<Longrightarrow> t \<noteq> 0 \<Longrightarrow> \<exists>ts. ftab_layouts m t = Some ts \<and> list_all2 (\<lambda>t d. t \<noteq> 0 \<and> descriptor_at m t d) ts ds"
proof (induction ds arbitrary: t)
  case Nil
  then show ?case by (subst ftab_layouts.simps) (simp add: num_safe_points_def)
next
  case (Cons d ds)
  have d: "descriptor_at m t d" using Cons.prems(1) by simp
  then have n: "num_safe_points m t \<noteq> 0" "d_points d \<noteq> []" by (auto simp: descriptor_read(1)) (auto simp: descriptor_at_def)
  obtain ts where "ftab_layouts m (NEXT_LAYOUT m t) = Some ts" "list_all2 (\<lambda>t d. t \<noteq> 0 \<and> descriptor_at m t d) ts ds"
    using Cons.IH[of "NEXT_LAYOUT m t"] Cons.prems d by (auto simp: descriptor_read(5))
  then show ?case using n d Cons.prems(2) by (subst ftab_layouts.simps) simp
qed

section \<open>Sorting and searching\<close>

definition safe_point_key :: "safe_point \<Rightarrow> bool \<times> nat" where
  "safe_point_key s = (sp_layout s = 0, sp_addr s)"

lemma cmp_key: "cmp_safe_point s1 s2 \<le> 0 \<longleftrightarrow> safe_point_key s1 \<le> safe_point_key s2"
  by (auto simp: cmp_safe_point_def safe_point_key_def less_eq_prod_def)

lemma qsort_key: "qsort cmp_safe_point xs = sort_key safe_point_key xs"
proof -
  have "insert_by cmp_safe_point x ys = insort_key safe_point_key x ys" for x ys
    by (induction ys) (simp_all add: cmp_key)
  then have "insert_by cmp_safe_point = insort_key safe_point_key" by (intro ext)
  then show ?thesis by (simp add: qsort_def sort_key_def)
qed

lemma sorted_points_first:
  "sorted (map safe_point_key xs) \<Longrightarrow> xs = filter (\<lambda>s. sp_layout s \<noteq> 0) xs @ filter (\<lambda>s. sp_layout s = 0) xs"
proof (induction xs)
  case (Cons x xs)
  show ?case
  proof (cases "sp_layout x = 0")
    case True
    then have "\<forall>y \<in> set xs. sp_layout y = 0" using Cons.prems by (auto simp: safe_point_key_def less_eq_prod_def)
    then have "filter (\<lambda>s. sp_layout s \<noteq> 0) xs = []" "filter (\<lambda>s. sp_layout s = 0) xs = xs" by (auto simp: filter_empty_conv filter_id_conv)
    then show ?thesis using True by simp
  qed (use Cons in simp)
qed simp

lemma binary_search_result:
  "(\<And>i j. l \<le> i \<Longrightarrow> i \<le> j \<Longrightarrow> j < r \<Longrightarrow> sp_addr (begins i) \<le> sp_addr (begins j)) \<Longrightarrow>
    (case binary_search key begins l r of
       Some c \<Rightarrow> l \<le> c \<and> c < r \<and> sp_addr (begins c) = key
     | None \<Rightarrow> \<forall>i. l \<le> i \<longrightarrow> i < r \<longrightarrow> sp_addr (begins i) \<noteq> key)"
proof (induction key begins l r rule: binary_search.induct)
  case (1 key begins l r)
  let ?c = "(l + r) div 2"
  show ?case
  proof (cases "l < r")
    case False then show ?thesis by (subst binary_search.simps) simp
  next
    case True
    then have c: "l \<le> ?c" "?c < r" by simp_all
    consider "sp_addr (begins ?c) = key" | "sp_addr (begins ?c) < key" | "sp_addr (begins ?c) > key" by linarith
    then show ?thesis
    proof cases
      case 1 then show ?thesis using True c by (subst binary_search.simps) (simp add: Let_def)
    next
      case 2
      have IH: "case binary_search key begins (?c + 1) r of
          Some c \<Rightarrow> ?c + 1 \<le> c \<and> c < r \<and> sp_addr (begins c) = key
        | None \<Rightarrow> \<forall>i. ?c + 1 \<le> i \<longrightarrow> i < r \<longrightarrow> sp_addr (begins i) \<noteq> key"
        using "1.IH"(1)[OF True refl refl] 2 "1.prems" c by simp
      have low: "sp_addr (begins i) \<noteq> key" if "l \<le> i" "i < ?c + 1" for i
        using "1.prems"[of i ?c] that c 2 by simp
      have eq: "binary_search key begins l r = binary_search key begins (?c + 1) r"
        using True 2 by (subst binary_search.simps) (simp add: Let_def)
      show ?thesis
      proof (cases "binary_search key begins (?c + 1) r")
        case None
        have "sp_addr (begins i) \<noteq> key" if "l \<le> i" "i < r" for i
          using low[of i] IH None that by (cases "i < ?c + 1") simp_all
        then show ?thesis unfolding eq None by simp
      next
        case (Some i) then show ?thesis using IH c unfolding eq Some by simp
      qed
    next
      case 3
      have IH: "case binary_search key begins l ?c of
          Some c \<Rightarrow> l \<le> c \<and> c < ?c \<and> sp_addr (begins c) = key
        | None \<Rightarrow> \<forall>i. l \<le> i \<longrightarrow> i < ?c \<longrightarrow> sp_addr (begins i) \<noteq> key"
        using "1.IH"(2)[OF True refl refl] 3 "1.prems" c by simp
      have high: "sp_addr (begins i) \<noteq> key" if "?c \<le> i" "i < r" for i
        using "1.prems"[of ?c i] that c 3 by simp
      have eq: "binary_search key begins l r = binary_search key begins l ?c"
        using True 3 by (subst binary_search.simps) (simp add: Let_def)
      show ?thesis
      proof (cases "binary_search key begins l ?c")
        case None
        have "sp_addr (begins i) \<noteq> key" if "l \<le> i" "i < r" for i
          using high[of i] IH None that by (cases "i < ?c") simp_all
        then show ?thesis unfolding eq None by simp
      next
        case (Some i) then show ?thesis using IH c unfolding eq Some by simp
      qed
    qed
  qed
qed


section \<open>Filling the array\<close>

definition content :: "gcroot \<Rightarrow> safe_point list" where
  "content g = map (item g) [0..<num_points g + num_tops g]"

text \<open>The counts are those of the two kinds of entries and fit the capacity.\<close>

definition gcroot_ok :: "gcroot \<Rightarrow> bool" where
  "gcroot_ok g \<longleftrightarrow> num_points g = length (filter (\<lambda>s. sp_layout s \<noteq> 0) (content g))
     \<and> num_tops g = length (filter (\<lambda>s. sp_layout s = 0) (content g))
     \<and> num_points g + num_tops g \<le> capacity g"

lemma content_length [simp]: "length (content g) = num_points g + num_tops g"
  by (simp add: content_def)

lemma write_points_simps:
  "num_points (write_points k sps g) = num_points g" "num_tops (write_points k sps g) = num_tops g"
  "allocsize (write_points k sps g) = allocsize g"
  "item (write_points k sps g) i = (if k \<le> i \<and> i < k + length sps then sps ! (i - k) else item g i)"
  by (induction sps arbitrary: k g) (auto simp: nth_Cons' not_less_eq_eq)

lemma alloc_fits:
  assumes "alloc_safe_points inc g = (dst, g')" "num_points g + num_tops g \<le> capacity g"
  shows "dst = num_points g + num_tops g" "num_points g' = num_points g + inc" "num_tops g' = num_tops g" "item g' = item g"
    "num_points g + num_tops g + inc \<le> capacity g'"
proof -
  let ?n = "num_points g + num_tops g"
  show "dst = ?n" "num_points g' = num_points g + inc" "num_tops g' = num_tops g" "item g' = item g"
    using assms(1) by (auto simp: alloc_safe_points_def Let_def split: if_splits)
  show "?n + inc \<le> capacity g'"
  proof (cases "REST_SAFE_POINTS g < inc")
    case True
    let ?sz = "CEILING (sizeof_gcroot + (?n + inc) * sizeof_safe_point) PAGE_SIZE"
    have "capacity g' = (?sz - sizeof_gcroot) div sizeof_safe_point"
      using assms(1) True by (auto simp: alloc_safe_points_def Let_def capacity_def)
    moreover have "sizeof_gcroot + (?n + inc) * sizeof_safe_point \<le> ?sz"
      by (rule CEILING_ge) (simp add: PAGE_SIZE_def sizeof_gcroot_def CEILING_def)
    ultimately show ?thesis by (simp add: sizeof_gcroot_def sizeof_safe_point_def)
  next
    case False
    then show ?thesis using assms by (auto simp: alloc_safe_points_def Let_def REST_SAFE_POINTS_def capacity_def)
  qed
qed

lemma layout_points_length [simp]: "length (layout_points m b t) = num_safe_points m t"
  by (simp add: layout_points_def)

definition top_entries :: "nat \<Rightarrow> safe_point list" where
  "top_entries smlroot = (if smlroot \<noteq> 0 then [\<lparr>sp_addr = smlroot, sp_layout = 0\<rparr>] else [])"

lemma sml_gcroot_content:
  assumes "sml_gcroot m (b, f, r) g = Some g'" "gcroot_ok g" "(if f \<noteq> 0 then ftab_layouts m f else Some []) = Some ts" "\<forall>t \<in> set ts. t \<noteq> 0"
  shows "content g' = content g @ concat (map (layout_points m b) ts) @ top_entries r" "gcroot_ok g'"
proof -
  let ?pts = "concat (map (layout_points m b) ts)" and ?n = "num_points g + num_tops g"
  have lp: "length ?pts = sum_list (map (num_safe_points m) ts)" by (simp add: length_concat comp_def)
  obtain dst g1 where a: "alloc_safe_points (length ?pts + length (top_entries r)) g = (dst, g1)"
    by (cases "alloc_safe_points (length ?pts + length (top_entries r)) g")
  have fit: "?n \<le> capacity g" using assms(2) by (simp add: gcroot_ok_def)
  note A = alloc_fits[OF a fit]
  let ?g = "write_points dst (?pts @ top_entries r) g1"
  have app: "write_points k (xs @ ys) h = write_points (k + length xs) ys (write_points k xs h)" for k xs ys h
    by (induction xs arbitrary: k h) simp_all
  have g': "g' = (if r \<noteq> 0 then ?g\<lparr>num_tops := num_tops g1 + 1, num_points := num_points g1 - 1\<rparr> else ?g)"
    using assms(1,3) a by (auto simp: sml_gcroot_def lp top_entries_def Let_def app write_points_simps)
  have cnt: "num_points g' = num_points g + length ?pts" "num_tops g' = num_tops g + length (top_entries r)"
    using A by (simp_all add: g' write_points_simps top_entries_def)
  have it: "item g' = item ?g" by (simp add: g')
  show c: "content g' = content g @ ?pts @ top_entries r"
  proof (rule nth_equalityI)
    show "length (content g') = length (content g @ ?pts @ top_entries r)" by (simp add: content_def cnt)
    fix i assume "i < length (content g')"
    then have i: "i < ?n + length (?pts @ top_entries r)" by (simp add: content_def cnt)
    then have "content g' ! i = item ?g i" by (simp add: content_def cnt it)
    also have "\<dots> = (if i < ?n then item g i else (?pts @ top_entries r) ! (i - ?n))"
      using i A by (simp add: write_points_simps)
    also have "\<dots> = (content g @ ?pts @ top_entries r) ! i" by (simp add: content_def nth_append)
    finally show "content g' ! i = (content g @ ?pts @ top_entries r) ! i" .
  qed
  have "\<forall>s \<in> set ?pts. sp_layout s \<noteq> 0" using assms(4) by (auto simp: layout_points_def)
  then have fl: "filter (\<lambda>s. sp_layout s \<noteq> 0) ?pts = ?pts" "filter (\<lambda>s. sp_layout s = 0) ?pts = []"
    by (simp_all add: filter_id_conv filter_empty_conv)
  have cap: "capacity g' = capacity g1" by (simp add: g' capacity_def write_points_simps)
  have "num_points g' + num_tops g' \<le> capacity g'" using A(5) by (simp add: cnt cap)
  then show "gcroot_ok g'"
    using assms(2) cnt fl by (auto simp: gcroot_ok_def c top_entries_def)
qed

text \<open>The safe points of a program, in the order of its modules.\<close>

definition module_ok :: "mem \<Rightarrow> nat \<times> nat \<times> nat \<Rightarrow> bool" where
  "module_ok m l \<longleftrightarrow> (case l of (b, f, r) \<Rightarrow> f \<noteq> 0 \<longrightarrow> (\<exists>ds. table_at m f ds))"

definition described :: "mem \<Rightarrow> (nat \<times> nat \<times> nat) list \<Rightarrow> nat \<Rightarrow> nat \<Rightarrow> nat list \<Rightarrow> bool" where
  "described m mods addr sz roots \<longleftrightarrow> (\<exists>b f r ds d p. (b, f, r) \<in> set mods \<and> f \<noteq> 0 \<and> table_at m f ds \<and> d \<in> set ds
     \<and> p \<in> set (d_points d) \<and> addr = (b + p) mod 2 ^ 64 \<and> sz = d_frame d \<and> roots = d_roots d)"

text \<open>The entries of an array and what the tables of the modules say agree.\<close>

definition holds_points :: "mem \<Rightarrow> (nat \<times> nat \<times> nat) list \<Rightarrow> safe_point list \<Rightarrow> bool" where
  "holds_points m mods sps \<longleftrightarrow>
     (\<forall>s \<in> set sps. sp_layout s \<noteq> 0 \<longrightarrow> described m mods (sp_addr s) (frame_size m (sp_layout s)) (root_offsets m (sp_layout s)))
     \<and> (\<forall>addr sz roots. described m mods addr sz roots \<longrightarrow> (\<exists>s \<in> set sps. sp_layout s \<noteq> 0 \<and> sp_addr s = addr))"

definition holds_tops :: "(nat \<times> nat \<times> nat) list \<Rightarrow> safe_point list \<Rightarrow> bool" where
  "holds_tops mods sps \<longleftrightarrow> (\<forall>r. (\<exists>s \<in> set sps. sp_layout s = 0 \<and> sp_addr s = r) \<longleftrightarrow> r \<noteq> 0 \<and> (\<exists>b f. (b, f, r) \<in> set mods))"

lemma holds_tops_append: "holds_tops ms xs \<Longrightarrow> holds_tops ns ys \<Longrightarrow> holds_tops (ms @ ns) (xs @ ys)"
  unfolding holds_tops_def set_append bex_Un Un_iff by (simp only:) blast

lemma holds_tops_module: "\<forall>t \<in> set ts. t \<noteq> 0 \<Longrightarrow> holds_tops [(b, f, r)] (concat (map (layout_points m b) ts) @ top_entries r)"
  unfolding holds_tops_def by (auto simp: layout_points_def top_entries_def)

lemma table_unique: "table_at m t ds \<Longrightarrow> table_at m t ds' \<Longrightarrow> ds = ds'"
proof (induction ds arbitrary: t ds')
  case Nil then show ?case by (cases ds') (auto simp: descriptor_at_def)
next
  case (Cons d ds)
  then obtain d' es where e: "ds' = d' # es" by (cases ds') (auto simp: descriptor_at_def)
  have "descriptor_at m t d" "descriptor_at m t d'" using Cons.prems by (simp_all add: e)
  then have "d_frame d = d_frame d'" "d_roots d = d_roots d'" "d_points d = d_points d'"
    by (auto simp: descriptor_at_def intro!: nth_equalityI)
  then have "d = d'" by simp
  then show ?case using Cons.IH[of "t + CEILING (6 + 2 * length (d_roots d)) 8 + 8 * length (d_points d)" es] Cons.prems by (simp add: e)
qed

lemma described_append: "described m (ms @ ns) a s r \<longleftrightarrow> described m ms a s r \<or> described m ns a s r"
  unfolding described_def by auto blast+

lemma holds_points_append:
  "holds_points m ms xs \<Longrightarrow> holds_points m ns ys \<Longrightarrow> holds_points m (ms @ ns) (xs @ ys)"
  unfolding holds_points_def described_append by auto blast+

lemma module_points:
  assumes "module_ok m (b, f, r)"
  shows "\<exists>ts. (if f \<noteq> 0 then ftab_layouts m f else Some []) = Some ts \<and> (\<forall>t \<in> set ts. t \<noteq> 0)
    \<and> holds_points m [(b, f, r)] (concat (map (layout_points m b) ts) @ top_entries r)"
proof (cases "f = 0")
  case True then show ?thesis by (simp add: holds_points_def described_def top_entries_def)
next
  case False
  obtain ds where ds: "table_at m f ds" using assms False by (auto simp: module_ok_def)
  obtain ts where ts: "ftab_layouts m f = Some ts" "list_all2 (\<lambda>t d. t \<noteq> 0 \<and> descriptor_at m t d) ts ds"
    using ftab_layouts_table[OF ds] False by auto
  have nz: "\<forall>t \<in> set ts. t \<noteq> 0" using ts(2) by (auto simp: list_all2_conv_all_nth in_set_conv_nth)
  have at: "\<exists>d \<in> set ds. descriptor_at m t d" if "t \<in> set ts" for t
    using that ts(2) by (auto simp: list_all2_conv_all_nth in_set_conv_nth) (metis nth_mem)
  have ta: "\<exists>t \<in> set ts. descriptor_at m t d" if "d \<in> set ds" for d
    using that ts(2) by (auto simp: list_all2_conv_all_nth in_set_conv_nth) (metis nth_mem)
  let ?pts = "concat (map (layout_points m b) ts)"
  have one: "described m [(b, f, r)] (sp_addr s) (frame_size m (sp_layout s)) (root_offsets m (sp_layout s))" if sp: "s \<in> set ?pts" for s
  proof -
    obtain t where t: "t \<in> set ts" "s \<in> set (layout_points m b t)" using sp by auto
    obtain d where d: "d \<in> set ds" "descriptor_at m t d" using at[OF t(1)] by blast
    obtain p where "p \<in> set (d_points d)" "s = \<lparr>sp_addr = (b + p) mod 2 ^ 64, sp_layout = t\<rparr>"
      using t(2) by (auto simp: descriptor_read(4)[OF d(2)])
    then show ?thesis using d False ds by (auto simp: described_def descriptor_read(2,3)[OF d(2)])
  qed
  have two: "\<exists>s \<in> set ?pts. sp_layout s \<noteq> 0 \<and> sp_addr s = addr" if de: "described m [(b, f, r)] addr sz roots" for addr sz roots
  proof -
    obtain d p where d: "d \<in> set ds" "p \<in> set (d_points d)" "addr = (b + p) mod 2 ^ 64"
      using de table_unique[OF ds] by (auto simp: described_def)
    obtain t where t: "t \<in> set ts" "descriptor_at m t d" using ta[OF d(1)] by blast
    then have "\<lparr>sp_addr = addr, sp_layout = t\<rparr> \<in> set (layout_points m b t)" using d(2,3) by (auto simp: descriptor_read(4)[OF t(2)])
    then have "\<lparr>sp_addr = addr, sp_layout = t\<rparr> \<in> set ?pts" using t(1) by auto
    then show ?thesis by (rule bexI[rotated]) (use nz t(1) in simp)
  qed
  have "holds_points m [(b, f, r)] ?pts" unfolding holds_points_def using one two by blast
  moreover have "holds_points m [] (top_entries r)" by (simp add: holds_points_def described_def top_entries_def)
  ultimately have "holds_points m [(b, f, r)] (?pts @ top_entries r)" using holds_points_append by force
  then show ?thesis using ts(1) nz False by auto
qed

lemma load_all_content:
  "list_all (module_ok m) mods \<Longrightarrow> gcroot_ok g \<Longrightarrow> holds_points m ms (content g) \<Longrightarrow> holds_tops ms (content g) \<Longrightarrow>
    \<exists>g'. load_all m mods g = Some g' \<and> gcroot_ok g' \<and> holds_points m (ms @ mods) (content g') \<and> holds_tops (ms @ mods) (content g')"
proof (induction mods arbitrary: g ms)
  case (Cons l mods)
  obtain b f r where l: "l = (b, f, r)" by (cases l)
  obtain ts where ts: "(if f \<noteq> 0 then ftab_layouts m f else Some []) = Some ts" "\<forall>t \<in> set ts. t \<noteq> 0"
    "holds_points m [(b, f, r)] (concat (map (layout_points m b) ts) @ top_entries r)"
    using module_points[of m b f r] Cons.prems(1) by (auto simp: l)
  have "sml_gcroot m (b, f, r) g \<noteq> None" unfolding sml_gcroot_def prod.case ts(1) by (simp add: Let_def split: prod.splits)
  then obtain g1 where g1: "sml_gcroot m (b, f, r) g = Some g1" by blast
  note C = sml_gcroot_content[OF g1 Cons.prems(2) ts(1,2)]
  have "holds_points m (ms @ [l]) (content g1)" using holds_points_append[OF Cons.prems(3) ts(3)] by (simp add: C(1) l)
  moreover have "holds_tops (ms @ [l]) (content g1)"
    using holds_tops_append[OF Cons.prems(4) holds_tops_module[OF ts(2)]] by (simp add: C(1) l)
  ultimately show ?case using Cons.IH[OF _ C(2), of "ms @ [l]"] Cons.prems(1) g1 by (simp add: l)
qed simp

section \<open>Loading, unloading and looking up\<close>

datatype program_event = Load nat "(nat \<times> nat \<times> nat) list" | Unload nat

fun run_programs :: "mem \<Rightarrow> (nat \<Rightarrow> safe_point) \<Rightarrow> program_event list \<Rightarrow> programs \<Rightarrow> programs option" where
  "run_programs m junk [] st = Some st"
| "run_programs m junk (Load a mods # es) st =
     (case sml_gcroot_load m a junk mods st of None \<Rightarrow> None | Some st \<Rightarrow> run_programs m junk es st)"
| "run_programs m junk (Unload a # es) st = run_programs m junk es (sml_gcroot_unload a st)"

text \<open>The modules of each program that are loaded after the events.\<close>

fun live_modules :: "program_event list \<Rightarrow> (nat \<Rightarrow> (nat \<times> nat \<times> nat) list) \<Rightarrow> nat \<Rightarrow> (nat \<times> nat \<times> nat) list" where
  "live_modules [] L = L"
| "live_modules (Load a mods # es) L = live_modules es (L(a := mods))"
| "live_modules (Unload a # es) L = live_modules es (L(a := []))"

fun loaded_at :: "program_event list \<Rightarrow> nat list" where
  "loaded_at [] = []"
| "loaded_at (Load a mods # es) = a # loaded_at es"
| "loaded_at (Unload a # es) = loaded_at es"

fun event_ok :: "mem \<Rightarrow> program_event \<Rightarrow> bool" where
  "event_ok m (Load a mods) = list_all (module_ok m) mods"
| "event_ok m (Unload a) = True"

definition no_programs :: programs where
  "no_programs = \<lparr>gcroot_list = [], gcroot_at = (\<lambda>_. \<lparr>num_points = 0, num_tops = 0, allocsize = 0, item = (\<lambda>_. \<lparr>sp_addr = 0, sp_layout = 0\<rparr>)\<rparr>)\<rparr>"

text \<open>The safe points of an array are sorted and are those of the modules.\<close>

definition searchable :: "mem \<Rightarrow> (nat \<times> nat \<times> nat) list \<Rightarrow> gcroot \<Rightarrow> bool" where
  "searchable m mods g \<longleftrightarrow> num_points g + num_tops g \<le> capacity g
     \<and> (\<forall>i < num_points g. sp_layout (item g i) \<noteq> 0) \<and> sorted (map (\<lambda>i. sp_addr (item g i)) [0..<num_points g])
     \<and> holds_points m mods (map (item g) [0..<num_points g]) \<and> (\<forall>i < num_tops g. sp_layout (TOPS g i) = 0)
     \<and> holds_tops mods (map (TOPS g) [0..<num_tops g])"

lemma holds_points_filter:
  "holds_points m mods (filter (\<lambda>s. sp_layout s \<noteq> 0) xs) \<longleftrightarrow> holds_points m mods xs"
  unfolding holds_points_def set_filter by blast

lemma holds_points_set: "set xs = set ys \<Longrightarrow> holds_points m mods xs \<longleftrightarrow> holds_points m mods ys"
  by (simp add: holds_points_def)

lemma sorted_searchable:
  assumes "gcroot_ok g" "holds_points m mods (content g)" "holds_tops mods (content g)"
  shows "searchable m mods (sort_safe_points g)"
proof -
  let ?g = "sort_safe_points g" and ?ys = "sort_key safe_point_key (content g)"
  let ?P = "\<lambda>s. sp_layout s \<noteq> 0" and ?n = "num_points g + num_tops g"
  have cnt: "num_points ?g = num_points g" "num_tops ?g = num_tops g" "capacity ?g = capacity g"
    by (simp_all add: sort_safe_points_def Let_def capacity_def)
  have len: "length ?ys = ?n" by (simp add: content_def)
  have "item ?g i = ?ys ! i" if "i < ?n" for i
    using that by (simp add: sort_safe_points_def Let_def qsort_key content_def)
  then have it: "map (item ?g) [0..<num_points g] = take (num_points g) ?ys"
    by (intro nth_equalityI) simp_all
  have sk: "sorted (map safe_point_key ?ys)" by (rule sorted_sort_key)
  have sp: "?ys = filter ?P ?ys @ filter (\<lambda>s. sp_layout s = 0) ?ys" by (rule sorted_points_first[OF sk])
  have fl: "length (filter ?P ?ys) = num_points g"
    using assms(1) by (simp add: filter_sort gcroot_ok_def)
  have tk: "take (num_points g) ?ys = filter ?P ?ys" and dr: "drop (num_points g) ?ys = filter (\<lambda>s. sp_layout s = 0) ?ys"
    using append_eq_conv_conj[THEN iffD1, OF sp[symmetric], unfolded fl] by simp_all
  have pts: "map (item ?g) [0..<num_points g] = filter ?P ?ys" using it tk by simp
  have "holds_points m mods (map (item ?g) [0..<num_points g])"
    unfolding pts holds_points_filter using assms(2) holds_points_set[of ?ys "content g"] by simp
  moreover have "\<forall>i < num_points g. ?P (item ?g i)"
  proof (intro allI impI)
    fix i assume i: "i < num_points g"
    then have "item ?g i \<in> set (map (item ?g) [0..<num_points g])" by simp
    then show "?P (item ?g i)" unfolding pts by simp
  qed
  moreover have "sorted (map (sp_addr \<circ> item ?g) [0..<num_points g])"
  proof -
    have "sorted (map safe_point_key (filter ?P ?ys))" by (rule sorted_filter[OF sk])
    moreover have "\<forall>s \<in> set (filter ?P ?ys). safe_point_key s = (False, sp_addr s)" by (simp add: safe_point_key_def)
    ultimately have "sorted (map sp_addr (filter ?P ?ys))"
      by (simp add: sorted_wrt_map) (rule sorted_wrt_mono_rel[rotated], assumption, simp add: less_eq_prod_def)
    then have "sorted (map sp_addr (map (item ?g) [0..<num_points g]))" by (simp only: pts)
    then show ?thesis by (simp only: map_map)
  qed
  moreover have "\<forall>i < num_tops g. sp_layout (TOPS ?g i) = 0" "holds_tops mods (map (TOPS ?g) [0..<num_tops g])"
  proof -
    have all: "map (item ?g) [0..<?n] = ?ys"
      by (intro nth_equalityI) (simp_all add: len sort_safe_points_def Let_def qsort_key content_def)
    have "map (TOPS ?g) [0..<num_tops g] = drop (num_points g) (map (item ?g) [0..<?n])"
      by (intro nth_equalityI) (simp_all add: TOPS_def cnt)
    also have "\<dots> = filter (\<lambda>s. sp_layout s = 0) ?ys" unfolding all
      by (rule dr)
    finally have tp: "map (TOPS ?g) [0..<num_tops g] = filter (\<lambda>s. sp_layout s = 0) ?ys" .
    then have "\<forall>s \<in> set (map (TOPS ?g) [0..<num_tops g]). sp_layout s = 0" by simp
    then show "\<forall>i < num_tops g. sp_layout (TOPS ?g i) = 0" by simp
    show "holds_tops mods (map (TOPS ?g) [0..<num_tops g])" unfolding tp using assms(3) by (simp add: holds_tops_def Bex_def conj_assoc)
  qed
  moreover have "num_points g + num_tops g \<le> capacity g" using assms(1) by (simp add: gcroot_ok_def)
  ultimately show ?thesis unfolding searchable_def cnt by (simp only: comp_def)
qed

lemma searchable_search:
  assumes "searchable m mods g"
  shows "case binary_search addr (item g) 0 (num_points g) of
      Some c \<Rightarrow> described m mods addr (frame_size m (sp_layout (item g c))) (root_offsets m (sp_layout (item g c)))
    | None \<Rightarrow> (\<forall>sz roots. \<not> described m mods addr sz roots)"
proof -
  have so: "sp_addr (item g i) \<le> sp_addr (item g j)" if "0 \<le> i" "i \<le> j" "j < num_points g" for i j
    using assms that sorted_nth_mono[of "map (\<lambda>i. sp_addr (item g i)) [0..<num_points g]" i j] by (simp add: searchable_def)
  note B = binary_search_result[of 0 "num_points g" "item g" addr, OF so]
  note H = assms[unfolded searchable_def holds_points_def]
  show ?thesis
  proof (cases "binary_search addr (item g) 0 (num_points g)")
    case None
    have "\<not> described m mods addr sz roots" for sz roots
    proof
      assume "described m mods addr sz roots"
      then obtain s where "s \<in> set (map (item g) [0..<num_points g])" "sp_addr s = addr" using H by blast
      then show False using B None by auto
    qed
    then show ?thesis using None by simp
  next
    case (Some c)
    then have "c < num_points g" "sp_addr (item g c) = addr" using B by simp_all
    then show ?thesis using H Some by auto
  qed
qed

lemma empty_searchable: "n = 0 \<Longrightarrow> k = 0 \<Longrightarrow> searchable m [] (g\<lparr>num_points := n, num_tops := k\<rparr>)"
  by (simp add: searchable_def holds_points_def holds_tops_def described_def)

lemma load_searchable:
  assumes "list_all (module_ok m) mods"
  shows "\<exists>g. sml_gcroot_load m a junk mods st = Some (register_gcroot a (st\<lparr>gcroot_at := (gcroot_at st)(a := g)\<rparr>)) \<and> searchable m mods g"
proof -
  have n: "gcroot_ok (new_gcroot junk)" "holds_points m [] (content (new_gcroot junk))" "holds_tops [] (content (new_gcroot junk))"
    by (simp_all add: gcroot_ok_def new_gcroot_def content_def holds_points_def holds_tops_def described_def)
  obtain g where g: "load_all m mods (new_gcroot junk) = Some g" "gcroot_ok g" "holds_points m mods (content g)" "holds_tops mods (content g)"
    using load_all_content[OF assms n] by auto
  show ?thesis
    by (rule exI[of _ "sort_safe_points g"]) (use sorted_searchable[OF g(2-4)] g(1) in \<open>simp add: sml_gcroot_load_def\<close>)
qed

lemma register_list [simp]: "set (gcroot_list (register_gcroot a st)) = insert a (set (gcroot_list st))"
  "gcroot_at (register_gcroot a st) = gcroot_at st"
  "distinct (gcroot_list (register_gcroot a st)) \<longleftrightarrow> a \<notin> set (gcroot_list st) \<and> distinct (gcroot_list st)"
  by (auto simp: register_gcroot_def split: list.splits)

lemma programs_searchable:
  "list_all (event_ok m) es \<Longrightarrow> distinct (gcroot_list st @ loaded_at es) \<Longrightarrow>
    (\<forall>a \<in> set (gcroot_list st). searchable m (L a) (gcroot_at st a)) \<Longrightarrow>
    (\<forall>a. a \<notin> set (gcroot_list st) \<longrightarrow> L a = []) \<Longrightarrow>
    \<exists>st'. run_programs m junk es st = Some st' \<and> (\<forall>a \<in> set (gcroot_list st'). searchable m (live_modules es L a) (gcroot_at st' a))
      \<and> (\<forall>a. a \<notin> set (gcroot_list st') \<longrightarrow> live_modules es L a = [])"
proof (induction es arbitrary: st L)
  case (Cons e es)
  show ?case
  proof (cases e)
    case (Load a mods)
    obtain g where g: "sml_gcroot_load m a junk mods st = Some (register_gcroot a (st\<lparr>gcroot_at := (gcroot_at st)(a := g)\<rparr>))"
      "searchable m mods g" using load_searchable[of m mods a junk st] Cons.prems(1) by (auto simp: Load)
    have fr: "a \<notin> set (gcroot_list st)" using Cons.prems(2) by (auto simp: Load)
    let ?st = "register_gcroot a (st\<lparr>gcroot_at := (gcroot_at st)(a := g)\<rparr>)"
    have "list_all (event_ok m) es" "distinct (gcroot_list ?st @ loaded_at es)" using Cons.prems(1,2) by (auto simp: Load)
    moreover have "\<forall>b \<in> set (gcroot_list ?st). searchable m ((L(a := mods)) b) (gcroot_at ?st b)" using Cons.prems(3) fr g(2) by auto
    moreover have "\<forall>b. b \<notin> set (gcroot_list ?st) \<longrightarrow> (L(a := mods)) b = []" using Cons.prems(4) by simp
    ultimately show ?thesis using Cons.IH[of ?st "L(a := mods)"] by (simp only: Load run_programs.simps live_modules.simps g(1) option.case)
  next
    case (Unload a)
    let ?st = "sml_gcroot_unload a st"
    have "list_all (event_ok m) es" "distinct (gcroot_list ?st @ loaded_at es)"
      using Cons.prems(1,2) by (auto simp: Unload sml_gcroot_unload_def)
    moreover have "\<forall>b \<in> set (gcroot_list ?st). searchable m ((L(a := [])) b) (gcroot_at ?st b)"
      using Cons.prems(3) empty_searchable by (simp add: sml_gcroot_unload_def)
    moreover have "\<forall>b. b \<notin> set (gcroot_list ?st) \<longrightarrow> (L(a := [])) b = []"
      using Cons.prems(4) by (simp add: sml_gcroot_unload_def)
    ultimately show ?thesis using Cons.IH[of ?st "L(a := [])"] by (simp only: Unload run_programs.simps live_modules.simps)
  qed
qed simp

lemma lookup_in_result:
  "\<forall>a \<in> set ps. searchable m (L a) (gs a) \<Longrightarrow>
    (case lookup_in gs addr ps of
       Some t \<Rightarrow> \<exists>a \<in> set ps. described m (L a) addr (frame_size m t) (root_offsets m t)
     | None \<Rightarrow> \<forall>a \<in> set ps. \<forall>sz roots. \<not> described m (L a) addr sz roots)"
proof (induction ps)
  case (Cons p ps)
  note S = searchable_search[of m "L p" "gs p" addr]
  show ?case
  proof (cases "binary_search addr (item (gs p)) 0 (num_points (gs p))")
    case None then show ?thesis using S Cons by (cases "lookup_in gs addr ps") simp_all
  next
    case (Some c) then show ?thesis using S Cons.prems by auto
  qed
qed simp

text \<open>What is loaded after the events, as one relation between a code address and a frame.\<close>

definition frame_info :: "mem \<Rightarrow> program_event list \<Rightarrow> nat \<Rightarrow> nat \<Rightarrow> nat list \<Rightarrow> bool" where
  "frame_info m es addr sz roots \<longleftrightarrow> (\<exists>a. described m (live_modules es (\<lambda>_. []) a) addr sz roots)"

definition looks_up :: "mem \<Rightarrow> programs \<Rightarrow> (nat \<Rightarrow> nat \<Rightarrow> nat list \<Rightarrow> bool) \<Rightarrow> bool" where
  "looks_up m st D \<longleftrightarrow> (\<forall>addr. case sml_lookup_frametable st addr of
     Some t \<Rightarrow> D addr (frame_size m t) (root_offsets m t) | None \<Rightarrow> (\<forall>sz roots. \<not> D addr sz roots))"

lemma run_searchable:
  assumes "list_all (event_ok m) es" "distinct (loaded_at es)"
  shows "\<exists>st. run_programs m junk es no_programs = Some st
    \<and> (\<forall>a \<in> set (gcroot_list st). searchable m (live_modules es (\<lambda>_. []) a) (gcroot_at st a))
    \<and> (\<forall>a. a \<notin> set (gcroot_list st) \<longrightarrow> live_modules es (\<lambda>_. []) a = [])"
  using programs_searchable[of m es no_programs "\<lambda>_. []" junk] assms by (simp add: no_programs_def)

lemma run_lookup:
  assumes "\<forall>a \<in> set (gcroot_list st). searchable m (live_modules es (\<lambda>_. []) a) (gcroot_at st a)"
    and "\<forall>a. a \<notin> set (gcroot_list st) \<longrightarrow> live_modules es (\<lambda>_. []) a = []"
  shows "looks_up m st (frame_info m es)"
proof -
  have "case sml_lookup_frametable st addr of
          Some t \<Rightarrow> frame_info m es addr (frame_size m t) (root_offsets m t)
        | None \<Rightarrow> \<forall>sz roots. \<not> frame_info m es addr sz roots" for addr
  proof (cases "sml_lookup_frametable st addr")
    case None
    have "\<not> described m (live_modules es (\<lambda>_. []) a) addr sz roots" for a sz roots
    proof (cases "a \<in> set (gcroot_list st)")
      case True
      then show ?thesis using lookup_in_result[OF assms(1), of addr] None by (simp add: sml_lookup_frametable_def)
    next
      case False then show ?thesis using assms(2) by (simp add: described_def)
    qed
    then show ?thesis using None by (simp add: frame_info_def)
  next
    case (Some t)
    then show ?thesis using lookup_in_result[OF assms(1), of addr] by (auto simp: sml_lookup_frametable_def frame_info_def)
  qed
  then show ?thesis by (simp add: looks_up_def)
qed

lemma enum_all_result:
  "enum_all f xs = Inr ys \<Longrightarrow> set ys = {y. \<exists>x \<in> set xs. \<exists>zs. f x = Inr zs \<and> y \<in> set zs}"
proof (induction xs arbitrary: ys)
  case (Cons x xs)
  obtain a b where "f x = Inr a" "enum_all f xs = Inr b" "ys = a @ b"
    using Cons.prems by (auto split: sum.splits)
  then show ?case using Cons.IH[of b] by auto
qed simp

lemma enum_all_none: "\<forall>x \<in> set xs. f x = Inr [] \<Longrightarrow> enum_all f xs = Inr []"
  by (induction xs) auto

lemma enum_all_parts: "enum_all f xs = Inr ys \<Longrightarrow> x \<in> set xs \<Longrightarrow> \<exists>zs. f x = Inr zs"
  by (induction xs arbitrary: ys) (auto split: sum.splits)

lemma global_slots:
  assumes "\<forall>a \<in> set (gcroot_list st). searchable m (live_modules es (\<lambda>_. []) a) (gcroot_at st a)"
    and "\<forall>a. a \<notin> set (gcroot_list st) \<longrightarrow> live_modules es (\<lambda>_. []) a = []"
    and "sml_global_enum_ptr m st = Inr slots"
  shows "set slots = {y. \<exists>a b f r obj zs. (b, f, r) \<in> set (live_modules es (\<lambda>_. []) a) \<and> r \<noteq> 0 \<and> obj \<in> set (top_objects m r)
    \<and> sml_obj_enum_ptr m obj = Inr zs \<and> y \<in> set zs}"
proof -
  let ?top = "\<lambda>r. enum_all (sml_obj_enum_ptr m) (top_objects m r)"
  let ?prog = "\<lambda>p. enum_all (\<lambda>i. ?top (sp_addr (TOPS (gcroot_at st p) i))) [0..<num_tops (gcroot_at st p)]"
  have all: "enum_all ?prog (gcroot_list st) = Inr slots" using assms(3) by (simp add: sml_global_enum_ptr_def Let_def)
  have tops: "(\<exists>i < num_tops (gcroot_at st p). sp_addr (TOPS (gcroot_at st p) i) = r)
      \<longleftrightarrow> r \<noteq> 0 \<and> (\<exists>b f. (b, f, r) \<in> set (live_modules es (\<lambda>_. []) p))" if "p \<in> set (gcroot_list st)" for p r
  proof -
    have "\<forall>i < num_tops (gcroot_at st p). sp_layout (TOPS (gcroot_at st p) i) = 0"
      "holds_tops (live_modules es (\<lambda>_. []) p) (map (TOPS (gcroot_at st p)) [0..<num_tops (gcroot_at st p)])"
      using assms(1) that by (simp_all add: searchable_def)
    then have "(\<exists>s \<in> set (map (TOPS (gcroot_at st p)) [0..<num_tops (gcroot_at st p)]). sp_layout s = 0 \<and> sp_addr s = r)
        \<longleftrightarrow> r \<noteq> 0 \<and> (\<exists>b f. (b, f, r) \<in> set (live_modules es (\<lambda>_. []) p))"
      and "\<forall>i < num_tops (gcroot_at st p). sp_layout (TOPS (gcroot_at st p) i) = 0" unfolding holds_tops_def by blast+
    then show ?thesis by auto
  qed
  have in_top: "y \<in> set ws \<longleftrightarrow> (\<exists>obj zs. obj \<in> set (top_objects m r) \<and> sml_obj_enum_ptr m obj = Inr zs \<and> y \<in> set zs)"
    if "?top r = Inr ws" for r ws y
    using enum_all_result[OF that] by auto
  have in_prog: "y \<in> set vs \<longleftrightarrow> (\<exists>b f r obj zs. (b, f, r) \<in> set (live_modules es (\<lambda>_. []) p) \<and> r \<noteq> 0 \<and> obj \<in> set (top_objects m r)
      \<and> sml_obj_enum_ptr m obj = Inr zs \<and> y \<in> set zs)" if p: "p \<in> set (gcroot_list st)" and vs: "?prog p = Inr vs" for p vs y
  proof -
    have "y \<in> set vs \<longleftrightarrow> (\<exists>i < num_tops (gcroot_at st p). \<exists>ws. ?top (sp_addr (TOPS (gcroot_at st p) i)) = Inr ws \<and> y \<in> set ws)"
      using enum_all_result[OF vs] by auto
    also have "\<dots> \<longleftrightarrow> (\<exists>r. (\<exists>i < num_tops (gcroot_at st p). sp_addr (TOPS (gcroot_at st p) i) = r) \<and> (\<exists>ws. ?top r = Inr ws \<and> y \<in> set ws))"
      by blast
    also have "\<dots> \<longleftrightarrow> (\<exists>r. (\<exists>i < num_tops (gcroot_at st p). sp_addr (TOPS (gcroot_at st p) i) = r)
        \<and> (\<exists>obj zs. obj \<in> set (top_objects m r) \<and> sml_obj_enum_ptr m obj = Inr zs \<and> y \<in> set zs))"
    proof -
      have "(\<exists>ws. ?top r = Inr ws \<and> y \<in> set ws) \<longleftrightarrow> (\<exists>obj zs. obj \<in> set (top_objects m r) \<and> sml_obj_enum_ptr m obj = Inr zs \<and> y \<in> set zs)"
        if i: "\<exists>i < num_tops (gcroot_at st p). sp_addr (TOPS (gcroot_at st p) i) = r" for r
      proof -
        obtain ws where ws: "?top r = Inr ws" using enum_all_parts[OF vs] i by auto
        show ?thesis using in_top[OF ws, of y] by (simp add: ws)
      qed
      then show ?thesis by (intro ex_cong1 conj_cong refl)
    qed
    finally show ?thesis unfolding tops[OF p] by blast
  qed
  show ?thesis
  proof (intro set_eqI)
    fix y
    have "y \<in> set slots \<longleftrightarrow> (\<exists>p \<in> set (gcroot_list st). \<exists>vs. ?prog p = Inr vs \<and> y \<in> set vs)"
      using enum_all_result[OF all] by blast
    also have "\<dots> \<longleftrightarrow> (\<exists>p \<in> set (gcroot_list st). \<exists>b f r obj zs. (b, f, r) \<in> set (live_modules es (\<lambda>_. []) p) \<and> r \<noteq> 0
        \<and> obj \<in> set (top_objects m r) \<and> sml_obj_enum_ptr m obj = Inr zs \<and> y \<in> set zs)"
      using in_prog enum_all_parts[OF all] by meson
    also have "\<dots> \<longleftrightarrow> y \<in> {y. \<exists>a b f r obj zs. (b, f, r) \<in> set (live_modules es (\<lambda>_. []) a) \<and> r \<noteq> 0 \<and> obj \<in> set (top_objects m r)
        \<and> sml_obj_enum_ptr m obj = Inr zs \<and> y \<in> set zs}"
    proof -
      have "a \<in> set (gcroot_list st)" if "(b, f, r) \<in> set (live_modules es (\<lambda>_. []) a)" for a b f r
        using assms(2) that by (cases "a \<in> set (gcroot_list st)") auto
      then show ?thesis unfolding mem_Collect_eq by blast
    qed
    finally show "y \<in> set slots \<longleftrightarrow> y \<in> {y. \<exists>a b f r obj zs. (b, f, r) \<in> set (live_modules es (\<lambda>_. []) a) \<and> r \<noteq> 0 \<and> obj \<in> set (top_objects m r)
        \<and> sml_obj_enum_ptr m obj = Inr zs \<and> y \<in> set zs}" .
  qed
qed

section \<open>Walking the stack\<close>

text \<open>The frames of a range as the tables describe them: from \<open>fp\<close>, each with size and root offsets, to \<open>bottom\<close>.\<close>

fun frames_at :: "mem \<Rightarrow> (nat \<Rightarrow> nat \<Rightarrow> nat list \<Rightarrow> bool) \<Rightarrow> nat \<Rightarrow> (nat \<times> nat list) list \<Rightarrow> nat \<Rightarrow> bool" where
  "frames_at m D fp [] bottom \<longleftrightarrow> False"
| "frames_at m D fp [(sz, roots)] bottom \<longleftrightarrow> D (FRAME_CODE_ADDRESS m fp) sz roots \<and> fp = bottom"
| "frames_at m D fp ((sz, roots) # f # fs) bottom \<longleftrightarrow> D (FRAME_CODE_ADDRESS m fp) sz roots \<and> fp \<noteq> bottom
     \<and> frames_at m D (fp + 8 * sz + 8) (f # fs) bottom"

fun frame_slots :: "nat \<Rightarrow> (nat \<times> nat list) list \<Rightarrow> nat list" where
  "frame_slots fp [] = []"
| "frame_slots fp ((sz, roots) # fs) = map (\<lambda>offset. fp + 8 * offset) roots @ frame_slots (fp + 8 * sz + 8) fs"

definition functional :: "(nat \<Rightarrow> nat \<Rightarrow> nat list \<Rightarrow> bool) \<Rightarrow> bool" where
  "functional D \<longleftrightarrow> (\<forall>addr sz roots sz' roots'. D addr sz roots \<longrightarrow> D addr sz' roots' \<longrightarrow> sz = sz' \<and> roots = roots')"

lemma frame_enum_described:
  assumes "looks_up m st D" "functional D" "D (FRAME_CODE_ADDRESS m fp) sz roots"
  shows "frame_enum_ptr m st fp
    = Some (map Stack_Slot (filter (\<lambda>slot. load64 m slot \<noteq> 0) (map (\<lambda>offset. fp + 8 * offset) roots)), fp + 8 * sz + 8)"
proof -
  have c: "case sml_lookup_frametable st (FRAME_CODE_ADDRESS m fp) of
      Some t \<Rightarrow> D (FRAME_CODE_ADDRESS m fp) (frame_size m t) (root_offsets m t)
    | None \<Rightarrow> (\<forall>sz roots. \<not> D (FRAME_CODE_ADDRESS m fp) sz roots)" using assms(1) by (simp add: looks_up_def)
  then obtain t where t: "sml_lookup_frametable st (FRAME_CODE_ADDRESS m fp) = Some t"
    "D (FRAME_CODE_ADDRESS m fp) (frame_size m t) (root_offsets m t)"
    using assms(3) by (cases "sml_lookup_frametable st (FRAME_CODE_ADDRESS m fp)") auto
  then have "frame_size m t = sz" "root_offsets m t = roots" using assms(2,3) unfolding functional_def by blast+
  then show ?thesis using t(1) by (simp add: frame_enum_ptr_def NEXT_FRAME_def)
qed

lemma range_enum_frames:
  assumes "looks_up m st D" "functional D"
  shows "frames_at m D fp fs bottom \<Longrightarrow> length fs \<le> n \<Longrightarrow>
    range_enum_ptr n m st fp bottom = Some (map Stack_Slot (filter (\<lambda>slot. load64 m slot \<noteq> 0) (frame_slots fp fs)))"
proof (induction fs arbitrary: fp n)
  case (Cons f fs)
  obtain sz roots where f: "f = (sz, roots)" by (cases f)
  obtain k where k: "n = Suc k" using Cons.prems(2) by (cases n) simp_all
  have d: "D (FRAME_CODE_ADDRESS m fp) sz roots" using Cons.prems(1) by (cases fs) (auto simp: f)
  note E = frame_enum_described[OF assms d]
  show ?case
  proof (cases fs)
    case Nil
    then have "bottom = fp" using Cons.prems(1) by (simp add: f)
    then show ?thesis using Nil by (simp add: f k E)
  next
    case (Cons g gs)
    have "fp \<noteq> bottom" "frames_at m D (fp + 8 * sz + 8) fs bottom" using Cons.prems(1) by (simp_all add: f \<open>fs = g # gs\<close>)
    then show ?thesis using Cons.IH[of "fp + 8 * sz + 8" k] Cons.prems(2) by (simp add: f k E)
  qed
qed simp


lemma stack_enum_frames:
  assumes "looks_up m st D" "functional D"
  shows "list_all2 (\<lambda>rg fs. frames_at m D (r_top rg) fs (r_bottom rg) \<and> length fs \<le> n) rgs fss \<Longrightarrow>
    ranges_enum_ptr n m st rgs = Some (concat (map2 (\<lambda>rg fs. map Stack_Slot (filter (\<lambda>slot. load64 m slot \<noteq> 0) (frame_slots (r_top rg) fs))) rgs fss))"
proof (induction rgs fss rule: list_all2_induct)
  case (Cons rg rgs fs fss)
  then show ?case using range_enum_frames[OF assms, of "r_top rg" fs "r_bottom rg" n] by simp
qed simp

section \<open>Properties\<close>

text \<open>C7.  The frame table. After any sequence of loading and unloading programs whose tables are laid out as the compiler
  emits them, a look-up of a code address finds exactly the safe points of the programs that are loaded: it returns a
  descriptor with the frame size and the root offsets the table gives for that address, and it fails for every other
  address. No array is written past its capacity.\<close>

theorem frametable_lookup:
  assumes "list_all (event_ok m) es" "distinct (loaded_at es)"
  shows "\<exists>st. run_programs m junk es no_programs = Some st
    \<and> (\<forall>addr. case sml_lookup_frametable st addr of
          Some t \<Rightarrow> frame_info m es addr (frame_size m t) (root_offsets m t)
        | None \<Rightarrow> (\<forall>sz roots. \<not> frame_info m es addr sz roots))
    \<and> (\<forall>a \<in> set (gcroot_list st). num_points (gcroot_at st a) + num_tops (gcroot_at st a) \<le> capacity (gcroot_at st a))"
proof -
  obtain st where st: "run_programs m junk es no_programs = Some st"
    "\<forall>a \<in> set (gcroot_list st). searchable m (live_modules es (\<lambda>_. []) a) (gcroot_at st a)"
    "\<forall>a. a \<notin> set (gcroot_list st) \<longrightarrow> live_modules es (\<lambda>_. []) a = []"
    using run_searchable[OF assms] by blast
  have "num_points (gcroot_at st a) + num_tops (gcroot_at st a) \<le> capacity (gcroot_at st a)" if "a \<in> set (gcroot_list st)" for a
    using st(2) that by (simp add: searchable_def)
  then show ?thesis using run_lookup[OF st(2,3)] st(1) by (simp add: looks_up_def)
qed

text \<open>C6.  The root set. When the frames of a user's stack ranges are those that the loaded tables describe, the stack walk
  reports exactly the saved exception, if there is one, and the non-null slots at the root offsets of every frame, in
  order, and ends at the bottom of every range; the enumeration of globals reports exactly the fields of the top level
  objects of the programs that are loaded.\<close>

theorem root_set:
  assumes "list_all (event_ok m) es" "distinct (loaded_at es)" "run_programs m junk es no_programs = Some st"
    and "functional (frame_info m es)"
    and "list_all2 (\<lambda>rg fs. frames_at m (frame_info m es) (r_top rg) fs (r_bottom rg) \<and> length fs \<le> n) (u_stack (c_user c user)) fss"
    and "sml_global_enum_ptr m st = Inr slots"
  shows "sml_stack_enum_ptr n m st c user = Some ((if u_exn_object (c_user c user) \<noteq> 0 then [Exn_Slot user] else [])
      @ concat (map2 (\<lambda>rg fs. map Stack_Slot (filter (\<lambda>slot. load64 m slot \<noteq> 0) (frame_slots (r_top rg) fs))) (u_stack (c_user c user)) fss))
    \<and> set slots = {y. \<exists>a b f r obj zs. (b, f, r) \<in> set (live_modules es (\<lambda>_. []) a) \<and> r \<noteq> 0 \<and> obj \<in> set (top_objects m r)
        \<and> sml_obj_enum_ptr m obj = Inr zs \<and> y \<in> set zs}"
proof -
  have S: "\<forall>a \<in> set (gcroot_list st). searchable m (live_modules es (\<lambda>_. []) a) (gcroot_at st a)"
    "\<forall>a. a \<notin> set (gcroot_list st) \<longrightarrow> live_modules es (\<lambda>_. []) a = []"
    using run_searchable[OF assms(1,2), of junk] assms(3) by auto
  show ?thesis
    using stack_enum_frames[OF run_lookup[OF S] assms(4,5)] global_slots[OF S assms(6)] by (simp add: sml_stack_enum_ptr_def)
qed

section \<open>Witnesses\<close>

lemma load16_bytes: "load16 m a = unat (m a) + 256 * unat (m (a + 1))"
proof -
  have "2 = Suc (Suc 0)" by simp
  then show ?thesis by (simp only: load16_def load_bytes.simps) simp
qed

text \<open>One module at 1000 with a table at 64 and an empty list of top level objects at 96; a stack with one frame.\<close>

definition sample_image :: mem where
  "sample_image a =
     (let bytes = [1,0, 2,0, 1,0, 1,0, 16,0,0,0,0,0,0,0, 0,0]
      in if 64 \<le> a \<and> a < 64 + length bytes then bytes ! (a - 64)
         else if a = 4088 then 248 else if a = 4089 then 3 else if a = 4104 then 8 else 0)"

definition sample_events :: "program_event list" where
  "sample_events = [Load 8 [], Load 16 [(1000, 64, 96)], Unload 8]"

definition sample_descriptor :: descriptor where
  "sample_descriptor = \<lparr>d_frame = 2, d_roots = [1], d_points = [16]\<rparr>"

lemma sample_table: "table_at sample_image 64 [sample_descriptor]"
  by (simp add: descriptor_at_def sample_descriptor_def load16_bytes load64_def load_bytes_8 load_bytes_4 sample_image_def CEILING_def)

lemma sample_events_ok: "list_all (event_ok sample_image) sample_events" "distinct (loaded_at sample_events)"
proof -
  have "\<exists>ds. table_at sample_image 64 ds" using sample_table by blast
  then show "list_all (event_ok sample_image) sample_events" by (simp add: sample_events_def module_ok_def)
qed (simp add: sample_events_def)

lemma sample_live: "live_modules sample_events (\<lambda>_. []) a = (if a = 16 then [(1000, 64, 96)] else [])"
  by (simp add: sample_events_def)

lemma sample_frames: "frame_info sample_image sample_events addr sz roots \<longleftrightarrow> addr = 1016 \<and> sz = 2 \<and> roots = [1]"
proof
  assume "frame_info sample_image sample_events addr sz roots"
  then obtain a where "described sample_image (live_modules sample_events (\<lambda>_. []) a) addr sz roots"
    by (auto simp: frame_info_def)
  then have "described sample_image [(1000, 64, 96)] addr sz roots"
    by (cases "a = 16") (simp_all add: sample_live described_def)
  then obtain ds d p where d: "table_at sample_image 64 ds" "d \<in> set ds" "p \<in> set (d_points d)" "addr = (1000 + p) mod 2 ^ 64"
    "sz = d_frame d" "roots = d_roots d" by (auto simp: described_def)
  have "ds = [sample_descriptor]" using table_unique[OF sample_table d(1)] by simp
  then show "addr = 1016 \<and> sz = 2 \<and> roots = [1]" using d(2-6) by (simp add: sample_descriptor_def)
next
  assume "addr = 1016 \<and> sz = 2 \<and> roots = [1]"
  then have "described sample_image (live_modules sample_events (\<lambda>_. []) 16) addr sz roots"
    using sample_table unfolding described_def sample_live
    by (intro exI[of _ 1000] exI[of _ 64] exI[of _ 96] exI[of _ "[sample_descriptor]"] exI[of _ sample_descriptor] exI[of _ 16])
      (simp add: sample_descriptor_def)
  then show "frame_info sample_image sample_events addr sz roots" unfolding frame_info_def by blast
qed

lemma frametable_lookup_witness:
  "\<exists>st t. run_programs sample_image (\<lambda>_. \<lparr>sp_addr = 0, sp_layout = 0\<rparr>) sample_events no_programs = Some st
    \<and> sml_lookup_frametable st 1016 = Some t \<and> frame_size sample_image t = 2 \<and> root_offsets sample_image t = [1]
    \<and> sml_lookup_frametable st 1000 = None"
proof -
  let ?j = "\<lambda>_. \<lparr>sp_addr = 0, sp_layout = 0\<rparr> :: safe_point"
  obtain st where st: "run_programs sample_image ?j sample_events no_programs = Some st"
    "\<forall>addr. case sml_lookup_frametable st addr of
        Some t \<Rightarrow> frame_info sample_image sample_events addr (frame_size sample_image t) (root_offsets sample_image t)
      | None \<Rightarrow> (\<forall>sz roots. \<not> frame_info sample_image sample_events addr sz roots)"
    using frametable_lookup[OF sample_events_ok, of ?j] by blast
  have "\<exists>t. sml_lookup_frametable st 1016 = Some t \<and> frame_size sample_image t = 2 \<and> root_offsets sample_image t = [1]"
    using st(2)[rule_format, of 1016] by (cases "sml_lookup_frametable st 1016") (simp_all add: sample_frames)
  moreover have "sml_lookup_frametable st 1000 = None"
    using st(2)[rule_format, of 1000] by (cases "sml_lookup_frametable st 1000") (simp_all add: sample_frames)
  ultimately show ?thesis using st(1) by blast
qed

definition sample_stack :: control where
  "sample_stack = \<lparr>c_worker = (\<lambda>_. \<lparr>w_state = 1, w_flags = 0, w_users = [], w_current_user = 0, w_allocator = 0, w_check_hook = 0\<rparr>),
     c_user = (\<lambda>_. \<lparr>u_flags = 0, u_worker = 8, u_stack = [\<lparr>r_bottom = 4096, r_top = 4096\<rparr>], u_exn_object = 24\<rparr>), c_available = [],
     c_phase = 1, c_handshake = [], c_stamp = 0, c_check_flag = 0, c_gc_count = 0, c_calls = []\<rparr>"

lemma root_set_witness:
  "\<exists>st. run_programs sample_image (\<lambda>_. \<lparr>sp_addr = 0, sp_layout = 0\<rparr>) sample_events no_programs = Some st
    \<and> sml_stack_enum_ptr 1 sample_image st sample_stack 32 = Some [Exn_Slot 32, Stack_Slot 4104]"
proof -
  let ?j = "\<lambda>_. \<lparr>sp_addr = 0, sp_layout = 0\<rparr> :: safe_point"
  obtain st where st: "run_programs sample_image ?j sample_events no_programs = Some st"
    using run_searchable[OF sample_events_ok, of ?j] by blast
  have S: "\<forall>a \<in> set (gcroot_list st). searchable sample_image (live_modules sample_events (\<lambda>_. []) a) (gcroot_at st a)"
    using run_searchable[OF sample_events_ok, of ?j] st by auto
  have fn: "functional (frame_info sample_image sample_events)" by (simp add: functional_def sample_frames)
  have fr: "list_all2 (\<lambda>rg fs. frames_at sample_image (frame_info sample_image sample_events) (r_top rg) fs (r_bottom rg) \<and> length fs \<le> 1)
      (u_stack (c_user sample_stack 32)) [[(2, [1])]]"
    by (simp add: sample_stack_def sample_frames FRAME_CODE_ADDRESS_def load64_def load_bytes_8 load_bytes_4 sample_image_def)
  have no: "sml_global_enum_ptr sample_image st = Inr []"
  proof -
    have tops: "top_objects sample_image 96 = []"
      by (simp add: top_objects_def load64_def load_bytes_8 load_bytes_4 sample_image_def)
    have "sp_addr (TOPS (gcroot_at st p) i) = 96" if "p \<in> set (gcroot_list st)" "i < num_tops (gcroot_at st p)" for p i
    proof -
      have "holds_tops (live_modules sample_events (\<lambda>_. []) p) (map (TOPS (gcroot_at st p)) [0..<num_tops (gcroot_at st p)])"
        "sp_layout (TOPS (gcroot_at st p) i) = 0" using S that by (simp_all add: searchable_def)
      then have "\<exists>b f. (b, f, sp_addr (TOPS (gcroot_at st p) i)) \<in> set (live_modules sample_events (\<lambda>_. []) p)"
        using that(2) unfolding holds_tops_def by (metis (no_types, lifting) add_0 atLeast0LessThan imageI lessThan_iff list.set_map set_upt)
      then show ?thesis by (auto simp: sample_live split: if_splits)
    qed
    then have "\<forall>p \<in> set (gcroot_list st). \<forall>i < num_tops (gcroot_at st p). top_objects sample_image (sp_addr (TOPS (gcroot_at st p) i)) = []"
      using tops by simp
    then show ?thesis by (simp add: sml_global_enum_ptr_def Let_def enum_all_none)
  qed
  have "load64 sample_image 4104 = 8" by (simp add: load64_def load_bytes_8 load_bytes_4 sample_image_def)
  then show ?thesis
    using root_set[OF sample_events_ok st fn fr no] st by (simp add: sample_stack_def)
qed

end
