(* ===== verification/Collection.thy ===== *)
theory Collection
  imports Workers Marking FrameTable
begin

unbundle bit_operations_syntax

text \<open>
  Marking in a whole collection: the calls that control.c makes, carried out by the functions of
  heap_concurrent.c on the roots that control.c and top.c enumerate.
\<close>

section \<open>Carrying out the calls\<close>

text \<open>
  What the calls refer to and what does not change while the only worker answers the collector: the loaded
  programs, the contexts with the closed stack ranges, the slots of the callback table, the worker and the
  heap of an allocator.  The fuel is for stack walks and tracing.
\<close>

record environment =
  en_fuel :: nat
  en_programs :: programs
  en_control :: control
  en_callback_slots :: "nat list"
  en_worker :: "nat \<Rightarrow> nat"
  en_heap :: "nat \<Rightarrow> heap"

type_synonym marking_state = "gc_state \<times> (nat \<Rightarrow> mark_stacks)"

text \<open>The address of a root slot: \<open>exn_object\<close> is 32 bytes into \<open>struct sml_user\<close>.\<close>

fun root_slot :: "root \<Rightarrow> nat" where
  "root_slot (Exn_Slot user) = user + 32"
| "root_slot (Stack_Slot a) = a"

text \<open>\<open>None\<close> is a fatal error or a lack of fuel.  The calls after marking are not carried out here.\<close>

definition heap_do :: "environment \<Rightarrow> heap_call \<Rightarrow> marking_state \<Rightarrow> marking_state option" where
  "heap_do en h = (\<lambda>(st, allocs). case h of
       User_Sync2 u a \<Rightarrow>
         (case sml_stack_enum_ptr (en_fuel en) (gc_mem st) (en_programs en) (en_control en) u of
            None \<Rightarrow> None
          | Some roots \<Rightarrow> (case sml_heap_user_sync2 st u (map root_slot roots) (allocs a) of
              (st, al) \<Rightarrow> Some (st, allocs(a := al))))
     | Worker_Sync2 a \<Rightarrow> Some (sml_heap_worker_sync2 st (en_worker en a) a (en_heap en a), allocs)
     | Global_Sync2 a \<Rightarrow>
         (case sml_global_enum_ptr (gc_mem st) (en_programs en) of
            Inl _ \<Rightarrow> None
          | Inr slots \<Rightarrow> (case sml_heap_global_sync2 st slots (en_callback_slots en) (allocs a) of
              (st, al) \<Rightarrow> Some (st, allocs(a := al))))
     | Worker_Mark a \<Rightarrow>
         (case sml_heap_worker_mark (en_fuel en) st (allocs a) of
            Inl _ \<Rightarrow> None
          | Inr (st, al) \<Rightarrow> Some (st, allocs(a := al)))
     | _ \<Rightarrow> None)"

fun heap_run :: "environment \<Rightarrow> heap_call list \<Rightarrow> marking_state \<Rightarrow> marking_state option" where
  "heap_run en [] s = Some s"
| "heap_run en (h # hs) s = Option.bind (heap_do en h s) (heap_run en hs)"

lemma heap_run_append: "heap_run en (hs @ ks) s = Option.bind (heap_run en hs s) (heap_run en ks)"
  by (induction hs arbitrary: s) (simp_all split: Option.bind_split)

text \<open>The calls that \<open>c'\<close> has made since \<open>c\<close>, up to the finalizers.\<close>

definition marking_calls :: "control \<Rightarrow> control \<Rightarrow> heap_call list" where
  "marking_calls c c' = takeWhile (\<lambda>h. h \<noteq> Run_Finalizer) (drop (length (c_calls c)) (rev (c_calls c')))"

section \<open>Gathering the roots\<close>

definition old_bit :: "gc_state \<Rightarrow> nat \<Rightarrow> bool" where
  "old_bit st obj = bit_at (seg_words (obj_seg st obj)) BITMAP0_BASE (obj_index st obj)"

text \<open>Marking and linking keep the bitmap of the last collection.\<close>

definition same_old :: "nat set \<Rightarrow> gc_state \<Rightarrow> gc_state \<Rightarrow> bool" where
  "same_old D st st' \<longleftrightarrow> same_heap D st st'
     \<and> (\<forall>obj \<in> D. \<not> skipped (gc_mem st) obj \<longrightarrow> \<not> large st obj \<longrightarrow> old_bit st' obj = old_bit st obj)"

lemma same_old_refl: "same_old D st st"
  by (simp add: same_old_def same_heap_refl)

lemma same_old_trans: "same_old D st st' \<Longrightarrow> same_old D st' st'' \<Longrightarrow> same_old D st st''"
  using same_heap_trans[of D st st' st''] by (simp add: same_old_def same_heap_def large_def)

lemma set_mark_old:
  assumes "obj_ok st p" "\<not> large st p"
  shows "old_bit (set_mark st obj) p = old_bit st p"
proof -
  obtain i k where b: "in_block st p i k" using assms by (auto simp: obj_ok_def)
  then have l: "obj_index st p = k" "seg_the_layout (obj_seg st p) = compute_segment_layout i"
    "layout_ok (compute_segment_layout i)" "k < num_blocks (compute_segment_layout i)"
    using in_block_index[OF b] compute_segment_layout_ok(1)[of i] by (auto simp: in_block_def)
  show ?thesis
    using collect_bits_above[OF l(3,4)] l(1,2)
    by (auto simp: old_bit_def set_mark_def obj_seg_def update_segment_def obj_index_def simp del: BITMAP0_BASE_eq)
qed

lemma visit_old:
  assumes "heap_ok st D" "v \<in> insert 0 D"
  shows "same_old D st (snd (visit st v))"
    and "obj \<in> D \<Longrightarrow> \<not> skipped (gc_mem st) obj \<Longrightarrow>
      marked (snd (visit st v)) obj \<longleftrightarrow> marked st obj \<or> obj = v \<and> target st v"
proof -
  have "v = 0 \<or> skipped (gc_mem st) v \<or> obj_ok st v" using heap_okD[OF assms(1)] assms(2) by auto
  then have "visit st v = (None, st) \<and> (v = 0 \<or> skipped (gc_mem st) v \<or> \<not> target st v \<or> marked st v)
      \<or> obj_ok st v \<and> target st v \<and> \<not> marked st v \<and> visit st v = (object_stack_slot st v, set_mark st v)"
    using visit_skip[of v st] visit_eq[of st v] by (metis (full_types))
  then consider "visit st v = (None, st)" "v = 0 \<or> skipped (gc_mem st) v \<or> \<not> target st v \<or> marked st v"
    | "obj_ok st v" "target st v" "\<not> marked st v" "visit st v = (object_stack_slot st v, set_mark st v)" by blast
  note C = this
  have ok: "obj_ok st x" if "x \<in> D" "\<not> skipped (gc_mem st) x" for x using heap_okD[OF assms(1) that] .
  show "same_old D st (snd (visit st v))"
  proof (cases rule: C)
    case 2
    then show ?thesis
      using ok by (simp add: same_old_def same_heap_def set_mark_ok set_mark_target set_mark_old) (simp add: fun_eq_iff)
  qed (simp add: same_old_refl)
  show "marked (snd (visit st v)) obj \<longleftrightarrow> marked st obj \<or> obj = v \<and> target st v" if x: "obj \<in> D" "\<not> skipped (gc_mem st) obj"
  proof (cases rule: C)
    case 1
    then show ?thesis using targetD[of st v] by auto
  next
    case 2
    then show ?thesis using set_mark_marked[OF 2(1) ok[OF x]] by auto
  qed
qed

lemma next_old: "old_bit (st\<lparr>gc_next := f\<rparr>) = old_bit st"
  by (simp add: fun_eq_iff old_bit_def obj_seg_def obj_index_def)

lemma push_old:
  assumes "heap_ok st D" "v \<in> insert 0 D"
  shows "same_old D st (fst (push st t v))"
proof -
  have "same_old D (snd (visit st v)) (fst (push st t v))"
  proof (cases "visit st v")
    case (Pair slot st1)
    have "same_heap D st1 (st1\<lparr>gc_next := f\<rparr>)" for f by (simp add: same_heap_def next_inert)
    then show ?thesis by (cases slot) (simp_all add: push_def Pair same_old_refl, simp add: same_old_def next_old)
  qed
  then show ?thesis by (rule same_old_trans[OF visit_old(1)[OF assms]])
qed

lemma enum_push_old:
  assumes "heap_ok st D" "load64 (gc_mem st) ` set slots \<subseteq> insert 0 D"
  shows "same_old D st (fst (enum_push slots (st, t)))"
  using assms
proof (induction slots arbitrary: st t)
  case Nil
  then show ?case by (simp add: enum_push_def same_old_refl)
next
  case (Cons p slots)
  define v where "v = load64 (gc_mem st) p"
  obtain st1 t1 where p1: "push st t v = (st1, t1)" by fastforce
  have s1: "same_old D st st1" using push_old[OF Cons.prems(1), of v t] Cons.prems(2) p1 by (simp add: v_def)
  then have m1: "gc_mem st1 = gc_mem st" and ok1: "heap_ok st1 D"
    using same_heap_ok[OF _ Cons.prems(1)] by (simp_all add: same_old_def same_heap_def[of D st st1])
  have "same_old D st1 (fst (enum_push slots (st1, t1)))"
    using Cons.prems(2) by (intro Cons.IH[OF ok1]) (simp add: m1)
  moreover have "enum_push (p # slots) (st, t) = enum_push slots (st1, t1)"
    by (simp add: enum_push_def push_enum_def p1 flip: v_def)
  ultimately show ?case using same_old_trans[OF s1] by simp
qed

text \<open>
  Between the start and the first trace: \<open>X\<close> are the values of the root slots passed so far, \<open>C\<close> the contexts
  visited so far.  Exactly these are marked, and what is marked for its own sake is on the stack.
\<close>

definition gathered :: "nat set \<Rightarrow> gc_state \<Rightarrow> nat set \<Rightarrow> nat set \<Rightarrow> gc_state \<Rightarrow> nat \<Rightarrow> bool" where
  "gathered D st0 X C st sp \<longleftrightarrow> heap_ok st D \<and> same_old D st0 st
     \<and> (\<forall>obj \<in> D. \<not> skipped (gc_mem st) obj \<longrightarrow> target st obj \<and> (marked st obj \<longleftrightarrow> obj \<in> X \<union> C))
     \<and> (\<exists>xs. stack_of st sp xs \<and> distinct xs \<and> set xs \<subseteq> {obj \<in> D. target st obj \<and> marked st obj}
          \<and> {obj \<in> D. \<not> skipped (gc_mem st) obj \<and> obj \<in> X} \<subseteq> set xs \<union> C)"

lemma gathered_mem: "gathered D st0 X C st sp \<Longrightarrow> gc_mem st = gc_mem st0"
  by (simp add: gathered_def same_old_def same_heap_def)

lemma visit_stack: "obj_ok st v \<or> v = 0 \<or> skipped (gc_mem st) v \<Longrightarrow> stack_of (snd (visit st v)) sp xs = stack_of st sp xs"
  by (rule stack_of_cong) (auto simp: visit_eq visit_skip)

lemma gathered_visit:
  assumes "gathered D st0 X C st sp" "v \<in> insert 0 D"
  shows "gathered D st0 X (insert v C) (snd (visit st v)) sp"
proof -
  let ?st = "snd (visit st v)"
  obtain xs where xs: "stack_of st sp xs" "distinct xs" "set xs \<subseteq> {obj \<in> D. target st obj \<and> marked st obj}"
      "{obj \<in> D. \<not> skipped (gc_mem st) obj \<and> obj \<in> X} \<subseteq> set xs \<union> C"
    and ok: "heap_ok st D" and old: "same_old D st0 st"
    and all: "\<And>obj. obj \<in> D \<Longrightarrow> \<not> skipped (gc_mem st) obj \<Longrightarrow> target st obj \<and> (marked st obj \<longleftrightarrow> obj \<in> X \<union> C)"
    using assms(1) unfolding gathered_def by blast
  note V = visit_old(1)[OF ok assms(2)] visit_old(2)[OF ok assms(2)]
  have sh: "same_heap D st ?st" and m: "gc_mem ?st = gc_mem st"
    using V(1) by (simp_all add: same_old_def same_heap_def)
  have tg: "target ?st obj = target st obj" if "obj \<in> D" for obj by (rule same_heap_target[OF sh ok that])
  have mk: "marked ?st obj \<longleftrightarrow> obj \<in> X \<union> insert v C" if "obj \<in> D" "\<not> skipped (gc_mem st) obj" for obj
    using V(2)[OF that] all[OF that] by auto
  have "stack_of ?st sp xs"
    using xs(1) visit_stack[of st v sp xs] heap_okD[OF ok, of v] assms(2) by auto
  moreover have "set xs \<subseteq> {obj \<in> D. target ?st obj \<and> marked ?st obj}"
  proof
    fix x assume x: "x \<in> set xs"
    then have "x \<in> D" "target st x" "marked st x" using xs(3) by auto
    then show "x \<in> {obj \<in> D. target ?st obj \<and> marked ?st obj}" using V(2) tg targetD[of st x] by auto
  qed
  ultimately show ?thesis
    unfolding gathered_def m using xs(2,4) same_heap_ok[OF sh ok] same_old_trans[OF old V(1)] mk all tg by blast
qed

lemma gathered_push:
  assumes "gathered D st0 X C st sp" "load64 (gc_mem st0) ` set slots \<subseteq> insert 0 D"
    and "enum_push slots (st, sp) = (st', sp')"
  shows "gathered D st0 (X \<union> load64 (gc_mem st0) ` set slots) C st' sp'"
proof -
  let ?Y = "load64 (gc_mem st0) ` set slots"
  have m0: "gc_mem st = gc_mem st0" by (rule gathered_mem[OF assms(1)])
  obtain xs where xs: "stack_of st sp xs" "distinct xs" "set xs \<subseteq> {obj \<in> D. target st obj \<and> marked st obj}"
      "{obj \<in> D. \<not> skipped (gc_mem st) obj \<and> obj \<in> X} \<subseteq> set xs \<union> C"
    and ok: "heap_ok st D" and old: "same_old D st0 st"
    and all: "\<And>obj. obj \<in> D \<Longrightarrow> \<not> skipped (gc_mem st) obj \<Longrightarrow> target st obj \<and> (marked st obj \<longleftrightarrow> obj \<in> X \<union> C)"
    using assms(1) unfolding gathered_def by blast
  define tops where "tops = (\<lambda>i :: nat. if i = 0 then sp else 0)"
  define stk where "stk = (\<lambda>i :: nat. if i = 0 then xs else [])"
  have inv: "mark_inv D st tops stk"
    using ok xs(1-3) by (auto simp: mark_inv_def tops_def stk_def)
  have run: "enum_push slots (st, tops 0) = (st', sp')" using assms(3) by (simp add: tops_def)
  have vals: "load64 (gc_mem st) ` set slots \<subseteq> insert 0 D" using assms(2) by (simp add: m0)
  obtain stk' where S: "mark_inv D st' (tops(0 := sp')) stk'" "shades D 0 ?Y st stk st' stk'"
    using enum_push_shades[OF inv vals run] unfolding m0 by blast
  have sh: "same_heap D st st'" and grey: "set (stk' 0) = set xs \<union> (?Y \<inter> white st D)"
    and mk: "\<And>obj. obj \<in> D \<Longrightarrow> \<not> skipped (gc_mem st) obj \<Longrightarrow> marked st' obj \<longleftrightarrow> marked st obj \<or> obj \<in> ?Y \<inter> white st D"
    using S(2) by (simp_all add: shades_def stk_def)
  have m: "gc_mem st' = gc_mem st" using sh by (simp add: same_heap_def)
  have o: "same_old D st st'" using enum_push_old[OF ok vals, of sp] assms(3) by simp
  have w: "white st D = {obj \<in> D. \<not> skipped (gc_mem st) obj \<and> obj \<notin> X \<union> C}"
    using all targetD[of st] unfolding white_def by blast
  have tg: "target st' obj = target st obj" if "obj \<in> D" for obj by (rule same_heap_target[OF sh ok that])
  have mk': "marked st' obj \<longleftrightarrow> obj \<in> (X \<union> ?Y) \<union> C" if "obj \<in> D" "\<not> skipped (gc_mem st) obj" for obj
    using mk[OF that] all[OF that] that unfolding w by blast
  have "stack_of st' sp' (stk' 0)" "distinct (stk' 0)" "set (stk' 0) \<subseteq> {obj \<in> D. target st' obj \<and> marked st' obj}"
    using S(1) unfolding mark_inv_def by (auto dest: spec[of _ 0])
  moreover have "{obj \<in> D. \<not> skipped (gc_mem st) obj \<and> obj \<in> X \<union> ?Y} \<subseteq> set (stk' 0) \<union> C"
    using xs(4) unfolding grey w by blast
  ultimately show ?thesis
    unfolding gathered_def m using same_heap_ok[OF sh ok] same_old_trans[OF old o] mk' all tg by blast
qed

section \<open>The snapshot of the allocation pointers\<close>

text \<open>Every object in a segment being allocated from is older than the last collection or below the pointer.\<close>

definition snapshot_ready :: "heap \<Rightarrow> gc_state \<Rightarrow> nat set \<Rightarrow> bool" where
  "snapshot_ready heap st D \<longleftrightarrow> (\<forall>i < NUM_SUBHEAPS. \<forall>p. ap_p (hp_ptr heap i) = Some p \<longrightarrow>
     (\<forall>obj \<in> D. \<not> skipped (gc_mem st) obj \<longrightarrow> \<not> large st obj \<longrightarrow> segment_of obj = the (ap_seg (hp_ptr heap i)) \<longrightarrow>
        old_bit st obj \<or> offset_of obj < p))"

lemma save_alloc_ptr_segment:
  "seg_layout (save_alloc_ptr ptr segs s) = seg_layout (segs s)" "seg_words (save_alloc_ptr ptr segs s) = seg_words (segs s)"
  "allocptr_snapshot (save_alloc_ptr ptr segs s)
    = (case ap_p ptr of Some p \<Rightarrow> if s = the (ap_seg ptr) then p else allocptr_snapshot (segs s) | None \<Rightarrow> allocptr_snapshot (segs s))"
  by (simp_all add: save_alloc_ptr_def Let_def split: option.splits)

lemma snapshot_fold:
  "seg_layout (fold (\<lambda>i. save_alloc_ptr (ptr i)) is segs s) = seg_layout (segs s)
   \<and> seg_words (fold (\<lambda>i. save_alloc_ptr (ptr i)) is segs s) = seg_words (segs s)
   \<and> (allocptr_snapshot (fold (\<lambda>i. save_alloc_ptr (ptr i)) is segs s) = allocptr_snapshot (segs s)
      \<or> (\<exists>i \<in> set is. ap_p (ptr i) = Some (allocptr_snapshot (fold (\<lambda>i. save_alloc_ptr (ptr i)) is segs s)) \<and> s = the (ap_seg (ptr i))))"
proof (induction "is" arbitrary: segs)
  case (Cons i "is")
  show ?case
    using Cons.IH[of "save_alloc_ptr (ptr i) segs"]
    by (auto simp: save_alloc_ptr_segment split: option.splits if_splits)
qed simp

lemma take_snapshot_segment:
  "seg_layout (take_allocptr_snapshot heap segs s) = seg_layout (segs s)" "seg_words (take_allocptr_snapshot heap segs s) = seg_words (segs s)"
  "allocptr_snapshot (take_allocptr_snapshot heap segs s) = allocptr_snapshot (segs s)
   \<or> (\<exists>i < NUM_SUBHEAPS. ap_p (hp_ptr heap i) = Some (allocptr_snapshot (take_allocptr_snapshot heap segs s)) \<and> s = the (ap_seg (hp_ptr heap i)))"
  using snapshot_fold[of "hp_ptr heap" "[0..<NUM_SUBHEAPS]" segs s] unfolding take_allocptr_snapshot_def by auto

lemma snapshot_inert:
  fixes st heap defines "st' \<equiv> st\<lparr>gc_segs := take_allocptr_snapshot heap (gc_segs st)\<rparr>"
  shows "large st' = large st" "obj_index st' = obj_index st" "old_bit st' = old_bit st" "marked st' = marked st"
    "obj_ok st' = obj_ok st" "object_stack_slot st' = object_stack_slot st" "malloc_seg_of st' = malloc_seg_of st"
    "gc_mem st' = gc_mem st" "gc_next st' = gc_next st"
proof -
  have l: "large st' = large st" "seg_the_layout (obj_seg st' p) = seg_the_layout (obj_seg st p)"
      "malloc_seg_of st' = malloc_seg_of st" "seg_words (obj_seg st' p) = seg_words (obj_seg st p)"
      "seg_layout (obj_seg st' p) = seg_layout (obj_seg st p)" for p
    by (simp_all add: st'_def fun_eq_iff large_def seg_the_layout_def obj_seg_def take_snapshot_segment malloc_seg_of_def)
  then show "large st' = large st" "malloc_seg_of st' = malloc_seg_of st" by simp_all
  show i: "obj_index st' = obj_index st" by (simp add: fun_eq_iff obj_index_def l)
  then show "old_bit st' = old_bit st" "marked st' = marked st"
    by (simp_all add: fun_eq_iff old_bit_def marked_def l)
  have b: "in_block st' = in_block st" by (simp add: fun_eq_iff in_block_def l)
  have m: "gc_mem st' = gc_mem st" "gc_malloc st' = gc_malloc st" by (simp_all add: st'_def)
  then show "obj_ok st' = obj_ok st" "object_stack_slot st' = object_stack_slot st"
    unfolding fun_eq_iff obj_ok_def object_stack_slot_def l b i m by simp_all
  show "gc_mem st' = gc_mem st" "gc_next st' = gc_next st" by (simp_all add: st'_def)
qed

lemma gathered_snapshot:
  assumes "gathered D st0 X C st sp" "snapshot_ready heap st0 D"
  shows "gathered D st0 X C (st\<lparr>gc_segs := take_allocptr_snapshot heap (gc_segs st)\<rparr>) sp"
proof -
  let ?st = "st\<lparr>gc_segs := take_allocptr_snapshot heap (gc_segs st)\<rparr>"
  note N = snapshot_inert[where st = st and heap = heap]
  have ok: "heap_ok st D" and old: "same_old D st0 st"
    and all: "\<And>obj. obj \<in> D \<Longrightarrow> \<not> skipped (gc_mem st) obj \<Longrightarrow> target st obj \<and> (marked st obj \<longleftrightarrow> obj \<in> X \<union> C)"
    using assms(1) unfolding gathered_def by blast+
  have m0: "gc_mem st = gc_mem st0" by (rule gathered_mem[OF assms(1)])
  have tg: "target ?st obj" if x: "obj \<in> D" "\<not> skipped (gc_mem st) obj" for obj
  proof (cases "large st obj")
    case True
    then show ?thesis using all[OF x] unfolding target_def N by simp
  next
    case False
    have "old_bit st obj \<or> offset_of obj < allocptr_snapshot (gc_segs st (segment_of obj))"
      using all[OF x] False by (simp add: target_def old_bit_def obj_seg_def)
    moreover have "old_bit st obj \<or> offset_of obj < p"
      if "i < NUM_SUBHEAPS" "ap_p (hp_ptr heap i) = Some p" "segment_of obj = the (ap_seg (hp_ptr heap i))" for i p
    proof -
      have l0: "\<not> large st0 obj" using False by (simp add: large_def m0)
      then have "old_bit st0 obj \<or> offset_of obj < p"
        using assms(2) that x by (simp add: snapshot_ready_def m0)
      then show ?thesis using old x l0 by (simp add: same_old_def m0)
    qed
    ultimately have "old_bit st obj \<or> offset_of obj < allocptr_snapshot (take_allocptr_snapshot heap (gc_segs st) (segment_of obj))"
      using take_snapshot_segment(3)[of heap "gc_segs st" "segment_of obj"] by metis
    then have "old_bit ?st obj \<or> offset_of obj < allocptr_snapshot (obj_seg ?st obj)" unfolding N by (simp add: obj_seg_def)
    moreover have "obj \<noteq> 0" "\<not> large ?st obj" "\<not> skipped (gc_mem ?st) obj" using targetD[of st obj] all[OF x] False x(2) by (simp_all add: N)
    ultimately show ?thesis unfolding target_def old_bit_def by (metis (full_types))
  qed
  have T: "target ?st obj = target st obj" if "obj \<in> D" for obj
    using tg[OF that] all[OF that] targetD[of st obj] targetD[of ?st obj] unfolding N by metis
  have same: "same_old D st ?st" unfolding same_old_def same_heap_def N using T by blast
  have ok': "heap_ok ?st D" using same_heap_ok[OF _ ok] same by (simp add: same_old_def)
  have st: "stack_of ?st sp xs = stack_of st sp xs" for xs by (rule stack_of_cong) (simp add: N)
  have set: "{obj \<in> D. target ?st obj \<and> marked ?st obj} = {obj \<in> D. target st obj \<and> marked st obj}" using T by (auto simp: N)
  show ?thesis
    unfolding gathered_def set st
  proof (intro conjI ballI impI)
    show "heap_ok ?st D" "same_old D st0 ?st" by (rule ok', rule same_old_trans[OF old same])
    show "\<exists>xs. stack_of st sp xs \<and> distinct xs \<and> set xs \<subseteq> {obj \<in> D. target st obj \<and> marked st obj}
        \<and> {obj \<in> D. \<not> skipped (gc_mem ?st) obj \<and> obj \<in> X} \<subseteq> set xs \<union> C"
      using assms(1) unfolding gathered_def N by blast
    fix obj assume x: "obj \<in> D" "\<not> skipped (gc_mem ?st) obj"
    then show "target ?st obj" "marked ?st obj = (obj \<in> X \<union> C)" using tg all unfolding N by blast+
  qed
qed

section \<open>Tracing from the roots\<close>

definition reaches :: "gc_state \<Rightarrow> nat set \<Rightarrow> nat set \<Rightarrow> nat \<Rightarrow> bool" where
  "reaches st D X obj \<longleftrightarrow> (\<exists>r \<in> X \<inter> D. (edge st D)\<^sup>*\<^sup>* r obj)"

lemma protected_reaches:
  assumes "protected (edge st D) (white st D) G obj" "G \<subseteq> (X \<union> C) \<inter> D" "\<forall>x \<in> C \<inter> D. children st x = []"
  shows "reaches st D X obj \<or> obj \<in> C"
  using assms(1)
proof induction
  case (grey g)
  then show ?case using assms(2) by (auto simp: reaches_def)
next
  case (path y c)
  then have "y \<notin> C" using assms(3) by (auto simp: edge_def)
  then show ?case using path by (auto simp: reaches_def intro: rtranclp.rtrancl_into_rtrancl)
qed

lemma reaches_protected:
  assumes "(edge st D)\<^sup>*\<^sup>* r obj" "r \<in> X \<inter> D"
    and all: "\<And>x. x \<in> D \<Longrightarrow> \<not> skipped (gc_mem st) x \<Longrightarrow> target st x \<and> (marked st x \<longleftrightarrow> x \<in> X \<union> C)"
    and grey: "{x \<in> D. \<not> skipped (gc_mem st) x \<and> x \<in> X} \<subseteq> G \<union> C" and leaf: "\<forall>x \<in> C \<inter> D. children st x = []"
  shows "obj \<in> D \<and> (skipped (gc_mem st) obj \<or> marked st obj \<or> protected (edge st D) (white st D) G obj)"
  using assms(1,2)
proof (induction rule: rtranclp_induct)
  case base
  then show ?case using all by auto
next
  case (step y z)
  then have y: "y \<in> D" "\<not> skipped (gc_mem st) y" "z \<in> D" "z \<in> set (children st y)" by (auto simp: edge_def)
  then have "y \<notin> C" using leaf by auto
  then have "protected (edge st D) (white st D) G y" using step y all[OF y(1,2)] grey by (auto intro: protected.grey)
  then show ?case using protected.path[where E = "edge st D" and x = y and c = z, OF _ step.hyps(2)] y(3) all[OF y(3)] by (auto simp: white_def)
qed

lemma gathered_traced:
  assumes "gathered D st0 X C st sp" "\<forall>x \<in> C \<inter> D. children st0 x = []" "card D < n"
  shows "\<exists>st'. sml_heap_worker_mark n st \<lparr>root_set = sp, remembered_set = 0\<rparr> = Inr (st', \<lparr>root_set = 0, remembered_set = 0\<rparr>)
    \<and> (\<forall>x \<in> D. \<not> skipped (gc_mem st0) x \<longrightarrow> (is_alive st' x \<longleftrightarrow> x \<in> C \<or> reaches st0 D X x))"
proof -
  have ok: "heap_ok st D" and old: "same_old D st0 st"
    and all: "\<And>obj. obj \<in> D \<Longrightarrow> \<not> skipped (gc_mem st) obj \<Longrightarrow> target st obj \<and> (marked st obj \<longleftrightarrow> obj \<in> X \<union> C)"
    using assms(1) unfolding gathered_def by blast+
  obtain xs where xs: "stack_of st sp xs" "distinct xs" "set xs \<subseteq> {obj \<in> D. target st obj \<and> marked st obj}"
      "{obj \<in> D. \<not> skipped (gc_mem st) obj \<and> obj \<in> X} \<subseteq> set xs \<union> C"
    using assms(1) unfolding gathered_def by blast
  have m: "gc_mem st = gc_mem st0" by (rule gathered_mem[OF assms(1)])
  have sh: "same_heap D st0 st" using old by (simp add: same_old_def)
  have e: "edge st D = edge st0 D" and ch: "children st = children st0"
    using same_heap_edge[OF sh] same_heap_children[OF sh] by simp_all
  have fin: "finite D" using ok by (simp add: heap_ok_def)
  have "set xs \<inter> white st D = {}" "set xs \<union> white st D \<subseteq> D" using xs(3) by (auto simp: white_def)
  then have "length xs + card (white st D) \<le> card D"
    using card_Un_disjoint[of "set xs" "white st D"] card_mono[OF fin, of "set xs \<union> white st D"] finite_subset[OF _ fin]
    by (simp add: distinct_card[OF xs(2)])
  then have n: "length xs + length [] + card (white st D) < n" using assms(3) by simp
  have st: "stack_of st (root_set \<lparr>root_set = sp, remembered_set = 0\<rparr>) xs" "stack_of st (remembered_set \<lparr>root_set = sp, remembered_set = 0\<rparr>) []"
    using xs(1) by simp_all
  obtain st' where T: "sml_heap_worker_mark n st \<lparr>root_set = sp, remembered_set = 0\<rparr> = Inr (st', \<lparr>root_set = 0, remembered_set = 0\<rparr>)"
    "same_heap D st st'" "heap_ok st' D"
    "\<And>x. x \<in> D \<Longrightarrow> \<not> skipped (gc_mem st) x \<Longrightarrow> marked st' x \<longleftrightarrow> marked st x \<or> protected (edge st D) (white st D) (set xs) x"
    using worker_mark_marks[OF ok st _ _ n] xs(2,3) by auto
  have G: "set xs \<subseteq> (X \<union> C) \<inter> D" using xs(3) all targetD[of st] by blast
  have leaf: "\<forall>x \<in> C \<inter> D. children st x = []" using assms(2) by (simp add: ch)
  have "is_alive st' x \<longleftrightarrow> x \<in> C \<or> reaches st0 D X x" if x: "x \<in> D" "\<not> skipped (gc_mem st0) x" for x
  proof -
    have x': "\<not> skipped (gc_mem st) x" "\<not> skipped (gc_mem st') x" using x(2) T(2) by (simp_all add: m same_heap_def)
    have "is_alive st' x \<longleftrightarrow> marked st x \<or> protected (edge st D) (white st D) (set xs) x"
      using is_alive_iff[OF heap_okD[OF T(3) x(1) x'(2)]] T(4)[OF x(1) x'(1)] all[OF x(1) x'(1)]
        same_heap_target[OF T(2) ok x(1)] by simp
    also have "\<dots> \<longleftrightarrow> x \<in> C \<or> reaches st D X x"
    proof
      assume "marked st x \<or> protected (edge st D) (white st D) (set xs) x"
      then show "x \<in> C \<or> reaches st D X x"
        using protected_reaches[OF _ G leaf] all[OF x(1) x'(1)] x(1) by (auto simp: reaches_def)
    next
      assume "x \<in> C \<or> reaches st D X x"
      then show "marked st x \<or> protected (edge st D) (white st D) (set xs) x"
        using reaches_protected[OF _ _ all xs(4) leaf] all[OF x(1) x'(1)] x' by (auto simp: reaches_def)
    qed
    finally show ?thesis by (simp add: reaches_def e)
  qed
  then show ?thesis using T(1) by blast
qed

section \<open>A collection\<close>

definition user_slots :: "environment \<Rightarrow> mem \<Rightarrow> nat \<Rightarrow> nat list option" where
  "user_slots en m u = map_option (map root_slot) (sml_stack_enum_ptr (en_fuel en) m (en_programs en) (en_control en) u)"

definition global_slots :: "environment \<Rightarrow> mem \<Rightarrow> nat list option" where
  "global_slots en m = (case sml_global_enum_ptr m (en_programs en) of Inl _ \<Rightarrow> None | Inr slots \<Rightarrow> Some slots)"

text \<open>The values of the roots: of the users \<open>us\<close>, and all of them.\<close>

definition user_roots :: "environment \<Rightarrow> mem \<Rightarrow> nat list \<Rightarrow> nat set" where
  "user_roots en m us = (\<Union>u \<in> set us. load64 m ` set (the (user_slots en m u)))"

definition all_roots :: "environment \<Rightarrow> mem \<Rightarrow> nat list \<Rightarrow> nat set" where
  "all_roots en m us = user_roots en m us \<union> load64 m ` (set (the (global_slots en m)) \<union> set (en_callback_slots en))"

lemma users_gathered:
  assumes "gathered D st0 X C st sp" "set us \<subseteq> insert 0 D" "\<forall>u \<in> set us. user_slots en (gc_mem st0) u \<noteq> None"
    and "user_roots en (gc_mem st0) us \<subseteq> insert 0 D"
  shows "\<exists>st' sp'. heap_run en (map (\<lambda>u. User_Sync2 u a) us) (st, al(a := \<lparr>root_set = sp, remembered_set = 0\<rparr>))
      = Some (st', al(a := \<lparr>root_set = sp', remembered_set = 0\<rparr>))
    \<and> gathered D st0 (X \<union> user_roots en (gc_mem st0) us) (set us \<union> C) st' sp'"
  using assms
proof (induction us arbitrary: X C st sp)
  case Nil
  then show ?case by (auto simp: user_roots_def)
next
  case (Cons u us)
  obtain slots where slots: "user_slots en (gc_mem st0) u = Some slots" using Cons.prems(3) by auto
  have roots: "user_roots en (gc_mem st0) (u # us) = load64 (gc_mem st0) ` set slots \<union> user_roots en (gc_mem st0) us"
    using slots by (simp add: user_roots_def)
  have us: "set us \<subseteq> insert 0 D" "\<forall>u \<in> set us. user_slots en (gc_mem st0) u \<noteq> None"
    "user_roots en (gc_mem st0) us \<subseteq> insert 0 D"
    using Cons.prems(2-4) unfolding roots by simp_all
  have vals: "load64 (gc_mem st0) ` set slots \<subseteq> insert 0 D" using Cons.prems(4) slots by (auto simp: user_roots_def)
  have g1: "gathered D st0 X (insert u C) (snd (visit st u)) sp"
    using Cons.prems(2) by (intro gathered_visit[OF Cons.prems(1)]) auto
  obtain st1 sp1 where p: "enum_push slots (snd (visit st u), sp) = (st1, sp1)" by fastforce
  have g2: "gathered D st0 (X \<union> load64 (gc_mem st0) ` set slots) (insert u C) st1 sp1"
    by (rule gathered_push[OF g1 vals p])
  obtain st' sp' where I: "heap_run en (map (\<lambda>u. User_Sync2 u a) us) (st1, al(a := \<lparr>root_set = sp1, remembered_set = 0\<rparr>))
      = Some (st', al(a := \<lparr>root_set = sp', remembered_set = 0\<rparr>))"
    "gathered D st0 ((X \<union> load64 (gc_mem st0) ` set slots) \<union> user_roots en (gc_mem st0) us) (set us \<union> insert u C) st' sp'"
    using Cons.IH[OF g2 us(1-3)] by blast
  have "heap_do en (User_Sync2 u a) (st, al(a := \<lparr>root_set = sp, remembered_set = 0\<rparr>))
      = Some (st1, al(a := \<lparr>root_set = sp1, remembered_set = 0\<rparr>))"
    using slots p gathered_mem[OF Cons.prems(1)]
    by (auto simp: heap_do_def sml_heap_user_sync2_def user_slots_def)
  then have "heap_run en (map (\<lambda>u. User_Sync2 u a) (u # us)) (st, al(a := \<lparr>root_set = sp, remembered_set = 0\<rparr>))
      = Some (st', al(a := \<lparr>root_set = sp', remembered_set = 0\<rparr>))"
    using I(1) by (simp only: list.map heap_run.simps Option.bind.simps)
  moreover have "X \<union> user_roots en (gc_mem st0) (u # us) = (X \<union> load64 (gc_mem st0) ` set slots) \<union> user_roots en (gc_mem st0) us"
    "set (u # us) \<union> C = set us \<union> insert u C" unfolding roots by auto
  ultimately show ?case using I(2) by metis
qed

lemma global_gathered:
  assumes "gathered D st0 X C st sp" "global_slots en (gc_mem st0) \<noteq> None"
    and "load64 (gc_mem st0) ` (set (the (global_slots en (gc_mem st0))) \<union> set (en_callback_slots en)) \<subseteq> insert 0 D"
  shows "\<exists>st' sp'. heap_do en (Global_Sync2 a) (st, al(a := \<lparr>root_set = sp, remembered_set = 0\<rparr>))
      = Some (st', al(a := \<lparr>root_set = sp', remembered_set = 0\<rparr>))
    \<and> gathered D st0 (X \<union> load64 (gc_mem st0) ` (set (the (global_slots en (gc_mem st0))) \<union> set (en_callback_slots en))) C st' sp'"
proof -
  obtain gs where gs: "sml_global_enum_ptr (gc_mem st0) (en_programs en) = Inr gs" "global_slots en (gc_mem st0) = Some gs"
    using assms(2) by (auto simp: global_slots_def split: sum.splits)
  obtain st1 sp1 where p: "enum_push gs (st, sp) = (st1, sp1)" by fastforce
  obtain st2 sp2 where q: "enum_push (en_callback_slots en) (st1, sp1) = (st2, sp2)" by fastforce
  have "gathered D st0 (X \<union> load64 (gc_mem st0) ` set gs) C st1 sp1"
    by (rule gathered_push[OF assms(1) _ p]) (use assms(3) gs in auto)
  then have "gathered D st0 ((X \<union> load64 (gc_mem st0) ` set gs) \<union> load64 (gc_mem st0) ` set (en_callback_slots en)) C st2 sp2"
    by (rule gathered_push[OF _ _ q]) (use assms(3) in auto)
  moreover have "heap_do en (Global_Sync2 a) (st, al(a := \<lparr>root_set = sp, remembered_set = 0\<rparr>))
      = Some (st2, al(a := \<lparr>root_set = sp2, remembered_set = 0\<rparr>))"
    using gs p q gathered_mem[OF assms(1)] by (simp add: heap_do_def sml_heap_global_sync2_def)
  ultimately show ?thesis using gs(2) by (auto simp: image_Un Un_assoc)
qed

lemma worker_gathered:
  assumes "gathered D st0 X C st sp" "en_worker en a \<in> insert 0 D" "a \<in> insert 0 D" "snapshot_ready (en_heap en a) st0 D"
  shows "\<exists>st'. heap_do en (Worker_Sync2 a) (st, al) = Some (st', al) \<and> gathered D st0 X (insert a (insert (en_worker en a) C)) st' sp"
  using gathered_snapshot[OF gathered_visit[OF gathered_visit[OF assms(1,2)] assms(3)] assms(4)]
  by (simp add: heap_do_def sml_heap_worker_sync2_def Let_def)

lemma marks_run:
  assumes "sml_heap_worker_mark (en_fuel en) st (al a) = Inr (st', \<lparr>root_set = 0, remembered_set = 0\<rparr>)" "0 < en_fuel en"
  shows "heap_run en (replicate (Suc m) (Worker_Mark a)) (st, al) = Some (st', al(a := \<lparr>root_set = 0, remembered_set = 0\<rparr>))"
proof -
  obtain k where k: "en_fuel en = Suc k" using assms(2) gr0_conv_Suc by blast
  define al' where "al' = al(a := \<lparr>root_set = 0, remembered_set = 0\<rparr>)"
  have a: "al' a = \<lparr>root_set = 0, remembered_set = 0\<rparr>" "al'(a := \<lparr>root_set = 0, remembered_set = 0\<rparr>) = al'"
    by (simp_all add: al'_def)
  have again: "heap_run en (replicate m (Worker_Mark a)) (st', al') = Some (st', al')"
    by (induction m) (simp_all add: heap_do_def sml_heap_worker_mark_def k a)
  have "heap_do en (Worker_Mark a) (st, al) = Some (st', al')" using assms(1) by (simp add: heap_do_def al'_def)
  then show ?thesis using again by (simp flip: al'_def)
qed

text \<open>
  The heap at the start of a cycle: every object that is subject to the collection is unmarked, the stacks are empty, and
  the contexts of users, worker and allocator hold no pointers to objects.
\<close>

definition cycle_start :: "environment \<Rightarrow> nat set \<Rightarrow> gc_state \<Rightarrow> nat list \<Rightarrow> nat \<Rightarrow> bool" where
  "cycle_start en D st us a \<longleftrightarrow> heap_ok st D \<and> snapshot_ready (en_heap en a) st D
     \<and> (\<forall>x \<in> D. \<not> skipped (gc_mem st) x \<longrightarrow> target st x \<and> \<not> marked st x)
     \<and> set us \<union> {en_worker en a, a} \<subseteq> insert 0 D \<and> (\<forall>x \<in> (set us \<union> {en_worker en a, a}) \<inter> D. children st x = [])
     \<and> (\<forall>u \<in> set us. user_slots en (gc_mem st) u \<noteq> None) \<and> global_slots en (gc_mem st) \<noteq> None
     \<and> all_roots en (gc_mem st) us \<subseteq> insert 0 D \<and> card D < en_fuel en"

lemma collection_marks:
  assumes "cycle_start en D st us a" "al a = \<lparr>root_set = 0, remembered_set = 0\<rparr>"
  shows "\<exists>st'. heap_run en (map (\<lambda>u. User_Sync2 u a) us @ [Worker_Sync2 a, Global_Sync2 a] @ replicate (Suc m) (Worker_Mark a)) (st, al)
      = Some (st', al)
    \<and> (\<forall>x \<in> D. \<not> skipped (gc_mem st) x \<longrightarrow>
         (is_alive st' x \<longleftrightarrow> x \<in> set us \<union> {en_worker en a, a} \<or> reaches st D (all_roots en (gc_mem st) us) x))"
proof -
  let ?C = "set us \<union> {en_worker en a, a}" and ?X = "all_roots en (gc_mem st) us"
  have S: "heap_ok st D" "snapshot_ready (en_heap en a) st D" "\<forall>x \<in> D. \<not> skipped (gc_mem st) x \<longrightarrow> target st x \<and> \<not> marked st x"
    "?C \<subseteq> insert 0 D" "\<forall>x \<in> ?C \<inter> D. children st x = []" "\<forall>u \<in> set us. user_slots en (gc_mem st) u \<noteq> None"
    "global_slots en (gc_mem st) \<noteq> None" "?X \<subseteq> insert 0 D" "card D < en_fuel en"
    using assms(1) by (simp_all add: cycle_start_def)
  have al: "al(a := \<lparr>root_set = 0, remembered_set = 0\<rparr>) = al" using assms(2) by (simp add: fun_upd_idem)
  have g0: "gathered D st {} {} st 0"
    using S(1,3) by (auto simp: gathered_def same_old_refl intro!: exI[of _ "[]"])
  obtain st1 sp1 where R1: "heap_run en (map (\<lambda>u. User_Sync2 u a) us) (st, al) = Some (st1, al(a := \<lparr>root_set = sp1, remembered_set = 0\<rparr>))"
    "gathered D st (user_roots en (gc_mem st) us) (set us) st1 sp1"
    using users_gathered[OF g0, of us en a al] S(4,6,8) unfolding al by (auto simp: all_roots_def)
  obtain st2 where R2: "heap_do en (Worker_Sync2 a) (st1, al(a := \<lparr>root_set = sp1, remembered_set = 0\<rparr>))
      = Some (st2, al(a := \<lparr>root_set = sp1, remembered_set = 0\<rparr>))"
    "gathered D st (user_roots en (gc_mem st) us) (insert a (insert (en_worker en a) (set us))) st2 sp1"
    using worker_gathered[OF R1(2) _ _ S(2)] S(4) by blast
  have vals: "load64 (gc_mem st) ` (set (the (global_slots en (gc_mem st))) \<union> set (en_callback_slots en)) \<subseteq> insert 0 D"
    using S(8) by (simp add: all_roots_def)
  obtain st3 sp3 where R3: "heap_do en (Global_Sync2 a) (st2, al(a := \<lparr>root_set = sp1, remembered_set = 0\<rparr>))
      = Some (st3, al(a := \<lparr>root_set = sp3, remembered_set = 0\<rparr>))"
    "gathered D st ?X (insert a (insert (en_worker en a) (set us))) st3 sp3"
    using global_gathered[OF R2(2) S(7) vals, where a = a and al = al, folded all_roots_def] by (elim exE conjE) (rule that)
  have C: "insert a (insert (en_worker en a) (set us)) = ?C" by auto
  obtain st4 where R4: "sml_heap_worker_mark (en_fuel en) st3 \<lparr>root_set = sp3, remembered_set = 0\<rparr> = Inr (st4, \<lparr>root_set = 0, remembered_set = 0\<rparr>)"
    "\<forall>x \<in> D. \<not> skipped (gc_mem st) x \<longrightarrow> (is_alive st4 x \<longleftrightarrow> x \<in> ?C \<or> reaches st D ?X x)"
    using gathered_traced[OF R3(2) _ S(9)] S(5) unfolding C by blast
  have "heap_run en (replicate (Suc m) (Worker_Mark a)) (st3, al(a := \<lparr>root_set = sp3, remembered_set = 0\<rparr>)) = Some (st4, al)"
    using marks_run[where en = en and al = "al(a := \<lparr>root_set = sp3, remembered_set = 0\<rparr>)" and m = m and a = a and st = st3 and st' = st4]
      R4(1) S(9) unfolding fun_upd_same fun_upd_upd al by linarith
  then have "heap_run en (map (\<lambda>u. User_Sync2 u a) us @ [Worker_Sync2 a, Global_Sync2 a] @ replicate (Suc m) (Worker_Mark a)) (st, al)
      = Some (st4, al)"
    using R1(1) R2(1) R3(1) by (simp only: heap_run_append append_Cons append_Nil heap_run.simps Option.bind.simps)
  then show ?thesis using R4(2) by blast
qed

text \<open>C1.  A whole collection keeps exactly what is reachable. Let a single idle worker, whose users are attached and unlocked,
  run \<open>sml_gc\<close> at the start of a cycle. The function returns with the cycle finished, and the calls it has made to the heap
  up to the finalizers, carried out in their order on the roots that the stack walk, the global tables and the
  callbacks enumerate, never fail and leave the object stacks empty; then an object is alive if and only if it is a
  context or can be reached from the value of a root.\<close>

theorem collection_keeps_reachable:
  assumes "lone w (phase_word ASYNC) (phase_word ASYNC) fl 0 gc us a cs c" "t_worker t = w" "gc AND 1 = 0"
    and "fl AND (DEAD_FLAG OR CANCELED_FLAG OR GLOBALENUM_FLAG) = 0"
    and "quiet_world wd" "attached w c us" "m < o_fuel wd"
    and "\<forall>calls. o_finish wd calls \<longleftrightarrow> length (filter (\<lambda>h. h = Worker_Mark a) cs) + m < length (filter (\<lambda>h. h = Worker_Mark a) calls)"
    and "en_control en = c" "en_worker en a = w" "cycle_start en D st us a" "al a = \<lparr>root_set = 0, remembered_set = 0\<rparr>"
  shows "\<exists>c' st'. sml_gc wd True t c = Inr (gc + 2, c') \<and> heap_run en (marking_calls c c') (st, al) = Some (st', al)
    \<and> (\<forall>x \<in> D. \<not> skipped (gc_mem st) x \<longrightarrow>
         (is_alive st' x \<longleftrightarrow> x \<in> set us \<union> {w, a} \<or> reaches st D (all_roots en (gc_mem st) us) x))"
proof -
  let ?ms = "map (\<lambda>u. User_Sync2 u a) us @ [Worker_Sync2 a, Global_Sync2 a] @ replicate (Suc m) (Worker_Mark a)"
  obtain c' where c': "sml_gc wd True t c = Inr (gc + 2, c')"
    "lone w (phase_word ASYNC) (phase_word ASYNC) fl 0 (gc + 2) us a
      (rev (?ms @ [Run_Finalizer, Before_Async, Worker_Async a, Global_Async]) @ cs) c'"
    using single_worker_cycle[OF assms(1-8)] by auto
  have "c_calls c = cs" "c_calls c' = rev (?ms @ [Run_Finalizer, Before_Async, Worker_Async a, Global_Async]) @ cs"
    using assms(1) c'(2) by (simp_all add: lone_def)
  then have new: "drop (length (c_calls c)) (rev (c_calls c')) = ?ms @ Run_Finalizer # [Before_Async, Worker_Async a, Global_Async]"
    by simp
  have "takeWhile (\<lambda>h. h \<noteq> Run_Finalizer) (?ms @ Run_Finalizer # ks) = ?ms" for ks
    by (subst takeWhile_append2) auto
  then have "marking_calls c c' = ?ms" unfolding marking_calls_def new by simp
  then show ?thesis using c'(1) collection_marks[where al = al and m = m, OF assms(11,12)] assms(10) by simp
qed

text \<open>Two large objects, of which a callback holds the first; the contexts of the sample worker are never collected.\<close>

definition two_objects :: gc_state where
  "two_objects = \<lparr>gc_mem = (\<lambda>x. if x \<in> {60, 8252} then 0x88 else if x \<in> {61, 8253} then 0x13
       else if x \<in> {7, 23, 31} then 0x80 else if x = 1000 then 64 else 0), gc_segs = zero_segments,
     gc_malloc = (\<lambda>m. if m \<in> {32, 8224} then Some \<lparr>ms_size = 5000, ms_bit = True, ms_collect_bit = 0\<rparr> else None),
     gc_next = (\<lambda>_. 0)\<rparr>"

definition idle_control :: control where
  "idle_control = plain_control\<lparr>c_user := (\<lambda>_. no_user)(32 := \<lparr>u_flags = 0, u_worker = 8, u_stack = [], u_exn_object = 0\<rparr>)\<rparr>"

definition sample_environment :: environment where
  "sample_environment = \<lparr>en_fuel = 6, en_programs = no_programs, en_control = idle_control, en_callback_slots = [1000],
     en_worker = (\<lambda>_. 8), en_heap = (\<lambda>_. init_heap sample_counts)\<rparr>"

lemma two_objects_words:
  "skipped (gc_mem two_objects) 8" "skipped (gc_mem two_objects) 24" "skipped (gc_mem two_objects) 32"
  "\<not> skipped (gc_mem two_objects) 64" "\<not> skipped (gc_mem two_objects) 8256"
  "OBJ_TOTAL_SIZE (gc_mem two_objects) 64 = 5004" "OBJ_TOTAL_SIZE (gc_mem two_objects) 8256 = 5004"
  "load64 (gc_mem two_objects) 1000 = 64"
  "x \<in> {8, 24, 32, 64, 8256} \<Longrightarrow> sml_obj_enum_ptr (gc_mem two_objects) x = Inr []"
  by (auto simp: skipped_def OBJ_TOTAL_SIZE_def OBJ_SIZE_def OBJ_TYPE_def OBJ_HEADER_def load32_def load64_def load_bytes_4 load_bytes_8
      two_objects_def obj_simps layout_simps sml_obj_enum_ptr_def)

lemma two_objects_ok:
  "x \<in> {64, 8256} \<Longrightarrow> obj_ok two_objects x \<and> target two_objects x \<and> \<not> marked two_objects x"
  "x \<in> {8, 24, 32, 64, 8256} \<Longrightarrow> children two_objects x = []" "heap_ok two_objects {8, 24, 32, 64, 8256}"
proof -
  have l: "large two_objects x" if "x \<in> {64, 8256}" for x using that by (auto simp: large_def two_objects_words layout_simps)
  have m: "malloc_seg_of two_objects x = \<lparr>ms_size = 5000, ms_bit = True, ms_collect_bit = 0\<rparr>"
    "gc_malloc two_objects (OBJ_TO_MALLOC_SEGMENT x) \<noteq> None" if "x \<in> {64, 8256}" for x
    using that by (auto simp: malloc_seg_of_def two_objects_def OBJ_TO_MALLOC_SEGMENT_def layout_simps)
  show o: "x \<in> {64, 8256} \<Longrightarrow> obj_ok two_objects x \<and> target two_objects x \<and> \<not> marked two_objects x" for x
    using l[of x] m[of x] two_objects_words(4,5) by (auto simp: obj_ok_def target_def marked_def layout_simps)
  show c: "x \<in> {8, 24, 32, 64, 8256} \<Longrightarrow> children two_objects x = []" for x
    using two_objects_words(9)[of x] by (simp add: children_def)
  show "heap_ok two_objects {8, 24, 32, 64, 8256}"
    using o two_objects_words c by (auto simp: heap_ok_def)
qed

lemma two_objects_start:
  "user_slots sample_environment m 32 = Some []" "global_slots sample_environment m = Some []"
  "all_roots sample_environment (gc_mem two_objects) [32] = {64}"
  "cycle_start sample_environment {8, 24, 32, 64, 8256} two_objects [32] 24"
proof -
  show u: "user_slots sample_environment m 32 = Some []" "global_slots sample_environment m = Some []" for m
    by (simp_all add: user_slots_def global_slots_def sml_stack_enum_ptr_def sml_global_enum_ptr_def sample_environment_def
        idle_control_def no_programs_def)
  show r: "all_roots sample_environment (gc_mem two_objects) [32] = {64}"
    using u by (simp add: all_roots_def user_roots_def two_objects_words) (simp add: sample_environment_def two_objects_words)
  have "snapshot_ready (en_heap sample_environment 24) two_objects {8, 24, 32, 64, 8256}"
    by (simp add: snapshot_ready_def sample_environment_def init_heap_def init_alloc_ptr_def clear_alloc_ptr_def)
  then show "cycle_start sample_environment {8, 24, 32, 64, 8256} two_objects [32] 24"
    using two_objects_ok u r two_objects_words(1-5) unfolding cycle_start_def by (auto simp: sample_environment_def)
qed

lemma collection_keeps_reachable_witness:
  "\<exists>c' st'. sml_gc plain_world True plain_thread idle_control = Inr (2, c')
    \<and> heap_run sample_environment (marking_calls idle_control c') (two_objects, \<lambda>_. \<lparr>root_set = 0, remembered_set = 0\<rparr>)
        = Some (st', \<lambda>_. \<lparr>root_set = 0, remembered_set = 0\<rparr>)
    \<and> is_alive st' 64 \<and> \<not> is_alive st' 8256"
proof -
  have l: "lone 8 (phase_word ASYNC) (phase_word ASYNC) 0 0 0 [32] 24 [] idle_control"
    by (simp add: lone_def idle_control_def plain_control_def initial_control_def)
  have a: "attached 8 idle_control [32]" by (simp add: attached_def idle_control_def)
  have f: "\<forall>calls. o_finish plain_world calls \<longleftrightarrow>
      length (filter (\<lambda>h. h = Worker_Mark 24) []) + 0 < length (filter (\<lambda>h. h = Worker_Mark 24) calls)"
    by (auto simp: plain_world_def filter_empty_conv)
  have q: "quiet_world plain_world" by (simp add: quiet_world_def plain_world_def)
  have e: "en_control sample_environment = idle_control" "en_worker sample_environment 24 = 8" by (simp_all add: sample_environment_def)
  obtain c' st' where R: "sml_gc plain_world True plain_thread idle_control = Inr (0 + 2, c')"
    "heap_run sample_environment (marking_calls idle_control c') (two_objects, \<lambda>_. \<lparr>root_set = 0, remembered_set = 0\<rparr>)
        = Some (st', \<lambda>_. \<lparr>root_set = 0, remembered_set = 0\<rparr>)"
    "\<forall>x \<in> {8, 24, 32, 64, 8256}. \<not> skipped (gc_mem two_objects) x \<longrightarrow>
       (is_alive st' x \<longleftrightarrow> x \<in> set [32] \<union> {8, 24} \<or> reaches two_objects {8, 24, 32, 64, 8256} {64} x)"
    using collection_keeps_reachable[OF l _ _ _ q a _ f e two_objects_start(4), of plain_thread "\<lambda>_. \<lparr>root_set = 0, remembered_set = 0\<rparr>"]
    unfolding two_objects_start(3) by (auto simp: plain_thread_def plain_world_def)
  have "x = 64" if "(edge two_objects {8, 24, 32, 64, 8256})\<^sup>*\<^sup>* 64 x" for x
    using that two_objects_ok(2) by (induction rule: rtranclp_induct) (auto simp: edge_def)
  then have "reaches two_objects {8, 24, 32, 64, 8256} {64} x \<longleftrightarrow> x = 64" for x by (auto simp: reaches_def)
  then show ?thesis using R two_objects_words(4,5) by auto
qed

end
