(* ===== verification/Livecheck.thy ===== *)
theory Livecheck
  imports Collection Callback
begin

text \<open>
  The debugging tracer (livecheck.c): it walks the heap from the roots with no help from the mark bits and
  keeps for every object it finds the slot and the object it was found through.  The objects to be scanned
  are linked through the nodes of the splay tree.
\<close>

section \<open>The tracer\<close>

text \<open>The field \<open>parent\<close>: \<open>NULL\<close>, the address of \<open>global_root\<close>, or a node.\<close>

datatype parent = No_Parent | Global_Root | Parent node_addr

record livecheck_obj =
  lc_obj :: nat
  lc_at :: nat
  lc_next :: "node_addr option"
  lc_parent :: parent

record livecheck =
  lv_top :: "node_addr option"
  lv_parent :: parent
  lv_tree :: "livecheck_obj sml_tree"

definition livecheck_obj_cmp :: "livecheck_obj \<Rightarrow> livecheck_obj \<Rightarrow> int" where
  "livecheck_obj_cmp s1 s2 = voidp_cmp (lc_obj s1) (lc_obj s2)"

definition livecheck_new :: livecheck where
  "livecheck_new = \<lparr>lv_top = None, lv_parent = No_Parent, lv_tree = sml_tree_new livecheck_obj_cmp 32\<rparr>"

definition livecheck_key :: "nat \<Rightarrow> livecheck_obj" where
  "livecheck_key obj = \<lparr>lc_obj = obj, lc_at = 0, lc_next = None, lc_parent = No_Parent\<rparr>"

definition livecheck_mark :: "mem \<Rightarrow> nat \<Rightarrow> livecheck \<Rightarrow> livecheck" where
  "livecheck_mark m slot s =
     (let obj = load64 m slot; key = livecheck_key obj in
      if obj = 0 then s
      else case sml_tree_find (lv_tree s) key of
        (Some _, t) \<Rightarrow> s\<lparr>lv_tree := t\<rparr>
      | (None, t) \<Rightarrow>
          (case sml_tree_insert t key of
             (None, t) \<Rightarrow> s\<lparr>lv_tree := t\<rparr>
           | (Some (i, _), t) \<Rightarrow>
               s\<lparr>lv_tree := update_at t i (\<lambda>x. x\<lparr>lc_at := slot, lc_parent := lv_parent s, lc_next := lv_top s\<rparr>),
                 lv_top := Some i\<rparr>))"

text \<open>The loop of \<open>livecheck_trace\<close>, with fuel; \<open>None\<close> is no fuel, or an object of an invalid type.\<close>

fun livecheck_loop :: "nat \<Rightarrow> mem \<Rightarrow> livecheck \<Rightarrow> livecheck option" where
  "livecheck_loop 0 m s = None"
| "livecheck_loop (Suc n) m s =
     (case lv_top s of
        None \<Rightarrow> Some s
      | Some a \<Rightarrow>
          (case node_at (lv_tree s) a of
             None \<Rightarrow> None
           | Some x \<Rightarrow>
               (let s = s\<lparr>lv_parent := Parent a, lv_top := lc_next x\<rparr> in
                if skipped m (lc_obj x) then livecheck_loop n m s
                else case sml_obj_enum_ptr m (lc_obj x) of
                  Inl _ \<Rightarrow> None
                | Inr slots \<Rightarrow> livecheck_loop n m (fold (livecheck_mark m) slots s))))"

text \<open>\<open>callback_slots\<close> are the slots that \<open>sml_callback_enum_ptr\<close> passes.\<close>

definition livecheck_trace :: "nat \<Rightarrow> mem \<Rightarrow> programs \<Rightarrow> nat list \<Rightarrow> control \<Rightarrow> nat \<Rightarrow> livecheck \<Rightarrow> livecheck option" where
  "livecheck_trace n m st callback_slots c user s =
     (case sml_global_enum_ptr m st of
        Inl _ \<Rightarrow> None
      | Inr slots \<Rightarrow>
          (let s = fold (livecheck_mark m) slots (s\<lparr>lv_parent := Global_Root\<rparr>);
               s = fold (livecheck_mark m) callback_slots s
           in case (if user = 0 then Some s
                    else case sml_stack_enum_ptr n m st c user of
                      None \<Rightarrow> None
                    | Some roots \<Rightarrow> Some (fold (livecheck_mark m) (map root_slot roots) (s\<lparr>lv_parent := No_Parent\<rparr>))) of
                None \<Rightarrow> None
              | Some s \<Rightarrow> livecheck_loop n m s))"

definition sml_livecheck :: "nat \<Rightarrow> mem \<Rightarrow> programs \<Rightarrow> nat list \<Rightarrow> control \<Rightarrow> nat \<Rightarrow> livecheck option" where
  "sml_livecheck n m st callback_slots c user = livecheck_trace n m st callback_slots c user livecheck_new"

section \<open>Queries\<close>

definition livecheck_find :: "livecheck \<Rightarrow> nat \<Rightarrow> (node_addr \<times> livecheck_obj) option \<times> livecheck" where
  "livecheck_find s obj = (case sml_tree_find (lv_tree s) (livecheck_key obj) of (r, t) \<Rightarrow> (r, s\<lparr>lv_tree := t\<rparr>))"

definition sml_livecheck_at :: "livecheck \<Rightarrow> nat \<Rightarrow> nat \<times> livecheck" where
  "sml_livecheck_at s obj = (case livecheck_find s obj of (r, s) \<Rightarrow> (case r of None \<Rightarrow> 0 | Some (_, x) \<Rightarrow> lc_at x, s))"

text \<open>The result is \<open>None\<close> where the code follows a null pointer; the object of \<open>global_root\<close> is \<open>NULL\<close>.\<close>

definition parent_obj :: "livecheck_obj sml_tree \<Rightarrow> parent \<Rightarrow> nat option" where
  "parent_obj t p = (case p of No_Parent \<Rightarrow> None | Global_Root \<Rightarrow> Some 0 | Parent a \<Rightarrow> map_option lc_obj (node_at t a))"

definition sml_livecheck_parent :: "livecheck \<Rightarrow> nat \<Rightarrow> nat option \<times> livecheck" where
  "sml_livecheck_parent s obj =
     (case livecheck_find s obj of
        (None, s) \<Rightarrow> (Some 0, s)
      | (Some (_, x), s) \<Rightarrow> (parent_obj (lv_tree s) (lc_parent x), s))"

text \<open>The objects that are printed, with fuel.\<close>

fun parents_from :: "nat \<Rightarrow> livecheck_obj sml_tree \<Rightarrow> parent \<Rightarrow> nat list option" where
  "parents_from 0 t p = None"
| "parents_from (Suc n) t p =
     (case p of
        No_Parent \<Rightarrow> Some []
      | Global_Root \<Rightarrow> Some [0]
      | Parent a \<Rightarrow>
          (case node_at t a of None \<Rightarrow> None | Some x \<Rightarrow> map_option ((#) (lc_obj x)) (parents_from n t (lc_parent x))))"

definition sml_livecheck_print_parents :: "nat \<Rightarrow> livecheck \<Rightarrow> nat \<Rightarrow> nat list option \<times> livecheck" where
  "sml_livecheck_print_parents n s obj =
     (case livecheck_find s obj of
        (None, s) \<Rightarrow> (Some [], s)
      | (Some (a, _), s) \<Rightarrow> (parents_from n (lv_tree s) (Parent a), s))"

definition sml_livecheck_each :: "livecheck \<Rightarrow> (nat \<Rightarrow> 's \<Rightarrow> 's) \<Rightarrow> 's \<Rightarrow> 's" where
  "sml_livecheck_each s f = sml_tree_each (lv_tree s) (\<lambda>x. f (lc_obj x))"

section \<open>Marking a slot\<close>

lemma livecheck_cmp_simps: "livecheck_obj_cmp x y = 0 \<longleftrightarrow> lc_obj x = lc_obj y"
  by (simp add: livecheck_obj_cmp_def)

interpretation livechecks: item_order livecheck_obj_cmp
  by unfold_locales (auto simp: livecheck_obj_cmp_def)

abbreviation nodes :: "livecheck \<Rightarrow> (node_addr \<times> livecheck_obj) set" where
  "nodes s \<equiv> set (tree_nodes (lv_tree s))"

definition found :: "livecheck \<Rightarrow> nat set" where
  "found s = lc_obj ` snd ` nodes s"

abbreviation tree_ok :: "livecheck \<Rightarrow> bool" where
  "tree_ok s \<equiv> tree_of livecheck_obj_cmp (lv_tree s)"

lemma node_of: "tree_of livecheck_obj_cmp t \<Longrightarrow> node_at t a = Some x \<longleftrightarrow> (a, x) \<in> set (tree_nodes t)"
  unfolding node_at_def by (rule map_of_eq_Some_iff)
    (simp add: tree_of_def tree_inv_def memory_ok_def node_addrs_def tree_nodes_def)

lemma node_unique: "tree_of livecheck_obj_cmp t \<Longrightarrow> (a, x) \<in> set (tree_nodes t) \<Longrightarrow> (a, y) \<in> set (tree_nodes t) \<Longrightarrow> x = y"
  using node_of[of t a x] node_of[of t a y] by simp

lemma found_iff: "obj \<in> found s \<longleftrightarrow> (\<exists>a x. (a, x) \<in> nodes s \<and> lc_obj x = obj)"
  by (force simp: found_def)

lemma mark_known:
  assumes "tree_ok s" "load64 m slot \<in> insert 0 (found s)"
  shows "tree_ok (livecheck_mark m slot s)" "nodes (livecheck_mark m slot s) = nodes s"
    "lv_top (livecheck_mark m slot s) = lv_top s" "lv_parent (livecheck_mark m slot s) = lv_parent s"
proof -
  let ?key = "livecheck_key (load64 m slot)"
  have "load64 m slot = 0 \<or> (\<exists>e t. sml_tree_find (lv_tree s) ?key = (Some e, t) \<and> tree_of livecheck_obj_cmp t
      \<and> set (tree_nodes t) = nodes s)"
  proof (cases "load64 m slot = 0")
    case False
    then obtain a x where x: "(a, x) \<in> nodes s" "lc_obj x = load64 m slot" using assms(2) by (auto simp: found_iff)
    then have "fst (sml_tree_find (lv_tree s) ?key) = Some (a, x)"
      using livechecks.tree.find_iff[OF assms(1), of ?key] by (simp add: livecheck_cmp_simps livecheck_key_def)
    then show ?thesis using livechecks.tree.find_keeps[OF assms(1), of ?key] by (metis prod.collapse)
  qed simp
  then have "livecheck_mark m slot s = s \<or> (\<exists>t. livecheck_mark m slot s = s\<lparr>lv_tree := t\<rparr>
      \<and> tree_of livecheck_obj_cmp t \<and> set (tree_nodes t) = nodes s)"
    by (elim disjE exE conjE) (auto simp: livecheck_mark_def Let_def)
  then show "tree_ok (livecheck_mark m slot s)" "nodes (livecheck_mark m slot s) = nodes s"
    "lv_top (livecheck_mark m slot s) = lv_top s" "lv_parent (livecheck_mark m slot s) = lv_parent s"
    using assms(1) by (elim disjE exE conjE; simp)+
qed

lemma mark_new:
  assumes "tree_ok s" "load64 m slot \<notin> insert 0 (found s)"
  shows "\<exists>a. a \<notin> fst ` nodes s \<and> tree_ok (livecheck_mark m slot s)
    \<and> nodes (livecheck_mark m slot s)
        = insert (a, \<lparr>lc_obj = load64 m slot, lc_at = slot, lc_next = lv_top s, lc_parent = lv_parent s\<rparr>) (nodes s)
    \<and> lv_top (livecheck_mark m slot s) = Some a \<and> lv_parent (livecheck_mark m slot s) = lv_parent s"
proof -
  let ?key = "livecheck_key (load64 m slot)"
    and ?x = "\<lparr>lc_obj = load64 m slot, lc_at = slot, lc_next = lv_top s, lc_parent = lv_parent s\<rparr>"
  have new: "\<forall>e \<in> nodes s. livecheck_obj_cmp ?key (snd e) \<noteq> 0"
    using assms(2) by (force simp: livecheck_cmp_simps livecheck_key_def found_def)
  obtain a z where A: "case sml_tree_find (lv_tree s) ?key of
      (Some e, t') \<Rightarrow> e = (a, z) \<and> tree_of livecheck_obj_cmp t' \<and> set (tree_nodes t') = nodes s \<and> (a, z) \<in> nodes s
        \<and> livecheck_obj_cmp ?key z = 0
    | (None, t') \<Rightarrow> (\<forall>e \<in> nodes s. livecheck_obj_cmp ?key (snd e) \<noteq> 0 \<and> fst e \<noteq> a) \<and> z = ?key
        \<and> fst (sml_tree_insert t' ?key) = Some (a, ?key) \<and> tree_of livecheck_obj_cmp (snd (sml_tree_insert t' ?key))
        \<and> set (tree_nodes (snd (sml_tree_insert t' ?key))) = insert (a, ?key) (nodes s)"
    using livechecks.tree.find_or_insert[OF assms(1), of ?key] by blast
  obtain r t1 where f: "sml_tree_find (lv_tree s) ?key = (r, t1)" by (metis surj_pair)
  have r: "r = None" using A new f by (cases r) auto
  obtain t2 where i: "sml_tree_insert t1 ?key = (Some (a, ?key), t2)" "tree_of livecheck_obj_cmp t2"
    "set (tree_nodes t2) = insert (a, ?key) (nodes s)" "a \<notin> fst ` nodes s"
    using A f r by (cases "sml_tree_insert t1 ?key") auto
  have at: "node_at t2 a = Some ?key" using node_of[OF i(2), of a ?key] i(3) by simp
  have x: "?key\<lparr>lc_at := slot, lc_parent := lv_parent s, lc_next := lv_top s\<rparr> = ?x" by (simp add: livecheck_key_def)
  have e: "livecheck_mark m slot s = s\<lparr>lv_tree := tree_set_item t2 a ?x, lv_top := Some a\<rparr>"
    using assms(2) f r i(1) at x by (simp add: livecheck_mark_def Let_def update_at_def)
  have p: "tree_of livecheck_obj_cmp (tree_set_item t2 a ?x)"
    "set (tree_nodes (tree_set_item t2 a ?x)) = insert (a, ?x) (set (tree_nodes t2) - {(a, ?key)})"
    using livechecks.tree.put_law[OF i(2), of a ?key ?x] i(3) by (simp_all add: livecheck_cmp_simps livecheck_key_def)
  have "insert (a, ?key) (nodes s) - {(a, ?key)} = nodes s" using i(4) by force
  then show ?thesis using i(4) p by (intro exI[of _ a]) (simp add: e i(3))
qed

section \<open>The invariant\<close>

fun lc_chain :: "(node_addr \<times> livecheck_obj) set \<Rightarrow> node_addr option \<Rightarrow> node_addr list \<Rightarrow> bool" where
  "lc_chain N p [] \<longleftrightarrow> p = None"
| "lc_chain N p (a # as) \<longleftrightarrow> p = Some a \<and> (\<exists>x. (a, x) \<in> N \<and> lc_chain N (lc_next x) as)"

lemma lc_chain_mono: "N \<subseteq> N' \<Longrightarrow> lc_chain N p as \<Longrightarrow> lc_chain N' p as"
  by (induction as arbitrary: p) auto

text \<open>The pointer fields of an object that are scanned.\<close>

definition scanned_slots :: "mem \<Rightarrow> nat \<Rightarrow> nat set" where
  "scanned_slots m obj = (if skipped m obj then {} else case sml_obj_enum_ptr m obj of Inl _ \<Rightarrow> {} | Inr slots \<Rightarrow> set slots)"

text \<open>Where an object was found: \<open>G\<close> and \<open>U\<close> are the global slots and those of the stack.  \<open>rank\<close> is the order in
  which the nodes were made.\<close>

definition origin_ok :: "mem \<Rightarrow> nat set \<Rightarrow> nat set \<Rightarrow> (node_addr \<times> livecheck_obj) set \<Rightarrow> (node_addr \<Rightarrow> nat)
    \<Rightarrow> node_addr \<Rightarrow> livecheck_obj \<Rightarrow> bool" where
  "origin_ok m G U N rank a x \<longleftrightarrow> rank a < card N \<and> lc_obj x \<noteq> 0 \<and> load64 m (lc_at x) = lc_obj x
     \<and> (case lc_parent x of
          No_Parent \<Rightarrow> lc_at x \<in> U
        | Global_Root \<Rightarrow> lc_at x \<in> G
        | Parent b \<Rightarrow> \<exists>y. (b, y) \<in> N \<and> rank b < rank a \<and> lc_at x \<in> scanned_slots m (lc_obj y))"

definition live_inv :: "mem \<Rightarrow> nat set \<Rightarrow> nat set \<Rightarrow> livecheck \<Rightarrow> (node_addr \<Rightarrow> nat) \<Rightarrow> node_addr list \<Rightarrow> bool" where
  "live_inv m G U s rank as \<longleftrightarrow> tree_ok s \<and> lc_chain (nodes s) (lv_top s) as \<and> distinct as
     \<and> (\<forall>(a, x) \<in> nodes s. origin_ok m G U (nodes s) rank a x)"

text \<open>What may be marked with the current parent.\<close>

definition may_mark :: "mem \<Rightarrow> nat set \<Rightarrow> nat set \<Rightarrow> livecheck \<Rightarrow> nat \<Rightarrow> bool" where
  "may_mark m G U s slot \<longleftrightarrow>
     (case lv_parent s of
        No_Parent \<Rightarrow> slot \<in> U
      | Global_Root \<Rightarrow> slot \<in> G
      | Parent b \<Rightarrow> \<exists>y. (b, y) \<in> nodes s \<and> slot \<in> scanned_slots m (lc_obj y))"

lemma chain_nodes: "lc_chain N p as \<Longrightarrow> set as \<subseteq> fst ` N"
  by (induction as arbitrary: p) force+

lemma mark_inv:
  assumes "live_inv m G U s rank as" "may_mark m G U s slot"
  shows "\<exists>rank' new. live_inv m G U (livecheck_mark m slot s) rank' (new @ as)
    \<and> nodes s \<subseteq> nodes (livecheck_mark m slot s) \<and> lv_parent (livecheck_mark m slot s) = lv_parent s
    \<and> fst ` nodes (livecheck_mark m slot s) = fst ` nodes s \<union> set new \<and> set new \<inter> fst ` nodes s = {}
    \<and> found (livecheck_mark m slot s) = found s \<union> ({load64 m slot} - {0})"
proof (cases "load64 m slot \<in> insert 0 (found s)")
  case True
  have "tree_ok s" using assms(1) by (simp add: live_inv_def)
  note K = mark_known[OF this True]
  then have "live_inv m G U (livecheck_mark m slot s) rank ([] @ as)" using assms(1) by (simp add: live_inv_def)
  then show ?thesis using K True by (intro exI[of _ rank] exI[of _ "[]"]) (auto simp: found_def)
next
  case False
  let ?x = "\<lparr>lc_obj = load64 m slot, lc_at = slot, lc_next = lv_top s, lc_parent = lv_parent s\<rparr>"
    and ?s = "livecheck_mark m slot s"
  have inv: "tree_ok s" "lc_chain (nodes s) (lv_top s) as" "distinct as"
    "\<forall>(a, x) \<in> nodes s. origin_ok m G U (nodes s) rank a x" using assms(1) by (simp_all add: live_inv_def)
  obtain a where a: "a \<notin> fst ` nodes s" "tree_ok ?s" "nodes ?s = insert (a, ?x) (nodes s)" "lv_top ?s = Some a"
    "lv_parent ?s = lv_parent s" using mark_new[OF inv(1) False] by blast
  let ?r = "rank(a := card (nodes s))"
  have card: "card (insert (a, z) (nodes s)) = Suc (card (nodes s))" for z
  proof -
    have "(a, z) \<notin> nodes s" using a(1) by force
    then show ?thesis by simp
  qed
  have old: "b \<noteq> a" if "(b, y) \<in> nodes s" for b y using a(1) that by force
  have "origin_ok m G U (nodes ?s) ?r b y" if y: "(b, y) \<in> nodes s" for b y
  proof -
    have o: "origin_ok m G U (nodes s) rank b y" using inv(4) y by blast
    show ?thesis
      using o old[OF y] old unfolding origin_ok_def a(3) card by (cases "lc_parent y") (simp, simp, fastforce)
  qed
  moreover have "origin_ok m G U (nodes ?s) ?r a ?x"
  proof -
    have r: "rank b < card (nodes s)" if "(b, y) \<in> nodes s" for b y
      using inv(4) that by (auto simp: origin_ok_def)
    show ?thesis
      using assms(2) False old r unfolding origin_ok_def a(3) card may_mark_def
      by (cases "lv_parent s") (simp, simp, fastforce)
  qed
  moreover have "lc_chain (nodes ?s) (lv_top ?s) (a # as)" "distinct (a # as)"
  proof -
    have "lc_chain (nodes ?s) (lv_top s) as" by (rule lc_chain_mono[OF _ inv(2)]) (simp add: a(3) subset_insertI)
    then show "lc_chain (nodes ?s) (lv_top ?s) (a # as)" unfolding lc_chain.simps a(4) by (intro conjI refl exI[of _ ?x]) (simp_all add: a(3))
    show "distinct (a # as)" using chain_nodes[OF inv(2)] inv(3) a(1) by auto
  qed
  ultimately have "live_inv m G U ?s ?r ([a] @ as)" using a(2,3) by (auto simp: live_inv_def)
  then show ?thesis using a False by (intro exI[of _ ?r] exI[of _ "[a]"]) (auto simp: found_def)
qed

lemma fold_mark_inv:
  assumes "live_inv m G U s rank as" "\<forall>slot \<in> set slots. may_mark m G U s slot"
  shows "\<exists>rank' new. live_inv m G U (fold (livecheck_mark m) slots s) rank' (new @ as)
    \<and> nodes s \<subseteq> nodes (fold (livecheck_mark m) slots s) \<and> lv_parent (fold (livecheck_mark m) slots s) = lv_parent s
    \<and> fst ` nodes (fold (livecheck_mark m) slots s) = fst ` nodes s \<union> set new \<and> set new \<inter> fst ` nodes s = {}
    \<and> found (fold (livecheck_mark m) slots s) = found s \<union> (load64 m ` set slots - {0})"
  using assms
proof (induction slots arbitrary: s rank as)
  case Nil
  then show ?case by (intro exI[of _ rank] exI[of _ "[]"]) simp
next
  case (Cons slot slots)
  let ?s = "livecheck_mark m slot s"
  obtain rank1 new1 where 1: "live_inv m G U ?s rank1 (new1 @ as)" "nodes s \<subseteq> nodes ?s" "lv_parent ?s = lv_parent s"
    "fst ` nodes ?s = fst ` nodes s \<union> set new1" "set new1 \<inter> fst ` nodes s = {}"
    "found ?s = found s \<union> ({load64 m slot} - {0})"
    using mark_inv[OF Cons.prems(1), of slot] Cons.prems(2) by auto
  have all: "\<forall>slot \<in> set slots. may_mark m G U ?s slot"
    using Cons.prems(2) 1(2,3) unfolding may_mark_def by (cases "lv_parent s") (simp, simp, fastforce)
  obtain rank2 new2 where 2: "live_inv m G U (fold (livecheck_mark m) slots ?s) rank2 (new2 @ new1 @ as)"
    "nodes ?s \<subseteq> nodes (fold (livecheck_mark m) slots ?s)" "lv_parent (fold (livecheck_mark m) slots ?s) = lv_parent ?s"
    "fst ` nodes (fold (livecheck_mark m) slots ?s) = fst ` nodes ?s \<union> set new2" "set new2 \<inter> fst ` nodes ?s = {}"
    "found (fold (livecheck_mark m) slots ?s) = found ?s \<union> (load64 m ` set slots - {0})"
    using Cons.IH[OF 1(1) all] by (elim exE conjE) (rule that)
  have f: "fold (livecheck_mark m) (slot # slots) s = fold (livecheck_mark m) slots ?s" by simp
  show ?case
    unfolding f
  proof (intro exI conjI)
    show "live_inv m G U (fold (livecheck_mark m) slots ?s) rank2 ((new2 @ new1) @ as)" using 2(1) by simp
    show "nodes s \<subseteq> nodes (fold (livecheck_mark m) slots ?s)" using 1(2) 2(2) by (rule order_trans)
    show "lv_parent (fold (livecheck_mark m) slots ?s) = lv_parent s" using 1(3) 2(3) by simp
    show "fst ` nodes (fold (livecheck_mark m) slots ?s) = fst ` nodes s \<union> set (new2 @ new1)" using 1(4) 2(4) by auto
    show "set (new2 @ new1) \<inter> fst ` nodes s = {}" using 1(4,5) 2(5) by auto
    show "found (fold (livecheck_mark m) slots ?s) = found s \<union> (load64 m ` set (slot # slots) - {0})" using 1(6) 2(5,6) by auto
  qed
qed

text \<open>Before the loop every node is on the list.\<close>

lemma batch:
  assumes "live_inv m G U s rank as" "fst ` nodes s = set as" "\<forall>slot \<in> set slots. may_mark m G U s slot"
  shows "\<exists>rank' as'. live_inv m G U (fold (livecheck_mark m) slots s) rank' as'
    \<and> fst ` nodes (fold (livecheck_mark m) slots s) = set as'
    \<and> found (fold (livecheck_mark m) slots s) = found s \<union> (load64 m ` set slots - {0})
    \<and> lv_parent (fold (livecheck_mark m) slots s) = lv_parent s"
proof -
  obtain rank' new where "live_inv m G U (fold (livecheck_mark m) slots s) rank' (new @ as)"
    "lv_parent (fold (livecheck_mark m) slots s) = lv_parent s"
    "fst ` nodes (fold (livecheck_mark m) slots s) = fst ` nodes s \<union> set new"
    "found (fold (livecheck_mark m) slots s) = found s \<union> (load64 m ` set slots - {0})"
    using fold_mark_inv[OF assms(1,3)] by (elim exE conjE) (rule that)
  then show ?thesis using assms(2) by (intro exI[of _ rank'] exI[of _ "new @ as"]) auto
qed

section \<open>The loop\<close>

lemma new_inv: "live_inv m G U livecheck_new rank []" "nodes livecheck_new = {}"
  using tree_inv_new[OF livechecks.item_order_axioms, of 32]
  by (simp_all add: live_inv_def livecheck_new_def tree_of_def SIZEOF_NODE_def NODE_SIZE_def NODE_OFFSET_def CEILING_def
      CHUNK_SIZE_def tree_nodes_def) (simp_all add: sml_tree_new_def)

text \<open>The objects that exist: each that is scanned is well formed.\<close>

definition scannable :: "mem \<Rightarrow> nat set \<Rightarrow> bool" where
  "scannable m D \<longleftrightarrow> finite D \<and> 0 \<notin> D \<and> (\<forall>obj \<in> D. \<not> skipped m obj \<longrightarrow>
     (\<exists>slots. sml_obj_enum_ptr m obj = Inr slots \<and> load64 m ` set slots \<subseteq> insert 0 D))"

text \<open>The objects of the nodes that have been scanned are closed under reachability.\<close>

definition scanned_closed :: "mem \<Rightarrow> livecheck \<Rightarrow> node_addr list \<Rightarrow> bool" where
  "scanned_closed m s as \<longleftrightarrow>
     (\<forall>(a, x) \<in> nodes s. a \<notin> set as \<longrightarrow> load64 m ` scanned_slots m (lc_obj x) \<subseteq> insert 0 (found s))"

lemma found_card:
  assumes "tree_ok s" "found s \<subseteq> D" "finite D"
  shows "card (fst ` nodes s) \<le> card D" "card (nodes s) \<le> card D"
proof -
  have "inj_on (lc_obj \<circ> snd) (nodes s)"
    using livechecks.tree.one_of_a_class[OF assms(1)] by (auto simp: inj_on_def livecheck_cmp_simps)
  then have "card (nodes s) = card (found s)" using card_image[of "lc_obj \<circ> snd" "nodes s"] by (simp add: found_def image_comp)
  moreover have "card (found s) \<le> card D" by (rule card_mono[OF assms(3,2)])
  moreover have "card (fst ` nodes s) \<le> card (nodes s)" by (rule card_image_le) simp
  ultimately show "card (fst ` nodes s) \<le> card D" "card (nodes s) \<le> card D" by simp_all
qed

lemma loop_result:
  assumes "live_inv m G U s rank as" "scanned_closed m s as" "found s \<subseteq> D" "scannable m D"
    and "card D - card (fst ` nodes s - set as) < n"
  shows "\<exists>s' rank'. livecheck_loop n m s = Some s' \<and> live_inv m G U s' rank' [] \<and> scanned_closed m s' []
    \<and> found s \<subseteq> found s' \<and> found s' \<subseteq> D"
  using assms
proof (induction n arbitrary: s rank as)
  case 0
  then show ?case by simp
next
  case (Suc n)
  have inv: "tree_ok s" "lc_chain (nodes s) (lv_top s) as" "distinct as"
    "\<forall>(a, x) \<in> nodes s. origin_ok m G U (nodes s) rank a x" using Suc.prems(1) by (simp_all add: live_inv_def)
  have D: "finite D" using Suc.prems(4) by (simp add: scannable_def)
  show ?case
  proof (cases as)
    case Nil
    then have "lv_top s = None" using inv(2) by simp
    then show ?thesis using Suc.prems Nil by auto
  next
    case (Cons a bs)
    then obtain x where x: "lv_top s = Some a" "(a, x) \<in> nodes s" "lc_chain (nodes s) (lc_next x) bs" "a \<notin> set bs"
      using inv(2,3) by auto
    have at: "node_at (lv_tree s) a = Some x" using node_of[OF inv(1)] x(2) by blast
    have only: "y = x" if "(a, y) \<in> nodes s" for y using node_of[OF inv(1), of a y] at that by simp
    let ?s = "s\<lparr>lv_parent := Parent a, lv_top := lc_next x\<rparr>"
    have I: "live_inv m G U ?s rank bs" using Suc.prems(1) x(3) Cons by (simp add: live_inv_def)
    have obj: "lc_obj x \<in> D" using Suc.prems(3) x(2) by (force simp: found_def)
    have sub: "set as \<subseteq> fst ` nodes s" by (rule chain_nodes[OF inv(2)])
    text \<open>One more node is done: enough fuel is left.\<close>
    have fuel: "card D - card (fst ` nodes s' - set (new @ bs)) < n"
      if "fst ` nodes s' = fst ` nodes s \<union> set new" "set new \<inter> fst ` nodes s = {}" "tree_ok s'" "found s' \<subseteq> D" for s' new
    proof -
      have "fst ` nodes s' - set (new @ bs) = insert a (fst ` nodes s - set as)"
        using that(1,2) x(2,4) Cons by force
      moreover have "a \<notin> fst ` nodes s - set as" using Cons by simp
      ultimately have "card (fst ` nodes s' - set (new @ bs)) = Suc (card (fst ` nodes s - set as))" by simp
      moreover have "card (fst ` nodes s' - set (new @ bs)) \<le> card D"
        using card_mono[of "fst ` nodes s'" "fst ` nodes s' - set (new @ bs)"] found_card[OF that(3,4) D] by force
      ultimately show ?thesis using Suc.prems(5) by simp
    qed
    show ?thesis
    proof (cases "skipped m (lc_obj x)")
      case True
      have "scanned_closed m ?s bs"
        using Suc.prems(2) True Cons only by (fastforce simp: scanned_closed_def scanned_slots_def found_def)
      moreover have "found ?s = found s" by (simp add: found_def)
      moreover have "card D - card (fst ` nodes ?s - set bs) < n" using fuel[of ?s "[]"] inv(1) Suc.prems(3) by (simp add: found_def)
      ultimately show ?thesis using Suc.IH[OF I _ _ Suc.prems(4)] Suc.prems(3) True x(1) at by auto
    next
      case False
      then obtain slots where slots: "sml_obj_enum_ptr m (lc_obj x) = Inr slots" "load64 m ` set slots \<subseteq> insert 0 D"
        using Suc.prems(4) obj by (auto simp: scannable_def)
      have set: "scanned_slots m (lc_obj x) = set slots" using False slots(1) by (simp add: scanned_slots_def)
      let ?t = "fold (livecheck_mark m) slots ?s"
      have "\<forall>slot \<in> set slots. may_mark m G U ?s slot" using x(2) set by (auto simp: may_mark_def)
      then obtain rank' new where M: "live_inv m G U ?t rank' (new @ bs)" "nodes s \<subseteq> nodes ?t"
        "fst ` nodes ?t = fst ` nodes s \<union> set new" "set new \<inter> fst ` nodes s = {}"
        "found ?t = found s \<union> (load64 m ` set slots - {0})"
        using fold_mark_inv[OF I, of slots] by (auto simp: found_def)
      have t: "tree_ok ?t" using M(1) by (simp add: live_inv_def)
      have "scanned_closed m ?t (new @ bs)"
        unfolding scanned_closed_def
      proof (clarify)
        fix b1 b2 y v slot
        assume y: "((b1, b2), y) \<in> nodes ?t" "(b1, b2) \<notin> set (new @ bs)" "slot \<in> scanned_slots m (lc_obj y)"
          "load64 m slot \<notin> found ?t"
        then obtain z where z: "((b1, b2), z) \<in> nodes s" using M(3) by force
        then have "y = z" using node_unique[OF t y(1)] M(2) by blast
        then show "load64 m slot = 0"
          using y z only Suc.prems(2) set M(5) Cons by (cases "(b1, b2) = a") (fastforce simp: scanned_closed_def)+
      qed
      moreover have f: "found ?t \<subseteq> D" using M(5) Suc.prems(3) slots(2) by auto
      moreover have "card D - card (fst ` nodes ?t - set (new @ bs)) < n" by (rule fuel[OF M(3,4) t f])
      ultimately obtain s' rank'' where "livecheck_loop n m ?t = Some s'" "live_inv m G U s' rank'' []"
        "scanned_closed m s' []" "found ?t \<subseteq> found s'" "found s' \<subseteq> D"
        using Suc.IH[OF M(1) _ _ Suc.prems(4)] by blast
      then show ?thesis using x(1) at False slots(1) M(5) by auto
    qed
  qed
qed

section \<open>What the tracer finds\<close>

text \<open>The objects that can be reached from the slots \<open>R\<close>.\<close>

inductive live_obj :: "mem \<Rightarrow> nat set \<Rightarrow> nat \<Rightarrow> bool" for m R where
  root: "slot \<in> R \<Longrightarrow> load64 m slot \<noteq> 0 \<Longrightarrow> live_obj m R (load64 m slot)"
| field: "live_obj m R obj \<Longrightarrow> slot \<in> scanned_slots m obj \<Longrightarrow> load64 m slot \<noteq> 0 \<Longrightarrow> live_obj m R (load64 m slot)"

lemma found_live:
  assumes "live_inv m G U s rank as" "(a, x) \<in> nodes s"
  shows "live_obj m (G \<union> U) (lc_obj x)"
  using assms(2)
proof (induction "rank a" arbitrary: a x rule: less_induct)
  case less
  then have o: "origin_ok m G U (nodes s) rank a x" using assms(1) by (auto simp: live_inv_def)
  show ?case
    using o less(1) root[of "lc_at x" "G \<union> U" m] field[of m "G \<union> U" _ "lc_at x"]
    by (cases "lc_parent x") (auto simp: origin_ok_def)
qed

lemma live_found:
  assumes "live_obj m R obj" "scanned_closed m s []" "load64 m ` R \<subseteq> insert 0 (found s)"
  shows "obj \<in> found s"
  using assms(1)
proof (induction rule: live_obj.induct)
  case (root slot)
  then show ?case using assms(3) by auto
next
  case (field obj slot)
  then obtain a x where "(a, x) \<in> nodes s" "lc_obj x = obj" by (auto simp: found_iff)
  then show ?case using assms(2) field(2,3) by (force simp: scanned_closed_def)
qed

text \<open>This is the reachability of the collector (Collection), so the two can be compared object by object.\<close>

lemma live_reaches:
  assumes "scannable (gc_mem st) D" "load64 (gc_mem st) ` R \<subseteq> insert 0 D"
  shows "live_obj (gc_mem st) R obj \<longleftrightarrow> reaches st D (load64 (gc_mem st) ` R) obj"
proof
  let ?m = "gc_mem st"
  have e: "edge st D x y \<longleftrightarrow> x \<in> D \<and> y \<noteq> 0 \<and> y \<in> load64 ?m ` scanned_slots ?m x" if "x \<in> D" for x y
  proof (cases "skipped ?m x")
    case False
    then obtain slots where "sml_obj_enum_ptr ?m x = Inr slots" "load64 ?m ` set slots \<subseteq> insert 0 D"
      using assms(1) \<open>x \<in> D\<close> by (auto simp: scannable_def)
    moreover have "z \<in> D \<Longrightarrow> z \<noteq> 0" for z using assms(1) by (metis scannable_def)
    ultimately show ?thesis using False that by (fastforce simp: edge_def children_def scanned_slots_def)
  qed (simp add: edge_def scanned_slots_def)
  show "reaches st D (load64 ?m ` R) obj" if "live_obj ?m R obj"
    using that
  proof (induction rule: live_obj.induct)
    case (root slot)
    then have "load64 ?m slot \<in> load64 ?m ` R \<inter> D" using assms(2) by auto
    then show ?case unfolding reaches_def by blast
  next
    case (field x slot)
    then obtain r where r: "r \<in> load64 ?m ` R \<inter> D" "(edge st D)\<^sup>*\<^sup>* r x" by (auto simp: reaches_def)
    from r(2) have "x \<in> D" using r(1) by (induction rule: rtranclp_induct) (auto simp: edge_def)
    then have "edge st D x (load64 ?m slot)" using e field(2,3) by auto
    then show ?case using r by (auto simp: reaches_def intro: rtranclp.rtrancl_into_rtrancl)
  qed
  assume "reaches st D (load64 ?m ` R) obj"
  then obtain r where r: "r \<in> load64 ?m ` R \<inter> D" "(edge st D)\<^sup>*\<^sup>* r obj" by (auto simp: reaches_def)
  from r(2) show "live_obj ?m R obj"
  proof (induction rule: rtranclp_induct)
    case base
    have "r \<noteq> 0" using r(1) assms(1) by (metis IntD2 scannable_def)
    then show ?case using r(1) root[of _ R ?m] by auto
  next
    case (step x y)
    then have "x \<in> D" by (simp add: edge_def)
    then show ?case using e[of x y] step(2,3) field[of ?m R x] by auto
  qed
qed

text \<open>A path that is printed: an object, the one it was found through, and so on to a slot of the stack, or to
  \<open>NULL\<close>, for the global slots.\<close>

fun path_ok :: "mem \<Rightarrow> nat set \<Rightarrow> nat set \<Rightarrow> nat list \<Rightarrow> bool" where
  "path_ok m G U [] \<longleftrightarrow> False"
| "path_ok m G U [x] \<longleftrightarrow> x \<in> load64 m ` U"
| "path_ok m G U (x # y # ys) \<longleftrightarrow>
     (if y = 0 then ys = [] \<and> x \<in> load64 m ` G else x \<in> load64 m ` scanned_slots m y \<and> path_ok m G U (y # ys))"

lemma path_live: "path_ok m G U (x # xs) \<Longrightarrow> x \<noteq> 0 \<Longrightarrow> live_obj m (G \<union> U) x"
proof (induction xs arbitrary: x)
  case Nil
  then show ?case using root[of _ "G \<union> U" m] by auto
next
  case (Cons y ys)
  then show ?case using root[of _ "G \<union> U" m] field[of m "G \<union> U" y] by (auto split: if_splits)
qed

lemma parents_path:
  assumes "live_inv m G U s rank as" "(a, x) \<in> nodes s" "rank a + 2 \<le> n"
  shows "\<exists>xs. parents_from n (lv_tree s) (Parent a) = Some (lc_obj x # xs) \<and> path_ok m G U (lc_obj x # xs)"
  using assms(2,3)
proof (induction n arbitrary: a x)
  case 0
  then show ?case by simp
next
  case (Suc n)
  have inv: "tree_ok s" "origin_ok m G U (nodes s) rank a x" using assms(1) Suc.prems(1) by (auto simp: live_inv_def)
  have at: "node_at (lv_tree s) a = Some x" using node_of[OF inv(1)] Suc.prems(1) by blast
  obtain k where k: "n = Suc k" using Suc.prems(2) by (cases n) auto
  have slot: "load64 m (lc_at x) = lc_obj x" using inv(2) by (simp add: origin_ok_def)
  show ?case
  proof (cases "lc_parent x")
    case (Parent b)
    then obtain y where y: "(b, y) \<in> nodes s" "rank b < rank a" "lc_at x \<in> scanned_slots m (lc_obj y)"
      using inv(2) by (auto simp: origin_ok_def)
    have "lc_obj y \<noteq> 0" using assms(1) y(1) by (auto simp: live_inv_def origin_ok_def)
    moreover obtain xs where "parents_from n (lv_tree s) (Parent b) = Some (lc_obj y # xs)" "path_ok m G U (lc_obj y # xs)"
      using Suc.IH[OF y(1)] y(2) Suc.prems(2) by auto
    ultimately show ?thesis using at Parent y(3) slot by (auto intro: rev_image_eqI)
  qed (use inv(2) at slot k in \<open>auto simp: origin_ok_def intro: rev_image_eqI\<close>)
qed

lemma find_result:
  assumes "live_inv m G U s rank as" "livecheck_find s obj = (r, s')"
  shows "live_inv m G U s' rank as" "nodes s' = nodes s"
    "case r of None \<Rightarrow> obj \<notin> found s | Some (a, x) \<Rightarrow> (a, x) \<in> nodes s \<and> lc_obj x = obj"
proof -
  have t: "tree_ok s" using assms(1) by (simp add: live_inv_def)
  obtain t' where f: "sml_tree_find (lv_tree s) (livecheck_key obj) = (r, t')" "s' = s\<lparr>lv_tree := t'\<rparr>"
    using assms(2) by (auto simp: livecheck_find_def split: prod.splits)
  have k: "tree_of livecheck_obj_cmp t'" "set (tree_nodes t') = nodes s"
    using livechecks.tree.find_keeps[OF t, of "livecheck_key obj"] f(1) by simp_all
  then show "live_inv m G U s' rank as" "nodes s' = nodes s" using assms(1) by (simp_all add: live_inv_def f(2))
  show "case r of None \<Rightarrow> obj \<notin> found s | Some (a, x) \<Rightarrow> (a, x) \<in> nodes s \<and> lc_obj x = obj"
  proof (cases r)
    case None
    then show ?thesis using livechecks.tree.find_none[OF t, of "livecheck_key obj"] f(1)
      by (auto simp: found_def livecheck_cmp_simps livecheck_key_def)
  next
    case (Some e)
    then show ?thesis using livechecks.tree.find_iff[OF t, of "livecheck_key obj" e] f(1)
      by (cases e) (auto simp: livecheck_cmp_simps livecheck_key_def)
  qed
qed

lemma each_sorted:
  assumes "tree_ok s"
  shows "sml_livecheck_each s (\<lambda>obj xs. xs @ [obj]) [] = sorted_list_of_set (found s)"
proof -
  let ?xs = "map (lc_obj \<circ> snd) (tree_nodes (lv_tree s))"
  have f: "fold (\<lambda>obj xs. xs @ [obj]) zs ys = ys @ zs" for zs ys :: "nat list" by (induction zs arbitrary: ys) simp_all
  have "sml_livecheck_each s (\<lambda>obj xs. xs @ [obj]) [] = fold (\<lambda>obj xs. xs @ [obj]) ?xs []"
    by (simp add: sml_livecheck_each_def sml_tree_each_def each_loop_fold items_def tree_nodes_def fold_map comp_def)
  moreover have "sorted_wrt (<) ?xs"
    using assms by (auto simp: tree_of_def tree_inv_def bst_def items_def tree_nodes_def sorted_wrt_map livecheck_obj_cmp_def)
  moreover have "set ?xs = found s" by (auto simp: found_def)
  ultimately show ?thesis using sorted_list_of_set.idem_if_sorted_distinct[of ?xs] by (simp add: f strict_sorted_iff)
qed

text \<open>The query for the parent of an object found on the stack follows a null pointer.\<close>

lemma parent_of_stack_object:
  assumes "live_inv m G U s rank as" "(a, x) \<in> nodes s" "lc_parent x = No_Parent"
  shows "fst (sml_livecheck_parent s (lc_obj x)) = None"
proof -
  obtain r s' where f: "livecheck_find s (lc_obj x) = (r, s')" by (metis surj_pair)
  note F = find_result[OF assms(1) f]
  have t: "tree_ok s" using assms(1) by (simp add: live_inv_def)
  have "r = Some (a, x)"
  proof (cases r)
    case None
    then show ?thesis using F(3) assms(2) by (force simp: found_def)
  next
    case (Some e)
    then have "e \<in> nodes s" "livecheck_obj_cmp (snd e) (snd (a, x)) = 0" using F(3) by (auto simp: livecheck_cmp_simps)
    then show ?thesis using livechecks.tree.one_of_a_class[OF t _ assms(2)] Some by simp
  qed
  then show ?thesis using f assms(3) by (simp add: sml_livecheck_parent_def parent_obj_def)
qed

section \<open>Properties\<close>

lemma trace_runs:
  assumes "sml_global_enum_ptr m st = Inr gs"
    and "if user = 0 then us = [] else map_option (map root_slot) (sml_stack_enum_ptr n m st c user) = Some us"
    and "scannable m D" "load64 m ` (set gs \<union> set cs \<union> set us) \<subseteq> insert 0 D" "card D < n"
  shows "\<exists>s rank. sml_livecheck n m st cs c user = Some s \<and> live_inv m (set gs \<union> set cs) (set us) s rank []
    \<and> found s = {obj. live_obj m (set gs \<union> set cs \<union> set us) obj} \<and> found s \<subseteq> D"
proof -
  let ?G = "set gs \<union> set cs" and ?U = "set us" and ?mark = "fold (livecheck_mark m)"
  let ?s0 = "livecheck_new\<lparr>lv_parent := Global_Root\<rparr>"
  let ?s1 = "?mark gs ?s0" let ?s2 = "?mark cs ?s1"
  let ?s3 = "if user = 0 then ?s2 else ?mark us (?s2\<lparr>lv_parent := No_Parent\<rparr>)"
  have 0: "live_inv m ?G ?U ?s0 (\<lambda>_. 0) []" "found ?s0 = {}"
    using new_inv(1)[of m ?G ?U "\<lambda>_. 0"] new_inv(2) by (simp_all add: live_inv_def found_def)
  obtain r1 as1 where 1: "live_inv m ?G ?U ?s1 r1 as1" "fst ` nodes ?s1 = set as1"
    "found ?s1 = load64 m ` set gs - {0}" "lv_parent ?s1 = Global_Root"
    using batch[OF 0(1), of gs] 0(2) new_inv(2) by (auto simp: may_mark_def)
  obtain r2 as2 where 2: "live_inv m ?G ?U ?s2 r2 as2" "fst ` nodes ?s2 = set as2" "found ?s2 = load64 m ` ?G - {0}"
    using batch[OF 1(1,2), of cs] 1(3,4) by (auto simp: may_mark_def image_Un Un_Diff)
  have "\<exists>r3 as3. live_inv m ?G ?U ?s3 r3 as3 \<and> fst ` nodes ?s3 = set as3 \<and> found ?s3 = load64 m ` (?G \<union> ?U) - {0}"
  proof (cases "user = 0")
    case True
    then show ?thesis using 2 assms(2) by auto
  next
    case False
    have i: "live_inv m ?G ?U (?s2\<lparr>lv_parent := No_Parent\<rparr>) r2 as2" "fst ` nodes (?s2\<lparr>lv_parent := No_Parent\<rparr>) = set as2"
      "found (?s2\<lparr>lv_parent := No_Parent\<rparr>) = load64 m ` ?G - {0}" using 2 by (simp_all add: live_inv_def found_def)
    show ?thesis using batch[OF i(1,2), of us] i(3) False by (auto simp: may_mark_def image_Un Un_Diff)
  qed
  then obtain r3 as3 where 3: "live_inv m ?G ?U ?s3 r3 as3" "fst ` nodes ?s3 = set as3"
    "found ?s3 = load64 m ` (?G \<union> ?U) - {0}" by blast
  have e: "sml_livecheck n m st cs c user = livecheck_loop n m ?s3"
    using assms(1,2) by (auto simp: sml_livecheck_def livecheck_trace_def Let_def)
  have closed: "scanned_closed m ?s3 as3" using 3(2) by (force simp: scanned_closed_def)
  have D: "found ?s3 \<subseteq> D" "card D - card (fst ` nodes ?s3 - set as3) < n" using 3(2,3) assms(4,5) by auto
  obtain s rank where L: "livecheck_loop n m ?s3 = Some s" "live_inv m ?G ?U s rank []" "scanned_closed m s []"
    "found ?s3 \<subseteq> found s" "found s \<subseteq> D"
    using loop_result[OF 3(1) closed D(1) assms(3) D(2)] by blast
  have "load64 m ` (?G \<union> ?U) \<subseteq> insert 0 (found s)" using 3(3) L(4) by auto
  then have "found s = {obj. live_obj m (?G \<union> ?U) obj}"
    using live_found[OF _ L(3)] found_live[OF L(2)] by (auto simp: found_iff)
  then show ?thesis using e L by auto
qed

text \<open>C12.  The tracer agrees with reachability. With enough fuel, on a heap whose scanned objects are well formed,
  \<open>sml_livecheck\<close> ends and has found exactly the objects that can be reached from the global slots, the callback slots and the
  stack of the user: \<open>sml_livecheck_each\<close> gives each of them once, in the order of their addresses; \<open>sml_livecheck_at\<close> gives
  a slot that holds the object; and \<open>sml_livecheck_print_parents\<close> prints a path of objects back to a root.  For any other
  address they give nothing.\<close>

theorem livecheck_exact:
  assumes "sml_global_enum_ptr m st = Inr gs"
    and "if user = 0 then us = [] else map_option (map root_slot) (sml_stack_enum_ptr n m st c user) = Some us"
    and "scannable m D" "load64 m ` (set gs \<union> set cs \<union> set us) \<subseteq> insert 0 D" "card D < n"
  shows "\<exists>s. sml_livecheck n m st cs c user = Some s
    \<and> sml_livecheck_each s (\<lambda>obj xs. xs @ [obj]) [] = sorted_list_of_set {obj. live_obj m (set gs \<union> set cs \<union> set us) obj}
    \<and> (\<forall>obj. if live_obj m (set gs \<union> set cs \<union> set us) obj
        then load64 m (fst (sml_livecheck_at s obj)) = obj
          \<and> (\<exists>xs. fst (sml_livecheck_print_parents n s obj) = Some (obj # xs) \<and> path_ok m (set gs \<union> set cs) (set us) (obj # xs))
        else fst (sml_livecheck_at s obj) = 0 \<and> fst (sml_livecheck_print_parents n s obj) = Some [])"
proof -
  let ?R = "set gs \<union> set cs \<union> set us"
  obtain s rank where S: "sml_livecheck n m st cs c user = Some s" "live_inv m (set gs \<union> set cs) (set us) s rank []"
    "found s = {obj. live_obj m ?R obj}" "found s \<subseteq> D" using trace_runs[OF assms] by blast
  have t: "tree_ok s" using S(2) by (simp add: live_inv_def)
  have card: "card (nodes s) < n" using found_card(2)[OF t S(4)] assms(3,5) by (simp add: scannable_def)
  have "if live_obj m ?R obj
      then load64 m (fst (sml_livecheck_at s obj)) = obj
        \<and> (\<exists>xs. fst (sml_livecheck_print_parents n s obj) = Some (obj # xs) \<and> path_ok m (set gs \<union> set cs) (set us) (obj # xs))
      else fst (sml_livecheck_at s obj) = 0 \<and> fst (sml_livecheck_print_parents n s obj) = Some []" for obj
  proof -
    obtain r s' where f: "livecheck_find s obj = (r, s')" by (metis surj_pair)
    note F = find_result[OF S(2) f]
    show ?thesis
    proof (cases r)
      case None
      then have "\<not> live_obj m ?R obj" using F(3) S(3) by simp
      then show ?thesis using None f by (simp add: sml_livecheck_at_def sml_livecheck_print_parents_def)
    next
      case (Some e)
      obtain a x where e: "e = (a, x)" by (cases e)
      have x: "(a, x) \<in> nodes s" "(a, x) \<in> nodes s'" "lc_obj x = obj" using F(2,3) Some e by simp_all
      then have "obj \<in> found s" by (force simp: found_def)
      then have "live_obj m ?R obj" using S(3) by simp
      moreover have o: "rank a < card (nodes s)" "load64 m (lc_at x) = obj"
        using S(2) x(1,3) by (auto simp: live_inv_def origin_ok_def)
      moreover have "rank a + 2 \<le> n" using o(1) card by simp
      ultimately show ?thesis
        using parents_path[OF F(1) x(2)] x(3) f Some e by (simp add: sml_livecheck_at_def sml_livecheck_print_parents_def)
    qed
  qed
  then show ?thesis using S(1,3) each_sorted[OF t] by auto
qed

lemma livecheck_exact_witness:
  "\<exists>s. sml_livecheck 2 (gc_mem two_objects) no_programs [1000] idle_control 32 = Some s
    \<and> sml_livecheck_each s (\<lambda>obj xs. xs @ [obj]) [] = [64]
    \<and> fst (sml_livecheck_print_parents 2 s 64) = Some [64, 0] \<and> fst (sml_livecheck_at s 8256) = 0"
proof -
  let ?m = "gc_mem two_objects"
  have g: "sml_global_enum_ptr ?m no_programs = Inr []" "map_option (map root_slot) (sml_stack_enum_ptr 2 ?m no_programs idle_control 32) = Some []"
    by (simp_all add: sml_stack_enum_ptr_def sml_global_enum_ptr_def idle_control_def no_programs_def)
  have scan: "scannable ?m {64}" "scanned_slots ?m 64 = {}"
    using two_objects_words(4) two_objects_words(9)[of 64] by (simp_all add: scannable_def scanned_slots_def)
  have only: "x = 64" if "live_obj ?m {1000} x" for x
    using that by (induction rule: live_obj.induct) (auto simp: two_objects_words(8) scan(2))
  moreover have "live_obj ?m {1000} 64" using live_obj.root[of 1000 "{1000}" ?m] by (simp add: two_objects_words(8))
  ultimately have l: "live_obj ?m {1000} x \<longleftrightarrow> x = 64" for x by blast
  have pre: "if (32 :: nat) = 0 then ([] :: nat list) = [] else map_option (map root_slot) (sml_stack_enum_ptr 2 ?m no_programs idle_control 32) = Some []"
    "load64 ?m ` (set [] \<union> set [1000] \<union> set []) \<subseteq> insert 0 {64}" "card {64 :: nat} < 2"
    using g(2) by (simp_all add: two_objects_words(8))
  note T = livecheck_exact[OF g(1) pre(1) scan(1) pre(2,3), unfolded list.set Un_empty_left Un_empty_right]
  obtain s where S: "sml_livecheck 2 ?m no_programs [1000] idle_control 32 = Some s"
    "sml_livecheck_each s (\<lambda>obj xs. xs @ [obj]) [] = sorted_list_of_set {x. live_obj ?m {1000} x}"
    "\<forall>obj. if live_obj ?m {1000} obj
        then load64 ?m (fst (sml_livecheck_at s obj)) = obj
          \<and> (\<exists>xs. fst (sml_livecheck_print_parents 2 s obj) = Some (obj # xs) \<and> path_ok ?m {1000} {} (obj # xs))
        else fst (sml_livecheck_at s obj) = 0 \<and> fst (sml_livecheck_print_parents 2 s obj) = Some []"
    using T by (elim exE conjE) (rule that)
  obtain xs where xs: "fst (sml_livecheck_print_parents 2 s 64) = Some (64 # xs)" "path_ok ?m {1000} {} (64 # xs)"
    using S(3)[rule_format, of 64] l by auto
  have "xs = [0]"
  proof (cases xs)
    case Nil
    then show ?thesis using xs(2) by simp
  next
    case (Cons y ys)
    then show ?thesis using xs(2) path_live[of ?m "{1000}" "{}" y ys] l scan(2) by (auto split: if_splits)
  qed
  then show ?thesis using S xs(1) l by simp
qed

end
