(* ===== verification/Prim.thy ===== *)
theory Prim
  imports Object
begin

unbundle bit_operations_syntax

text \<open>
  Primitives of the Basis Library (prim.c) that compute something: comparison of memory, numbers as text,
  names of system errors, modes of files, polling, the loops around \<open>readlink\<close> and \<open>getcwd\<close>, conversions
  of large integers and of numbers' classes.  Strings are lists of bytes without the terminating zero.  The constants and functions of
  the system, of the floating-point environment and of GMP are arguments; the wrappers that only pass their arguments
  on to one such function are left out.
\<close>

type_synonym bytes = "u8 list"

definition chars :: "string \<Rightarrow> bytes" where
  "chars s = map (\<lambda>c. of_nat (of_char c)) s"

section \<open>Comparing memory\<close>

fun memcmp_loop :: "mem \<Rightarrow> nat \<Rightarrow> nat \<Rightarrow> nat \<Rightarrow> int" where
  "memcmp_loop m s1 s2 0 = 0"
| "memcmp_loop m s1 s2 (Suc len) =
     (let c1 = m s1; c2 = m s2
      in if c1 \<noteq> c2 then uint c1 - uint c2 else memcmp_loop m (s1 + 1) (s2 + 1) len)"

definition sml_memcmp :: "mem \<Rightarrow> nat \<Rightarrow> nat \<Rightarrow> nat \<Rightarrow> nat \<Rightarrow> int \<Rightarrow> int" where
  "sml_memcmp m s1 i1 s2 i2 len =
     (let s1 = s1 + i1; s2 = s2 + i2
      in if s1 = s2 then 0 else memcmp_loop m s1 s2 (nat len))"

section \<open>Numbers as text\<close>

definition digit :: "nat \<Rightarrow> u8" where
  "digit n = chars ''0123456789ABCDEF'' ! n"

text \<open>\<open>buf\<close> is written from the end; an index that would become negative is \<open>None\<close>.  The loop over an unsigned value
  ends for a radix of at least 2; for 0 and 1 it would not, which is \<open>None\<close> as well.\<close>

definition put :: "u8 \<Rightarrow> (nat \<Rightarrow> u8) \<times> nat \<Rightarrow> ((nat \<Rightarrow> u8) \<times> nat) option" where
  "put c = (\<lambda>(buf, index). if index = 0 then None else Some (buf(index - 1 := c), index - 1))"

partial_function (option) fmt_loop :: "nat \<Rightarrow> nat \<Rightarrow> (nat \<Rightarrow> u8) \<times> nat \<Rightarrow> ((nat \<Rightarrow> u8) \<times> nat) option" where
  "fmt_loop value radix b =
     (if value = 0 then Some b
      else if radix = 0 then None
      else Option.bind (put (digit (value mod radix)) b) (fmt_loop (value div radix) radix))"

definition fmt :: "nat \<Rightarrow> nat \<Rightarrow> (nat \<Rightarrow> u8) \<times> nat \<Rightarrow> ((nat \<Rightarrow> u8) \<times> nat) option" where
  "fmt value radix b = (if value = 0 then put 48 b else fmt_loop value radix b)"

text \<open>\<open>sizeof(unsigned int) * CHAR_BIT + sizeof("~")\<close>\<close>

definition fmt_size :: nat where "fmt_size = 34"

definition fmt_int :: "(nat \<Rightarrow> u8) \<Rightarrow> 32 word \<Rightarrow> nat \<Rightarrow> bytes option" where
  "fmt_int junk value radix =
     (let n = (if value <s 0 then 0 - value else value) in
      case fmt (unat n) radix (junk, fmt_size) of
        None \<Rightarrow> None
      | Some b \<Rightarrow>
          (case (if value <s 0 then put 126 b else Some b) of
             None \<Rightarrow> None
           | Some (buf, i) \<Rightarrow> Some (map buf [i..<fmt_size])))"

section \<open>Names of system errors\<close>

text \<open>The macros of the table and their names; \<open>errnum\<close> gives the numbers of those that the system defines.\<close>

definition sys_error_names :: "(string \<times> string) list" where
  "sys_error_names =
     [(''EACCES'', ''acces''), (''EAGAIN'', ''again''), (''EBADF'', ''badf''), (''EBADMSG'', ''badmsg''), (''EBUSY'', ''busy''),
      (''ECANCELED'', ''canceled''), (''ECHILD'', ''child''), (''EDEADLK'', ''deadlk''), (''EDOM'', ''dom''), (''EEXIST'', ''exist''),
      (''EFAULT'', ''fault''), (''EFBIG'', ''fbig''), (''EINPROGRESS'', ''inprogress''), (''EINTR'', ''intr''), (''EINVAL'', ''inval''),
      (''EIO'', ''io''), (''EISDIR'', ''isdir''), (''ELOOP'', ''loop''), (''EMFILE'', ''mfile''), (''EMLINK'', ''mlink''),
      (''EMSGSIZE'', ''msgsize''), (''ENAMETOOLONG'', ''nametoolong''), (''ENFILE'', ''nfile''), (''ENODEV'', ''nodev''),
      (''ENOENT'', ''noent''), (''ENOEXEC'', ''noexec''), (''ENOLCK'', ''nolck''), (''ENOMEM'', ''nomem''), (''ENOSPC'', ''nospc''),
      (''ENOSYS'', ''nosys''), (''ENOTDIR'', ''notdir''), (''ENOTEMPTY'', ''notempty''), (''ENOTSUP'', ''notsup''), (''ENOTTY'', ''notty''),
      (''ENXIO'', ''nxio''), (''EPERM'', ''perm''), (''EPIPE'', ''pipe''), (''ERANGE'', ''range''), (''EROFS'', ''rofs''),
      (''ESPIPE'', ''spipe''), (''ESRCH'', ''srch''), (''E2BIG'', ''toobig''), (''EXDEV'', ''xdev'')]"

definition sys_errors :: "(string \<Rightarrow> 32 word option) \<Rightarrow> (32 word \<times> bytes) list" where
  "sys_errors errnum = concat (map (\<lambda>(macro, name). case errnum macro of None \<Rightarrow> [] | Some e \<Rightarrow> [(e, chars name)]) sys_error_names)"

definition prim_GenericOS_errorName :: "(string \<Rightarrow> 32 word option) \<Rightarrow> (nat \<Rightarrow> u8) \<Rightarrow> 32 word \<Rightarrow> bytes option" where
  "prim_GenericOS_errorName errs junk errnum =
     (case map_of (sys_errors errs) errnum of
        None \<Rightarrow> fmt_int junk errnum 10
      | Some name \<Rightarrow> Some name)"

text \<open>What C reads of a byte string that may contain zero bytes.\<close>

definition c_string :: "bytes \<Rightarrow> bytes" where "c_string s = takeWhile (\<lambda>c. c \<noteq> 0) s"

definition isdigit :: "u8 \<Rightarrow> bool" where "isdigit c \<longleftrightarrow> 48 \<le> c \<and> c \<le> 57"

text \<open>\<open>atoi\<close> of the C library on a text that begins with a digit; a value out of range is undefined there and wraps here.\<close>

fun digits_value :: "nat \<Rightarrow> bytes \<Rightarrow> nat" where
  "digits_value n [] = n"
| "digits_value n (c # cs) = (if isdigit c then digits_value (10 * n + (unat c - 48)) cs else n)"

definition atoi :: "bytes \<Rightarrow> 32 word" where "atoi s = of_nat (digits_value 0 s)"

definition prim_GenericOS_syserror :: "(string \<Rightarrow> 32 word option) \<Rightarrow> bytes \<Rightarrow> 32 word" where
  "prim_GenericOS_syserror errs errorname =
     (let errorname = c_string errorname in
      if errorname \<noteq> [] \<and> isdigit (hd errorname) then atoi errorname
      else case find (\<lambda>(_, name). errorname = name) (sys_errors errs) of
             None \<Rightarrow> - 1
           | Some (errnum, _) \<Rightarrow> errnum)"

section \<open>Files\<close>

record open_flags =
  O_RDONLY :: u32
  O_WRONLY :: u32
  O_RDWR :: u32
  O_TRUNC :: u32
  O_CREAT :: u32
  O_APPEND :: u32
  O_BINARY :: "u32 option"

text \<open>The flags passed to \<open>open\<close>; \<open>None\<close> is \<open>EINVAL\<close>.  Without \<open>O_BINARY\<close> the letter b is only skipped.\<close>

definition add_binary :: "open_flags \<Rightarrow> u32 \<Rightarrow> u32" where
  "add_binary fl subflags = (case O_BINARY fl of None \<Rightarrow> subflags | Some b \<Rightarrow> subflags OR b)"

definition skip_if :: "char \<Rightarrow> bytes \<Rightarrow> bool \<times> bytes" where
  "skip_if c str = (if str \<noteq> [] \<and> hd str = of_nat (of_char c) then (True, tl str) else (False, str))"

definition open_mode :: "open_flags \<Rightarrow> u8 \<Rightarrow> (u32 \<times> u32) option" where
  "open_mode fl c =
     (if c = of_nat (of_char (CHR ''r'')) then Some (O_RDONLY fl, 0)
      else if c = of_nat (of_char (CHR ''w'')) then Some (O_WRONLY fl, O_TRUNC fl OR O_CREAT fl)
      else if c = of_nat (of_char (CHR ''a'')) then Some (O_WRONLY fl, O_APPEND fl OR O_CREAT fl)
      else None)"

definition prim_GenericOS_open :: "open_flags \<Rightarrow> bytes \<Rightarrow> u32 option" where
  "prim_GenericOS_open fl fmode =
     (let str = c_string fmode in
      case (if str = [] then None else open_mode fl (hd str)) of
        None \<Rightarrow> None
      | Some (flags, subflags) \<Rightarrow>
          (let (b, str) = skip_if (CHR ''b'') (tl str);
               subflags = (if b then add_binary fl subflags else subflags);
               (plus, str) = skip_if (CHR ''+'') str;
               flags = (if plus then O_RDWR fl else flags);
               subflags = (if fst (skip_if (CHR ''b'') str) then add_binary fl subflags else subflags)
           in Some (flags OR subflags)))"

record file_stat =
  st_dev :: "64 word"
  st_ino :: "64 word"
  st_mode :: u32
  st_atime :: "64 word"
  st_mtime :: "64 word"
  st_size :: "64 word"

definition set_stat :: "file_stat \<Rightarrow> u32 list \<Rightarrow> u32 list" where
  "set_stat st ret = [ucast (st_dev st), ucast (st_ino st), st_mode st, ucast (st_atime st), ucast (st_mtime st), ucast (st_size st)] @ drop 6 ret"

text \<open>\<open>fstat\<close>, \<open>stat\<close> and \<open>lstat\<close> of the system give a status and, when that is 0, the data.\<close>

definition prim_GenericOS_fstat :: "(int \<Rightarrow> int \<times> file_stat) \<Rightarrow> int \<Rightarrow> u32 list \<Rightarrow> int \<times> u32 list" where
  "prim_GenericOS_fstat fstat fd ret = (case fstat fd of (err, st) \<Rightarrow> (err, if err = 0 then set_stat st ret else ret))"

definition prim_GenericOS_stat :: "(bytes \<Rightarrow> int \<times> file_stat) \<Rightarrow> bytes \<Rightarrow> u32 list \<Rightarrow> int \<times> u32 list" where
  "prim_GenericOS_stat stat filename ret = (case stat (c_string filename) of (err, st) \<Rightarrow> (err, if err = 0 then set_stat st ret else ret))"

definition prim_GenericOS_lstat :: "(bytes \<Rightarrow> int \<times> file_stat) \<Rightarrow> bytes \<Rightarrow> u32 list \<Rightarrow> int \<times> u32 list" where
  "prim_GenericOS_lstat lstat filename ret = (case lstat (c_string filename) of (err, st) \<Rightarrow> (err, if err = 0 then set_stat st ret else ret))"

text \<open>The variant with \<open>utimes\<close>, which gets two pairs of seconds and microseconds.\<close>

definition prim_GenericOS_utime :: "(bytes \<Rightarrow> (u32 \<times> int) list \<Rightarrow> int) \<Rightarrow> bytes \<Rightarrow> u32 \<Rightarrow> u32 \<Rightarrow> int" where
  "prim_GenericOS_utime utimes filename atime mtime = utimes (c_string filename) [(atime, 0), (mtime, 0)]"

text \<open>
  \<open>readlink len\<close> is the call with a buffer of \<open>len\<close> bytes: \<open>None\<close> is an error.  \<open>buf\<close> has 128 bytes; a call that would write
  more is an overflow.  \<open>n\<close> is the number of bytes the last call has given.
\<close>

datatype 'a checked = Overflow | Result 'a

partial_function (option) readlink_loop :: "(nat \<Rightarrow> bytes option) \<Rightarrow> nat \<Rightarrow> bytes option \<Rightarrow> bytes option checked option" where
  "readlink_loop readlink len n =
     (case n of
        None \<Rightarrow> Some (Result None)
      | Some b \<Rightarrow>
          (if length b < len then Some (Result (Some b))
           else if 128 < length (case readlink len of None \<Rightarrow> [] | Some b \<Rightarrow> b) then Some Overflow
           else readlink_loop readlink (2 * len) (readlink len)))"

definition prim_GenericOS_readlink :: "(nat \<Rightarrow> bytes option) \<Rightarrow> bytes option checked option" where
  "prim_GenericOS_readlink readlink =
     (case readlink 128 of
        None \<Rightarrow> Some (Result None)
      | Some b \<Rightarrow> (if length b < 128 then Some (Result (Some b)) else readlink_loop readlink 128 (Some b)))"

text \<open>\<open>getcwd size\<close>: the path, \<open>ERANGE\<close>, or another error.\<close>

datatype getcwd_result = Path bytes | Erange | Other_Error

partial_function (option) getcwd_loop :: "(nat \<Rightarrow> getcwd_result) \<Rightarrow> nat \<Rightarrow> bytes option option" where
  "getcwd_loop getcwd sz =
     (case getcwd sz of
        Path p \<Rightarrow> Some (Some p)
      | Other_Error \<Rightarrow> Some None
      | Erange \<Rightarrow> getcwd_loop getcwd (sz + 256))"

definition prim_GenericOS_getcwd :: "(nat \<Rightarrow> getcwd_result) \<Rightarrow> bytes option option" where
  "prim_GenericOS_getcwd getcwd = getcwd_loop getcwd 256"

section \<open>Polling\<close>

definition SML_POLLIN :: u32 where "SML_POLLIN = 1"
definition SML_POLLOUT :: u32 where "SML_POLLOUT = 2"
definition SML_POLLPRI :: u32 where "SML_POLLPRI = 4"

text \<open>The variant with \<open>select\<close>.  Descriptor sets are sets of descriptors, the least of which is 0; \<open>select\<close> gives its result and
  the three sets it leaves.\<close>

record fd_sets =
  infds :: "nat list"
  outfds :: "nat list"
  prifds :: "nat list"

definition add_fd :: "nat \<times> u32 \<Rightarrow> nat \<times> fd_sets \<Rightarrow> nat \<times> fd_sets" where
  "add_fd = (\<lambda>(fd, ev) (nfds, s).
     let setfd = (if ev AND (SML_POLLIN OR SML_POLLOUT OR SML_POLLPRI) \<noteq> 0 then fd else 0)
     in (if nfds > setfd then nfds else setfd,
         \<lparr>infds = (if ev AND SML_POLLIN \<noteq> 0 then List.insert fd (infds s) else infds s),
          outfds = (if ev AND SML_POLLOUT \<noteq> 0 then List.insert fd (outfds s) else outfds s),
          prifds = (if ev AND SML_POLLPRI \<noteq> 0 then List.insert fd (prifds s) else prifds s)\<rparr>))"

definition events_after :: "fd_sets \<Rightarrow> nat \<Rightarrow> u32" where
  "events_after s fd =
     (if fd \<notin> set (infds s) then SML_POLLIN else 0) OR (if fd \<notin> set (outfds s) then SML_POLLOUT else 0)
     OR (if fd \<notin> set (prifds s) then SML_POLLPRI else 0)"

definition prim_GenericOS_poll :: "(nat \<Rightarrow> fd_sets \<Rightarrow> (int \<times> int) option \<Rightarrow> int \<times> fd_sets) \<Rightarrow> nat list \<Rightarrow> u32 list \<Rightarrow> int \<Rightarrow> int
    \<Rightarrow> int \<times> u32 list" where
  "prim_GenericOS_poll select fdary evary timeout_sec timeout_usec =
     (let (nfds, sets) = fold add_fd (zip fdary evary) (0, \<lparr>infds = [], outfds = [], prifds = []\<rparr>);
          (err, sets) = select (nfds + 1) sets (if timeout_sec < 0 \<or> timeout_usec < 0 then None else Some (timeout_sec, timeout_usec))
      in if err < 0 then (err, evary) else (err, map (events_after sets) fdary))"

section \<open>Large integers and classes of numbers\<close>

text \<open>GMP's numbers are integers; its conversions to \<open>long\<close> and \<open>unsigned long\<close> are arguments.  LP64.\<close>

definition prim_IntInf_toWord :: "(int \<Rightarrow> 64 word) \<Rightarrow> int \<Rightarrow> u32" where
  "prim_IntInf_toWord get_si obj = ucast (get_si obj)"

definition prim_IntInf_toWord64 :: "(int \<Rightarrow> 64 word) \<Rightarrow> int \<Rightarrow> 64 word" where
  "prim_IntInf_toWord64 get_ui obj = (let n = get_ui obj in if sgn obj < 0 then - n else n)"

definition prim_IntInf_fromInt :: "u32 \<Rightarrow> int" where "prim_IntInf_fromInt x = sint (scast x :: 64 word)"
definition prim_IntInf_fromWord :: "u32 \<Rightarrow> int" where "prim_IntInf_fromWord x = uint (ucast x :: 64 word)"
definition prim_IntInf_fromInt64 :: "64 word \<Rightarrow> int" where "prim_IntInf_fromInt64 x = sint x"
definition prim_IntInf_fromWord64 :: "64 word \<Rightarrow> int" where "prim_IntInf_fromWord64 x = uint x"

datatype fp_class = FP_INFINITE | FP_NAN | FP_NORMAL | FP_SUBNORMAL | FP_ZERO | FP_Other

fun class_number :: "fp_class \<Rightarrow> int" where
  "class_number FP_INFINITE = 3"
| "class_number FP_NAN = 2"
| "class_number FP_NORMAL = 6"
| "class_number FP_SUBNORMAL = 5"
| "class_number FP_ZERO = 4"
| "class_number FP_Other = 0"

definition FPCLASS :: "('d \<Rightarrow> fp_class) \<Rightarrow> ('d \<Rightarrow> bool) \<Rightarrow> 'd \<Rightarrow> int" where
  "FPCLASS fpclassify signbit d =
     (if fpclassify d = FP_Other then 0 else if signbit d then - class_number (fpclassify d) else class_number (fpclassify d))"

section \<open>Time\<close>

text \<open>Arrays of \<open>int\<close> get the low 32 bits of each number.\<close>

record timeval =
  tv_sec :: "64 word"
  tv_usec :: "64 word"

definition prim_Time_gettimeofday :: "int \<times> timeval \<Rightarrow> u32 list \<Rightarrow> int \<times> u32 list" where
  "prim_Time_gettimeofday gettimeofday ret =
     (case gettimeofday of (err, tv) \<Rightarrow> (err, ret[0 := ucast (tv_sec tv), 1 := ucast (tv_usec tv)]))"

text \<open>The variant with \<open>getrusage\<close>: system time, user time, and nothing for collections.\<close>

definition prim_Timer_getTimes :: "int \<times> timeval \<times> timeval \<Rightarrow> u32 list \<Rightarrow> int \<times> u32 list" where
  "prim_Timer_getTimes getrusage ret =
     (case getrusage of (err, stime, utime) \<Rightarrow>
        (err, if err = 0 then ret[0 := ucast (tv_sec stime), 1 := ucast (tv_usec stime), 2 := ucast (tv_sec utime),
           3 := ucast (tv_usec utime), 4 := 0, 5 := 0] else ret))"

record tm =
  tm_sec :: u32
  tm_min :: u32
  tm_hour :: u32
  tm_mday :: u32
  tm_mon :: u32
  tm_year :: u32
  tm_wday :: u32
  tm_yday :: u32
  tm_isdst :: u32

definition tm_fields :: "tm \<Rightarrow> u32 list" where
  "tm_fields t = [tm_sec t, tm_min t, tm_hour t, tm_mday t, tm_mon t, tm_year t, tm_wday t, tm_yday t, tm_isdst t]"

text \<open>\<open>mktime\<close> gives a \<open>time_t\<close>, of which the primitive returns the low 32 bits; the others get a signed 32-bit time.\<close>

definition prim_Date_mkTime :: "(tm \<Rightarrow> 64 word) \<Rightarrow> tm \<Rightarrow> u32" where
  "prim_Date_mkTime mktime time = ucast (mktime time)"

definition prim_Date_localTime :: "(64 word \<Rightarrow> tm option) \<Rightarrow> u32 \<Rightarrow> u32 list \<Rightarrow> int \<times> u32 list" where
  "prim_Date_localTime localtime time ret =
     (case localtime (scast time) of None \<Rightarrow> (- 1, ret) | Some t \<Rightarrow> (0, tm_fields t @ drop 9 ret))"

definition prim_Date_gmTime :: "(64 word \<Rightarrow> tm option) \<Rightarrow> u32 \<Rightarrow> u32 list \<Rightarrow> int \<times> u32 list" where
  "prim_Date_gmTime gmtime time ret =
     (case gmtime (scast time) of None \<Rightarrow> (- 1, ret) | Some t \<Rightarrow> (0, tm_fields t @ drop 9 ret))"

definition prim_UnmanagedMemory_import :: "mem \<Rightarrow> nat \<Rightarrow> nat \<Rightarrow> nat \<Rightarrow> mem" where
  "prim_UnmanagedMemory_import m obj ptr len =
     (let m' = sml_obj_alloc m obj OBJTYPE_UNBOXED_VECTOR len in store_list m' obj (map (\<lambda>i. m' (ptr + i)) [0..<len]))"

section \<open>The digits that are written\<close>

fun digits :: "nat \<Rightarrow> nat \<Rightarrow> bytes" where
  "digits r n = (if n = 0 \<or> r < 2 then [] else digits r (n div r) @ [digit (n mod r)])"

declare digits.simps [simp del]

lemma digits_0 [simp]: "digits r 0 = []"
  by (simp add: digits.simps)

lemma digits_step: "0 < n \<Longrightarrow> 2 \<le> r \<Longrightarrow> digits r n = digits r (n div r) @ [digit (n mod r)]"
  by (simp add: digits.simps[of r n])

lemma length_digits: "2 \<le> r \<Longrightarrow> n < 2 ^ k \<Longrightarrow> length (digits r n) \<le> k"
proof (induction k arbitrary: n)
  case (Suc k)
  show ?case
  proof (cases "n = 0")
    case False
    have "n div r \<le> n div 2" using Suc.prems(1) by (simp add: div_le_mono2)
    also have "\<dots> < 2 ^ k" using Suc.prems(2) by auto
    finally show ?thesis using Suc.IH[of "n div r"] Suc.prems(1) False by (simp add: digits_step)
  qed simp
qed simp

lemma fmt_loop_digits:
  assumes "2 \<le> r" "length (digits r n) \<le> i"
  shows "\<exists>buf'. fmt_loop n r (buf, i) = Some (buf', i - length (digits r n))
    \<and> map buf' [i - length (digits r n)..<i] = digits r n \<and> (\<forall>j \<ge> i. buf' j = buf j)"
  using assms
proof (induction n arbitrary: buf i rule: less_induct)
  case (less n)
  show ?case
  proof (cases "n = 0")
    case True
    then show ?thesis using fmt_loop.simps[of 0 r "(buf, i)"] by (auto intro: exI[of _ buf])
  next
    case False
    let ?ds = "digits r (n div r)" and ?b = "buf(i - 1 := digit (n mod r))"
    have ds: "digits r n = ?ds @ [digit (n mod r)]" using False less.prems(1) by (simp add: digits_step)
    have i: "0 < i" "length ?ds \<le> i - 1" using less.prems(2) by (simp_all add: ds)
    have less_n: "n div r < n" using False less.prems(1) by simp
    obtain buf' where I: "fmt_loop (n div r) r (?b, i - 1) = Some (buf', i - 1 - length ?ds)"
      "map buf' [i - 1 - length ?ds..<i - 1] = ?ds" "\<forall>j \<ge> i - 1. buf' j = ?b j"
      using less.IH[OF less_n less.prems(1) i(2), of ?b] by blast
    have "fmt_loop n r (buf, i) = Some (buf', i - length (digits r n))"
      using False less.prems(1) i(1) I(1) by (subst fmt_loop.simps) (simp add: put_def ds)
    moreover have "[i - length (digits r n)..<i] = [i - 1 - length ?ds..<i - 1] @ [i - 1]"
      using i upt_Suc_append[of "i - 1 - length ?ds" "i - 1"] by (simp add: ds)
    then have "map buf' [i - length (digits r n)..<i] = digits r n" using I(2,3) by (simp add: ds)
    moreover have "\<forall>j \<ge> i. buf' j = buf j" using I(3) i(1) by auto
    ultimately show ?thesis by blast
  qed
qed

definition numeral_text :: "nat \<Rightarrow> nat \<Rightarrow> bytes" where
  "numeral_text r n = (if n = 0 then [48] else digits r n)"

lemma fmt_numeral:
  assumes "2 \<le> r" "n < 2 ^ 32" "i = fmt_size"
  shows "\<exists>buf'. fmt n r (buf, i) = Some (buf', i - length (numeral_text r n))
    \<and> map buf' [i - length (numeral_text r n)..<i] = numeral_text r n \<and> length (numeral_text r n) \<le> 32"
  using fmt_loop_digits[OF assms(1), of n i buf] length_digits[OF assms(1,2)] assms(3)
  by (auto simp: fmt_def numeral_text_def put_def fmt_size_def)

text \<open>|value| of a signed number.\<close>

definition magnitude :: "32 word \<Rightarrow> nat" where
  "magnitude v = unat (if v <s 0 then - v else v)"

lemma fmt_int_numeral:
  assumes "2 \<le> r"
  shows "fmt_int junk v r = Some ((if v <s 0 then [126] else []) @ numeral_text r (magnitude v))"
proof -
  let ?n = "magnitude v"
  have n: "unat (if v <s 0 then 0 - v else v) = ?n" by (simp add: magnitude_def)
  have "?n < 2 ^ 32" unfolding magnitude_def by (rule order.strict_trans2[OF unsigned_less]) simp
  then obtain buf where B: "fmt ?n r (junk, fmt_size) = Some (buf, fmt_size - length (numeral_text r ?n))"
    "map buf [fmt_size - length (numeral_text r ?n)..<fmt_size] = numeral_text r ?n" "length (numeral_text r ?n) \<le> 32"
    using fmt_numeral[OF assms _ refl] by blast
  define i where "i = fmt_size - length (numeral_text r ?n)"
  have i: "0 < i" "i \<le> fmt_size" using B(3) by (simp_all add: i_def fmt_size_def)
  have "map (buf(i - 1 := 126)) [i - 1..<fmt_size] = 126 # map buf [i..<fmt_size]"
    using i by (cases i) (auto simp: upt_conv_Cons)
  then show ?thesis
    unfolding fmt_int_def Let_def n B(1) using i(1) B(2) by (simp add: put_def flip: i_def)
qed

section \<open>Reading numbers back\<close>

lemma digit_decimal: "n < 10 \<Longrightarrow> digit n = of_nat (48 + n)"
proof -
  have "list_all (\<lambda>n. digit n = of_nat (48 + n)) [0..<10]" by code_simp
  then show "n < 10 \<Longrightarrow> digit n = of_nat (48 + n)" unfolding list_all_iff by simp
qed

lemma isdigit_decimal: "n < 10 \<Longrightarrow> isdigit (digit n)" "n < 10 \<Longrightarrow> unat (digit n) - 48 = n"
proof -
  have "unat (of_nat (48 + n) :: u8) = 48 + n" if "n < 10" using that by (simp only: unat_of_nat) simp
  then show "n < 10 \<Longrightarrow> isdigit (digit n)" "n < 10 \<Longrightarrow> unat (digit n) - 48 = n"
    by (simp_all add: digit_decimal isdigit_def word_le_nat_alt)
qed

lemma digits_value_append: "list_all isdigit xs \<Longrightarrow> digits_value k (xs @ ys) = digits_value (digits_value k xs) ys"
  by (induction xs arbitrary: k) simp_all

lemma digits_decimal: "list_all isdigit (digits 10 n) \<and> digits_value 0 (digits 10 n) = n \<and> (0 < n \<longrightarrow> digits 10 n \<noteq> [])"
proof (induction n rule: less_induct)
  case (less n)
  show ?case
  proof (cases "n = 0")
    case False
    then have I: "list_all isdigit (digits 10 (n div 10))" "digits_value 0 (digits 10 (n div 10)) = n div 10"
      using less.IH[of "n div 10"] by simp_all
    show ?thesis
      using I False isdigit_decimal[of "n mod 10"] by (simp add: digits_step digits_value_append)
  qed simp
qed

lemma numeral_decimal: "list_all isdigit (numeral_text 10 n)" "digits_value 0 (numeral_text 10 n) = n" "numeral_text 10 n \<noteq> []"
proof -
  have "isdigit 48" "unat (48 :: u8) - 48 = 0" by (simp_all add: isdigit_def)
  then show "list_all isdigit (numeral_text 10 n)" "digits_value 0 (numeral_text 10 n) = n" "numeral_text 10 n \<noteq> []"
    using digits_decimal[of n] by (simp_all add: numeral_text_def)
qed

lemma isdigit_nonzero: "isdigit c \<Longrightarrow> c \<noteq> 0"
  by (auto simp: isdigit_def)

lemma c_string_id: "0 \<notin> set s \<Longrightarrow> c_string s = s"
  by (simp add: c_string_def takeWhile_eq_all_conv) metis

text \<open>The names of the table: different, not empty, no zero bytes, neither digit nor tilde at the start.\<close>

definition good_name :: "bytes \<Rightarrow> bool" where
  "good_name s \<longleftrightarrow> s \<noteq> [] \<and> \<not> isdigit (hd s) \<and> hd s \<noteq> 126 \<and> list_all (\<lambda>c. c \<noteq> 0) s"

lemma error_names: "distinct (map (\<lambda>x. chars (snd x)) sys_error_names)"
  "list_all (\<lambda>x. good_name (chars (snd x))) sys_error_names"
  by code_simp+

lemma sys_errors_iff: "(e, s) \<in> set (sys_errors errs) \<longleftrightarrow> (\<exists>a n. (a, n) \<in> set sys_error_names \<and> errs a = Some e \<and> s = chars n)"
  by (force simp: sys_errors_def split: option.splits)

lemma sys_errors_unique:
  assumes "(e, s) \<in> set (sys_errors errs)" "(e', s) \<in> set (sys_errors errs)"
  shows "e = e'" "good_name s"
proof -
  obtain a n a' n' where A: "(a, n) \<in> set sys_error_names" "errs a = Some e" "s = chars n"
    "(a', n') \<in> set sys_error_names" "errs a' = Some e'" "s = chars n'"
    using assms unfolding sys_errors_iff by blast
  show "good_name s" using error_names(2) A(1,3) by (auto simp: list_all_iff)
  have "(a, n) = (a', n')" using error_names(1) A by (metis distinct_map inj_on_contraD snd_conv)
  then show "e = e'" using A by auto
qed

lemma syserror_name:
  assumes "(e, s) \<in> set (sys_errors errs)"
  shows "prim_GenericOS_syserror errs s = e"
proof -
  have g: "good_name s" by (rule sys_errors_unique(2)[OF assms assms])
  then have c: "c_string s = s" by (intro c_string_id) (auto simp: good_name_def list_all_iff)
  obtain e' s' where f: "find (\<lambda>(_, name). s = name) (sys_errors errs) = Some (e', s')"
    using assms by (cases "find (\<lambda>(_, name). s = name) (sys_errors errs)") (auto simp: find_None_iff)
  then have "(e', s') \<in> set (sys_errors errs)" "s' = s" by (auto simp: find_Some_iff dest: nth_mem)
  then have "e' = e" using sys_errors_unique(1)[OF assms, of e'] by simp
  then show ?thesis using f g by (simp add: prim_GenericOS_syserror_def c good_name_def)
qed

lemma syserror_numeral:
  "prim_GenericOS_syserror errs (numeral_text 10 n) = of_nat n"
proof -
  have c: "c_string (numeral_text 10 n) = numeral_text 10 n"
    using numeral_decimal(1)[of n] isdigit_nonzero by (intro c_string_id) (auto simp: list_all_iff)
  have "isdigit (hd (numeral_text 10 n))" using numeral_decimal(1,3)[of n] by (cases "numeral_text 10 n") simp_all
  then show ?thesis using numeral_decimal(2,3)[of n] by (simp add: prim_GenericOS_syserror_def c atoi_def)
qed

lemma syserror_negative:
  "prim_GenericOS_syserror errs (126 # numeral_text 10 n) = - 1"
proof -
  have c: "c_string (126 # numeral_text 10 n) = 126 # numeral_text 10 n"
    using numeral_decimal(1)[of n] isdigit_nonzero by (intro c_string_id) (auto simp: list_all_iff)
  have "find (\<lambda>(_, name). 126 # numeral_text 10 n = name) (sys_errors errs) = None"
  proof (rule ccontr)
    assume "\<not> ?thesis"
    then obtain e where "(e, 126 # numeral_text 10 n) \<in> set (sys_errors errs)" by (auto simp: find_None_iff)
    then show False using sys_errors_unique(2) by (fastforce simp: good_name_def)
  qed
  then show ?thesis by (simp add: prim_GenericOS_syserror_def c isdigit_def)
qed

section \<open>What the system calls give\<close>

text \<open>Links of 128 bytes or more come back cut off: the loop starts with the buffer size that was tried before and ends after one turn.\<close>

lemma readlink_truncates:
  assumes "\<forall>len. readlink len = Some (take len link)"
  shows "prim_GenericOS_readlink readlink = Some (Result (Some (take 128 link)))"
  using assms by (simp add: prim_GenericOS_readlink_def readlink_loop.simps[of readlink 128] readlink_loop.simps[of readlink 256])

text \<open>The buffer of \<open>getcwd\<close> grows until the path fits.\<close>

lemma getcwd_returns:
  assumes "\<forall>sz. getcwd sz = (if length p < sz then Path p else Erange)"
  shows "prim_GenericOS_getcwd getcwd = Some (Some p)"
proof -
  have "getcwd_loop getcwd sz = Some (Some p)" for sz
  proof (induction "Suc (length p) - sz" arbitrary: sz rule: less_induct)
    case less
    then show ?case using less[of "sz + 256"] assms by (subst getcwd_loop.simps) auto
  qed
  then show ?thesis by (simp add: prim_GenericOS_getcwd_def)
qed

text \<open>Descriptors that are not ready are reported as ready.\<close>

lemma events_after_inverted:
  "events_after s fd AND SML_POLLIN \<noteq> 0 \<longleftrightarrow> fd \<notin> set (infds s)"
  "events_after s fd AND SML_POLLOUT \<noteq> 0 \<longleftrightarrow> fd \<notin> set (outfds s)"
  "events_after s fd AND SML_POLLPRI \<noteq> 0 \<longleftrightarrow> fd \<notin> set (prifds s)"
  by (auto simp: events_after_def SML_POLLIN_def SML_POLLOUT_def SML_POLLPRI_def)

section \<open>Comparing lists of bytes\<close>

definition byte_list :: "mem \<Rightarrow> nat \<Rightarrow> nat \<Rightarrow> int list" where
  "byte_list m a n = map (\<lambda>j. uint (m (a + j))) [0..<n]"

definition compare_bytes :: "int list \<Rightarrow> int list \<Rightarrow> int" where
  "compare_bytes xs ys = (if xs = ys then 0 else if (xs, ys) \<in> lexord {(x, y). x < y} then - 1 else 1)"

lemma byte_list_Suc: "byte_list m a (Suc n) = uint (m a) # byte_list m (a + 1) n"
  by (simp add: byte_list_def upt_conv_Cons map_Suc_upt[symmetric] del: upt_Suc)

lemma memcmp_loop_compare: "sgn (memcmp_loop m a b n) = compare_bytes (byte_list m a n) (byte_list m b n)"
proof (induction n arbitrary: a b)
  case 0
  then show ?case by (simp add: compare_bytes_def byte_list_def)
next
  case (Suc n)
  show ?case
  proof (cases "m a = m b")
    case True
    then show ?thesis using Suc[of "a + 1" "b + 1"] by (simp add: byte_list_Suc compare_bytes_def)
  next
    case False
    then have "uint (m a) \<noteq> uint (m b)" using word_uint_eqI by blast
    then show ?thesis using False by (auto simp: byte_list_Suc compare_bytes_def sgn_if)
  qed
qed

section \<open>Conversions of large integers\<close>

lemma toWord64_mod: "\<forall>x. get_ui x = of_int \<bar>x\<bar> \<Longrightarrow> prim_IntInf_toWord64 get_ui x = of_int x"
  by (simp add: prim_IntInf_toWord64_def Let_def sgn_if)

lemma toWord_mod:
  assumes "\<forall>x. uint (get_si x) mod 2 ^ 63 = x mod 2 ^ 63"
  shows "prim_IntInf_toWord get_si x = of_int x"
proof -
  have d: "(2 :: int) ^ 32 dvd 2 ^ 63" by (simp add: le_imp_power_dvd)
  have "uint (get_si x) mod 2 ^ 32 = uint (get_si x) mod 2 ^ 63 mod 2 ^ 32" by (simp only: mod_mod_cancel[OF d])
  also have "\<dots> = x mod 2 ^ 32" using assms by (simp only: mod_mod_cancel[OF d])
  finally have "take_bit 32 (uint (get_si x)) = take_bit 32 x" by (simp add: take_bit_eq_mod)
  then have "(of_int (uint (get_si x)) :: u32) = of_int x" unfolding word_of_int_eq_iff by simp
  moreover have "(ucast (get_si x) :: u32) = of_int (uint (get_si x))" by simp
  ultimately show ?thesis by (simp only: prim_IntInf_toWord_def)
qed

section \<open>Properties\<close>

text \<open>C40.  Names of system errors round trip. Whatever error numbers the system defines, \<open>errorName\<close> returns a text for every
  number (the name in the table or, within its buffer of 34 bytes, the number in decimal with SML's tilde for the sign), and
  \<open>syserror\<close> maps it back to the number, except that negative numbers without a name come back as -1.\<close>

theorem error_name_roundtrip:
  "\<exists>s. prim_GenericOS_errorName errs junk e = Some s
    \<and> prim_GenericOS_syserror errs s = (if e \<in> fst ` set (sys_errors errs) \<or> 0 \<le>s e then e else - 1)"
proof (cases "map_of (sys_errors errs) e")
  case (Some name)
  then have "(e, name) \<in> set (sys_errors errs)" by (rule map_of_SomeD)
  then show ?thesis using Some syserror_name by (force simp: prim_GenericOS_errorName_def)
next
  case None
  then have e: "e \<notin> fst ` set (sys_errors errs)" by (simp add: map_of_eq_None_iff)
  have "prim_GenericOS_errorName errs junk e = Some ((if e <s 0 then [126] else []) @ numeral_text 10 (magnitude e))"
    using None fmt_int_numeral[of 10 junk e] by (simp add: prim_GenericOS_errorName_def)
  moreover have "of_nat (magnitude e) = e" if "\<not> e <s 0" using that by (simp add: magnitude_def)
  ultimately show ?thesis
    using e syserror_numeral[of errs "magnitude e"] syserror_negative[of errs "magnitude e"]
    by (auto simp: word_sle_eq word_sless_alt)
qed

text \<open>Comparing memory is lexicographic comparison of bytes.  The result of \<open>sml_memcmp\<close> is 0, negative or positive as the
  bytes of the first range are equal to, smaller or greater than those of the second as unsigned numbers; also when the ranges are the same or overlap.\<close>

theorem sml_memcmp_lexicographic:
  "sgn (sml_memcmp m s1 i1 s2 i2 len) = compare_bytes (byte_list m (s1 + i1) (nat len)) (byte_list m (s2 + i2) (nat len))"
  using memcmp_loop_compare[of m "s1 + i1" "s2 + i2" "nat len"] by (simp add: sml_memcmp_def compare_bytes_def Let_def)

text \<open>Large integers and machine words. If GMP's conversions keep the low bits as documented (\<open>mpz_get_ui\<close> those of the
  absolute value, \<open>mpz_get_si\<close> the low 63 of the number), conversion to 32 and 64 bits is reduction modulo the size,
  negative numbers included, and converting a word, signed or unsigned, to an integer and back gives the word.\<close>

theorem intinf_words:
  assumes "\<forall>x. get_ui x = of_int \<bar>x\<bar>" "\<forall>x. uint (get_si x) mod 2 ^ 63 = x mod 2 ^ 63"
  shows "prim_IntInf_toWord64 get_ui x = of_int x \<and> prim_IntInf_toWord get_si x = of_int x
    \<and> prim_IntInf_toWord get_si (prim_IntInf_fromWord v) = v \<and> prim_IntInf_toWord get_si (prim_IntInf_fromInt v) = v
    \<and> prim_IntInf_toWord64 get_ui (prim_IntInf_fromWord64 w) = w \<and> prim_IntInf_toWord64 get_ui (prim_IntInf_fromInt64 w) = w"
  using toWord64_mod[OF assms(1)] toWord_mod[OF assms(2)]
  by (simp add: prim_IntInf_fromWord_def prim_IntInf_fromInt_def prim_IntInf_fromWord64_def prim_IntInf_fromInt64_def
      sint_up_scast is_up uint_up_ucast)

lemma intinf_words_witness:
  "prim_IntInf_toWord64 (\<lambda>x. of_int \<bar>x\<bar>) (- 5) = - 5 \<and> prim_IntInf_toWord (\<lambda>x. of_int (x mod 2 ^ 63)) (- 5) = - 5"
  using intinf_words[of "\<lambda>x. of_int \<bar>x\<bar>" "\<lambda>x. of_int (x mod 2 ^ 63)" "- 5"]
  by (simp add: uint_word_of_int)

end
