(* ===== verification/Startup.thy ===== *)
theory Startup
  imports Workers Prim
begin

unbundle bit_operations_syntax

text \<open>
  Start-up and signals (init.c, signal.c): the heap size from the environment, the order in which the parts of the
  runtime are set up and taken down, and the signals that are pending until an SML handler asks for them.
\<close>

section \<open>The heap size\<close>

text \<open>\<open>strtol\<close> of the C library, base 10: the number, saturated to \<open>long\<close>, and the rest of the string.\<close>

definition isspace :: "u8 \<Rightarrow> bool" where "isspace c \<longleftrightarrow> c = 32 \<or> 9 \<le> c \<and> c \<le> 13"

definition saturate :: "int \<Rightarrow> int" where
  "saturate n = (if n < - (2 ^ 63) then - (2 ^ 63) else if n > 2 ^ 63 - 1 then 2 ^ 63 - 1 else n)"

definition strtol :: "bytes \<Rightarrow> int \<times> bytes" where
  "strtol src =
     (let s = dropWhile isspace src;
          neg = (s \<noteq> [] \<and> hd s = 45);
          s = (if s \<noteq> [] \<and> (hd s = 43 \<or> hd s = 45) then tl s else s);
          n = int (digits_value 0 s)
      in if s = [] \<or> \<not> isdigit (hd s) then (0, src)
         else (saturate (if neg then - n else n), dropWhile isdigit s))"

text \<open>
  The fraction is a \<open>double\<close>: \<open>strtod\<close> gives it with the rest of the string, and \<open>scale r n f\<close> is the C expression
  \<open>r * n + r * f\<close> converted to \<open>size_t\<close>.
\<close>

record 'f floating =
  strtod :: "bytes \<Rightarrow> 'f \<times> bytes"
  zero_f :: 'f
  scale :: "64 word \<Rightarrow> int \<Rightarrow> 'f \<Rightarrow> 64 word"

definition size_unit :: "bytes \<Rightarrow> 64 word \<times> bytes" where
  "size_unit p =
     (if p \<noteq> [] \<and> hd p = of_nat (of_char (CHR ''G'')) then (1024 * 1024 * 1024, tl p)
      else if p \<noteq> [] \<and> hd p = of_nat (of_char (CHR ''M'')) then (1024 * 1024, tl p)
      else if p \<noteq> [] \<and> hd p = of_nat (of_char (CHR ''k'')) then (1024, tl p)
      else (1, p))"

definition parse_size :: "'f floating \<Rightarrow> bytes \<Rightarrow> 64 word \<times> bytes" where
  "parse_size fl src =
     (let (n, p) = strtol src;
          p = (if n < 0 then src else p);
          (f, p) = (if p \<noteq> [] \<and> hd p = of_nat (of_char (CHR ''.'')) then strtod fl p else (zero_f fl, p));
          (r, p) = size_unit p
      in (scale fl r n f, p))"

text \<open>A pointer is the rest of the string it points to; two pointers are equal when the rests are equally long.\<close>

definition parse_heapsize :: "'f floating \<Rightarrow> bytes \<Rightarrow> 64 word \<times> 64 word \<Rightarrow> 64 word \<times> 64 word" where
  "parse_heapsize fl src ret =
     (let (mn, p) = parse_size fl src;
          mn = (if length p = length src then fst ret else mn);
          (mx, p) = (if p \<noteq> [] \<and> hd p = of_nat (of_char (CHR '':'')) then parse_size fl (tl p) else (mn, p));
          mx = (if mx < mn then mn else mx)
      in if p = [] \<and> length p < length src then (mn, mx) else ret)"

definition DEFAULT_HEAPSIZE_MIN :: "64 word" where "DEFAULT_HEAPSIZE_MIN = 1 * 1024 * 1024"
definition DEFAULT_HEAPSIZE_MAX :: "64 word" where "DEFAULT_HEAPSIZE_MAX = 2 * 1024 * 1024 * 1024"

definition heapsize :: "'f floating \<Rightarrow> bytes option \<Rightarrow> 64 word \<times> 64 word" where
  "heapsize fl env =
     (let (mn, mx) = (case env of
            None \<Rightarrow> (DEFAULT_HEAPSIZE_MIN, DEFAULT_HEAPSIZE_MAX)
          | Some s \<Rightarrow> parse_heapsize fl s (DEFAULT_HEAPSIZE_MIN, DEFAULT_HEAPSIZE_MAX))
      in (mn, if mx < mn then mn else mx))"

section \<open>Setting up and taking down\<close>

definition has_MYTH_env :: "bytes list \<Rightarrow> bool" where
  "has_MYTH_env environ = list_ex (\<lambda>p. take 5 p = chars ''MYTH_'') environ"

datatype startup_call =
    Myth_Init bool | Msg_Init | Control_Init | Heap_Init "64 word" "64 word" | Callback_Init | Finalize_Init
  | Finalize_Destroy | Callback_Destroy | Heap_Destroy

text \<open>\<open>Myth_Init b\<close>: with the number of workers from the environment, or with a single worker.\<close>

definition sml_init :: "'f floating \<Rightarrow> bytes option \<Rightarrow> bytes list \<Rightarrow> startup_call list" where
  "sml_init fl env environ =
     (case heapsize fl env of (mn, mx) \<Rightarrow>
        [Myth_Init (has_MYTH_env environ), Msg_Init, Control_Init, Heap_Init mn mx, Callback_Init, Finalize_Init])"

definition sml_finish :: "startup_call list" where
  "sml_finish = [Finalize_Destroy, Callback_Destroy, Heap_Destroy]"

section \<open>Signals\<close>

record signal_state =
  sg_signals :: u32
  sg_hook :: nat

text \<open>\<open>sml_signal_check\<close> loads the pending signals and, if there are any, swaps them with 0; \<open>between\<close> is what
  the handlers do that run after the load and before the swap (or before the return, without a swap).\<close>

definition sml_signal_check :: "(signal_state \<Rightarrow> signal_state) \<Rightarrow> signal_state \<Rightarrow> u32 \<times> signal_state" where
  "sml_signal_check between sg =
     (let r = sg_signals sg;
          sg = between sg
      in if r \<noteq> 0 then (sg_signals sg, sg\<lparr>sg_signals := 0\<rparr>) else (r, sg))"

text \<open>The handler runs in a thread that has a worker context: \<open>sml_set_check_hook\<close> follows its pointer.\<close>

definition signal_handler :: "world \<Rightarrow> thread \<Rightarrow> nat \<Rightarrow> signal_state \<times> control \<Rightarrow> signal_state \<times> control run" where
  "signal_handler wd t signum = (\<lambda>(sg, c).
     if signum < 32 \<and> sg_hook sg \<noteq> 0
     then (sg\<lparr>sg_signals := sg_signals sg OR push_bit signum 1\<rparr>,
           case sml_gc wd False t (snd (sml_set_check_hook (sg_hook sg) t c)) of
             Inl e \<Rightarrow> Inl e
           | Inr (_, c) \<Rightarrow> Inr c)
     else (sg, Inr c))"

text \<open>\<open>sigaction s act\<close>: the result of the call and whether the action before was the default.  \<open>None\<close> restores the old action.\<close>

definition do_sigaction :: "(nat \<Rightarrow> bool \<Rightarrow> int \<times> bool) \<Rightarrow> nat \<Rightarrow> int" where
  "do_sigaction sigaction signum =
     (case sigaction signum True of (r, dfl) \<Rightarrow>
        if r = 0 \<and> \<not> dfl then fst (sigaction signum False) else r)"

fun sigactions :: "(nat \<Rightarrow> bool \<Rightarrow> int \<times> bool) \<Rightarrow> nat list \<Rightarrow> int" where
  "sigactions sigaction [] = 0"
| "sigactions sigaction (s # ss) = (let r = do_sigaction sigaction s in if r \<noteq> 0 then r else sigactions sigaction ss)"

text \<open>\<open>sigs\<close> are the numbers of SIGINT, SIGHUP, SIGPIPE and SIGTERM, \<open>r0\<close> the result of \<open>sigemptyset\<close>.\<close>

definition sml_signal_sigaction :: "(nat \<Rightarrow> bool \<Rightarrow> int \<times> bool) \<Rightarrow> int \<Rightarrow> nat list \<Rightarrow> nat \<Rightarrow> signal_state \<Rightarrow> int \<times> signal_state" where
  "sml_signal_sigaction sigaction r0 sigs hook sg =
     ((if r0 \<noteq> 0 then r0 else sigactions sigaction sigs), sg\<lparr>sg_hook := hook\<rparr>)"

section \<open>Properties\<close>

lemma parse_heapsize_order: "fst ret \<le> snd ret \<Longrightarrow> fst (parse_heapsize fl src ret) \<le> snd (parse_heapsize fl src ret)"
  by (auto simp: parse_heapsize_def Let_def split: prod.splits)

text \<open>The heap size is a range whatever the environment says, and a text that is not a size leaves the default.\<close>

lemma heapsize_order: "fst (heapsize fl env) \<le> snd (heapsize fl env)"
  by (auto simp: heapsize_def Let_def split: prod.splits)

lemma parse_heapsize_rejects:
  "snd (parse_size fl src) = src \<Longrightarrow> src \<noteq> [] \<Longrightarrow> hd src \<noteq> of_nat (of_char (CHR '':'')) \<Longrightarrow> parse_heapsize fl src ret = ret"
  by (auto simp: parse_heapsize_def Let_def split: prod.splits)

text \<open>Delivering signals, then asking.\<close>

fun deliver :: "world \<Rightarrow> thread \<Rightarrow> nat list \<Rightarrow> signal_state \<times> control run \<Rightarrow> signal_state \<times> control run" where
  "deliver wd t [] s = s"
| "deliver wd t (signum # ss) (sg, c) =
     deliver wd t ss (case c of Inl e \<Rightarrow> (sg, Inl e) | Inr c \<Rightarrow> signal_handler wd t signum (sg, c))"

text \<open>What a handled signal asks of the control component: the hook is set, and a collection has begun, so that the
  threads come to \<open>sml_check_internal\<close>, unless one is running.\<close>

definition check_requested :: "nat \<Rightarrow> thread \<Rightarrow> control \<Rightarrow> control" where
  "check_requested hook t c =
     (let c = upd_worker (t_worker t) (\<lambda>x. x\<lparr>w_check_hook := hook\<rparr>) c
      in if c_gc_count c AND 1 \<noteq> 0 then c else advance ASYNC PRESYNC1 SYNC1 (c\<lparr>c_gc_count := c_gc_count c OR 1\<rparr>))"

abbreviation hooks_of :: "control \<Rightarrow> nat \<Rightarrow> nat" where "hooks_of c \<equiv> \<lambda>w. w_check_hook (c_worker c w)"

lemma change_one_hooks: "change_one first a b w c = (k, g, c') \<Longrightarrow> hooks_of c' = hooks_of c \<and> c_gc_count c' = c_gc_count c"
  by (auto simp: change_one_def Let_def unlink_def heap_call_def set_flags_def set_state_def split: if_splits)

lemma change_workers_hooks:
  "change_workers first ws a b c = (ks, n, c') \<Longrightarrow> hooks_of c' = hooks_of c \<and> c_gc_count c' = c_gc_count c"
proof (induction ws arbitrary: first c ks n c')
  case (Cons w ws)
  obtain k g c1 where e: "change_one first a b w c = (k, g, c1)" by (cases "change_one first a b w c")
  obtain ks1 n1 c2 where r: "change_workers (first \<and> \<not> k) ws a b c1 = (ks1, n1, c2)"
    by (cases "change_workers (first \<and> \<not> k) ws a b c1")
  have "c' = c2" using Cons.prems by (simp add: e r)
  then show ?case using Cons.IH[OF r] change_one_hooks[OF e] by simp
qed simp

lemma advance_hooks: "hooks_of (advance p q n c) = hooks_of c" "c_gc_count (advance p q n c) = c_gc_count c"
proof -
  let ?ws = "fst (global_phase (phase_word n) c)" and ?c = "snd (global_phase (phase_word n) c)"
  obtain ks m c' where e: "change_workers True ?ws (phase_word p) (phase_word q) ?c = (ks, m, c')"
    by (metis prod_cases3)
  have "advance p q n c = fetch_add_flag (of_nat m) (c'\<lparr>c_handshake := ks, c_stamp := phase_word q\<rparr>)"
    using e by (simp add: advance_def change_phase_def split_beta)
  then show "hooks_of (advance p q n c) = hooks_of c" "c_gc_count (advance p q n c) = c_gc_count c"
    using change_workers_hooks[OF e] by (simp_all add: fetch_add_flag_def global_phase_def Let_def)
qed

lemma check_requested_again:
  "hooks_of (check_requested hook t c) (t_worker t) = hook" "c_gc_count (check_requested hook t c) AND 1 \<noteq> 0"
  "check_requested hook t (check_requested hook t c) = check_requested hook t c"
proof -
  let ?c = "check_requested hook t c"
  have odd: "(g OR 1) AND 1 \<noteq> 0" for g :: "64 word"
  proof -
    have "(g OR 1) AND 1 = 1" by (rule bit_eqI) (auto simp: bit_simps)
    then show ?thesis by simp
  qed
  show h: "hooks_of ?c (t_worker t) = hook" "c_gc_count ?c AND 1 \<noteq> 0"
    using odd fun_cong[OF advance_hooks(1), of ASYNC PRESYNC1 SYNC1 _ "t_worker t"]
    by (auto simp: check_requested_def Let_def advance_hooks(2))
  have "upd_worker (t_worker t) (\<lambda>x. x\<lparr>w_check_hook := hook\<rparr>) ?c = ?c"
  proof -
    have "(c_worker ?c (t_worker t))\<lparr>w_check_hook := hook\<rparr> = c_worker ?c (t_worker t)"
      using h(1) by (cases "c_worker ?c (t_worker t)") simp
    then show ?thesis by (simp add: fun_upd_idem)
  qed
  then show "check_requested hook t ?c = ?c" using h(2) by (simp add: check_requested_def Let_def)
qed

lemma handler_hook:
  assumes "sg_hook sg \<noteq> 0"
  shows "signal_handler wd t n (sg, c) = (if n < 32
    then (sg\<lparr>sg_signals := sg_signals sg OR push_bit n 1\<rparr>, Inr (check_requested (sg_hook sg) t c)) else (sg, Inr c))"
  using assms by (simp add: signal_handler_def sml_gc_def sml_set_check_hook_def check_requested_def Let_def)

text \<open>\<open>handled ss\<close>: a signal of the sequence has a bit in \<open>signals\<close>.\<close>

definition handled :: "nat list \<Rightarrow> bool" where "handled ss \<longleftrightarrow> (\<exists>n \<in> set ss. n < 32)"

lemma deliver_bits:
  assumes "sg_hook sg \<noteq> 0"
  shows "\<exists>sg'. deliver wd t ss (sg, Inr c) = (sg', Inr (if handled ss then check_requested (sg_hook sg) t c else c))
    \<and> sg_hook sg' = sg_hook sg \<and> (\<forall>k < 32. bit (sg_signals sg') k \<longleftrightarrow> bit (sg_signals sg) k \<or> k \<in> set ss)"
  using assms
proof (induction ss arbitrary: sg c)
  case Nil
  then show ?case by (simp add: handled_def)
next
  case (Cons n ss)
  show ?case
  proof (cases "n < 32")
    case True
    let ?sg = "sg\<lparr>sg_signals := sg_signals sg OR push_bit n 1\<rparr>" and ?c = "check_requested (sg_hook sg) t c"
    have b: "bit (sg_signals ?sg) k \<longleftrightarrow> bit (sg_signals sg) k \<or> k = n" if "k < 32" for k
      using that True by (auto simp: bit_or_iff bit_push_bit_iff bit_1_iff bit_exp_iff)
    obtain sg' where "deliver wd t ss (?sg, Inr ?c) = (sg', Inr ?c)" "sg_hook sg' = sg_hook ?sg"
      "\<forall>k < 32. bit (sg_signals sg') k \<longleftrightarrow> bit (sg_signals ?sg) k \<or> k \<in> set ss"
      using Cons.IH[of ?sg ?c] Cons.prems by (auto simp: check_requested_again(3))
    then show ?thesis using handler_hook[OF Cons.prems, of wd t n c] True b by (auto simp: handled_def)
  next
    case False
    then show ?thesis using handler_hook[OF Cons.prems, of wd t n c] Cons.IH[OF Cons.prems, of c] by (auto simp: handled_def)
  qed
qed

text \<open>C27.  No signal is lost.  The hook is installed and nothing is pending; then the signals \<open>ss\<close> are delivered to a thread
  with a worker context, and the signals \<open>ss2\<close> while \<open>sml_signal_check\<close> runs.  Numbers from 32 on are ignored.  If \<open>ss\<close> has a
  smaller one, the hook is set in the worker of the thread and a collection is running, begun by the first handler if none
  was before, so that the thread comes to the check; otherwise the control state has not changed.  The check then reports exactly the
  signals of both sequences, each once however often it came, and leaves none; if \<open>ss\<close> had none to report, it reports none, and those of \<open>ss2\<close>
  stay for the check that their own handlers have asked for.\<close>

theorem signals_reported:
  assumes "sg_hook sg \<noteq> 0" "sg_signals sg = 0"
  shows "\<exists>sg' c'. deliver wd t ss (sg, Inr c) = (sg', Inr c')
    \<and> c' = (if handled ss then check_requested (sg_hook sg) t c else c)
    \<and> (handled ss \<longrightarrow> w_check_hook (c_worker c' (t_worker t)) = sg_hook sg \<and> c_gc_count c' AND 1 \<noteq> 0)
    \<and> (case sml_signal_check (\<lambda>sg. fst (deliver wd t ss2 (sg, Inr c'))) sg' of (reported, sg2) \<Rightarrow>
         (\<forall>k. bit reported k \<longleftrightarrow> handled ss \<and> k < 32 \<and> k \<in> set (ss @ ss2))
         \<and> (\<forall>k. bit (sg_signals sg2) k \<longleftrightarrow> \<not> handled ss \<and> k < 32 \<and> k \<in> set ss2))"
proof -
  let ?c = "if handled ss then check_requested (sg_hook sg) t c else c"
  obtain sg' where d: "deliver wd t ss (sg, Inr c) = (sg', Inr ?c)" "sg_hook sg' = sg_hook sg"
    "\<forall>k < 32. bit (sg_signals sg') k \<longleftrightarrow> k \<in> set ss"
    using deliver_bits[OF assms(1), of wd t ss c] assms(2) by auto
  have "sg_hook sg' \<noteq> 0" using d(2) assms(1) by simp
  then obtain sg2 c2 where e: "deliver wd t ss2 (sg', Inr ?c) = (sg2, Inr c2)"
    "\<forall>k < 32. bit (sg_signals sg2) k \<longleftrightarrow> k \<in> set ss \<or> k \<in> set ss2"
    using deliver_bits[of sg' wd t ss2 ?c] d(3) by auto
  have small: "bit x k \<Longrightarrow> k < 32" for x :: u32 and k using bit_imp_le_length[of x k] by simp
  have zero: "sg_signals sg' \<noteq> 0 \<longleftrightarrow> handled ss"
  proof
    assume "sg_signals sg' \<noteq> 0"
    then obtain k where "bit (sg_signals sg') k" using bit_eqI[of "sg_signals sg'" 0] by auto
    then show "handled ss" using d(3) small by (auto simp: handled_def)
  next
    assume "handled ss"
    then obtain k where "bit (sg_signals sg') k" using d(3) by (auto simp: handled_def)
    then show "sg_signals sg' \<noteq> 0" by auto
  qed
  have rest: "k \<in> set ss \<Longrightarrow> k < 32 \<Longrightarrow> handled ss" for k by (auto simp: handled_def)
  show ?thesis
  proof (intro exI conjI)
    show "deliver wd t ss (sg, Inr c) = (sg', Inr ?c)" by (rule d(1))
    show "handled ss \<longrightarrow> w_check_hook (c_worker ?c (t_worker t)) = sg_hook sg \<and> c_gc_count ?c AND 1 \<noteq> 0"
      using check_requested_again(1,2) by simp
    show "case sml_signal_check (\<lambda>sg. fst (deliver wd t ss2 (sg, Inr ?c))) sg' of (reported, sg2) \<Rightarrow>
         (\<forall>k. bit reported k \<longleftrightarrow> handled ss \<and> k < 32 \<and> k \<in> set (ss @ ss2))
         \<and> (\<forall>k. bit (sg_signals sg2) k \<longleftrightarrow> \<not> handled ss \<and> k < 32 \<and> k \<in> set ss2)"
      using e zero small rest by (auto simp: sml_signal_check_def Let_def)
  qed simp
qed

lemma signals_reported_witness:
  "\<exists>sg c. deliver plain_world plain_thread [2, 64, 15, 2] (\<lparr>sg_signals = 0, sg_hook = 1\<rparr>, Inr plain_control) = (sg, Inr c)
    \<and> w_check_hook (c_worker c 8) = 1 \<and> c_gc_count c AND 1 \<noteq> 0
    \<and> bit (fst (sml_signal_check (\<lambda>sg. fst (deliver plain_world plain_thread [1] (sg, Inr c))) sg)) 15
    \<and> bit (fst (sml_signal_check (\<lambda>sg. fst (deliver plain_world plain_thread [1] (sg, Inr c))) sg)) 1"
proof -
  have h: "handled [2, 64, 15, 2]" by (simp add: handled_def)
  show ?thesis
    using signals_reported[of "\<lparr>sg_signals = 0, sg_hook = 1\<rparr>" plain_world plain_thread "[2, 64, 15, 2]" plain_control "[1]"] h
    by (auto simp: split_beta plain_thread_def)
qed

end
