(* ===== verification/Distribution.thy ===== *)
theory Distribution
  imports Reclaim Trace
begin

text \<open>
  The bookkeeping of heap_concurrent.c in floating point: how many segments each subheap may be extended by
  after a collection and at which number of free segments it asks for the next; and the entry points of the heap that
  put it together (\<open>sml_heap_init\<close>, \<open>init_allocator\<close>, \<open>sml_heap_worker_async\<close>, \<open>sml_heap_global_async\<close>).

  The arithmetic of \<open>double\<close> is an argument: \<open>d_lit n m\<close> is the literal for n/m, the conversions are those of C from and to
  unsigned and signed integers.  Nothing below depends on what it computes.
\<close>

record 'd doubles =
  d_lit :: "nat \<Rightarrow> nat \<Rightarrow> 'd"
  d_of :: "nat \<Rightarrow> 'd"
  d_add :: "'d \<Rightarrow> 'd \<Rightarrow> 'd"
  d_sub :: "'d \<Rightarrow> 'd \<Rightarrow> 'd"
  d_mul :: "'d \<Rightarrow> 'd \<Rightarrow> 'd"
  d_div :: "'d \<Rightarrow> 'd \<Rightarrow> 'd"
  d_less :: "'d \<Rightarrow> 'd \<Rightarrow> bool"
  d_ceil :: "'d \<Rightarrow> 'd"
  d_uint :: "'d \<Rightarrow> nat"
  d_int :: "'d \<Rightarrow> int"

text \<open>\<open>struct subheap_count\<close> with its ratios, and \<open>struct heap_count\<close>.\<close>

record 'd ratio_count =
  rc_threshold :: int
  rc_extension_room :: nat
  rc_threshold_ratio :: 'd
  rc_allocspeed_ratio :: 'd

record 'd heap_count =
  hc_alloc_accum :: 'd
  hc_gc_accum :: 'd
  hc_num_distrib :: 'd

definition plain_count :: "'d ratio_count \<Rightarrow> subheap_count" where
  "plain_count c = \<lparr>threshold = rc_threshold c, extension_room = rc_extension_room c\<rparr>"

section \<open>Initial counts\<close>

definition blocks_of :: "nat \<Rightarrow> nat" where "blocks_of i = num_blocks (compute_segment_layout i)"

definition subheap_count_init :: "'d doubles \<Rightarrow> nat \<Rightarrow> nat \<Rightarrow> 'd ratio_count" where
  "subheap_count_init ops min_segs i =
     (let num_blocks_total = fold (\<lambda>i n. n + blocks_of i) [0..<NUM_SUBHEAPS] 0;
          ratio = d_div ops (d_of ops (blocks_of i)) (d_of ops num_blocks_total);
          room = d_uint ops (d_mul ops (d_of ops min_segs) ratio);
          room = (if room \<le> 0 then 1 else room)
      in \<lparr>rc_threshold = int ((room + 1) mod 2 ^ 32 div 2), rc_extension_room = room,
          rc_threshold_ratio = d_lit ops 5 10, rc_allocspeed_ratio = ratio\<rparr>)"

definition heap_count_init :: "'d doubles \<Rightarrow> nat \<Rightarrow> 'd heap_count" where
  "heap_count_init ops min_segs =
     \<lparr>hc_alloc_accum = d_lit ops 0 1, hc_gc_accum = d_lit ops 0 1,
      hc_num_distrib = fold (\<lambda>i d. d_add ops d (d_of ops
          (rc_extension_room (subheap_count_init ops min_segs i) * blocks_of i mod 2 ^ 32)))
        [0..<NUM_SUBHEAPS] (d_lit ops 0 1)\<rparr>"

section \<open>Distribution after a collection\<close>

text \<open>\<open>stat->num_blocks\<close> of subheap \<open>i\<close> and the blocks in use.\<close>

definition stat_num_blocks :: "(nat \<Rightarrow> stat_reclaim) \<Rightarrow> nat \<Rightarrow> nat" where
  "stat_num_blocks stat i = (rs_num_filled (stat i) + rs_num_partial (stat i)) * blocks_of i"

definition num_alloc_total :: "(nat \<Rightarrow> stat_reclaim) \<Rightarrow> nat" where
  "num_alloc_total stat = fold (\<lambda>i n. n + rs_num_blocks_alloced (stat i)) [0..<NUM_SUBHEAPS] 0"

definition num_live_total :: "(nat \<Rightarrow> stat_reclaim) \<Rightarrow> nat" where
  "num_live_total stat = fold (\<lambda>i n. n + (stat_num_blocks stat i - rs_num_blocks_free (stat i))) [0..<NUM_SUBHEAPS] 0"

definition accumulate :: "'d doubles \<Rightarrow> (nat \<Rightarrow> stat_reclaim) \<Rightarrow> 'd heap_count \<Rightarrow> 'd heap_count" where
  "accumulate ops stat hc =
     (let alloc_accum = d_add ops (hc_alloc_accum hc) (d_of ops (num_alloc_total stat));
          gc_accum = d_add ops (hc_gc_accum hc) (d_of ops (num_live_total stat));
          alloc_gc_sum = d_add ops alloc_accum gc_accum;
          gc_ratio = d_div ops gc_accum alloc_gc_sum;
          num_distrib = d_mul ops (d_div ops (d_sub ops gc_ratio (d_lit ops 2 10)) (d_lit ops 2 10)) alloc_gc_sum;
          num_distrib = (if d_less ops (hc_num_distrib hc) num_distrib then num_distrib else hc_num_distrib hc)
      in \<lparr>hc_alloc_accum = alloc_accum, hc_gc_accum = gc_accum,
          hc_num_distrib = d_add ops (hc_num_distrib hc) (d_mul ops (d_lit ops 1 10) (d_sub ops num_distrib (hc_num_distrib hc)))\<rparr>)"

definition distribute_one :: "'d doubles \<Rightarrow> 'd \<Rightarrow> (nat \<Rightarrow> stat_reclaim) \<Rightarrow> nat \<Rightarrow> 'd ratio_count \<Rightarrow> 'd ratio_count" where
  "distribute_one ops num_distrib stat i cnt =
     (let allocspeed = d_div ops (d_of ops (rs_num_blocks_alloced (stat i))) (d_of ops (num_alloc_total stat));
          allocspeed_ratio = d_add ops (rc_allocspeed_ratio cnt)
            (d_mul ops (d_lit ops 2 10) (d_sub ops allocspeed (rc_allocspeed_ratio cnt)));
          want_block = d_uint ops (d_mul ops num_distrib allocspeed_ratio);
          shortage_block = d_of ops (if want_block > rs_num_blocks_free (stat i) then want_block - rs_num_blocks_free (stat i) else 0);
          shortage_segment = d_uint ops (d_ceil ops (d_div ops shortage_block (d_of ops (blocks_of i))));
          extension_room = (if shortage_segment \<le> 0 then 1 else shortage_segment);
          room = (if rs_num_blocks_room (stat i) > 0 then d_lit ops 1 1 else d_lit ops 2 10);
          threshold_ratio = d_add ops (rc_threshold_ratio cnt) (d_mul ops (d_lit ops 2 10) (d_sub ops room (rc_threshold_ratio cnt)));
          num_room = (rs_num_partial (stat i) + extension_room) mod 2 ^ 32;
          threshold = d_int ops (d_ceil ops (d_mul ops (d_of ops num_room) threshold_ratio));
          threshold = (if threshold \<le> 0 then threshold + 1 else threshold)
      in \<lparr>rc_threshold = threshold, rc_extension_room = extension_room,
          rc_threshold_ratio = threshold_ratio, rc_allocspeed_ratio = allocspeed_ratio\<rparr>)"

text \<open>The computation as the policy of \<open>reclaim_heap\<close>.\<close>

definition distribution :: "'d doubles \<Rightarrow> 'd heap_count \<Rightarrow> (nat \<Rightarrow> 'd ratio_count) \<Rightarrow> reclaim_policy" where
  "distribution ops hc counts stat i =
     (let c = distribute_one ops (hc_num_distrib (accumulate ops stat hc)) stat i (counts i)
      in (rc_extension_room c, rc_threshold c))"

section \<open>Entry points\<close>

record 'd allocator =
  al_heap :: heap
  al_ratios :: "nat \<Rightarrow> 'd ratio_count"
  al_count :: "'d heap_count"
  al_stacks :: mark_stacks

text \<open>\<open>init_allocator\<close>; \<open>min_num\<close> is the number of segments of the pool from which the initial counts were computed.\<close>

definition init_allocator :: "'d doubles \<Rightarrow> nat \<Rightarrow> 'd allocator" where
  "init_allocator ops min_num =
     \<lparr>al_heap = init_heap (\<lambda>i. plain_count (subheap_count_init ops min_num i)), al_ratios = subheap_count_init ops min_num,
      al_count = heap_count_init ops min_num, al_stacks = \<lparr>root_set = 0, remembered_set = 0\<rparr>\<rparr>"

definition sml_heap_worker_async :: "'d doubles \<Rightarrow> 'd allocator \<Rightarrow> segment_pool \<Rightarrow> segments \<Rightarrow> malloc_mem \<Rightarrow>
    'd allocator \<times> segment_pool \<times> segments \<times> malloc_mem" where
  "sml_heap_worker_async ops al pool segs mem =
     (let stat = (case reclaim_subheaps [0..<NUM_SUBHEAPS] ((al_heap al)\<lparr>hp_freelist := []\<rparr>) segs (\<lambda>_. stat_reclaim0) of (_, _, stat) \<Rightarrow> stat);
          hc = accumulate ops stat (al_count al)
      in case reclaim_heap (distribution ops (al_count al) (al_ratios al)) (al_heap al) pool segs mem of
           (heap, pool, segs, mem) \<Rightarrow>
             (al\<lparr>al_heap := heap, al_count := hc,
                 al_ratios := (\<lambda>i. if i < NUM_SUBHEAPS then distribute_one ops (hc_num_distrib hc) stat i (al_ratios al i) else al_ratios al i),
                 al_stacks := (al_stacks al)\<lparr>remembered_set := 0\<rparr>\<rparr>, pool, segs, mem))"

definition sml_heap_global_async :: "segment_pool \<Rightarrow> segments \<Rightarrow> malloc_mem \<Rightarrow> segment_pool \<times> segments \<times> malloc_mem" where
  "sml_heap_global_async pool segs mem = reclaim_segment_pool pool segs mem"

text \<open>\<open>sml_heap_init\<close>: the pool, and the initial counts of every heap; with the memory that is released again.\<close>

definition sml_heap_init :: "'d doubles \<Rightarrow> nat \<Rightarrow> (nat \<Rightarrow> nat option) \<Rightarrow> nat \<Rightarrow> nat \<Rightarrow>
    init_error + segment_pool \<times> (nat \<Rightarrow> 'd ratio_count) \<times> (nat \<times> nat) list" where
  "sml_heap_init ops pagesize alloc_page min_size max_size =
     (case init_memory pagesize alloc_page max_size of
        Inl e \<Rightarrow> Inl e
      | Inr (mem, released) \<Rightarrow>
          (let pool = init_segment_pool mem min_size
           in Inr (pool, subheap_count_init ops (min_num_segments pool), released)))"

section \<open>Statistics\<close>

record stat_subheap_t =
  ss_num_filled :: nat
  ss_num_current :: nat
  ss_num_partial :: nat
  ss_total :: stat_segment_t

definition stat_of :: "segments \<Rightarrow> nat \<Rightarrow> nat \<Rightarrow> stat_segment_t" where
  "stat_of segs s p = stat_segment (seg_the_layout (segs s)) (seg_words (segs s)) p"

definition stat_subheap :: "segments \<Rightarrow> subheap \<Rightarrow> alloc_ptr option \<Rightarrow> stat_subheap_t" where
  "stat_subheap segs sh ptr =
     (let zero = \<lparr>ss_num_filled = 0, ss_num_current = 0, ss_num_partial = 0,
            ss_total = \<lparr>num_marked = 0, num_unmarked = 0, num_marked_before_allocptr = 0, num_unmarked_before_allocptr = 0\<rparr>\<rparr>;
          st = fold (\<lambda>s st. st\<lparr>ss_num_filled := ss_num_filled st + 1,
                 ss_total := stat_segment_add (ss_total st) (stat_of segs s (BLOCK_LIMIT (seg_the_layout (segs s))))\<rparr>) (sh_filled sh) zero;
          st = (case ptr of None \<Rightarrow> st | Some ptr \<Rightarrow> (case ap_p ptr of None \<Rightarrow> st
                 | Some p \<Rightarrow> st\<lparr>ss_num_current := ss_num_current st + 1,
                     ss_total := stat_segment_add (ss_total st) (stat_of segs (the (ap_seg ptr)) p)\<rparr>))
      in fold (\<lambda>s st. st\<lparr>ss_num_partial := ss_num_partial st + 1,
             ss_total := stat_segment_add (ss_total st) (stat_of segs s (BLOCK_BASE (seg_the_layout (segs s))))\<rparr>) (sh_partial sh) st)"

section \<open>What holds for any arithmetic\<close>

text \<open>After a collection every subheap may take at least one more segment, and waits for at least one free one.\<close>

lemma distribute_room: "1 \<le> rc_extension_room (distribute_one ops d stat i c)"
  unfolding distribute_one_def Let_def by simp

lemma distribute_threshold:
  assumes "\<forall>x. 0 \<le> d_int ops x"
  shows "1 \<le> rc_threshold (distribute_one ops d stat i c)"
proof -
  have "1 \<le> (if d_int ops x \<le> 0 then d_int ops x + 1 else d_int ops x)" for x using assms[rule_format, of x] by simp
  then show ?thesis unfolding distribute_one_def Let_def ratio_count.simps by blast
qed

lemma initial_room_positive: "1 \<le> rc_extension_room (subheap_count_init ops n i)"
  by (simp add: subheap_count_init_def Let_def)

text \<open>The counts the allocator reads are those that were computed.\<close>

lemma worker_async_counts:
  assumes "\<forall>x. 0 \<le> d_int ops x" "sml_heap_worker_async ops al pool segs mem = (al', pool', segs', mem')" "i < NUM_SUBHEAPS"
  shows "hp_count (al_heap al') i = plain_count (al_ratios al' i)
    \<and> 1 \<le> extension_room (hp_count (al_heap al') i) \<and> 1 \<le> threshold (hp_count (al_heap al') i)"
proof -
  obtain heap1 segs1 stat where R: "reclaim_subheaps [0..<NUM_SUBHEAPS] ((al_heap al)\<lparr>hp_freelist := []\<rparr>) segs (\<lambda>_. stat_reclaim0) = (heap1, segs1, stat)"
    by (metis prod_cases3)
  obtain mem1 kept where M: "reclaim_malloc_segments mem (malloc_subheap heap1) = (mem1, kept)" by fastforce
  let ?hc = "accumulate ops stat (al_count al)"
  let ?c = "distribute_one ops (hc_num_distrib ?hc) stat i (al_ratios al i)"
  have c: "1 \<le> rc_extension_room ?c" "1 \<le> rc_threshold ?c" by (rule distribute_room, rule distribute_threshold[OF assms(1)])
  have "hp_count (al_heap al') i = new_count (rc_extension_room ?c, rc_threshold ?c)" "al_ratios al' i = ?c"
    using assms(2,3) by (auto simp: sml_heap_worker_async_def reclaim_heap_def Let_def R M distribution_def)
  then show ?thesis using c by (simp add: new_count_def plain_count_def)
qed

end
