(* ===== verification/Diagnostics.thy ===== *)
theory Diagnostics
  imports Prim
begin

text \<open>
  Diagnostics of the runtime: messages (error.c), the timers of the collector (timer.h) and the ring buffer for
  debugging (dbglog.c).
\<close>

section \<open>Messages\<close>

datatype sml_msg_level = MSG_FATAL | MSG_ERROR | MSG_WARN | MSG_NOTICE | MSG_DEBUG

fun level_num :: "sml_msg_level \<Rightarrow> u32" where
  "level_num MSG_FATAL = 0"
| "level_num MSG_ERROR = 1"
| "level_num MSG_WARN = 2"
| "level_num MSG_NOTICE = 3"
| "level_num MSG_DEBUG = 4"

text \<open>
  \<open>text\<close> is the format with its arguments filled in, \<open>strerror\<close> the function of the C library.  A negative error
  number is printed in decimal; \<open>print_decimal\<close> stands for \<open>%d\<close>.
\<close>

record messages =
  verbose_level :: u32
  strerror :: "int \<Rightarrow> bytes"
  print_decimal :: "int \<Rightarrow> bytes"

definition print_syserror :: "messages \<Rightarrow> sml_msg_level \<Rightarrow> int \<Rightarrow> bytes \<Rightarrow> bytes" where
  "print_syserror ms level err msg =
     (if verbose_level ms < level_num level then []
      else msg @ (if err > 0 then strerror ms err @ [10]
                  else if err = 0 then chars '': Success'' @ [10]
                  else chars '': Failed ('' @ print_decimal ms err @ chars '')'' @ [10]))"

definition print_error :: "messages \<Rightarrow> sml_msg_level \<Rightarrow> int \<Rightarrow> bytes \<Rightarrow> bytes" where
  "print_error ms level err msg =
     (if verbose_level ms < level_num level then []
      else if err \<noteq> 0 then print_syserror ms level err msg
      else msg @ [10])"

text \<open>The text that is written, and whether the program is aborted.\<close>

definition sml_fatal :: "messages \<Rightarrow> int \<Rightarrow> bytes \<Rightarrow> bytes \<times> bool" where
  "sml_fatal ms err msg = (print_error ms MSG_FATAL err msg, True)"

definition sml_error :: "messages \<Rightarrow> int \<Rightarrow> bytes \<Rightarrow> bytes \<times> bool" where
  "sml_error ms err msg = (print_error ms MSG_ERROR err msg, False)"

definition sml_warn :: "messages \<Rightarrow> int \<Rightarrow> bytes \<Rightarrow> bytes \<times> bool" where
  "sml_warn ms err msg = (print_error ms MSG_WARN err msg, False)"

definition sml_notice :: "messages \<Rightarrow> bytes \<Rightarrow> bytes \<times> bool" where
  "sml_notice ms msg = (print_error ms MSG_NOTICE 0 msg, False)"

definition sml_sysfatal :: "messages \<Rightarrow> int \<Rightarrow> bytes \<Rightarrow> bytes \<times> bool" where
  "sml_sysfatal ms errno msg = (print_syserror ms MSG_FATAL errno msg, True)"

definition sml_syserror :: "messages \<Rightarrow> int \<Rightarrow> bytes \<Rightarrow> bytes \<times> bool" where
  "sml_syserror ms errno msg = (print_syserror ms MSG_ERROR errno msg, False)"

definition sml_syswarn :: "messages \<Rightarrow> int \<Rightarrow> bytes \<Rightarrow> bytes \<times> bool" where
  "sml_syswarn ms errno msg = (print_syserror ms MSG_WARN errno msg, False)"

definition sml_debug :: "messages \<Rightarrow> bytes \<Rightarrow> bytes \<times> bool" where
  "sml_debug ms msg = (if verbose_level ms < level_num MSG_DEBUG then [] else msg, False)"

text \<open>\<open>verbose\<close> is the number that \<open>strtol\<close> gives for the environment variable; the log file is left out.\<close>

definition sml_msg_init :: "int option \<Rightarrow> messages \<Rightarrow> messages" where
  "sml_msg_init verbose ms = (case verbose of None \<Rightarrow> ms | Some n \<Rightarrow> ms\<lparr>verbose_level := of_int n\<rparr>)"

text \<open>The program is aborted by exactly the fatal messages, which are written at every level of verbosity.\<close>

lemma fatal_messages:
  "snd (sml_fatal ms err msg)" "snd (sml_sysfatal ms err msg)"
  "err = 0 \<Longrightarrow> fst (sml_fatal ms err msg) = msg @ [10]"
  "err > 0 \<Longrightarrow> fst (sml_fatal ms err msg) = msg @ strerror ms err @ [10]"
  by (simp_all add: sml_fatal_def sml_sysfatal_def print_error_def print_syserror_def)

section \<open>Timers\<close>

text \<open>The variant with \<open>clock_gettime\<close>: a time is in seconds and nanoseconds.\<close>

record sml_time =
  t_sec :: int
  t_nsec :: int

definition sml_timer_dif :: "sml_time \<Rightarrow> sml_time \<Rightarrow> sml_time" where
  "sml_timer_dif timer1 timer2 =
     (let sec = t_sec timer2 - t_sec timer1; nsec = t_nsec timer2 - t_nsec timer1
      in if nsec < 0 then \<lparr>t_sec = sec - 1, t_nsec = nsec + 1000000000\<rparr> else \<lparr>t_sec = sec, t_nsec = nsec\<rparr>)"

definition sml_timer_accum :: "sml_time \<Rightarrow> sml_time \<Rightarrow> sml_time \<Rightarrow> sml_time" where
  "sml_timer_accum timer1 timer2 time =
     (let sec = t_sec time + (t_sec timer2 - t_sec timer1); nsec = t_nsec time + (t_nsec timer2 - t_nsec timer1)
      in if nsec < 0 then \<lparr>t_sec = sec - 1, t_nsec = nsec + 1000000000\<rparr>
         else if nsec > 1000000000 then \<lparr>t_sec = sec + 1, t_nsec = nsec - 1000000000\<rparr>
         else \<lparr>t_sec = sec, t_nsec = nsec\<rparr>)"

definition sml_time_accum :: "sml_time \<Rightarrow> sml_time \<Rightarrow> sml_time" where
  "sml_time_accum time1 time =
     (let sec = t_sec time + t_sec time1; nsec = t_nsec time + t_nsec time1
      in if nsec > 1000000000 then \<lparr>t_sec = sec + 1, t_nsec = nsec - 1000000000\<rparr> else \<lparr>t_sec = sec, t_nsec = nsec\<rparr>)"

definition nanoseconds :: "sml_time \<Rightarrow> int" where "nanoseconds t = t_sec t * 1000000000 + t_nsec t"

text \<open>Clocks have less than a second of nanoseconds; an accumulated time may have a whole one.\<close>

definition clock :: "sml_time \<Rightarrow> bool" where "clock t \<longleftrightarrow> 0 \<le> t_nsec t \<and> t_nsec t < 1000000000"
definition time_ok :: "sml_time \<Rightarrow> bool" where "time_ok t \<longleftrightarrow> 0 \<le> t_nsec t \<and> t_nsec t \<le> 1000000000"

lemma timer_dif: "clock s \<Longrightarrow> clock t \<Longrightarrow> clock (sml_timer_dif s t) \<and> nanoseconds (sml_timer_dif s t) = nanoseconds t - nanoseconds s"
  by (simp add: sml_timer_dif_def clock_def nanoseconds_def Let_def)

lemma timer_accum:
  "clock s \<Longrightarrow> clock t \<Longrightarrow> time_ok a \<Longrightarrow>
    time_ok (sml_timer_accum s t a) \<and> nanoseconds (sml_timer_accum s t a) = nanoseconds a + (nanoseconds t - nanoseconds s)"
  by (simp add: sml_timer_accum_def clock_def time_ok_def nanoseconds_def Let_def)

lemma time_accum:
  "time_ok s \<Longrightarrow> time_ok a \<Longrightarrow> time_ok (sml_time_accum s a) \<and> nanoseconds (sml_time_accum s a) = nanoseconds a + nanoseconds s"
  by (simp add: sml_time_accum_def time_ok_def nanoseconds_def Let_def)

text \<open>The bound is reached: two halves of a second make 0 seconds and a whole second of nanoseconds.\<close>

lemma time_accum_carry:
  "sml_time_accum \<lparr>t_sec = 0, t_nsec = 500000000\<rparr> \<lparr>t_sec = 0, t_nsec = 500000000\<rparr> = \<lparr>t_sec = 0, t_nsec = 1000000000\<rparr>"
  by (simp add: sml_time_accum_def)

section \<open>The debug log\<close>

text \<open>
  \<open>lg_buf\<close> is the buffer with the room behind its end for the arguments of the last entry, \<open>lg_idx\<close> the number of words
  that have been allocated.  The byte at the address of a format is the size of its entry: the number of arguments
  and one for the format.  \<open>m\<close> is the memory with the formats.
\<close>

definition DBG__BUFSIZE :: nat where "DBG__BUFSIZE = 8 * 1024 * 1024"
definition DBG__MAXARGS :: nat where "DBG__MAXARGS = 8"

record dbg_log =
  lg_idx :: nat
  lg_buf :: "nat \<Rightarrow> nat"

definition DBG__alloc :: "mem \<Rightarrow> nat \<Rightarrow> dbg_log \<Rightarrow> nat \<times> dbg_log" where
  "DBG__alloc m format l =
     (let size = unat (m format); start = lg_idx l
      in (start mod DBG__BUFSIZE,
          l\<lparr>lg_idx := start + size, lg_buf := (lg_buf l)((start + size - 1) mod DBG__BUFSIZE := format)\<rparr>))"

text \<open>The macro: the arguments are stored from the allocated place on.\<close>

definition DBG :: "mem \<Rightarrow> nat \<times> nat list \<Rightarrow> dbg_log \<Rightarrow> dbg_log" where
  "DBG m = (\<lambda>(format, args) l. case DBG__alloc m format l of
     (p, l) \<Rightarrow> l\<lparr>lg_buf := fold (\<lambda>i b. b(p + i := args ! i)) [0..<length args] (lg_buf l)\<rparr>)"

record log_entry =
  le_size :: nat
  le_fmt :: nat
  le_args :: nat

definition DBG__getlog :: "mem \<Rightarrow> dbg_log \<Rightarrow> nat \<Rightarrow> log_entry" where
  "DBG__getlog m l index =
     (let format = lg_buf l (index mod DBG__BUFSIZE)
      in \<lparr>le_size = unat (m format), le_fmt = format + 1, le_args = (index + 1 - unat (m format)) mod DBG__BUFSIZE\<rparr>)"

text \<open>The indices of the entries, the newest first, and the end of the search; \<open>None\<close> is a search that does not end.\<close>

partial_function (option) DBG__indexarray :: "mem \<Rightarrow> dbg_log \<Rightarrow> nat \<Rightarrow> nat \<Rightarrow> (nat list \<times> nat) option" where
  "DBG__indexarray m l hi limit =
     (if limit < hi
      then let size = le_size (DBG__getlog m l (hi - 1))
           in if hi - limit < size then Some ([], hi)
              else Option.bind (DBG__indexarray m l (hi - size) limit) (\<lambda>(ps, bottom). Some ((hi - 1) # ps, bottom))
      else Some ([], hi))"

datatype dump_line = Words_Lost nat | No_Log | Log nat "nat list" | Malformed

definition DBG__printlog :: "dbg_log \<Rightarrow> log_entry \<Rightarrow> dump_line" where
  "DBG__printlog l e =
     (if 1 \<le> le_size e \<and> le_size e \<le> 8 then Log (le_fmt e) (map (\<lambda>i. lg_buf l (le_args e + i)) [0..<le_size e - 1])
      else Malformed)"

definition DBG__dump :: "mem \<Rightarrow> dbg_log \<Rightarrow> dump_line list option" where
  "DBG__dump m l =
     (let hi = lg_idx l; limit = (if hi < DBG__BUFSIZE then 0 else hi - DBG__BUFSIZE) in
      case DBG__indexarray m l hi limit of
        None \<Rightarrow> None
      | Some (ps, limit) \<Rightarrow>
          Some ((if hi > DBG__BUFSIZE then [Words_Lost limit] else []) @ (if ps = [] then [No_Log] else [])
            @ map (\<lambda>p. DBG__printlog l (DBG__getlog m l p)) (rev ps)))"

section \<open>What the log keeps\<close>

text \<open>A call of the macro with the number of arguments that its format announces.\<close>

definition call_ok :: "mem \<Rightarrow> nat \<times> nat list \<Rightarrow> bool" where
  "call_ok m c \<longleftrightarrow> unat (m (fst c)) = length (snd c) + 1 \<and> length (snd c) < DBG__MAXARGS"

definition call_size :: "nat \<times> nat list \<Rightarrow> nat" where "call_size c = length (snd c) + 1"

text \<open>The newest calls, from the newest on, that fit into \<open>room\<close> words.\<close>

fun last_calls :: "nat \<Rightarrow> (nat \<times> nat list) list \<Rightarrow> (nat \<times> nat list) list" where
  "last_calls room [] = []"
| "last_calls room (c # cs) = (if call_size c \<le> room then c # last_calls (room - call_size c) cs else [])"

text \<open>The entries of \<open>cs\<close>, the newest first, end at \<open>hi\<close>; what is not before \<open>limit\<close> is there.\<close>

fun log_holds :: "(nat \<Rightarrow> nat) \<Rightarrow> nat \<Rightarrow> nat \<Rightarrow> (nat \<times> nat list) list \<Rightarrow> bool" where
  "log_holds b hi limit [] \<longleftrightarrow> hi = 0"
| "log_holds b hi limit (c # cs) \<longleftrightarrow> call_size c \<le> hi \<and> log_holds b (hi - call_size c) limit cs
     \<and> (limit < hi \<longrightarrow> b ((hi - 1) mod DBG__BUFSIZE) = fst c)
     \<and> (limit \<le> hi - call_size c \<longrightarrow> (\<forall>i < length (snd c). b ((hi - call_size c) mod DBG__BUFSIZE + i) = snd c ! i))"

lemma log_holds_change:
  assumes "log_holds b hi limit cs" "limit \<le> limit'"
    and "\<And>k p. limit' \<le> k \<Longrightarrow> k < hi \<Longrightarrow> p mod DBG__BUFSIZE = k mod DBG__BUFSIZE \<Longrightarrow> b' p = b p"
  shows "log_holds b' hi limit' cs"
  using assms
proof (induction cs arbitrary: hi)
  case Nil
  then show ?case by simp
next
  case (Cons c cs)
  let ?s = "hi - call_size c"
  have s: "?s < hi" "call_size c \<le> hi" using Cons.prems(1) by (simp_all add: call_size_def)
  have "log_holds b' ?s limit' cs"
  proof (rule Cons.IH)
    show "log_holds b ?s limit cs" "limit \<le> limit'" using Cons.prems(1,2) by simp_all
    show "b' p = b p" if "limit' \<le> k" "k < ?s" "p mod DBG__BUFSIZE = k mod DBG__BUFSIZE" for k p
      using Cons.prems(3)[OF that(1) _ that(3)] that(2) s(1) by simp
  qed
  moreover have "b' ((hi - 1) mod DBG__BUFSIZE) = b ((hi - 1) mod DBG__BUFSIZE)" if "limit' < hi"
    using Cons.prems(3)[of "hi - 1"] that s by simp
  moreover have "b' (?s mod DBG__BUFSIZE + i) = b (?s mod DBG__BUFSIZE + i)" if "limit' \<le> ?s" "i < length (snd c)" for i
    using Cons.prems(3)[of "?s + i"] that s(2) by (simp add: call_size_def mod_add_left_eq)
  ultimately show ?case using Cons.prems(1,2) s by auto
qed

lemma store_args: "fold (\<lambda>i b. b(p + i := xs ! i)) [0..<n] b q = (if p \<le> q \<and> q < p + n then xs ! (q - p) else b q)"
proof (induction n)
  case (Suc n)
  show ?case
  proof (cases "q = p + n")
    case False
    then have "p \<le> q \<and> q < p + Suc n \<longleftrightarrow> p \<le> q \<and> q < p + n" by linarith
    then show ?thesis using Suc False by simp
  qed simp
qed auto

lemma mod_apart: "k < k' \<Longrightarrow> k' < k + B \<Longrightarrow> k mod B \<noteq> (k' :: nat) mod B"
  by (metis add_diff_cancel_left' less_diff_conv2 less_imp_le mod_eq_dvd_iff_nat nat_dvd_not_less zero_less_diff add.commute)

lemma DBG_holds:
  assumes "call_ok m c" "log_holds (lg_buf l) (lg_idx l) (lg_idx l - DBG__BUFSIZE) cs"
  shows "lg_idx (DBG m c l) = lg_idx l + call_size c"
    "log_holds (lg_buf (DBG m c l)) (lg_idx (DBG m c l)) (lg_idx (DBG m c l) - DBG__BUFSIZE) (c # cs)"
proof -
  let ?B = DBG__BUFSIZE and ?start = "lg_idx l" and ?n = "length (snd c)"
  let ?last = "?start + ?n"
  have n: "unat (m (fst c)) = ?n + 1" "?n < ?B" "0 < ?B"
    using assms(1) by (auto simp: call_ok_def DBG__MAXARGS_def DBG__BUFSIZE_def)
  have b: "lg_buf (DBG m c l) q = (if ?start mod ?B \<le> q \<and> q < ?start mod ?B + ?n then snd c ! (q - ?start mod ?B)
      else if q = ?last mod ?B then fst c else lg_buf l q)" for q
    using n(1) by (cases c) (simp add: DBG_def DBG__alloc_def Let_def store_args)
  show idx: "lg_idx (DBG m c l) = lg_idx l + call_size c"
    using n(1) by (cases c) (simp add: DBG_def DBG__alloc_def Let_def call_size_def)
  have apart: "p mod ?B \<noteq> k' mod ?B" if "p mod ?B = k mod ?B" "k < k'" "k' < k + ?B" for p k k'
    using mod_apart[OF that(2,3)] that(1) by simp
  have arg: "(?start mod ?B + i) mod ?B = (?start + i) mod ?B" for i by (simp add: mod_add_left_eq)
  have "log_holds (lg_buf (DBG m c l)) ?start (?start + call_size c - ?B) cs"
  proof (rule log_holds_change[OF assms(2)])
    show "?start - ?B \<le> ?start + call_size c - ?B" by simp
    fix k p
    assume k: "?start + call_size c - ?B \<le> k" "k < ?start" "p mod ?B = k mod ?B"
    have "p \<noteq> ?start mod ?B + i" if "i < ?n" for i
    proof -
      have "?start + i < k + ?B" using k(1) that by (simp add: call_size_def)
      then show ?thesis using apart[OF k(3), of "?start + i"] arg[of i] k(2) by auto
    qed
    moreover have "p \<noteq> ?last mod ?B"
    proof -
      have "?last < k + ?B" using k(1) by (simp add: call_size_def)
      then show ?thesis using apart[OF k(3), of ?last] k(2) by auto
    qed
    ultimately show "lg_buf (DBG m c l) p = lg_buf l p" unfolding b by (metis le_add_diff_inverse less_diff_conv2 add.commute)
  qed
  moreover have "lg_buf (DBG m c l) (?last mod ?B) = fst c"
  proof -
    have "?last mod ?B \<noteq> ?start mod ?B + i" if "i < ?n" for i
    proof -
      have "(?start mod ?B + i) mod ?B \<noteq> ?last mod ?B"
        using apart[of "?start mod ?B + i" "?start + i" ?last] arg[of i] that n(2) by simp
      then show ?thesis by (metis mod_mod_trivial)
    qed
    then show ?thesis unfolding b by (metis le_add_diff_inverse less_diff_conv2 add.commute)
  qed
  moreover have "lg_buf (DBG m c l) (?start mod ?B + i) = snd c ! i" if "i < ?n" for i using that by (simp add: b)
  ultimately show "log_holds (lg_buf (DBG m c l)) (lg_idx (DBG m c l)) (lg_idx (DBG m c l) - ?B) (c # cs)"
    by (simp add: idx call_size_def)
qed

lemma index_array:
  assumes "log_holds (lg_buf l) hi limit cs" "\<forall>c \<in> set cs. call_ok m c" "limit \<le> hi"
  shows "\<exists>ps. DBG__indexarray m l hi limit = Some (ps, hi - sum_list (map call_size (last_calls (hi - limit) cs)))
    \<and> map (\<lambda>p. DBG__printlog l (DBG__getlog m l p)) ps = map (\<lambda>c. Log (fst c + 1) (snd c)) (last_calls (hi - limit) cs)"
  using assms
proof (induction cs arbitrary: hi)
  case Nil
  then show ?case by (subst DBG__indexarray.simps) simp
next
  case (Cons c cs)
  show ?case
  proof (cases "limit < hi")
    case False
    then have "last_calls (hi - limit) (c # cs) = []" by (simp add: call_size_def)
    then show ?thesis using False by (subst DBG__indexarray.simps) simp
  next
    case True
    have c: "unat (m (fst c)) = call_size c" "0 < call_size c" "call_size c \<le> 8"
      using Cons.prems(2) by (auto simp: call_ok_def call_size_def DBG__MAXARGS_def)
    have f: "lg_buf l ((hi - 1) mod DBG__BUFSIZE) = fst c" "call_size c \<le> hi" using Cons.prems(1) True by simp_all
    have g: "DBG__getlog m l (hi - 1) = \<lparr>le_size = call_size c, le_fmt = fst c + 1, le_args = (hi - call_size c) mod DBG__BUFSIZE\<rparr>"
      using f c(1) True by (simp add: DBG__getlog_def)
    show ?thesis
    proof (cases "call_size c \<le> hi - limit")
      case False
      then show ?thesis using True g by (subst DBG__indexarray.simps) simp
    next
      case fits: True
      have args: "\<forall>i < length (snd c). lg_buf l ((hi - call_size c) mod DBG__BUFSIZE + i) = snd c ! i"
        using Cons.prems(1) fits True by auto
      have p: "DBG__printlog l (DBG__getlog m l (hi - 1)) = Log (fst c + 1) (snd c)"
      proof -
        have "map (\<lambda>i. lg_buf l ((hi - call_size c) mod DBG__BUFSIZE + i)) [0..<call_size c - 1] = snd c"
          using args by (intro nth_equalityI) (simp_all add: call_size_def)
        then show ?thesis using c(2,3) unfolding g DBG__printlog_def by simp
      qed
      have e: "hi - call_size c - limit = hi - limit - call_size c" by simp
      have "log_holds (lg_buf l) (hi - call_size c) limit cs" "\<forall>c \<in> set cs. call_ok m c" "limit \<le> hi - call_size c"
        using Cons.prems fits True by auto
      note I = Cons.IH[OF this, unfolded e]
      obtain ps where "DBG__indexarray m l (hi - call_size c) limit
          = Some (ps, hi - call_size c - sum_list (map call_size (last_calls (hi - limit - call_size c) cs)))"
        and ps: "map (\<lambda>p. DBG__printlog l (DBG__getlog m l p)) ps = map (\<lambda>c. Log (fst c + 1) (snd c)) (last_calls (hi - limit - call_size c) cs)"
        using I by (elim exE conjE) (rule that)
      then have "DBG__indexarray m l hi limit
          = Some ((hi - 1) # ps, hi - sum_list (map call_size (last_calls (hi - limit) (c # cs))))"
        using True g fits by (subst DBG__indexarray.simps) (simp add: Let_def)
      then show ?thesis using p fits ps by (intro exI[of _ "(hi - 1) # ps"]) simp
    qed
  qed
qed

definition empty_log :: dbg_log where "empty_log = \<lparr>lg_idx = 0, lg_buf = (\<lambda>_. 0)\<rparr>"

lemma DBG_calls:
  assumes "\<forall>c \<in> set calls. call_ok m c"
  shows "lg_idx (fold (DBG m) calls empty_log) = sum_list (map call_size calls)
    \<and> log_holds (lg_buf (fold (DBG m) calls empty_log)) (lg_idx (fold (DBG m) calls empty_log))
        (lg_idx (fold (DBG m) calls empty_log) - DBG__BUFSIZE) (rev calls)"
  using assms
proof (induction calls rule: rev_induct)
  case Nil
  then show ?case by (simp add: empty_log_def)
next
  case (snoc c cs)
  then have I: "lg_idx (fold (DBG m) cs empty_log) = sum_list (map call_size cs)
    \<and> log_holds (lg_buf (fold (DBG m) cs empty_log)) (lg_idx (fold (DBG m) cs empty_log))
        (lg_idx (fold (DBG m) cs empty_log) - DBG__BUFSIZE) (rev cs)" by auto
  have "call_ok m c" using snoc(2) by simp
  note D = DBG_holds[OF this conjunct2[OF I]]
  have "rev (cs @ [c]) = c # rev cs" "fold (DBG m) (cs @ [c]) empty_log = DBG m c (fold (DBG m) cs empty_log)" by simp_all
  then show ?case using D conjunct1[OF I] by (simp del: log_holds.simps)
qed

text \<open>The debug log keeps the end of the log. After any sequence of calls, each with at most seven arguments, the dump ends and prints,
  in the order of the calls, exactly the longest sequence of last calls that fits into the buffer, with all arguments; the words
  reported lost are those of the calls before.\<close>

theorem dump_prints_last:
  assumes "\<forall>c \<in> set calls. call_ok m c"
  defines "kept \<equiv> last_calls DBG__BUFSIZE (rev calls)" and "words \<equiv> sum_list (map call_size calls)"
  shows "DBG__dump m (fold (DBG m) calls empty_log) =
    Some ((if words > DBG__BUFSIZE then [Words_Lost (words - sum_list (map call_size kept))] else [])
      @ (if calls = [] then [No_Log] else []) @ map (\<lambda>c. Log (fst c + 1) (snd c)) (rev kept))"
proof -
  let ?l = "fold (DBG m) calls empty_log"
  note C = DBG_calls[OF assms(1)]
  obtain ps where A: "DBG__indexarray m ?l words (words - DBG__BUFSIZE)
      = Some (ps, words - sum_list (map call_size (last_calls (words - (words - DBG__BUFSIZE)) (rev calls))))"
    "map (\<lambda>p. DBG__printlog ?l (DBG__getlog m ?l p)) ps = map (\<lambda>c. Log (fst c + 1) (snd c)) (last_calls (words - (words - DBG__BUFSIZE)) (rev calls))"
    using index_array[of ?l words "words - DBG__BUFSIZE" "rev calls" m] C assms(1) by (auto simp: words_def)
  have fit: "last_calls room cs = last_calls room' cs" if "sum_list (map call_size cs) \<le> room" "sum_list (map call_size cs) \<le> room'" for room room' cs
    using that by (induction cs arbitrary: room room') auto
  have "sum_list (map call_size (rev calls)) = words" unfolding words_def rev_map[symmetric] by (rule sum_list_rev)
  then have k: "last_calls (words - (words - DBG__BUFSIZE)) (rev calls) = kept"
    using fit[of "rev calls" words DBG__BUFSIZE] by (cases "words \<le> DBG__BUFSIZE") (simp_all add: kept_def)
  have "call_size c \<le> DBG__BUFSIZE" if "c \<in> set calls" for c
    using assms(1) that by (auto simp: call_ok_def call_size_def DBG__MAXARGS_def DBG__BUFSIZE_def)
  then have ne: "ps = [] \<longleftrightarrow> calls = []"
    using arg_cong[OF A(2), of length] k by (cases calls rule: rev_cases) (auto simp: kept_def)
  have hi: "lg_idx ?l = words" and lim: "(if words < DBG__BUFSIZE then 0 else words - DBG__BUFSIZE) = words - DBG__BUFSIZE"
    using C by (simp_all add: words_def)
  have "map (\<lambda>p. DBG__printlog ?l (DBG__getlog m ?l p)) (rev ps) = map (\<lambda>c. Log (fst c + 1) (snd c)) (rev kept)"
    using A(2) unfolding k by (simp flip: rev_map)
  then show ?thesis unfolding DBG__dump_def Let_def hi lim A(1) k using ne by simp
qed

lemma dump_prints_last_witness:
  "DBG__dump ((\<lambda>_. 0)(4 := 2, 9 := 1)) (fold (DBG ((\<lambda>_. 0)(4 := 2, 9 := 1))) [(4, [7]), (9, [])] empty_log)
     = Some [Log 5 [7], Log 10 []]"
  using dump_prints_last[of "[(4, [7]), (9, [])]" "(\<lambda>_. 0)(4 := 2, 9 := 1)"]
  by (simp add: call_ok_def call_size_def DBG__MAXARGS_def DBG__BUFSIZE_def)

end
